(* ===== verification/Prelude.thy ===== *)
theory Prelude
  imports Main
begin

text \<open>
  The vocabulary shared by every theory of the development: what the Rust
  sources use of their standard library (string slices, iterator adaptors,
  \<^verbatim>\<open>Option\<close> combinators, decimal formatting), the SQL reading of a
  table whose primary key is a node, and the interfaces (locales) that several
  components implement.

  A \<^verbatim>\<open>&str\<close> is a \<open>string\<close> (its bytes), a \<^verbatim>\<open>Uuid\<close> is the number its 128 bits
  spell (so that comparing ids is comparing the stored blobs), and a time is an
  \<open>int\<close> of milliseconds since the epoch. \<^verbatim>\<open>i64\<close> times are far from their
  bounds; where a product can leave the 64 bits (durations), the width is
  written out in the theory that models it.
\<close>

section \<open>Base types\<close>

type_synonym uuid = nat
type_synonym ms = int

text \<open>An operation of the sources that may \<^verbatim>\<open>bail!\<close>: \<open>Inl\<close> the message, or \<open>Inr\<close> the value.\<close>

type_synonym 'a fallible = "string + 'a"

named_theorems tod_defs \<open>definitions that automation may unfold freely\<close>
named_theorems rows \<open>facts about tables of rows\<close>

section \<open>Option combinators\<close>

definition is_some_and :: "('a \<Rightarrow> bool) \<Rightarrow> 'a option \<Rightarrow> bool" where
  "is_some_and p x = (case x of None \<Rightarrow> False | Some y \<Rightarrow> p y)"

definition is_none_or :: "('a \<Rightarrow> bool) \<Rightarrow> 'a option \<Rightarrow> bool" where
  "is_none_or p x = (case x of None \<Rightarrow> True | Some y \<Rightarrow> p y)"

definition opt_filter :: "('a \<Rightarrow> bool) \<Rightarrow> 'a option \<Rightarrow> 'a option" where
  "opt_filter p x = (case x of None \<Rightarrow> None | Some y \<Rightarrow> if p y then Some y else None)"

definition unwrap_or :: "'a \<Rightarrow> 'a option \<Rightarrow> 'a" where
  "unwrap_or d x = (case x of None \<Rightarrow> d | Some y \<Rightarrow> y)"

definition or_else :: "'a option \<Rightarrow> 'a option \<Rightarrow> 'a option" where
  "or_else x y = (case x of None \<Rightarrow> y | Some _ \<Rightarrow> x)"

lemma option_combinators [simp]:
  "is_some_and p None = False" "is_some_and p (Some a) = p a"
  "is_none_or p None = True" "is_none_or p (Some a) = p a"
  "opt_filter p None = None" "opt_filter p (Some a) = (if p a then Some a else None)"
  "unwrap_or d None = d" "unwrap_or d (Some a) = a"
  "or_else None y = y" "or_else (Some a) y = Some a"
  by (simp_all add: is_some_and_def is_none_or_def opt_filter_def unwrap_or_def or_else_def)

lemma is_some_and_iff: "is_some_and p x \<longleftrightarrow> (\<exists>y. x = Some y \<and> p y)"
  by (cases x) auto

lemma is_none_or_iff: "is_none_or p x \<longleftrightarrow> (\<forall>y. x = Some y \<longrightarrow> p y)"
  by (cases x) auto

lemma opt_filter_Some_iff: "opt_filter p x = Some y \<longleftrightarrow> x = Some y \<and> p y"
  by (cases x) auto

lemma opt_filter_None_iff: "opt_filter p x = None \<longleftrightarrow> is_none_or (\<lambda>y. \<not> p y) x"
  by (cases x) auto

section \<open>String slices\<close>

definition starts_with :: "string \<Rightarrow> string \<Rightarrow> bool" where
  "starts_with p s = (take (length p) s = p)"

definition ends_with :: "string \<Rightarrow> string \<Rightarrow> bool" where
  "ends_with p s = starts_with (rev p) (rev s)"

definition strip_prefix :: "string \<Rightarrow> string \<Rightarrow> string option" where
  "strip_prefix p s = (if starts_with p s then Some (drop (length p) s) else None)"

fun contains_str :: "string \<Rightarrow> string \<Rightarrow> bool" where
  "contains_str p [] = (p = [])"
| "contains_str p (c # s) = (starts_with p (c # s) \<or> contains_str p s)"

text \<open>\<^verbatim>\<open>str::split_once\<close>: the text before and after the first occurrence.\<close>

fun split_once :: "string \<Rightarrow> string \<Rightarrow> (string \<times> string) option" where
  "split_once p [] = (if p = [] then Some ([], []) else None)"
| "split_once p (c # s) =
     (if starts_with p (c # s) then Some ([], drop (length p) (c # s))
      else map_option (\<lambda>(a, b). (c # a, b)) (split_once p s))"

text \<open>\<^verbatim>\<open>char::is_whitespace\<close> on single bytes: tab, line feed, vertical tab, form feed,
  carriage return, space.\<close>

definition is_space :: "char \<Rightarrow> bool" where
  "is_space c = (c \<in> {CHR 0x09, CHR 0x0A, CHR 0x0B, CHR 0x0C, CHR 0x0D, CHR '' ''})"

definition trim :: "string \<Rightarrow> string" where
  "trim s = rev (dropWhile is_space (rev (dropWhile is_space s)))"

fun join :: "string \<Rightarrow> string list \<Rightarrow> string" where
  "join sep [] = []"
| "join sep [x] = x"
| "join sep (x # y # xs) = x @ sep @ join sep (y # xs)"

text \<open>Words cut at every character that satisfies \<open>p\<close>, empty words included
  (\<^verbatim>\<open>str::split\<close> with a closure).\<close>

fun split_on :: "(char \<Rightarrow> bool) \<Rightarrow> string \<Rightarrow> string list" where
  "split_on p [] = [[]]"
| "split_on p (c # s) =
     (if p c then [] # split_on p s
      else (case split_on p s of [] \<Rightarrow> [[c]] | w # ws \<Rightarrow> (c # w) # ws))"

lemma starts_with_iff: "starts_with p s \<longleftrightarrow> (\<exists>r. s = p @ r)"
  by (metis append_eq_conv_conj append_take_drop_id starts_with_def)

lemma starts_with_append [simp]: "starts_with p (p @ s)"
  by (simp add: starts_with_def)

lemma starts_with_self [simp]: "starts_with p p"
  by (simp add: starts_with_def)

lemma strip_prefix_append [simp]: "strip_prefix p (p @ s) = Some s"
  by (simp add: strip_prefix_def)

lemma strip_prefix_Some_iff: "strip_prefix p s = Some r \<longleftrightarrow> s = p @ r"
proof
  assume "strip_prefix p s = Some r"
  then have "starts_with p s" and "r = drop (length p) s"
    by (auto simp: strip_prefix_def split: if_splits)
  then show "s = p @ r" by (auto simp: starts_with_iff)
qed simp

lemma strip_prefix_None_iff: "strip_prefix p s = None \<longleftrightarrow> \<not> starts_with p s"
  by (simp add: strip_prefix_def)

lemma ends_with_append [simp]: "ends_with p (s @ p)"
  by (simp add: ends_with_def)

lemma contains_str_iff: "contains_str p s \<longleftrightarrow> (\<exists>a b. s = a @ p @ b)"
proof (induction s)
  case Nil
  then show ?case by simp
next
  case (Cons c s)
  show ?case
  proof
    assume "contains_str p (c # s)"
    then consider "starts_with p (c # s)" | "contains_str p s" by auto
    then show "\<exists>a b. c # s = a @ p @ b"
    proof cases
      case 1
      then show ?thesis by (metis append_Nil starts_with_iff)
    next
      case 2
      then obtain a b where "s = a @ p @ b" using Cons by blast
      then have "c # s = (c # a) @ p @ b" by simp
      then show ?thesis by blast
    qed
  next
    assume "\<exists>a b. c # s = a @ p @ b"
    then obtain a b where ab: "c # s = a @ p @ b" by blast
    show "contains_str p (c # s)"
    proof (cases a)
      case Nil
      with ab have "starts_with p (c # s)" by (simp add: starts_with_iff)
      then show ?thesis by simp
    next
      case (Cons d a')
      with ab have "s = a' @ p @ b" by simp
      then have "contains_str p s" using Cons.IH by blast
      then show ?thesis by simp
    qed
  qed
qed

lemma split_on_nonempty [simp]: "split_on p s \<noteq> []"
  by (induction s) (auto split: list.splits)

lemma split_on_no_sep: "list_all (\<lambda>c. \<not> p c) s \<Longrightarrow> split_on p s = [s]"
  by (induction s) auto

lemma split_on_sep_free: "w \<in> set (split_on p s) \<Longrightarrow> list_all (\<lambda>c. \<not> p c) w"
  by (induction s arbitrary: w) (force split: list.splits if_splits)+

lemma split_on_append_sep:
  "list_all (\<lambda>c. \<not> p c) w \<Longrightarrow> p c \<Longrightarrow> split_on p (w @ c # s) = w # split_on p s"
  by (induction w) auto

section \<open>Decimal formatting\<close>

fun show_nat :: "nat \<Rightarrow> string" where
  "show_nat n =
     (if n < 10 then [char_of (48 + n)]
      else show_nat (n div 10) @ [char_of (48 + n mod 10)])"

declare show_nat.simps [simp del]

definition show_int :: "int \<Rightarrow> string" where
  "show_int i = (if i < 0 then ''-'' @ show_nat (nat (- i)) else show_nat (nat i))"

lemma show_nat_nonempty [simp]: "show_nat n \<noteq> []"
  by (subst show_nat.simps) simp

text \<open>\<^verbatim>\<open>char::is_ascii_digit\<close>.\<close>

definition is_digit :: "char \<Rightarrow> bool" where
  "is_digit c = (48 \<le> (of_char c :: nat) \<and> (of_char c :: nat) \<le> 57)"

lemma show_nat_digits: "list_all is_digit (show_nat n)"
proof (induction n rule: show_nat.induct)
  case (1 n)
  have d: "is_digit (char_of (48 + k))" if "k < 10" for k :: nat
    using that by (simp add: is_digit_def of_char_of)
  show ?case
  proof (cases "n < 10")
    case True
    then show ?thesis by (subst show_nat.simps) (simp add: d)
  next
    case False
    then show ?thesis using "1.IH" by (subst show_nat.simps) (simp add: d)
  qed
qed

text \<open>The value of a string of digits, as \<^verbatim>\<open>parse\<close> reads it before the range check.\<close>

definition digits_value :: "string \<Rightarrow> nat" where
  "digits_value s = foldl (\<lambda>v c. 10 * v + (of_char c - 48)) 0 s"

lemma digits_value_snoc: "digits_value (s @ [c]) = 10 * digits_value s + (of_char c - 48)"
  by (simp add: digits_value_def)

lemma digits_value_show_nat [simp]: "digits_value (show_nat n) = n"
proof (induction n rule: show_nat.induct)
  case (1 n)
  show ?case
  proof (cases "n < 10")
    case True
    then show ?thesis
      by (subst show_nat.simps) (simp add: digits_value_def of_char_of)
  next
    case False
    then have "digits_value (show_nat n)
      = 10 * digits_value (show_nat (n div 10)) + n mod 10"
      by (subst show_nat.simps) (simp add: digits_value_snoc of_char_of)
    with 1 False show ?thesis by simp
  qed
qed

section \<open>Ids as text\<close>

text \<open>The lower-case hexadecimal digits of \<open>n\<close>, padded to \<open>k\<close>; \<^verbatim>\<open>Uuid\<close>'s hyphenated
  \<^verbatim>\<open>Display\<close>; the eight characters listings show (\<^verbatim>\<open>interview::short_id\<close>).\<close>

definition hex_char :: "nat \<Rightarrow> char" where
  "hex_char d = (if d < 10 then char_of (48 + d) else char_of (87 + d))"

fun hex_pad :: "nat \<Rightarrow> nat \<Rightarrow> string" where
  "hex_pad 0 n = []"
| "hex_pad (Suc k) n = hex_pad k (n div 16) @ [hex_char (n mod 16)]"

definition show_uuid :: "uuid \<Rightarrow> string" where
  "show_uuid i =
     (let h = hex_pad 32 i
      in take 8 h @ ''-'' @ take 4 (drop 8 h) @ ''-'' @ take 4 (drop 12 h) @ ''-''
         @ take 4 (drop 16 h) @ ''-'' @ drop 20 h)"

definition short_id :: "uuid \<Rightarrow> string" where
  "short_id i = take 8 (hex_pad 32 i)"

definition ascii_upper :: "char \<Rightarrow> char" where
  "ascii_upper c = (if 97 \<le> (of_char c :: nat) \<and> (of_char c :: nat) \<le> 122
                    then char_of ((of_char c :: nat) - 32) else c)"

definition ascii_lower :: "char \<Rightarrow> char" where
  "ascii_lower c = (if 65 \<le> (of_char c :: nat) \<and> (of_char c :: nat) \<le> 90
                    then char_of ((of_char c :: nat) + 32) else c)"

lemma length_hex_pad [simp]: "length (hex_pad k n) = k"
  by (induction k arbitrary: n) simp_all

section \<open>Iterator adaptors\<close>

text \<open>\<^verbatim>\<open>Iterator::max_by_key\<close> returns the last of the greatest elements,
  \<^verbatim>\<open>min_by_key\<close> the first of the least.\<close>

fun max_by_key :: "('a \<Rightarrow> 'k::linorder) \<Rightarrow> 'a list \<Rightarrow> 'a option" where
  "max_by_key f [] = None"
| "max_by_key f (x # xs) =
     (case max_by_key f xs of
        None \<Rightarrow> Some x
      | Some y \<Rightarrow> if f x \<le> f y then Some y else Some x)"

fun min_by_key :: "('a \<Rightarrow> 'k::linorder) \<Rightarrow> 'a list \<Rightarrow> 'a option" where
  "min_by_key f [] = None"
| "min_by_key f (x # xs) =
     (case min_by_key f xs of
        None \<Rightarrow> Some x
      | Some y \<Rightarrow> if f x \<le> f y then Some x else Some y)"

lemma max_by_key_None [simp]: "max_by_key f xs = None \<longleftrightarrow> xs = []"
  by (cases xs) (auto split: option.splits)

lemma min_by_key_None [simp]: "min_by_key f xs = None \<longleftrightarrow> xs = []"
  by (cases xs) (auto split: option.splits)

lemma max_by_key_in: "max_by_key f xs = Some m \<Longrightarrow> m \<in> set xs"
  by (induction xs arbitrary: m) (auto split: option.splits if_splits)

lemma min_by_key_in: "min_by_key f xs = Some m \<Longrightarrow> m \<in> set xs"
  by (induction xs arbitrary: m) (auto split: option.splits if_splits)

lemma max_by_key_ge: "max_by_key f xs = Some m \<Longrightarrow> x \<in> set xs \<Longrightarrow> f x \<le> f m"
  by (induction xs arbitrary: m x) (fastforce split: option.splits if_splits)+

lemma min_by_key_le: "min_by_key f xs = Some m \<Longrightarrow> x \<in> set xs \<Longrightarrow> f m \<le> f x"
  by (induction xs arbitrary: m x) (fastforce split: option.splits if_splits)+

lemma map_map_same: "(\<And>x. g (f x) = g x) \<Longrightarrow> map g (map f xs) = map g xs"
  by simp

lemma max_by_key_map:
  "(\<And>x. k (f x) = k x) \<Longrightarrow> max_by_key k (map f xs) = map_option f (max_by_key k xs)"
  by (induction xs) (auto split: option.splits)

lemma max_by_key_unique:
  assumes "m \<in> set xs" "\<And>x. x \<in> set xs \<Longrightarrow> x \<noteq> m \<Longrightarrow> f x < f m"
  shows "max_by_key f xs = Some m"
proof (cases "max_by_key f xs")
  case None
  then show ?thesis using assms(1) by simp
next
  case (Some y)
  then have "y \<in> set xs" "f m \<le> f y"
    using max_by_key_in max_by_key_ge assms(1) by metis+
  then show ?thesis using Some assms(2) by fastforce
qed

lemma find_None_list_all: "find p xs = None \<longleftrightarrow> list_all (\<lambda>x. \<not> p x) xs"
  by (induction xs) auto

lemma find_Some_in: "find p xs = Some x \<Longrightarrow> x \<in> set xs \<and> p x"
  by (induction xs) (auto split: if_splits)

lemma find_isSome_iff: "(\<exists>x. find p xs = Some x) \<longleftrightarrow> list_ex p xs"
  by (induction xs) auto

lemma last_Some_in: "xs \<noteq> [] \<Longrightarrow> last xs \<in> set xs"
  by simp

text \<open>\<^verbatim>\<open>slice::last\<close>.\<close>

definition last_opt :: "'a list \<Rightarrow> 'a option" where
  "last_opt xs = (if xs = [] then None else Some (last xs))"

lemma last_opt_simps [simp]:
  "last_opt [] = None" "last_opt (xs @ [x]) = Some x"
  by (simp_all add: last_opt_def)

section \<open>Trimming and cutting\<close>

definition strip_suffix :: "string \<Rightarrow> string \<Rightarrow> string option" where
  "strip_suffix suf s = map_option rev (strip_prefix (rev suf) (rev s))"

lemma dropWhile_id: "s \<noteq> [] \<Longrightarrow> \<not> P (hd s) \<Longrightarrow> dropWhile P s = s"
  by (cases s) simp_all

lemma trim_id: "s \<noteq> [] \<Longrightarrow> \<not> is_space (hd s) \<Longrightarrow> \<not> is_space (last s) \<Longrightarrow> trim s = s"
  by (simp add: trim_def dropWhile_id hd_rev)

lemma split_once_at:
  "list_all (\<lambda>c. c \<noteq> p) s \<Longrightarrow> split_once (p # ps) (s @ (p # ps) @ r) = Some (s, r)"
  by (induction s) (auto simp: starts_with_def)

lemma strip_suffix_Some_iff: "strip_suffix suf s = Some r \<longleftrightarrow> s = r @ suf"
  by (auto simp: strip_suffix_def strip_prefix_Some_iff rev_swap)

text \<open>\<^verbatim>\<open>str::find\<close> as the cut at the first place a text occurs, and what follows it.\<close>

lemma split_once_Some:
  "split_once p s = Some (a, b) \<Longrightarrow> s = a @ p @ b"
proof (induction s arbitrary: a)
  case (Cons c s)
  show ?case
  proof (cases "starts_with p (c # s)")
    case True
    with Cons.prems have ab: "a = []" "b = drop (length p) (c # s)" by auto
    obtain r where "c # s = p @ r" using True by (auto simp: starts_with_iff)
    then show ?thesis by (simp add: ab)
  next
    case False
    with Cons.prems obtain a' where "split_once p s = Some (a', b)" "a = c # a'" by (auto split: if_splits)
    then show ?thesis using Cons.IH by simp
  qed
qed (auto split: if_splits)

text \<open>\<^verbatim>\<open>to_ascii_lowercase\<close> and \<^verbatim>\<open>eq_ignore_ascii_case\<close>.\<close>

definition lower :: "string \<Rightarrow> string" where
  "lower s = map ascii_lower s"

definition eq_ignore_case :: "string \<Rightarrow> string \<Rightarrow> bool" where
  "eq_ignore_case a b = (lower a = lower b)"

text \<open>\<^verbatim>\<open>trim_end_matches\<close> of one character.\<close>

definition trim_end_char :: "char \<Rightarrow> string \<Rightarrow> string" where
  "trim_end_char c s = rev (dropWhile (\<lambda>x. x = c) (rev s))"

definition trim_start_char :: "char \<Rightarrow> string \<Rightarrow> string" where
  "trim_start_char c s = dropWhile (\<lambda>x. x = c) s"

text \<open>\<^verbatim>\<open>trim_matches\<close> of one character.\<close>

definition trim_char :: "char \<Rightarrow> string \<Rightarrow> string" where
  "trim_char c s = trim_end_char c (trim_start_char c s)"

text \<open>\<^verbatim>\<open>str::split_whitespace\<close>.\<close>

definition split_whitespace :: "string \<Rightarrow> string list" where
  "split_whitespace s = filter (\<lambda>w. w \<noteq> []) (split_on is_space s)"

end
