(* ===== verification/Waits.thy ===== *)
theory Waits
  imports Prelude "HOL-Library.Product_Lexorder"
begin

text \<open>
  Waits (\<^verbatim>\<open>crates/tod-store/src/waits.rs\<close>): what an autonomous node waits on
  between sessions. The state is the table of rows; every operation of
  \<^verbatim>\<open>WaitRepo\<close> and the lifecycle's own sweeps are functions on it. What the sweeps
  read of other tables (a node's lifecycle stay, its sandbox, its liveness) is
  an argument, which \<^verbatim>\<open>Store\<close> instantiates with the tables themselves.
\<close>

section \<open>Data\<close>

abbreviation KIND_UNTIL :: string where "KIND_UNTIL \<equiv> ''until''"
abbreviation KIND_EVENT :: string where "KIND_EVENT \<equiv> ''event''"
abbreviation KIND_CHECK :: string where "KIND_CHECK \<equiv> ''check''"

definition wait_kinds :: "string list" where
  "wait_kinds = [KIND_UNTIL, KIND_EVENT, KIND_CHECK]"

abbreviation WAIT_PENDING :: string where "WAIT_PENDING \<equiv> ''pending''"
abbreviation WAIT_SATISFIED :: string where "WAIT_SATISFIED \<equiv> ''satisfied''"
abbreviation WAIT_CANCELLED :: string where "WAIT_CANCELLED \<equiv> ''cancelled''"
abbreviation WAIT_EXPIRED :: string where "WAIT_EXPIRED \<equiv> ''expired''"

definition wait_states :: "string list" where
  "wait_states = [WAIT_PENDING, WAIT_SATISFIED, WAIT_CANCELLED, WAIT_EXPIRED]"

record wait =
  w_id :: uuid
  w_node :: uuid
  w_kind :: string
  w_spec :: string
  w_every :: "int option"
  w_due :: ms
  w_state :: string
  w_created :: ms
  w_updated :: ms
  w_detail :: "string option"
  w_attempt :: nat
  w_max :: "nat option"
  w_error :: "string option"
  w_stay :: "ms option"

type_synonym waits = "wait list"

datatype give_up = WakeAtTime | LookAtDeadline | RunAtInterval

definition for_kind :: "string \<Rightarrow> give_up option" where
  "for_kind kind =
     (if kind = KIND_UNTIL then Some WakeAtTime
      else if kind = KIND_EVENT then Some LookAtDeadline
      else if kind = KIND_CHECK then Some RunAtInterval
      else None)"

fun expires_when_unserved :: "give_up \<Rightarrow> bool" where
  "expires_when_unserved WakeAtTime = False"
| "expires_when_unserved _ = True"

fun ends_with_stay :: "give_up \<Rightarrow> bool" where
  "ends_with_stay WakeAtTime = False"
| "ends_with_stay _ = True"

definition OVERDUE_MIN_GRACE_MS :: ms where "OVERDUE_MIN_GRACE_MS = 2 * 60 * 1000"
definition OVERDUE_MAX_GRACE_MS :: ms where "OVERDUE_MAX_GRACE_MS = 60 * 60 * 1000"
definition UNSERVED_GRACE_MS :: ms where "UNSERVED_GRACE_MS = 10 * 60 * 1000"
definition DEFAULT_MAX_ATTEMPTS :: nat where "DEFAULT_MAX_ATTEMPTS = 5"

lemmas grace_consts = OVERDUE_MIN_GRACE_MS_def OVERDUE_MAX_GRACE_MS_def UNSERVED_GRACE_MS_def

definition exhausted :: "wait \<Rightarrow> bool" where
  "exhausted w = (w_error w \<noteq> None \<and> is_some_and (\<lambda>max. max \<le> w_attempt w) (w_max w))"

definition clamp :: "int \<Rightarrow> int \<Rightarrow> int \<Rightarrow> int" where
  "clamp lo hi x = max lo (min hi x)"

definition overdue_grace :: "wait \<Rightarrow> bool \<Rightarrow> ms" where
  "overdue_grace w scheduled =
     (if scheduled
      then (let interval = max (w_due w - w_updated w) 0
            in clamp OVERDUE_MIN_GRACE_MS OVERDUE_MAX_GRACE_MS (2 * interval))
      else UNSERVED_GRACE_MS)"

definition expired_by :: "wait \<Rightarrow> ms \<Rightarrow> bool \<Rightarrow> ms option" where
  "expired_by w now scheduled =
     (let late = now - w_due w
      in if overdue_grace w scheduled < late then Some late else None)"

section \<open>Specs\<close>

definition spec_sep :: "char \<Rightarrow> bool" where
  "spec_sep c = (c = CHR '':'' \<or> is_space c)"

definition normalize_spec :: "string \<Rightarrow> string" where
  "normalize_spec spec = join '':'' (filter (\<lambda>w. w \<noteq> []) (split_on spec_sep spec))"

definition spec_states :: "string \<Rightarrow> string list option" where
  "spec_states spec0 =
     (let spec = normalize_spec spec0
      in if starts_with ''github:release:'' spec then Some [''merged'']
         else if \<not> starts_with ''github:pr:'' spec then None
         else if ends_with '':ready_for_review'' spec \<or> ends_with '':review_requested'' spec
           then Some [''pr_draft'']
         else if ends_with '':merged'' spec then Some [''approved'']
         else if contains_str '':bot-review:'' spec \<or> ends_with '':review'' spec
              \<or> contains_str '':review:'' spec \<or> ends_with '':checks'' spec
           then Some [''pr_draft'', ''pr_review'']
         else None)"

section \<open>The repository\<close>

record new_wait =
  nw_kind :: string
  nw_spec :: string
  nw_every :: "int option"
  nw_due :: ms
  nw_detail :: "string option"

definition new_until :: "ms \<Rightarrow> new_wait" where
  "new_until at_ms = \<lparr>nw_kind = KIND_UNTIL, nw_spec = '''', nw_every = None, nw_due = at_ms, nw_detail = None\<rparr>"

definition new_event :: "string \<Rightarrow> ms \<Rightarrow> new_wait" where
  "new_event spec deadline = \<lparr>nw_kind = KIND_EVENT, nw_spec = spec, nw_every = None, nw_due = deadline, nw_detail = None\<rparr>"

definition new_check :: "string \<Rightarrow> int \<Rightarrow> ms \<Rightarrow> new_wait" where
  "new_check command every_secs now =
     \<lparr>nw_kind = KIND_CHECK, nw_spec = command, nw_every = Some every_secs,
      nw_due = now + every_secs * 1000, nw_detail = None\<rparr>"

definition with_detail :: "string \<Rightarrow> new_wait \<Rightarrow> new_wait" where
  "with_detail d nw = nw\<lparr>nw_detail := Some d\<rparr>"

definition get_wait :: "uuid \<Rightarrow> waits \<Rightarrow> wait option" where
  "get_wait i ws = find (\<lambda>w. w_id w = i) ws"

text \<open>\<^verbatim>\<open>WaitRepo::query\<close>: the rows a predicate selects, soonest due first, then oldest.\<close>

definition query_waits :: "(wait \<Rightarrow> bool) \<Rightarrow> waits \<Rightarrow> waits" where
  "query_waits p ws = sort_key (\<lambda>w. (w_due w, w_created w)) (filter p ws)"

definition is_pending :: "wait \<Rightarrow> bool" where
  "is_pending w = (w_state w = WAIT_PENDING)"

definition list_for_node :: "uuid \<Rightarrow> waits \<Rightarrow> waits" where
  "list_for_node n ws = query_waits (\<lambda>w. w_node w = n) ws"

definition list_pending_for_node :: "uuid \<Rightarrow> waits \<Rightarrow> waits" where
  "list_pending_for_node n ws = query_waits (\<lambda>w. w_node w = n \<and> is_pending w) ws"

definition list_pending_for_nodes :: "uuid list \<Rightarrow> waits \<Rightarrow> waits" where
  "list_pending_for_nodes ns ws =
     (if ns = [] then [] else query_waits (\<lambda>w. is_pending w \<and> w_node w \<in> set ns) ws)"

definition next_due :: "uuid \<Rightarrow> waits \<Rightarrow> ms option" where
  "next_due n ws = map_option w_due (min_by_key w_due (filter (\<lambda>w. w_node w = n \<and> is_pending w) ws))"

definition due_waits :: "ms \<Rightarrow> waits \<Rightarrow> waits" where
  "due_waits now ws = query_waits (\<lambda>w. is_pending w \<and> w_due w \<le> now) ws"

definition create_wait ::
    "uuid \<Rightarrow> ms \<Rightarrow> ms option \<Rightarrow> uuid \<Rightarrow> new_wait \<Rightarrow> waits \<Rightarrow> (wait \<times> waits) fallible" where
  "create_wait new_id now stay node nw ws =
     (if nw_kind nw \<notin> set wait_kinds
      then Inl (''unknown wait kind `'' @ nw_kind nw @ ''` (expected '' @ join ''|'' wait_kinds @ '')'')
      else
        let spec = (if nw_kind nw = KIND_EVENT then normalize_spec (nw_spec nw) else trim (nw_spec nw))
        in if nw_kind nw = KIND_EVENT \<and> CHR '':'' \<notin> set (nw_spec nw)
             then Inl (''an event wait needs `<source>:<match>` (got `'' @ spec @ ''`)'')
           else if nw_kind nw = KIND_CHECK \<and> spec = [] then Inl ''a check wait needs a command''
           else if nw_kind nw = KIND_CHECK \<and> is_none_or (\<lambda>s. s \<le> 0) (nw_every nw)
             then Inl ''a check wait needs a positive interval''
           else
             let w = \<lparr>w_id = new_id, w_node = node, w_kind = nw_kind nw, w_spec = spec,
                      w_every = nw_every nw, w_due = nw_due nw, w_state = WAIT_PENDING,
                      w_created = now, w_updated = now, w_detail = nw_detail nw,
                      w_attempt = 0, w_max = None, w_error = None, w_stay = stay\<rparr>
             in Inr (w, ws @ [w]))"

definition set_wait_state :: "ms \<Rightarrow> uuid \<Rightarrow> string \<Rightarrow> waits \<Rightarrow> waits fallible" where
  "set_wait_state now i state ws =
     (if state \<notin> set wait_states
      then Inl (''unknown wait state `'' @ state @ ''` (expected '' @ join ''|'' wait_states @ '')'')
      else if list_all (\<lambda>w. w_id w \<noteq> i) ws then Inl (''wait '' @ show_uuid i @ '' not found'')
      else Inr (map (\<lambda>w. if w_id w = i \<and> w_state w \<noteq> state
                         then w\<lparr>w_state := state, w_updated := now\<rparr> else w) ws))"

definition record_failure ::
    "ms \<Rightarrow> uuid \<Rightarrow> string \<Rightarrow> ms option \<Rightarrow> waits \<Rightarrow> (wait \<times> waits) fallible" where
  "record_failure now i err retry_due ws =
     (case get_wait i ws of
        None \<Rightarrow> Inl (''wait '' @ show_uuid i @ '' not found'')
      | Some w \<Rightarrow>
          if w_state w \<noteq> WAIT_PENDING then Inl (''wait '' @ show_uuid i @ '' is '' @ w_state w @ '', not pending'')
          else
            let m = unwrap_or DEFAULT_MAX_ATTEMPTS (w_max w);
                attempt = (case retry_due of Some _ \<Rightarrow> min (w_attempt w + 1) m | None \<Rightarrow> m);
                upd = (\<lambda>x. x\<lparr>w_attempt := attempt, w_max := Some m, w_error := Some err,
                             w_due := unwrap_or (w_due x) retry_due, w_updated := now\<rparr>)
            in Inr (upd w, map (\<lambda>x. if w_id x = i then upd x else x) ws))"

definition reschedule :: "ms \<Rightarrow> uuid \<Rightarrow> ms \<Rightarrow> waits \<Rightarrow> waits fallible" where
  "reschedule now i due ws =
     (if list_ex (\<lambda>w. w_id w = i \<and> is_pending w) ws
      then Inr (map (\<lambda>w. if w_id w = i \<and> is_pending w
                         then w\<lparr>w_due := due, w_updated := now\<rparr> else w) ws)
      else Inl (''wait '' @ show_uuid i @ '' not found or not pending''))"

text \<open>A full id (\<open>parse_uuid\<close> is \<^verbatim>\<open>Uuid::parse_str\<close>) or a unique prefix of its hex form.\<close>

definition is_hex_upper :: "char \<Rightarrow> bool" where
  "is_hex_upper c = (is_digit c \<or> c \<in> set ''ABCDEFabcdef'')"

definition resolve_wait :: "(string \<Rightarrow> uuid option) \<Rightarrow> string \<Rightarrow> waits \<Rightarrow> uuid fallible" where
  "resolve_wait parse_uuid raw ws =
     (case parse_uuid (trim raw) of
        Some i \<Rightarrow> Inr i
      | None \<Rightarrow>
          let prefix = filter (\<lambda>c. c \<noteq> CHR ''-'') (List.map ascii_upper (trim raw))
          in if prefix = [] \<or> \<not> list_all is_hex_upper prefix
             then Inl (''`'' @ raw @ ''` is not a wait id'')
             else (case filter (\<lambda>i. starts_with prefix (List.map ascii_upper (hex_pad 32 i))) (List.map w_id ws) of
                     [i] \<Rightarrow> Inr i
                   | [] \<Rightarrow> Inl (''wait '' @ raw @ '' not found'')
                   | _ \<Rightarrow> Inl (''wait id '' @ raw @ '' is ambiguous'')))"

section \<open>What the lifecycle ends\<close>

abbreviation LIFECYCLE_ACTOR :: string where "LIFECYCLE_ACTOR \<equiv> ''lifecycle''"

definition event_or_check :: "wait \<Rightarrow> bool" where
  "event_or_check w = (w_kind w \<in> {KIND_EVENT, KIND_CHECK})"

definition cancel_for_node :: "ms \<Rightarrow> uuid \<Rightarrow> string \<Rightarrow> waits \<Rightarrow> waits" where
  "cancel_for_node now n detail ws =
     map (\<lambda>w. if w_node w = n \<and> is_pending w \<and> event_or_check w
              then w\<lparr>w_state := WAIT_CANCELLED,
                     w_detail := Some (LIFECYCLE_ACTOR @ '': '' @ detail), w_updated := now\<rparr>
              else w) ws"

record swept =
  sw_wait :: uuid
  sw_node :: uuid
  sw_spec :: string
  sw_reason :: string

definition end_wait :: "wait \<Rightarrow> string \<Rightarrow> string \<Rightarrow> ms \<Rightarrow> waits \<Rightarrow> swept \<times> waits" where
  "end_wait w state reason now ws =
     (\<lparr>sw_wait = w_id w, sw_node = w_node w, sw_spec = w_spec w, sw_reason = reason\<rparr>,
      map (\<lambda>x. if w_id x = w_id w \<and> is_pending x
               then x\<lparr>w_state := state, w_detail := Some (LIFECYCLE_ACTOR @ '': '' @ reason), w_updated := now\<rparr>
               else x) ws)"

text \<open>Why a pending wait cannot be waited on any more. \<open>lc\<close> is the node's lifecycle
  state and when it entered it; \<open>lost\<close> whether its cloud sandbox is gone.\<close>

definition sweep_reason ::
    "(uuid \<Rightarrow> (string \<times> ms) option) \<Rightarrow> (uuid \<Rightarrow> bool) \<Rightarrow> wait \<Rightarrow> string option" where
  "sweep_reason lc lost w =
     (let state = map_option fst (lc (w_node w)); stay = map_option snd (lc (w_node w))
      in if state = Some ''done'' then Some ''the node is done''
         else if lost (w_node w) then Some ''the node's sandbox is lost''
         else if (case (w_stay w, stay) of (Some r, Some c) \<Rightarrow> r \<noteq> c | _ \<Rightarrow> False)
                 \<and> is_some_and ends_with_stay (for_kind (w_kind w))
           then Some (''the stay in '' @ unwrap_or ''its state'' state @ '' that recorded it has ended'')
         else (case (state, spec_states (w_spec w)) of
             (Some s, Some allowed) \<Rightarrow>
               if w_kind w = KIND_EVENT \<and> s \<notin> set allowed
               then Some (''a wait of '' @ join ''/'' allowed @ '' does not belong to '' @ s)
               else None
           | _ \<Rightarrow> None))"

text \<open>The loop both sweeps share: end each selected wait that has a reason, in order.\<close>

fun end_each :: "(wait \<Rightarrow> string option) \<Rightarrow> string \<Rightarrow> ms \<Rightarrow> wait list \<Rightarrow> waits \<Rightarrow> swept list \<times> waits" where
  "end_each reason state now [] ws = ([], ws)"
| "end_each reason state now (w # rest) ws =
     (case reason w of
        None \<Rightarrow> end_each reason state now rest ws
      | Some r \<Rightarrow>
          (let (s, ws') = end_wait w state r now ws;
               (ss, ws'') = end_each reason state now rest ws'
           in (s # ss, ws'')))"

definition sweep ::
    "(uuid \<Rightarrow> (string \<times> ms) option) \<Rightarrow> (uuid \<Rightarrow> bool) \<Rightarrow> ms \<Rightarrow> waits \<Rightarrow> swept list \<times> waits" where
  "sweep lc lost now ws =
     end_each (sweep_reason lc lost) WAIT_CANCELLED now
       (query_waits (\<lambda>w. is_pending w \<and> event_or_check w) ws) ws"

definition EXPIRE_GRACE_MS :: ms where "EXPIRE_GRACE_MS = 6 * 60 * 60 * 1000"

text \<open>\<open>served\<close>: a live cloud supervisor or a live lifecycle lease is on the node.\<close>

definition expire_reason :: "(uuid \<Rightarrow> bool) \<Rightarrow> ms \<Rightarrow> wait \<Rightarrow> string option" where
  "expire_reason served now w =
     (if served (w_node w) then None
      else Some (''due '' @ show_int ((now - w_due w) div 60000) @ ''m ago and nothing was looking at it''))"

definition expire_overdue :: "(uuid \<Rightarrow> bool) \<Rightarrow> ms \<Rightarrow> ms \<Rightarrow> waits \<Rightarrow> swept list \<times> waits" where
  "expire_overdue served now grace ws =
     end_each (expire_reason served now) WAIT_EXPIRED now
       (query_waits (\<lambda>w. is_pending w \<and> event_or_check w \<and> w_due w + grace < now) ws) ws"

section \<open>Durations\<close>

text \<open>\<^verbatim>\<open>i64\<close>: \<^verbatim>\<open>parse\<close> refuses what does not fit; the release build's
  multiplication wraps.\<close>

definition I64_MAX :: int where "I64_MAX = 2 ^ 63 - 1"

definition wrap64 :: "int \<Rightarrow> int" where
  "wrap64 i = (i + 2 ^ 63) mod 2 ^ 64 - 2 ^ 63"

definition parse_i64_digits :: "string \<Rightarrow> int option" where
  "parse_i64_digits ds =
     (if ds = [] \<or> I64_MAX < int (digits_value ds) then None else Some (int (digits_value ds)))"

definition unit_mult :: "string \<Rightarrow> int option" where
  "unit_mult u =
     (if u = [] \<or> u = ''s'' then Some 1 else if u = ''m'' then Some 60
      else if u = ''h'' then Some 3600 else if u = ''d'' then Some 86400 else None)"

definition parse_duration :: "string \<Rightarrow> int fallible" where
  "parse_duration raw0 =
     (let raw = trim raw0; digits = takeWhile is_digit raw; unit = dropWhile is_digit raw;
          bad = ''`'' @ raw @ ''` is not a duration (e.g. 30s, 5m, 2h, 1d)''
      in case parse_i64_digits digits of
           None \<Rightarrow> Inl bad
         | Some n \<Rightarrow>
             (case unit_mult unit of
                None \<Rightarrow> Inl bad
              | Some mult \<Rightarrow>
                  if n \<le> 0 then Inl (''a duration must be positive (got `'' @ raw @ ''`)'')
                  else Inr (wrap64 (n * mult))))"

text \<open>\<open>rfc3339\<close> is \<^verbatim>\<open>chrono::DateTime::parse_from_rfc3339\<close>, in milliseconds.\<close>

definition parse_time :: "(string \<Rightarrow> ms option) \<Rightarrow> string \<Rightarrow> ms \<Rightarrow> ms fallible" where
  "parse_time rfc3339 raw0 now =
     (let raw = trim raw0
      in case rfc3339 raw of
           Some t \<Rightarrow> Inr t
         | None \<Rightarrow>
             (case parse_duration (unwrap_or raw (strip_prefix ''+'' raw)) of
                Inl _ \<Rightarrow> Inl (''`'' @ raw @ ''` is neither an RFC 3339 time nor a duration like 2h'')
              | Inr s \<Rightarrow> Inr (wrap64 (now + wrap64 (s * 1000)))))"

section \<open>Queries\<close>

lemma set_query_waits [simp]: "set (query_waits p ws) = {w \<in> set ws. p w}"
  by (simp add: query_waits_def)

lemma sorted_query_waits: "sorted (map (\<lambda>w. (w_due w, w_created w)) (query_waits p ws))"
  by (simp add: query_waits_def)

lemma distinct_map_sort_key: "distinct (map f (sort_key g xs)) \<longleftrightarrow> distinct (map f xs)"
  by (simp add: distinct_map)

lemma distinct_query_waits:
  "distinct (map w_id ws) \<Longrightarrow> distinct (map w_id (query_waits p ws))"
  by (simp add: query_waits_def distinct_map_sort_key distinct_map_filter)

lemma distinct_id_eq:
  "distinct (map w_id ws) \<Longrightarrow> x \<in> set ws \<Longrightarrow> y \<in> set ws \<Longrightarrow> w_id x = w_id y \<Longrightarrow> x = y"
  by (meson distinct_map inj_onD)

lemma get_wait_Some: "get_wait i ws = Some w \<Longrightarrow> w \<in> set ws \<and> w_id w = i"
  by (auto simp: get_wait_def dest: find_Some_in)

lemma get_wait_None: "get_wait i ws = None \<longleftrightarrow> i \<notin> w_id ` set ws"
  by (auto simp: get_wait_def find_None_list_all list_all_iff)

section \<open>The contract of every step that only ends waits\<close>

text \<open>What cancelling, sweeping and expiring have in common: a row either stays as it
  is, or was a pending \<^verbatim>\<open>event\<close> or \<^verbatim>\<open>check\<close> and is now history.\<close>

definition ends_only :: "wait \<Rightarrow> wait \<Rightarrow> bool" where
  "ends_only w w' \<longleftrightarrow>
     w' = w \<or>
     (is_pending w \<and> event_or_check w \<and> w_state w' \<in> {WAIT_CANCELLED, WAIT_EXPIRED} \<and>
      w' = w\<lparr>w_state := w_state w', w_detail := w_detail w', w_updated := w_updated w'\<rparr>)"

lemma ends_only_refl [simp]: "ends_only w w"
  by (simp add: ends_only_def)

lemma ends_only_pending: "ends_only w w' \<Longrightarrow> is_pending w' \<Longrightarrow> w' = w"
  by (auto simp: ends_only_def is_pending_def)

lemma ends_only_history: "ends_only w w' \<Longrightarrow> \<not> is_pending w \<Longrightarrow> w' = w"
  by (auto simp: ends_only_def)

lemma ends_only_until: "ends_only w w' \<Longrightarrow> w_kind w = KIND_UNTIL \<Longrightarrow> w' = w"
  by (auto simp: ends_only_def event_or_check_def)

lemma ends_only_fields:
  "ends_only w w' \<Longrightarrow>
     w_id w' = w_id w \<and> w_node w' = w_node w \<and> w_kind w' = w_kind w \<and> w_spec w' = w_spec w \<and> w_due w' = w_due w"
  by (cases w; cases w') (auto simp: ends_only_def)

lemma ends_only_trans:
  assumes "ends_only a b" "ends_only b c"
  shows "ends_only a c"
proof (cases "is_pending b")
  case True
  then show ?thesis using assms ends_only_pending by metis
next
  case False
  then show ?thesis using assms ends_only_history by metis
qed

text \<open>The table's invariant: ids are the primary key.\<close>

definition wf_waits :: "waits \<Rightarrow> bool" where
  "wf_waits ws = distinct (map w_id ws)"

locale wait_ender =
  fixes step :: "waits \<Rightarrow> waits"
  assumes step_ends: "wf_waits ws \<Longrightarrow> list_all2 ends_only ws (step ws)"
begin

lemma keeps_length: "wf_waits ws \<Longrightarrow> length (step ws) = length ws"
  using step_ends list_all2_lengthD by fastforce

lemma row_ends: "wf_waits ws \<Longrightarrow> i < length ws \<Longrightarrow> ends_only (ws ! i) (step ws ! i)"
  by (rule list_all2_nthD[OF step_ends])

lemma keeps_ids: "wf_waits ws \<Longrightarrow> map w_id (step ws) = map w_id ws"
  by (rule nth_equalityI) (auto simp: keeps_length dest: row_ends ends_only_fields)

lemma keeps_wf: "wf_waits ws \<Longrightarrow> wf_waits (step ws)"
  by (metis keeps_ids wf_waits_def)

lemma keeps_history: "wf_waits ws \<Longrightarrow> i < length ws \<Longrightarrow> \<not> is_pending (ws ! i) \<Longrightarrow> step ws ! i = ws ! i"
  using row_ends ends_only_history by blast

lemma keeps_until: "wf_waits ws \<Longrightarrow> i < length ws \<Longrightarrow> w_kind (ws ! i) = KIND_UNTIL \<Longrightarrow> step ws ! i = ws ! i"
  using row_ends ends_only_until by blast

lemma pending_shrinks:
  assumes "wf_waits ws"
  shows "{w \<in> set (step ws). is_pending w} \<subseteq> {w \<in> set ws. is_pending w}"
proof
  fix w assume "w \<in> {w \<in> set (step ws). is_pending w}"
  then obtain i where "i < length ws" "w = step ws ! i" "is_pending w"
    by (auto simp: in_set_conv_nth keeps_length[OF assms])
  then have "w = ws ! i" using row_ends[OF assms] ends_only_pending by blast
  then show "w \<in> {w \<in> set ws. is_pending w}"
    using \<open>i < length ws\<close> \<open>is_pending w\<close> by auto
qed

lemma due_shrinks: "wf_waits ws \<Longrightarrow> set (due_waits now (step ws)) \<subseteq> set (due_waits now ws)"
  using pending_shrinks[of ws] by (auto simp: due_waits_def)

lemma next_due_never_earlier:
  assumes "wf_waits ws" "next_due n (step ws) = Some d"
  obtains d' where "next_due n ws = Some d'" "d' \<le> d"
proof -
  obtain w where w: "min_by_key w_due (filter (\<lambda>w. w_node w = n \<and> is_pending w) (step ws)) = Some w"
    and d: "w_due w = d"
    using assms by (auto simp: next_due_def)
  have "w \<in> set (filter (\<lambda>w. w_node w = n \<and> is_pending w) ws)"
    using min_by_key_in[OF w] pending_shrinks[OF assms(1)] by auto
  then obtain v where v: "min_by_key w_due (filter (\<lambda>w. w_node w = n \<and> is_pending w) ws) = Some v"
    by (metis (no_types, lifting) empty_iff empty_set min_by_key_None not_None_eq)
  show thesis
    by (rule that[of "w_due v"])
      (use v d min_by_key_le[OF v \<open>w \<in> set (filter _ ws)\<close>] in \<open>auto simp: next_due_def\<close>)
qed

end

lemma map_ends_only: "(\<And>w. ends_only w (f w)) \<Longrightarrow> list_all2 ends_only ws (map f ws)"
  by (simp add: list_all2_map2 list_all2_refl)

lemma list_all2_ends_trans:
  "list_all2 ends_only xs ys \<Longrightarrow> list_all2 ends_only ys zs \<Longrightarrow> list_all2 ends_only xs zs"
  by (rule list_all2_trans[of ends_only ends_only ends_only]) (auto intro: ends_only_trans)

interpretation cancel: wait_ender "cancel_for_node now n detail"
  by unfold_locales (auto simp: cancel_for_node_def ends_only_def intro!: map_ends_only)

section \<open>The sweeps' loop\<close>

definition ended :: "string \<Rightarrow> ms \<Rightarrow> string \<Rightarrow> wait \<Rightarrow> wait" where
  "ended state now reason x =
     x\<lparr>w_state := state, w_detail := Some (LIFECYCLE_ACTOR @ '': '' @ reason), w_updated := now\<rparr>"

text \<open>On distinct ids the loop is one pass: each selected row with a reason is ended with it.\<close>

definition end_if :: "(wait \<Rightarrow> string option) \<Rightarrow> string \<Rightarrow> ms \<Rightarrow> wait set \<Rightarrow> wait \<Rightarrow> wait" where
  "end_if reason state now S x =
     (if x \<in> S then (case reason x of None \<Rightarrow> x | Some r \<Rightarrow> ended state now r x) else x)"

definition swept_of :: "(wait \<Rightarrow> string option) \<Rightarrow> wait \<Rightarrow> swept option" where
  "swept_of reason w =
     map_option (\<lambda>r. \<lparr>sw_wait = w_id w, sw_node = w_node w, sw_spec = w_spec w, sw_reason = r\<rparr>) (reason w)"

lemma end_wait_rows:
  assumes "distinct (map w_id ws)" "w \<in> set ws" "is_pending w"
  shows "snd (end_wait w state r now ws) = map (\<lambda>x. if x = w then ended state now r x else x) ws"
  using assms by (auto simp: end_wait_def ended_def dest: distinct_id_eq)

lemma end_each_map:
  assumes "distinct (map w_id ws)" "distinct (map w_id cs)" "set cs \<subseteq> set ws"
    and "\<forall>c\<in>set cs. is_pending c" and "state \<noteq> WAIT_PENDING"
  shows "end_each reason state now cs ws =
           (List.map_filter (swept_of reason) cs, map (end_if reason state now (set cs)) ws)"
  using assms(1-4)
proof (induction cs arbitrary: ws)
  case Nil
  have "end_if reason state now (set []) = id" by (rule ext) (simp add: end_if_def)
  then show ?case by simp
next
  case (Cons w rest)
  show ?case
  proof (cases "reason w")
    case None
    then have "end_if reason state now (set (w # rest)) = end_if reason state now (set rest)"
      by (auto simp: end_if_def)
    with None Cons show ?thesis by (simp add: swept_of_def)
  next
    case (Some r)
    define ws' where "ws' = snd (end_wait w state r now ws)"
    have ws': "ws' = map (\<lambda>x. if x = w then ended state now r x else x) ws"
      unfolding ws'_def by (rule end_wait_rows) (use Cons.prems in auto)
    have ids: "map w_id ws' = map w_id ws" by (auto simp: ws' ended_def)
    have "w \<notin> set rest" using Cons.prems(2) by auto
    then have sub: "set rest \<subseteq> set ws'"
      using Cons.prems(3) by (auto simp: ws' image_iff)
    have IH: "end_each reason state now rest ws' =
        (List.map_filter (swept_of reason) rest, map (end_if reason state now (set rest)) ws')"
      by (rule Cons.IH) (use Cons.prems ids sub in auto)
    have np: "ended state now r w \<notin> set rest"
      using Cons.prems(4) assms(5) by (auto simp: ended_def is_pending_def)
    have "map (end_if reason state now (set rest)) ws' = map (end_if reason state now (set (w # rest))) ws"
      using Some np \<open>w \<notin> set rest\<close> by (auto simp: ws' end_if_def)
    moreover have "List.map_filter (swept_of reason) (w # rest) =
        \<lparr>sw_wait = w_id w, sw_node = w_node w, sw_spec = w_spec w, sw_reason = r\<rparr>
          # List.map_filter (swept_of reason) rest"
      using Some by (simp add: swept_of_def)
    moreover have "end_wait w state r now ws =
        (\<lparr>sw_wait = w_id w, sw_node = w_node w, sw_spec = w_spec w, sw_reason = r\<rparr>, ws')"
      by (simp add: end_wait_def ws'_def)
    ultimately show ?thesis using IH Some by simp
  qed
qed

lemma end_if_ends_only:
  "(\<And>x. x \<in> S \<Longrightarrow> is_pending x \<and> event_or_check x) \<Longrightarrow> state \<in> {WAIT_CANCELLED, WAIT_EXPIRED} \<Longrightarrow>
   ends_only x (end_if reason state now S x)"
  by (auto simp: end_if_def ends_only_def ended_def split: option.splits)

text \<open>Both sweeps, as the one pass they are on a well-formed table.\<close>

definition swept_rows :: "(wait \<Rightarrow> string option) \<Rightarrow> string \<Rightarrow> ms \<Rightarrow> (wait \<Rightarrow> bool) \<Rightarrow> waits \<Rightarrow> waits" where
  "swept_rows reason state now p ws = map (end_if reason state now {w \<in> set ws. p w}) ws"

lemma sweep_rows:
  "wf_waits ws \<Longrightarrow> sweep lc lost now ws =
     (List.map_filter (swept_of (sweep_reason lc lost)) (query_waits (\<lambda>w. is_pending w \<and> event_or_check w) ws),
      swept_rows (sweep_reason lc lost) WAIT_CANCELLED now (\<lambda>w. is_pending w \<and> event_or_check w) ws)"
  unfolding sweep_def swept_rows_def wf_waits_def
  by (subst end_each_map) (auto simp: distinct_query_waits)

lemma expire_rows:
  "wf_waits ws \<Longrightarrow> expire_overdue served now grace ws =
     (List.map_filter (swept_of (expire_reason served now))
        (query_waits (\<lambda>w. is_pending w \<and> event_or_check w \<and> w_due w + grace < now) ws),
      swept_rows (expire_reason served now) WAIT_EXPIRED now
        (\<lambda>w. is_pending w \<and> event_or_check w \<and> w_due w + grace < now) ws)"
  unfolding expire_overdue_def swept_rows_def wf_waits_def
  by (subst end_each_map) (auto simp: distinct_query_waits)

interpretation swept: wait_ender "\<lambda>ws. snd (sweep lc lost now ws)"
  by unfold_locales (auto simp: sweep_rows swept_rows_def intro!: map_ends_only end_if_ends_only)

interpretation expired: wait_ender "\<lambda>ws. snd (expire_overdue served now grace ws)"
  by unfold_locales (auto simp: expire_rows swept_rows_def intro!: map_ends_only end_if_ends_only)

section \<open>What the sweeps leave behind\<close>

lemma is_pending_ended [simp]: "is_pending (ended state now r x) \<longleftrightarrow> state = WAIT_PENDING"
  by (simp add: ended_def is_pending_def)

lemma query_waits_None_filter:
  "(\<And>w. w \<in> set ws \<Longrightarrow> p w \<Longrightarrow> g w = None) \<Longrightarrow> List.map_filter g (query_waits p ws) = []"
  by (auto simp: map_filter_def filter_empty_conv)

lemma end_if_none: "\<forall>x\<in>S. reason x = None \<Longrightarrow> end_if reason state now S x = x"
  by (simp add: end_if_def)

lemma swept_rows_left:
  assumes "state \<noteq> WAIT_PENDING" "w \<in> set (swept_rows reason state now p ws)" "is_pending w" "p w"
  shows "w \<in> set ws \<and> reason w = None"
proof -
  obtain x where x: "x \<in> set ws" "w = end_if reason state now {w \<in> set ws. p w} x"
    using assms(2) by (auto simp: swept_rows_def)
  have "x \<in> set ws \<and> p x \<longrightarrow> reason x = None"
    using x(2) assms(1,3) by (auto simp: end_if_def split: option.splits)
  moreover from this x have "w = x" by (auto simp: end_if_def)
  ultimately show ?thesis using x(1) assms(4) by simp
qed

lemma swept_rows_again:
  assumes "state \<noteq> WAIT_PENDING" "\<And>w. p w \<Longrightarrow> is_pending w"
  shows "swept_rows reason state now' p (swept_rows reason state now p ws) = swept_rows reason state now p ws"
proof -
  let ?ws = "swept_rows reason state now p ws"
  have "\<forall>x\<in>{w \<in> set ?ws. p w}. reason x = None"
    using swept_rows_left[OF assms(1)] assms(2) by blast
  then show ?thesis
    unfolding swept_rows_def[of _ _ _ _ ?ws] by (intro map_idI end_if_none)
qed

text \<open>C21: The startup sweep does what it promises: on a table with distinct ids, no pending
  \<^verbatim>\<open>event\<close> or \<^verbatim>\<open>check\<close> wait that has a reason to end is left, every other row is
  untouched, and a second sweep over the same node states ends nothing more.\<close>
theorem sweep_complete:
  fixes lc lost now later ws
  assumes "wf_waits ws"
  defines "ws' \<equiv> snd (sweep lc lost now ws)"
  shows "(\<forall>w\<in>set ws'. is_pending w \<and> event_or_check w \<longrightarrow> sweep_reason lc lost w = None)
    \<and> (\<forall>i<length ws. ws' ! i \<noteq> ws ! i \<longrightarrow>
          is_pending (ws ! i) \<and> event_or_check (ws ! i) \<and> sweep_reason lc lost (ws ! i) \<noteq> None
          \<and> w_state (ws' ! i) = WAIT_CANCELLED)
    \<and> sweep lc lost later ws' = ([], ws')"
proof (intro conjI)
  let ?p = "\<lambda>w. is_pending w \<and> event_or_check w"
  have ws': "ws' = swept_rows (sweep_reason lc lost) WAIT_CANCELLED now ?p ws"
    using assms by (simp add: sweep_rows)
  show left: "\<forall>w\<in>set ws'. ?p w \<longrightarrow> sweep_reason lc lost w = None"
    using swept_rows_left[of WAIT_CANCELLED _ "sweep_reason lc lost" now ?p ws] by (auto simp: ws')
  show "\<forall>i<length ws. ws' ! i \<noteq> ws ! i \<longrightarrow>
          is_pending (ws ! i) \<and> event_or_check (ws ! i) \<and> sweep_reason lc lost (ws ! i) \<noteq> None
          \<and> w_state (ws' ! i) = WAIT_CANCELLED"
    by (auto simp: ws' swept_rows_def end_if_def ended_def split: option.splits if_splits)
  have "wf_waits ws'" unfolding ws'_def by (rule swept.keeps_wf) (rule assms(1))
  moreover have "List.map_filter (swept_of (sweep_reason lc lost)) (query_waits ?p ws') = []"
    by (rule query_waits_None_filter) (use left in \<open>auto simp: swept_of_def\<close>)
  moreover have "swept_rows (sweep_reason lc lost) WAIT_CANCELLED later ?p ws' = ws'"
    unfolding ws' by (rule swept_rows_again) auto
  ultimately show "sweep lc lost later ws' = ([], ws')"
    by (simp add: sweep_rows)
qed

definition sample_wait :: wait where
  "sample_wait = \<lparr>w_id = 1, w_node = 7, w_kind = KIND_EVENT, w_spec = ''github:pr:5:checks'', w_every = None,
     w_due = 1000, w_state = WAIT_PENDING, w_created = 0, w_updated = 0, w_detail = None,
     w_attempt = 0, w_max = None, w_error = None, w_stay = Some 3\<rparr>"

theorem sweep_complete_witness:
  "sweep (\<lambda>_. Some (''done'', 9)) (\<lambda>_. False) 6
     (snd (sweep (\<lambda>_. Some (''done'', 9)) (\<lambda>_. False) 5 [sample_wait]))
   = ([], snd (sweep (\<lambda>_. Some (''done'', 9)) (\<lambda>_. False) 5 [sample_wait]))"
  using sweep_complete[of "[sample_wait]" "\<lambda>_. Some (''done'', 9)" "\<lambda>_. False" 5 6]
  by (simp add: wf_waits_def)

text \<open>Expiring ends exactly the pending \<^verbatim>\<open>event\<close> and \<^verbatim>\<open>check\<close> waits that are more
  than the grace past their time on a node nothing serves: a served or punctual row, an
  \<^verbatim>\<open>until\<close> row and a row of history stay as they are.\<close>
theorem expire_overdue_exact:
  assumes "wf_waits ws" "i < length ws"
  shows "snd (expire_overdue served now grace ws) ! i =
     (let w = ws ! i
      in if is_pending w \<and> event_or_check w \<and> w_due w + grace < now \<and> \<not> served (w_node w)
         then ended WAIT_EXPIRED now
                (''due '' @ show_int ((now - w_due w) div 60000) @ ''m ago and nothing was looking at it'') w
         else w)"
  using assms by (simp add: expire_rows swept_rows_def end_if_def expire_reason_def Let_def)

theorem expire_overdue_exact_witness:
  "w_state (snd (expire_overdue (\<lambda>_. False) 100000 90000 [sample_wait]) ! 0) = WAIT_EXPIRED"
  using expire_overdue_exact[of "[sample_wait]" 0 "\<lambda>_. False" 100000 90000]
  by (simp add: wf_waits_def sample_wait_def is_pending_def event_or_check_def ended_def)

text \<open>A pending wait is a fault exactly once it is past due by more than its grace, and
  the grace is 10 minutes on a node nothing schedules and otherwise two of the wait's own
  intervals, never under 2 minutes nor over an hour.\<close>
theorem expired_by_grace:
  "expired_by w now scheduled = Some late \<longleftrightarrow>
     late = now - w_due w \<and>
     (if scheduled
      then OVERDUE_MIN_GRACE_MS < late \<and>
           (OVERDUE_MAX_GRACE_MS < late \<or> 2 * (w_due w - w_updated w) < late)
      else UNSERVED_GRACE_MS < late)"
  by (auto simp: expired_by_def overdue_grace_def clamp_def Let_def grace_consts max_def min_def)

section \<open>Specs and creation\<close>

lemma split_on_map:
  "(\<And>c. p (f c) = p c) \<Longrightarrow> (\<And>c. \<not> p c \<Longrightarrow> f c = c) \<Longrightarrow> split_on p (map f s) = split_on p s"
  by (induction s) (auto split: list.splits)

lemma split_on_join:
  assumes "p c" "ws \<noteq> []" "\<forall>w\<in>set ws. list_all (\<lambda>x. \<not> p x) w"
  shows "split_on p (join [c] ws) = ws"
  using assms(2,3)
proof (induction "[c]" ws rule: join.induct)
  case (3 x y xs)
  then show ?case using assms(1) by (simp add: split_on_append_sep)
qed (auto simp: split_on_no_sep)

text \<open>An event spec has one spelling: normalising is idempotent, and the space form an
  agent writes (\<^verbatim>\<open>github:pr 5 checks\<close>) and the colon form normalise alike.\<close>
theorem normalize_spec_canonical:
  "normalize_spec (normalize_spec s) = normalize_spec s
   \<and> normalize_spec (map (\<lambda>c. if c = CHR '' '' then CHR '':'' else c) s) = normalize_spec s"
proof
  let ?ws = "filter (\<lambda>w. w \<noteq> []) (split_on spec_sep s)"
  have free: "\<forall>w\<in>set ?ws. list_all (\<lambda>x. \<not> spec_sep x) w"
    using split_on_sep_free by fastforce
  show "normalize_spec (normalize_spec s) = normalize_spec s"
  proof (cases "?ws = []")
    case True
    then show ?thesis by (simp add: normalize_spec_def)
  next
    case False
    have "split_on spec_sep (join '':'' ?ws) = ?ws"
      by (rule split_on_join) (use False free in \<open>auto simp: spec_sep_def\<close>)
    then show ?thesis by (simp add: normalize_spec_def)
  qed
  have "split_on spec_sep (map (\<lambda>c. if c = CHR '' '' then CHR '':'' else c) s) = split_on spec_sep s"
    by (rule split_on_map) (auto simp: spec_sep_def is_space_def)
  then show "normalize_spec (map (\<lambda>c. if c = CHR '' '' then CHR '':'' else c) s) = normalize_spec s"
    by (simp add: normalize_spec_def)
qed

text \<open>\<^verbatim>\<open>create\<close> succeeds exactly on a known kind whose guards hold, and then appends
  one pending row, with no failed look, of the node's current stay; otherwise it fails and
  writes nothing.\<close>
theorem create_wait_spec:
  "create_wait i now stay n nw ws =
     (if nw_kind nw = KIND_UNTIL
         \<or> nw_kind nw = KIND_EVENT \<and> CHR '':'' \<in> set (nw_spec nw)
         \<or> nw_kind nw = KIND_CHECK \<and> trim (nw_spec nw) \<noteq> [] \<and> is_some_and (\<lambda>s. 0 < s) (nw_every nw)
      then (let w = \<lparr>w_id = i, w_node = n, w_kind = nw_kind nw,
                 w_spec = (if nw_kind nw = KIND_EVENT then normalize_spec (nw_spec nw) else trim (nw_spec nw)),
                 w_every = nw_every nw, w_due = nw_due nw, w_state = WAIT_PENDING, w_created = now,
                 w_updated = now, w_detail = nw_detail nw, w_attempt = 0, w_max = None, w_error = None,
                 w_stay = stay\<rparr>
            in Inr (w, ws @ [w]))
      else Inl (if nw_kind nw = KIND_EVENT
                then ''an event wait needs `<source>:<match>` (got `'' @ normalize_spec (nw_spec nw) @ ''`)''
                else if nw_kind nw = KIND_CHECK
                then (if trim (nw_spec nw) = [] then ''a check wait needs a command''
                      else ''a check wait needs a positive interval'')
                else ''unknown wait kind `'' @ nw_kind nw @ ''` (expected until|event|check)''))"
  by (cases "nw_every nw") (auto simp: create_wait_def wait_kinds_def Let_def)

text \<open>The guard looks at the spec as written, so a spec of separators alone passes it.\<close>

lemma create_accepts_empty_event_spec:
  "\<exists>w. create_wait 1 0 None 7 (new_event '':'' 5) [] = Inr (w, [w]) \<and> w_spec w = []"
  by (simp add: create_wait_spec new_event_def normalize_spec_def spec_sep_def Let_def)

section \<open>Failed looks\<close>

text \<open>A look that fails, again and again, on the same wait.\<close>

fun fail_looks :: "uuid \<Rightarrow> (ms \<times> string \<times> ms option) list \<Rightarrow> waits \<Rightarrow> waits fallible" where
  "fail_looks i [] ws = Inr ws"
| "fail_looks i ((now, err, due) # rest) ws =
     (case record_failure now i err due ws of
        Inl e \<Rightarrow> Inl e
      | Inr (_, ws') \<Rightarrow> fail_looks i rest ws')"

lemma get_wait_map:
  "(\<And>w. w_id (f w) = w_id w) \<Longrightarrow> get_wait i (map f ws) = map_option f (get_wait i ws)"
  by (induction ws) (auto simp: get_wait_def)

definition failed_once :: "ms \<Rightarrow> string \<Rightarrow> ms option \<Rightarrow> wait \<Rightarrow> wait" where
  "failed_once now err due w =
     (let m = unwrap_or DEFAULT_MAX_ATTEMPTS (w_max w)
      in w\<lparr>w_attempt := (case due of Some _ \<Rightarrow> min (w_attempt w + 1) m | None \<Rightarrow> m),
           w_max := Some m, w_error := Some err, w_due := unwrap_or (w_due w) due, w_updated := now\<rparr>)"

lemma record_failure_row:
  assumes "get_wait i ws = Some w" "is_pending w"
  obtains ws' where "record_failure now i err due ws = Inr (failed_once now err due w, ws')"
    and "get_wait i ws' = Some (failed_once now err due w)"
proof -
  have i: "w_id w = i" using assms(1) get_wait_Some by blast
  define upd where "upd = (\<lambda>x::wait. x\<lparr>w_attempt := w_attempt (failed_once now err due w),
     w_max := w_max (failed_once now err due w), w_error := Some err,
     w_due := unwrap_or (w_due x) due, w_updated := now\<rparr>)"
  have upd: "upd w = failed_once now err due w"
    by (simp add: upd_def failed_once_def Let_def)
  let ?ws = "map (\<lambda>x. if w_id x = i then upd x else x) ws"
  have "record_failure now i err due ws = Inr (failed_once now err due w, ?ws)"
    using assms by (simp add: record_failure_def failed_once_def is_pending_def Let_def upd_def)
  moreover have "get_wait i ?ws = map_option (\<lambda>x. if w_id x = i then upd x else x) (get_wait i ws)"
    by (rule get_wait_map) (simp add: upd_def)
  ultimately show thesis using that assms(1) i upd by simp
qed

text \<open>From a fresh wait, failures that may pass are counted one by one and never beyond
  five; the wait is exhausted (the user's to fix) exactly when the fifth in a row is recorded or
  one is recorded that asking again cannot fix, and it stays pending throughout.\<close>
theorem failures_exhaust:
  assumes "get_wait i ws = Some w" "is_pending w" "w_attempt w = 0" "w_max w = None" "w_error w = None"
  shows "\<exists>ws' w'. fail_looks i fs ws = Inr ws' \<and> get_wait i ws' = Some w' \<and> is_pending w'
     \<and> w_attempt w' \<le> DEFAULT_MAX_ATTEMPTS
     \<and> (exhausted w' \<longleftrightarrow> DEFAULT_MAX_ATTEMPTS \<le> length fs \<or> (\<exists>(_, _, due)\<in>set fs. due = None))"
proof -
  let ?spent = "\<lambda>k fs. 5 \<le> k + length fs \<or> (\<exists>(_, _, due)\<in>set fs. due = None)"
  have step: "\<exists>ws' w'. fail_looks i fs ws = Inr ws' \<and> get_wait i ws' = Some w' \<and> is_pending w'
     \<and> w_attempt w' \<le> 5 \<and> w_max w' = Some 5 \<and> (w_error w' = None \<longleftrightarrow> w_error w = None \<and> fs = [])
     \<and> (w_attempt w' = 5 \<longleftrightarrow> ?spent (w_attempt w) fs)"
    if "get_wait i ws = Some w" "is_pending w" "w_attempt w \<le> 5" "w_max w = Some 5" for fs ws w
    using that
  proof (induction fs arbitrary: ws w)
    case Nil
    then show ?case by auto
  next
    case (Cons f fs)
    obtain now err due where f: "f = (now, err, due)" by (cases f)
    let ?w = "failed_once now err due w"
    obtain ws1 where ws1: "record_failure now i err due ws = Inr (?w, ws1)" "get_wait i ws1 = Some ?w"
      using record_failure_row[OF Cons.prems(1,2)] by metis
    have w: "w_attempt ?w = (case due of Some _ \<Rightarrow> min (w_attempt w + 1) 5 | None \<Rightarrow> 5)"
      "is_pending ?w" "w_max ?w = Some 5" "w_error ?w = Some err"
      using Cons.prems by (simp_all add: failed_once_def is_pending_def Let_def split: option.split)
    have "w_attempt ?w \<le> 5" using w(1) by (simp split: option.splits)
    note IH = Cons.IH[OF ws1(2) w(2) this w(3)]
    have "?spent (w_attempt ?w) fs \<longleftrightarrow> ?spent (w_attempt w) (f # fs)"
      using w(1) by (cases due) (auto simp: f min_def)
    with IH w(4) show ?case by (simp add: f ws1)
  qed
  define w0 where "w0 = w\<lparr>w_max := Some 5\<rparr>"
  show ?thesis
  proof (cases fs)
    case Nil
    then show ?thesis using assms by (auto simp: exhausted_def DEFAULT_MAX_ATTEMPTS_def)
  next
    case (Cons f rest)
    obtain now err due where f: "f = (now, err, due)" by (cases f)
    let ?w = "failed_once now err due w"
    obtain ws1 where ws1: "record_failure now i err due ws = Inr (?w, ws1)" "get_wait i ws1 = Some ?w"
      using record_failure_row[OF assms(1,2)] by metis
    have w: "w_attempt ?w = (case due of Some _ \<Rightarrow> 1 | None \<Rightarrow> 5)"
      "is_pending ?w" "w_max ?w = Some 5" "w_error ?w = Some err"
      using assms by (simp_all add: failed_once_def is_pending_def Let_def DEFAULT_MAX_ATTEMPTS_def split: option.split)
    have "w_attempt ?w \<le> 5" using w(1) by (simp split: option.splits)
    note st = step[OF ws1(2) w(2) this w(3), of rest]
    have "?spent (w_attempt ?w) rest \<longleftrightarrow> ?spent 0 fs"
      using w(1) by (cases due) (auto simp: Cons f)
    then show ?thesis
      using st w(4) by (fastforce simp: Cons f ws1 exhausted_def DEFAULT_MAX_ATTEMPTS_def)
  qed
qed

theorem failures_exhaust_witness:
  "\<exists>ws' w'. fail_looks 1 [(1, ''503'', Some 2), (2, ''401'', None)] [sample_wait] = Inr ws'
     \<and> get_wait 1 ws' = Some w' \<and> exhausted w'"
  using failures_exhaust[of 1 "[sample_wait]" sample_wait "[(1, ''503'', Some 2), (2, ''401'', None)]"]
  by (auto simp: sample_wait_def get_wait_def is_pending_def)

section \<open>Due times\<close>

text \<open>The wake a node schedules is right: \<^verbatim>\<open>next_due\<close> is the due time of the first row of
  its pending list, and at any time the node has a row in \<^verbatim>\<open>due\<close> exactly when that wake has
  come.\<close>
theorem next_due_spec:
  "next_due n ws = map_option w_due (case list_pending_for_node n ws of [] \<Rightarrow> None | w # _ \<Rightarrow> Some w)
   \<and> ((\<exists>w\<in>set (due_waits now ws). w_node w = n) \<longleftrightarrow> is_some_and (\<lambda>d. d \<le> now) (next_due n ws))"
proof -
  let ?p = "\<lambda>w. w_node w = n \<and> is_pending w"
  have set_l: "set (list_pending_for_node n ws) = {w \<in> set ws. ?p w}"
    by (simp add: list_pending_for_node_def)
  show ?thesis
  proof (cases "min_by_key w_due (filter ?p ws)")
    case None
    then have "\<forall>w\<in>set ws. \<not> ?p w" by (simp add: filter_empty_conv)
    then have np: "\<And>w. w \<in> set ws \<Longrightarrow> w_node w = n \<Longrightarrow> \<not> is_pending w" by blast
    have l: "list_pending_for_node n ws = []"
    proof (rule ccontr)
      assume "list_pending_for_node n ws \<noteq> []"
      then have "hd (list_pending_for_node n ws) \<in> {w \<in> set ws. ?p w}"
        using set_l hd_in_set by metis
      then show False using np by blast
    qed
    have nd: "next_due n ws = None" using None by (simp add: next_due_def)
    show ?thesis using np by (auto simp: l nd due_waits_def)
  next
    case (Some m)
    have m: "m \<in> set ws" "?p m" using min_by_key_in[OF Some] by auto
    have le: "w_due m \<le> w_due w" if "w \<in> set ws" "?p w" for w
      using min_by_key_le[OF Some] that by simp
    obtain h t where l: "list_pending_for_node n ws = h # t"
      using m set_l by (cases "list_pending_for_node n ws") auto
    have h: "h \<in> set ws" "?p h" using set_l l by auto
    have "\<forall>w\<in>set (h # t). w_due h \<le> w_due w"
      using sorted_query_waits[of ?p ws] l by (auto simp: list_pending_for_node_def less_eq_prod_def)
    then have "w_due h \<le> w_due m" using m set_l l by auto
    then have "w_due h = w_due m" using le[OF h] by simp
    then show ?thesis using Some l m le by (fastforce simp: next_due_def due_waits_def)
  qed
qed

section \<open>Durations\<close>

lemma trim_no_space:
  assumes "list_all (\<lambda>c. \<not> is_space c) s"
  shows "trim s = s"
proof -
  have "dropWhile is_space t = t" if "list_all (\<lambda>c. \<not> is_space c) t" for t
    using that by (cases t) auto
  then show ?thesis using assms by (simp add: trim_def)
qed

lemma digit_no_space: "is_digit c \<Longrightarrow> \<not> is_space c"
  by (auto simp: is_digit_def is_space_def)

lemma wrap64_id: "- (2 ^ 63) \<le> i \<Longrightarrow> i < 2 ^ 63 \<Longrightarrow> wrap64 i = i"
  by (simp add: wrap64_def)

lemma unit_letters: "unit_mult u = Some m \<Longrightarrow> list_all (\<lambda>c. \<not> is_digit c \<and> \<not> is_space c) u \<and> m \<in> {1, 60, 3600, 86400}"
  by (auto simp: unit_mult_def is_digit_def is_space_def split: if_splits)

lemma parse_duration_digits:
  assumes "unit_mult u = Some m" "list_all is_digit ds" "ds \<noteq> []"
  shows "parse_duration (ds @ u) =
     (if I64_MAX < int (digits_value ds)
      then Inl (''`'' @ ds @ u @ ''` is not a duration (e.g. 30s, 5m, 2h, 1d)'')
      else if digits_value ds = 0 then Inl (''a duration must be positive (got `'' @ ds @ u @ ''`)'')
      else Inr (wrap64 (int (digits_value ds) * m)))"
proof -
  have u: "list_all (\<lambda>c. \<not> is_digit c) u" "list_all (\<lambda>c. \<not> is_space c) u"
    using unit_letters[OF assms(1)] by (auto simp: list_all_iff)
  have tr: "trim (ds @ u) = ds @ u"
    by (rule trim_no_space) (use assms(2) u(2) digit_no_space in \<open>auto simp: list_all_iff\<close>)
  have tw: "takeWhile is_digit (ds @ u) = ds" "dropWhile is_digit (ds @ u) = u"
    using assms(2) u(1) by (cases u; simp add: list_all_iff takeWhile_append dropWhile_append)+
  show ?thesis
    using assms(1,3) by (simp add: parse_duration_def Let_def tr tw parse_i64_digits_def)
qed

text \<open>A duration that is written as a positive number of a unit and whose seconds fit an
  \<^verbatim>\<open>i64\<close> parses back to exactly that many seconds.\<close>
theorem parse_duration_roundtrip:
  assumes "unit_mult u = Some m" "0 < n" "int n * m \<le> I64_MAX"
  shows "parse_duration (show_nat n @ u) = Inr (int n * m)"
proof -
  have "m \<ge> 1" using unit_letters[OF assms(1)] by auto
  then have "int n \<le> int n * m" using assms(2) by (simp add: mult_le_cancel_left1)
  then have fits: "\<not> I64_MAX < int n" using assms(3) by linarith
  have "wrap64 (int n * m) = int n * m"
    by (rule wrap64_id) (use assms(3) \<open>int n \<le> int n * m\<close> in \<open>auto simp: I64_MAX_def\<close>)
  then show ?thesis
    using assms fits show_nat_digits by (simp add: parse_duration_digits)
qed

theorem parse_duration_roundtrip_witness: "parse_duration ''90m'' = Inr 5400"
proof -
  have "show_nat 90 = ''90''" by (simp add: show_nat.simps char_of_eq_iff)
  then show ?thesis
    using parse_duration_roundtrip[of "''m''" 60 90] by (simp add: unit_mult_def I64_MAX_def)
qed

text \<open>Past that bound the product wraps: a duration accepted as positive can come out negative.\<close>

lemma parse_duration_can_wrap: "\<exists>s. parse_duration ''106751991167301d'' = Inr s \<and> s < 0"
proof -
  have "parse_duration (''106751991167301'' @ ''d'') = Inr (wrap64 (106751991167301 * 86400))"
    by (subst parse_duration_digits[where m = 86400])
      (simp_all add: unit_mult_def is_digit_def digits_value_def I64_MAX_def)
  then show ?thesis by (simp add: wrap64_def)
qed

end
