(* ===== verification/Interfaces.thy ===== *)
theory Interfaces
  imports Prelude
begin

text \<open>
  The contracts several components share, each a locale whose laws the components
  discharge on their own operations: a table with one row per node
  (\<^verbatim>\<open>node_id\<close> is its primary key), and a proof of liveness by heartbeat.
\<close>

section \<open>One row per node\<close>

text \<open>A put addressed to a node touches that node's row only, and looks at that row only.\<close>

locale node_table =
  fixes put :: "'a \<Rightarrow> uuid \<Rightarrow> (uuid \<Rightarrow> 'r option) \<Rightarrow> (uuid \<Rightarrow> 'r option)"
  assumes frame: "m \<noteq> n \<Longrightarrow> put a n db m = db m"
    and locality: "db n = db' n \<Longrightarrow> put a n db n = put a n db' n"
begin

definition writes :: "('a \<times> uuid) list \<Rightarrow> (uuid \<Rightarrow> 'r option) \<Rightarrow> (uuid \<Rightarrow> 'r option)" where
  "writes evs db = fold (\<lambda>(a, n). put a n) evs db"

lemma writes_simps [simp]:
  "writes [] db = db" "writes ((a, n) # evs) db = writes evs (put a n db)"
  by (simp_all add: writes_def)

lemma writes_local: "db n = db' n \<Longrightarrow> writes evs db n = writes evs db' n"
proof (induction evs arbitrary: db db')
  case (Cons ev evs)
  obtain a m where ev: "ev = (a, m)" by (cases ev)
  have "put a m db n = put a m db' n"
  proof (cases "m = n")
    case True
    show ?thesis unfolding True by (rule locality) (rule Cons.prems)
  next
    case False
    then show ?thesis by (simp add: frame Cons.prems)
  qed
  then have "writes evs (put a m db) n = writes evs (put a m db') n" by (rule Cons.IH)
  then show ?case by (simp add: ev)
qed simp

text \<open>A node's row after any interleaving of writes is what its own writes make of it.\<close>

lemma own_writes: "writes evs db n = writes (filter (\<lambda>(_, m). m = n) evs) db n"
proof (induction evs arbitrary: db)
  case (Cons ev evs)
  obtain a m where ev: "ev = (a, m)" by (cases ev)
  show ?case
  proof (cases "m = n")
    case True
    then show ?thesis by (simp add: ev Cons.IH)
  next
    case False
    have "writes evs (put a m db) n = writes evs db n"
      by (rule writes_local) (use False frame in auto)
    then show ?thesis using False by (simp add: ev Cons.IH)
  qed
qed simp

lemma writes_commute: "m \<noteq> n \<Longrightarrow> put a m (put b n db) = put b n (put a m db)"
proof (rule ext)
  fix k
  assume "m \<noteq> n"
  then show "put a m (put b n db) k = put b n (put a m db) k"
    by (cases "k = m"; cases "k = n") (auto simp: frame intro: locality)
qed

end

section \<open>Liveness by heartbeat\<close>

locale heartbeat =
  fixes live :: "'p \<Rightarrow> ms \<Rightarrow> bool"
    and working :: "'p \<Rightarrow> bool"
    and beat_at :: "'p \<Rightarrow> ms"
    and window :: ms
  assumes live_iff: "live p now \<longleftrightarrow> working p \<and> now - beat_at p \<le> window"
    and window_pos: "0 < window"
begin

lemma live_earlier: "live p now \<Longrightarrow> t \<le> now \<Longrightarrow> live p t"
  by (auto simp: live_iff)

lemma dead_stays: "\<not> live p now \<Longrightarrow> now \<le> t \<Longrightarrow> \<not> live p t"
  by (auto simp: live_iff)

lemma silence_kills: "beat_at p + window < now \<Longrightarrow> \<not> live p now"
  by (auto simp: live_iff)

end

locale beating = heartbeat +
  fixes beat :: "ms \<Rightarrow> 'a \<Rightarrow> 'a"
  assumes beat_working: "working (beat t p)"
    and beat_stamps: "beat_at (beat t p) = t"
begin

lemma live_at_beat: "t \<le> s + window \<Longrightarrow> live (beat s p) t"
  by (simp add: live_iff beat_working beat_stamps)

text \<open>An owner that beats with gaps of at most the window is live from its first beat until
  the window past its last, and from then on it is not.\<close>

lemma kept_alive:
  assumes "sorted (t0 # ts)" "successively (\<lambda>a b. b \<le> a + window) (t0 # ts)"
    and "t0 \<le> t" "t \<le> last (t0 # ts) + window"
  shows "live (fold beat (takeWhile (\<lambda>s. s \<le> t) (t0 # ts)) p) t"
  using assms
proof (induction ts arbitrary: t0 p)
  case Nil
  then show ?case by (simp add: live_at_beat)
next
  case (Cons t1 ts)
  show ?case
  proof (cases "t1 \<le> t")
    case True
    have "live (fold beat (takeWhile (\<lambda>s. s \<le> t) (t1 # ts)) (beat t0 p)) t"
      by (rule Cons.IH) (use Cons.prems True in auto)
    then show ?thesis using Cons.prems(3) by simp
  next
    case False
    then have "t \<le> t0 + window" using Cons.prems(2) by simp
    with False Cons.prems(3) show ?thesis by (simp add: live_at_beat)
  qed
qed

lemma silent_dies:
  "last (t0 # ts) + window < t \<Longrightarrow> \<not> live (fold beat (t0 # ts) p) t"
proof (rule silence_kills)
  have "beat_at (fold beat (t0 # ts) p) = last (t0 # ts)"
    by (induction ts arbitrary: t0 p) (simp_all add: beat_stamps)
  then show "last (t0 # ts) + window < t \<Longrightarrow> beat_at (fold beat (t0 # ts) p) + window < t" by simp
qed

end

end
