(* ===== verification/Activity.thy ===== *)
theory Activity
  imports Interfaces "HOL-Library.Product_Lexorder" "HOL-Library.List_Lexorder" "HOL-Library.Char_ord"
begin

text \<open>
  The proofs that something is at work on a node, and the two small tables kept beside it:
  activity leases (\<^verbatim>\<open>tod-store/src/activity.rs\<close>, a list of rows since a node may hold
  several), the supervisor's heartbeat (\<^verbatim>\<open>cloud_activity.rs\<close>), the user's deferrals
  (\<^verbatim>\<open>deferrals.rs\<close>) and the problems of background jobs (\<^verbatim>\<open>node_problems.rs\<close>).
\<close>

section \<open>Leases\<close>

definition HEARTBEAT_EVERY_MS :: ms where "HEARTBEAT_EVERY_MS = 5000"
definition STALE_AFTER_MS :: ms where "STALE_AFTER_MS = 20000"

abbreviation KIND_CHAT :: string where "KIND_CHAT \<equiv> ''chat''"
abbreviation KIND_RUN :: string where "KIND_RUN \<equiv> ''run''"
abbreviation KIND_CLOUD_START :: string where "KIND_CLOUD_START \<equiv> ''cloud_start''"
abbreviation KIND_CLOUD_REPAIR :: string where "KIND_CLOUD_REPAIR \<equiv> ''cloud_repair''"
abbreviation KIND_GATE_CHECK :: string where "KIND_GATE_CHECK \<equiv> ''gate_check''"
abbreviation KIND_INCOMING_CHECK :: string where "KIND_INCOMING_CHECK \<equiv> ''incoming_check''"
abbreviation KIND_PROTOCOL_PREFIX :: string where "KIND_PROTOCOL_PREFIX \<equiv> ''protocol:''"

record lease =
  l_id :: uuid
  l_node :: uuid
  l_kind :: string
  l_owner :: string
  l_started :: ms
  l_heartbeat :: ms

type_synonym leases = "lease list"

definition lease_live :: "lease \<Rightarrow> ms \<Rightarrow> bool" where
  "lease_live l now = (now - l_heartbeat l \<le> STALE_AFTER_MS)"

definition is_lifecycle :: "lease \<Rightarrow> bool" where
  "is_lifecycle l = (l_kind l \<noteq> KIND_CHAT)"

definition clear_lost_of :: "uuid \<Rightarrow> bool \<Rightarrow> ms \<Rightarrow> leases \<Rightarrow> leases" where
  "clear_lost_of n chat now ls =
     filter (\<lambda>l. \<not> (l_node l = n \<and> (if chat then l_kind l = KIND_CHAT else l_kind l \<noteq> KIND_CHAT)
                    \<and> l_heartbeat l < now - STALE_AFTER_MS)) ls"

definition clear_lost :: "uuid \<Rightarrow> ms \<Rightarrow> leases \<Rightarrow> nat \<times> leases" where
  "clear_lost n now ls = (let ls' = clear_lost_of n False now ls in (length ls - length ls', ls'))"

text \<open>\<^verbatim>\<open>ActivityRepo::start\<close>; \<open>None\<close> when the insert breaks the primary key.\<close>

definition start_lease :: "uuid \<Rightarrow> uuid \<Rightarrow> string \<Rightarrow> string \<Rightarrow> ms \<Rightarrow> leases \<Rightarrow> leases option" where
  "start_lease i n kind owner now ls =
     (let kept = clear_lost_of n (kind = KIND_CHAT) now ls
      in if i \<in> l_id ` set kept then None
         else Some (kept @ [\<lparr>l_id = i, l_node = n, l_kind = kind, l_owner = owner,
                             l_started = now, l_heartbeat = now\<rparr>]))"

definition beat_lease :: "uuid \<Rightarrow> ms \<Rightarrow> leases \<Rightarrow> bool \<times> leases" where
  "beat_lease i now ls =
     (list_ex (\<lambda>l. l_id l = i) ls,
      map (\<lambda>l. if l_id l = i then l\<lparr>l_heartbeat := now\<rparr> else l) ls)"

definition end_lease :: "uuid \<Rightarrow> leases \<Rightarrow> leases" where
  "end_lease i ls = filter (\<lambda>l. l_id l \<noteq> i) ls"

definition leases_for_nodes :: "uuid list \<Rightarrow> leases \<Rightarrow> leases" where
  "leases_for_nodes ns ls =
     (if ns = [] then [] else sort_key l_started (filter (\<lambda>l. l_node l \<in> set ns) ls))"

text \<open>\<^verbatim>\<open>ActivityLease::beat\<close>: a polling holder refreshes only once a beat is due.\<close>

definition poll_beat :: "uuid \<Rightarrow> ms \<Rightarrow> ms \<times> leases \<Rightarrow> ms \<times> leases" where
  "poll_beat i now s =
     (let (last_beat, ls) = s
      in if now - last_beat < HEARTBEAT_EVERY_MS then (last_beat, ls)
         else (now, snd (beat_lease i now ls)))"

section \<open>The supervisor's heartbeat\<close>

definition BEAT_EVERY_MS :: ms where "BEAT_EVERY_MS = 15000"
definition CLOUD_STALE_AFTER_MS :: ms where "CLOUD_STALE_AFTER_MS = 60000"

abbreviation IDLE_WHAT :: string where "IDLE_WHAT \<equiv> ''idle''"
abbreviation STARTING_WHAT :: string where "STARTING_WHAT \<equiv> ''starting''"

record cloud_beat =
  cb_node :: uuid
  cb_started :: ms
  cb_heartbeat :: ms
  cb_what :: string
  cb_stopped :: "string option"

type_synonym cloud_beats = "uuid \<Rightarrow> cloud_beat option"

definition cb_idle :: "cloud_beat \<Rightarrow> bool" where
  "cb_idle b = (cb_what b = IDLE_WHAT)"

definition cb_live :: "cloud_beat \<Rightarrow> ms \<Rightarrow> bool" where
  "cb_live b now = (\<not> cb_idle b \<and> now - cb_heartbeat b \<le> CLOUD_STALE_AFTER_MS)"

definition cloud_beat_now :: "uuid \<Rightarrow> string \<Rightarrow> ms \<Rightarrow> cloud_beats \<Rightarrow> cloud_beats" where
  "cloud_beat_now n what now t =
     t(n \<mapsto> (case t n of
               None \<Rightarrow> \<lparr>cb_node = n, cb_started = now, cb_heartbeat = now, cb_what = what, cb_stopped = None\<rparr>
             | Some b \<Rightarrow> b\<lparr>cb_heartbeat := now, cb_what := what, cb_stopped := None\<rparr>))"

definition idle_stopped :: "uuid \<Rightarrow> string option \<Rightarrow> ms \<Rightarrow> cloud_beats \<Rightarrow> cloud_beats" where
  "idle_stopped n stopped now t =
     (let reason = opt_filter (\<lambda>s. s \<noteq> []) (map_option trim stopped);
          t' = cloud_beat_now n IDLE_WHAT now t
      in t'(n := map_option (\<lambda>b. b\<lparr>cb_stopped := reason\<rparr>) (t' n)))"

definition idle :: "uuid \<Rightarrow> ms \<Rightarrow> cloud_beats \<Rightarrow> cloud_beats" where
  "idle n now t = idle_stopped n None now t"

definition end_cloud :: "uuid \<Rightarrow> cloud_beats \<Rightarrow> cloud_beats" where
  "end_cloud n t = t(n := None)"

section \<open>Deferrals\<close>

record deferral =
  d_node :: uuid
  d_until :: "ms option"
  d_deferred_at :: ms

type_synonym deferrals = "uuid \<Rightarrow> deferral option"

definition set_deferral :: "uuid \<Rightarrow> ms option \<Rightarrow> ms \<Rightarrow> deferrals \<Rightarrow> deferrals" where
  "set_deferral n until now t = t(n \<mapsto> \<lparr>d_node = n, d_until = until, d_deferred_at = now\<rparr>)"

definition clear_deferral :: "uuid \<Rightarrow> deferrals \<Rightarrow> deferrals" where
  "clear_deferral n t = t(n := None)"

section \<open>Problems of background jobs\<close>

abbreviation KIND_SANDBOX_RETIRE :: string where "KIND_SANDBOX_RETIRE \<equiv> ''sandbox_retire''"
abbreviation KIND_ADOPT :: string where "KIND_ADOPT \<equiv> ''adopt''"
abbreviation KIND_CLOUD_RECORD :: string where "KIND_CLOUD_RECORD \<equiv> ''cloud_record''"

record node_problem =
  np_node :: uuid
  np_kind :: string
  np_message :: string
  np_transient :: bool
  np_first :: ms
  np_updated :: ms

type_synonym problems = "node_problem list"

definition new_problem :: "uuid \<Rightarrow> string \<Rightarrow> string \<Rightarrow> ms \<Rightarrow> node_problem" where
  "new_problem n kind message now =
     \<lparr>np_node = n, np_kind = kind, np_message = message, np_transient = False, np_first = now, np_updated = now\<rparr>"

definition same_problem :: "node_problem \<Rightarrow> node_problem \<Rightarrow> bool" where
  "same_problem p q = (np_node p = np_node q \<and> np_kind p = np_kind q)"

definition record_problem :: "node_problem \<Rightarrow> problems \<Rightarrow> problems" where
  "record_problem p ps =
     (if list_ex (same_problem p) ps
      then map (\<lambda>q. if same_problem p q \<and> (np_message q \<noteq> np_message p \<or> np_transient q \<noteq> np_transient p)
                    then q\<lparr>np_message := np_message p, np_transient := np_transient p, np_updated := np_updated p\<rparr>
                    else q) ps
      else ps @ [p])"

definition clear_problem :: "uuid \<Rightarrow> string \<Rightarrow> problems \<Rightarrow> problems" where
  "clear_problem n kind ps = filter (\<lambda>q. \<not> (np_node q = n \<and> np_kind q = kind)) ps"

definition list_problems :: "problems \<Rightarrow> problems" where
  "list_problems ps = sort_key (\<lambda>p. (np_first p, np_kind p)) ps"

definition problems_for_nodes :: "uuid list \<Rightarrow> problems \<Rightarrow> problems" where
  "problems_for_nodes ns ps =
     (if ns = [] then [] else list_problems (filter (\<lambda>p. np_node p \<in> set ns) ps))"

section \<open>The contracts\<close>

interpretation lease_beat: beating lease_live "\<lambda>_. True" l_heartbeat STALE_AFTER_MS "\<lambda>t l. l\<lparr>l_heartbeat := t\<rparr>"
  by unfold_locales (simp_all add: lease_live_def STALE_AFTER_MS_def)

interpretation cloud_hb: heartbeat cb_live "\<lambda>b. \<not> cb_idle b" cb_heartbeat CLOUD_STALE_AFTER_MS
  by unfold_locales (simp_all add: cb_live_def CLOUD_STALE_AFTER_MS_def)

text \<open>The writes of the one-row tables: the supervisor's (a heartbeat, a sleep, an end)
  and the user's deferrals.\<close>

datatype beat_write = Beat string ms | Sleep "string option" ms | EndCloud

fun write_beat :: "beat_write \<Rightarrow> uuid \<Rightarrow> cloud_beats \<Rightarrow> cloud_beats" where
  "write_beat (Beat what now) n t = cloud_beat_now n what now t"
| "write_beat (Sleep stopped now) n t = idle_stopped n stopped now t"
| "write_beat EndCloud n t = end_cloud n t"

interpretation beats: node_table write_beat
proof
  fix m n :: uuid and a and db db' :: cloud_beats
  show "m \<noteq> n \<Longrightarrow> write_beat a n db m = db m"
    by (cases a) (simp_all add: cloud_beat_now_def idle_stopped_def end_cloud_def Let_def)
  show "db n = db' n \<Longrightarrow> write_beat a n db n = write_beat a n db' n"
    by (cases a) (simp_all add: cloud_beat_now_def idle_stopped_def end_cloud_def Let_def)
qed

datatype deferral_write = Defer "ms option" ms | Return

fun write_deferral :: "deferral_write \<Rightarrow> uuid \<Rightarrow> deferrals \<Rightarrow> deferrals" where
  "write_deferral (Defer until now) n t = set_deferral n until now t"
| "write_deferral Return n t = clear_deferral n t"

interpretation deferred: node_table write_deferral
proof
  fix m n :: uuid and a and db db' :: deferrals
  show "m \<noteq> n \<Longrightarrow> write_deferral a n db m = db m"
    by (cases a) (simp_all add: set_deferral_def clear_deferral_def)
  show "db n = db' n \<Longrightarrow> write_deferral a n db n = write_deferral a n db' n"
    by (cases a) (simp_all add: set_deferral_def clear_deferral_def)
qed

section \<open>Properties\<close>

text \<open>Starting work on a node drops exactly the leases of its class (lifecycle or chat)
  that are not live any more, so it can end "lost" but never takes a live owner's proof away;
  the new lease is live for twenty seconds.\<close>
theorem start_lease_spec:
  assumes "start_lease i n kind owner now ls = Some ls'"
  shows "set ls' = insert \<lparr>l_id = i, l_node = n, l_kind = kind, l_owner = owner, l_started = now, l_heartbeat = now\<rparr>
            {l \<in> set ls. lease_live l now \<or> l_node l \<noteq> n \<or> (is_lifecycle l \<longleftrightarrow> kind = KIND_CHAT)}
       \<and> (\<forall>t. now \<le> t \<and> t \<le> now + STALE_AFTER_MS \<longrightarrow> (\<exists>l\<in>set ls'. l_id l = i \<and> lease_live l t))"
  using assms
  by (auto simp: start_lease_def clear_lost_of_def lease_live_def is_lifecycle_def Let_def
      split: if_splits)

theorem start_lease_spec_witness:
  "\<exists>l\<in>set [\<lparr>l_id = 1, l_node = 7, l_kind = KIND_RUN, l_owner = ''app'', l_started = 5, l_heartbeat = 5\<rparr>].
      l_id l = 1 \<and> lease_live l 20005"
  using start_lease_spec[of 1 7 KIND_RUN "''app''" 5 "[]"
      "[\<lparr>l_id = 1, l_node = 7, l_kind = KIND_RUN, l_owner = ''app'', l_started = 5, l_heartbeat = 5\<rparr>]"]
  by (simp add: start_lease_def clear_lost_of_def STALE_AFTER_MS_def)

text \<open>A lease whose owner beats with gaps of at most twenty seconds proves it at work at
  every moment from its first beat to twenty seconds past its last, and never after.\<close>
theorem beats_prove_work:
  assumes "sorted (t0 # ts)" "successively (\<lambda>a b. b \<le> a + STALE_AFTER_MS) (t0 # ts)"
  shows "(t0 \<le> t \<and> t \<le> last (t0 # ts) + STALE_AFTER_MS \<longrightarrow>
            lease_live (fold (\<lambda>s l. l\<lparr>l_heartbeat := s\<rparr>) (takeWhile (\<lambda>s. s \<le> t) (t0 # ts)) l) t)
       \<and> (last (t0 # ts) + STALE_AFTER_MS < t \<longrightarrow>
            \<not> lease_live (fold (\<lambda>s l. l\<lparr>l_heartbeat := s\<rparr>) (t0 # ts) l) t)"
  using lease_beat.kept_alive[OF assms] lease_beat.silent_dies by blast

theorem beats_prove_work_witness:
  "lease_live \<lparr>l_id = 1, l_node = 7, l_kind = KIND_RUN, l_owner = ''app'', l_started = 0, l_heartbeat = 5000\<rparr> 9000"
  using beats_prove_work[of 0 "[5000, 10000]" 9000
      "\<lparr>l_id = 1, l_node = 7, l_kind = KIND_RUN, l_owner = ''app'', l_started = 0, l_heartbeat = 0\<rparr>"]
  by (simp add: STALE_AFTER_MS_def)

text \<open>A wake that ended is asleep, not lost: after \<^verbatim>\<open>idle_stopped\<close> the node's row is idle
  and never live, keeps when the run began, and carries the trimmed reason only if it is not
  blank; the next heartbeat makes the row live and clears the reason; no other node's row moves.\<close>
theorem idle_stopped_spec:
  "\<exists>b. idle_stopped n stopped now t n = Some b \<and> cb_idle b \<and> \<not> cb_live b later
     \<and> cb_started b = (case t n of None \<Rightarrow> now | Some b0 \<Rightarrow> cb_started b0)
     \<and> cb_stopped b = opt_filter (\<lambda>s. s \<noteq> []) (map_option trim stopped)
     \<and> (\<exists>b'. cloud_beat_now n ''building'' later (idle_stopped n stopped now t) n = Some b'
            \<and> cb_live b' later \<and> cb_stopped b' = None \<and> cb_started b' = cb_started b)"
  by (auto simp: idle_stopped_def cloud_beat_now_def cb_idle_def cb_live_def CLOUD_STALE_AFTER_MS_def Let_def
      split: option.split)

text \<open>The heartbeats of many nodes interleave without harm: a node's row depends only on
  the writes addressed to it.\<close>
theorem beats_of_a_node:
  "fold (\<lambda>(a, m). write_beat a m) evs t n
     = fold (\<lambda>(a, m). write_beat a m) (filter (\<lambda>(_, m). m = n) evs) t n"
  using beats.own_writes[of evs t n] by (simp add: beats.writes_def)

definition wf_problems :: "problems \<Rightarrow> bool" where
  "wf_problems ps = distinct (map (\<lambda>p. (np_node p, np_kind p)) ps)"

definition problem_upd :: "node_problem \<Rightarrow> node_problem \<Rightarrow> node_problem" where
  "problem_upd p q =
     (if same_problem p q \<and> (np_message q \<noteq> np_message p \<or> np_transient q \<noteq> np_transient p)
      then q\<lparr>np_message := np_message p, np_transient := np_transient p, np_updated := np_updated p\<rparr> else q)"

lemma record_problem_alt:
  "record_problem p ps = (if list_ex (same_problem p) ps then map (problem_upd p) ps else ps @ [p])"
  unfolding record_problem_def problem_upd_def by simp

lemma problem_upd_simps [simp]:
  "np_node (problem_upd p q) = np_node q" "np_kind (problem_upd p q) = np_kind q"
  "same_problem r (problem_upd p q) = same_problem r q"
  "problem_upd p (problem_upd p q) = problem_upd p q" "problem_upd p p = p"
  by (auto simp: problem_upd_def same_problem_def)

lemma problem_upd_other: "\<not> same_problem p q \<Longrightarrow> problem_upd p q = q"
  by (simp add: problem_upd_def)

lemma same_problem_refl [simp]: "same_problem p p"
  by (simp add: same_problem_def)

lemma find_map_problem_upd:
  "find (same_problem p) (map (problem_upd p) ps) = map_option (problem_upd p) (find (same_problem p) ps)"
  by (induction ps) auto

lemma find_append_same:
  "\<not> list_ex (same_problem p) ps \<Longrightarrow> find (same_problem p) (ps @ [p]) = Some p"
  by (induction ps) auto

lemma problem_upd_idem: "map (problem_upd p) (map (problem_upd p) ps) = map (problem_upd p) ps"
  by simp

lemma clear_problem_upd:
  "clear_problem (np_node p) (np_kind p) (map (problem_upd p) ps) = clear_problem (np_node p) (np_kind p) ps"
  by (induction ps) (auto simp: clear_problem_def problem_upd_def same_problem_def)

text \<open>Recording a problem twice is recording it once, the first failure time survives, and
  there is at most one row for a node and kind; clearing it undoes the record.\<close>
theorem record_problem_spec:
  assumes "wf_problems ps"
  shows "wf_problems (record_problem p ps)
       \<and> record_problem p (record_problem p ps) = record_problem p ps
       \<and> find (same_problem p) (record_problem p ps) =
           Some (case find (same_problem p) ps of
                   None \<Rightarrow> p
                 | Some q \<Rightarrow> if np_message q = np_message p \<and> np_transient q = np_transient p then q
                            else q\<lparr>np_message := np_message p, np_transient := np_transient p,
                                   np_updated := np_updated p\<rparr>)
       \<and> clear_problem (np_node p) (np_kind p) (record_problem p ps) = clear_problem (np_node p) (np_kind p) ps"
proof (cases "list_ex (same_problem p) ps")
  case True
  then obtain q where q: "find (same_problem p) ps = Some q"
    using find_isSome_iff by metis
  then have "same_problem p q" using find_Some_in by metis
  then have upd: "problem_upd p q = (if np_message q = np_message p \<and> np_transient q = np_transient p then q
      else q\<lparr>np_message := np_message p, np_transient := np_transient p, np_updated := np_updated p\<rparr>)"
    by (auto simp: problem_upd_def)
  have "list_ex (same_problem p) (map (problem_upd p) ps)"
    using True by (simp add: list_ex_iff)
  moreover have "map (\<lambda>p. (np_node p, np_kind p)) (map (problem_upd p) ps) = map (\<lambda>p. (np_node p, np_kind p)) ps"
    by simp
  ultimately show ?thesis
    using True q upd assms
    by (simp add: record_problem_alt problem_upd_idem find_map_problem_upd clear_problem_upd
        wf_problems_def comp_def del: map_map)
next
  case False
  have ex: "list_ex (same_problem p) (ps @ [p])" by simp
  have other: "map (problem_upd p) ps = ps"
    using False by (auto simp: list_ex_iff intro!: map_idI problem_upd_other)
  have "wf_problems (ps @ [p])"
    using assms False by (auto simp: wf_problems_def list_ex_iff same_problem_def)
  moreover have "find (same_problem p) ps = None"
    using False by (simp add: find_None_list_all list_ex_iff list_all_iff)
  ultimately show ?thesis
    using False ex other
    by (simp add: record_problem_alt find_append_same clear_problem_def)
qed

theorem record_problem_spec_witness:
  "record_problem (new_problem 7 KIND_ADOPT ''no'' 9) (record_problem (new_problem 7 KIND_ADOPT ''no'' 9) [])
     = record_problem (new_problem 7 KIND_ADOPT ''no'' 9) []"
  using record_problem_spec[of "[]" "new_problem 7 KIND_ADOPT ''no'' 9"]
  by (simp add: wf_problems_def)

end
