(* ===== verification/Outcomes.thy ===== *)
theory Outcomes
  imports Interfaces
begin

text \<open>
  How a run ends and what is left for the user: the autopilot's outcomes
  (\<^verbatim>\<open>tod-core/src/autopilot/mod.rs\<close>, \<^verbatim>\<open>local.rs\<close>), the conversation protocols
  (\<^verbatim>\<open>tod-store/src/conversation/types.rs\<close>), the synced run state
  (\<^verbatim>\<open>tod-store/src/run_state.rs\<close>) and the map between them
  (\<^verbatim>\<open>tod-core/src/run_state.rs\<close>).
\<close>

section \<open>Protocols\<close>

datatype protocol_kind =
  PkOutline | PkImplementation | PkVerification | PkReview | PkFix | PkChat | PkVisualDesign
  | PkGateCheck | PkOnEntry | PkIncoming | PkPr | PkPhase | PkEvaluate

primrec protocol_str :: "protocol_kind \<Rightarrow> string" where
  "protocol_str PkOutline = ''outline''"
| "protocol_str PkImplementation = ''implementation''"
| "protocol_str PkVerification = ''verification''"
| "protocol_str PkReview = ''review''"
| "protocol_str PkFix = ''fix''"
| "protocol_str PkChat = ''chat''"
| "protocol_str PkVisualDesign = ''visual_design''"
| "protocol_str PkGateCheck = ''gate_check''"
| "protocol_str PkOnEntry = ''on_entry''"
| "protocol_str PkIncoming = ''incoming''"
| "protocol_str PkPr = ''pr''"
| "protocol_str PkPhase = ''phase''"
| "protocol_str PkEvaluate = ''evaluate''"

definition all_protocols :: "protocol_kind list" where
  "all_protocols = [PkOutline, PkImplementation, PkVerification, PkReview, PkFix, PkChat, PkVisualDesign,
     PkGateCheck, PkOnEntry, PkIncoming, PkPr, PkPhase, PkEvaluate]"

definition protocol_parse :: "string \<Rightarrow> protocol_kind option" where
  "protocol_parse s = find (\<lambda>k. protocol_str k = s) all_protocols"

definition works_the_plan :: "protocol_kind \<Rightarrow> bool" where
  "works_the_plan k = (k \<in> {PkImplementation, PkVerification})"

definition works_the_findings :: "protocol_kind \<Rightarrow> bool" where
  "works_the_findings k = (k \<in> {PkReview, PkFix, PkPr})"

definition has_transition :: "protocol_kind \<Rightarrow> bool" where
  "has_transition k = (k \<in> {PkGateCheck, PkOnEntry, PkPhase, PkEvaluate})"

lemma protocol_roundtrip: "protocol_parse (protocol_str k) = Some k"
  by (cases k) (simp_all add: protocol_parse_def all_protocols_def)

section \<open>Outcomes\<close>

datatype budget_limit = Sessions nat nat | TimeSpent nat nat
  \<comment> \<open>\<^verbatim>\<open>Sessions {used, elapsed_secs}\<close>, \<^verbatim>\<open>Time {elapsed_secs, used}\<close>\<close>

datatype needs_human =
  NhDecision nat
| BlockedSteps nat
| NoPlan
| FailingCriteria "string list"
| GateNotPassed string string
| EvaluationStuck "string list"
| PrBlocked string
| PrStuck string
| NhPermission string
| AgentFailed string
| NoProgress string
| Looping string nat
| ReviewNotConverging nat "string list"

datatype outcome =
  ODone
| ONeedsHuman needs_human
| OBudgetExhausted budget_limit
| OStopped string
| OWaiting string ms

definition is_request :: "needs_human \<Rightarrow> bool" where
  "is_request r = (case r of NhDecision _ \<Rightarrow> True | BlockedSteps _ \<Rightarrow> True | FailingCriteria _ \<Rightarrow> True
     | GateNotPassed _ _ \<Rightarrow> True | _ \<Rightarrow> False)"

definition step_in_words :: "string \<Rightarrow> string" where
  "step_in_words step =
     (if step = ''implement'' then ''implementation''
      else if step = ''verify'' then ''verification''
      else if step = ''fix_failed'' then ''fix for the failed checks''
      else if step = ''review'' then ''code review''
      else if step = ''fix'' then ''fixing of the review findings''
      else if step = ''gate_check'' then ''check for moving on''
      else if step = ''phase'' then ''work for this stage''
      else if step = ''evaluate'' then ''evaluation''
      else if step = ''pr'' then ''work on the pull request''
      else map (\<lambda>c. if c = CHR ''_'' then CHR '' '' else c) step)"

primrec describe :: "needs_human \<Rightarrow> string" where
  "describe (NhDecision pending) =
     ''the agent asked you '' @ show_nat pending @ '' question(s) and is waiting for your answer''"
| "describe (BlockedSteps count) =
     ''the agent handed back '' @ show_nat count @ '' plan step(s) it could not finish; open the plan to see why, '' @
     ''then answer or change them''"
| "describe NoPlan =
     ''the node is ready to be built but has no plan steps; ask the agent to make a plan '' @
     ''or add the steps yourself''"
| "describe (FailingCriteria criteria) =
     ''it cannot move on yet because these checks fail: '' @ join ''; '' criteria @
     ''. Fix them, or move the node on yourself with the lifecycle dropdown''"
| "describe (GateNotPassed result summary) =
     ''the check for moving on did not pass ('' @ result @ ''): '' @ summary @ ''. Look at what it says, '' @
     ''then fix it, or move the node on yourself with the lifecycle dropdown''"
| "describe (EvaluationStuck fixes) =
     ''the reviewer sent the same work back twice and the agent changed nothing in between. '' @
     ''Still asked for: '' @ join ''; '' fixes @ ''. Tell the agent what to do differently, or do it yourself''"
| "describe (PrBlocked why) =
     ''the agent handed the pull request back to you: '' @ why @ ''. Resolve that, then run it again''"
| "describe (PrStuck why) =
     ''the pull request keeps needing work and the agent is not getting it through: '' @ why @ ''. '' @
     ''Look at the pull request yourself, then run it again''"
| "describe (NhPermission title) =
     ''the agent is asking for permission ('' @ title @ '') and nobody has granted it; '' @
     ''allow or deny it and the agent carries on''"
| "describe (AgentFailed error) =
     ''the agent's turn failed: '' @ error @ ''. Run it again to retry''"
| "describe (NoProgress step) =
     ''the '' @ step_in_words step @ '' ran and left everything as it was, so running it again would not help. '' @
     ''Look at what the agent did, change the plan or the instructions, then run it again''"
| "describe (ReviewNotConverging rounds standing) =
     ''the code review ran '' @ show_nat rounds @ '' rounds of review and fix and the last review still found problems, '' @
     ''so the node has not moved on. This may be a bug (the fixer undoing or missing the same thing), '' @
     ''a reviewer holding to something it should drop, or a real problem only you can settle. '' @
     ''Open the review findings and the review and fix transcripts'' @
     (if standing = [] then [] else '' (last review: '' @ join ''; '' standing @ '')'') @
     ''. Answer or change what is wrong, '' @ ''then run it again for a fresh set of rounds''"
| "describe (Looping what reps) =
     ''the same problem has come back '' @ show_nat reps @ '' times and the agent is going in circles: '' @ what @ ''. '' @
     ''Look at it yourself, or change the plan or the instructions, then run it again''"

abbreviation PAUSED :: string where "PAUSED \<equiv> ''paused''"
abbreviation STOPPED :: string where "STOPPED \<equiv> ''stopped''"
abbreviation FAILED_PREFIX :: string where "FAILED_PREFIX \<equiv> ''failed: ''"

fun stopped_by_user :: "outcome \<Rightarrow> bool" where
  "stopped_by_user (OStopped reason) = (reason = PAUSED \<or> reason = STOPPED)"
| "stopped_by_user _ = False"

text \<open>\<^verbatim>\<open>runner_status::format_elapsed\<close>.\<close>

definition format_elapsed :: "ms \<Rightarrow> string" where
  "format_elapsed t =
     (let secs = nat (max t 0 div 1000)
      in if secs < 60 then show_nat secs @ ''s''
         else if secs < 3600 then show_nat (secs div 60) @ ''m''
         else if secs < 86400 then
           (let h = secs div 3600; m = secs mod 3600 div 60
            in if m = 0 then show_nat h @ ''h'' else show_nat h @ ''h '' @ show_nat m @ ''m'')
         else
           (let d = secs div 86400; h = secs mod 86400 div 3600
            in if h = 0 then show_nat d @ ''d'' else show_nat d @ ''d '' @ show_nat h @ ''h''))"

section \<open>The run-state row\<close>

datatype run_phase = RStarting | RWorking | RWaiting | RStopped | RDone

primrec run_phase_str :: "run_phase \<Rightarrow> string" where
  "run_phase_str RStarting = ''starting''"
| "run_phase_str RWorking = ''working''"
| "run_phase_str RWaiting = ''waiting''"
| "run_phase_str RStopped = ''stopped''"
| "run_phase_str RDone = ''done''"

definition run_phase_parse :: "string \<Rightarrow> run_phase option" where
  "run_phase_parse t =
     (if t = ''starting'' then Some RStarting
      else if t = ''working'' then Some RWorking
      else if t = ''waiting'' then Some RWaiting
      else if t = ''stopped'' then Some RStopped
      else if t = ''done'' then Some RDone
      else None)"

lemma run_phase_roundtrip: "run_phase_parse (run_phase_str p) = Some p"
  by (cases p) (simp_all add: run_phase_parse_def)

abbreviation RESUMABLE_BY_YOU :: string where "RESUMABLE_BY_YOU \<equiv> ''you''"
abbreviation RESUMABLE_BY_RUNNER :: string where "RESUMABLE_BY_RUNNER \<equiv> ''runner''"
abbreviation RESUMABLE_BY_NOBODY :: string where "RESUMABLE_BY_NOBODY \<equiv> ''nobody''"

record draft =
  dr_phase :: run_phase
  dr_kind :: string
  dr_text :: string
  dr_resumable :: string

record run_state =
  rs_node :: uuid
  rs_phase :: run_phase
  rs_kind :: string
  rs_text :: string
  rs_since :: ms
  rs_resumable :: string
  rs_updated :: ms
  rs_writer :: string

type_synonym run_states = "uuid \<Rightarrow> run_state option"

definition says :: "run_state \<Rightarrow> draft \<Rightarrow> bool" where
  "says now d = (rs_phase now = dr_phase d \<and> rs_kind now = dr_kind d
                 \<and> rs_text now = dr_text d \<and> rs_resumable now = dr_resumable d)"

definition set_run_state :: "uuid \<Rightarrow> draft \<Rightarrow> string \<Rightarrow> ms \<Rightarrow> run_states \<Rightarrow> bool \<times> run_states" where
  "set_run_state n d writer at t =
     (if is_some_and (\<lambda>now. says now d) (t n) then (False, t)
      else (True, t(n \<mapsto> \<lparr>rs_node = n, rs_phase = dr_phase d, rs_kind = dr_kind d, rs_text = dr_text d,
                        rs_since = at, rs_resumable = dr_resumable d, rs_updated = at, rs_writer = writer\<rparr>)))"

section \<open>From an outcome to the row\<close>

abbreviation K_SENDING :: string where "K_SENDING \<equiv> ''sending''"
abbreviation K_WORKING :: string where "K_WORKING \<equiv> ''working''"
abbreviation K_DONE :: string where "K_DONE \<equiv> ''done''"
abbreviation K_WAITING_OUTSIDE :: string where "K_WAITING_OUTSIDE \<equiv> ''waiting_outside''"
abbreviation K_WAITING_RETRY :: string where "K_WAITING_RETRY \<equiv> ''waiting_retry''"
abbreviation K_REQUEST :: string where "K_REQUEST \<equiv> ''request''"
abbreviation K_PAUSED :: string where "K_PAUSED \<equiv> ''paused''"
abbreviation K_STOPPED_NOW :: string where "K_STOPPED_NOW \<equiv> ''stopped_now''"
abbreviation K_FAILED :: string where "K_FAILED \<equiv> ''failed''"
abbreviation K_BUDGET :: string where "K_BUDGET \<equiv> ''budget''"
abbreviation K_STOPPED :: string where "K_STOPPED \<equiv> ''stopped''"
abbreviation K_LEFT_STOPPED :: string where "K_LEFT_STOPPED \<equiv> ''left_stopped''"
abbreviation K_PERMISSION :: string where "K_PERMISSION \<equiv> ''permission''"
abbreviation K_NO_PLAN :: string where "K_NO_PLAN \<equiv> ''no_plan''"
abbreviation K_EVALUATION_STUCK :: string where "K_EVALUATION_STUCK \<equiv> ''evaluation_stuck''"
abbreviation K_PR_BLOCKED :: string where "K_PR_BLOCKED \<equiv> ''pr_blocked''"
abbreviation K_PR_STUCK :: string where "K_PR_STUCK \<equiv> ''pr_stuck''"
abbreviation K_NO_PROGRESS :: string where "K_NO_PROGRESS \<equiv> ''no_progress''"
abbreviation K_LOOPING :: string where "K_LOOPING \<equiv> ''looping''"
abbreviation K_REVIEW_NOT_CONVERGING :: string where "K_REVIEW_NOT_CONVERGING \<equiv> ''review_not_converging''"

definition mk_draft :: "run_phase \<Rightarrow> string \<Rightarrow> string \<Rightarrow> string \<Rightarrow> draft" where
  "mk_draft p kind text resumable =
     \<lparr>dr_phase = p, dr_kind = kind, dr_text = text, dr_resumable = resumable\<rparr>"

lemma mk_draft_sel [simp]:
  "dr_phase (mk_draft p k t r) = p" "dr_kind (mk_draft p k t r) = k"
  "dr_text (mk_draft p k t r) = t" "dr_resumable (mk_draft p k t r) = r"
  by (simp_all add: mk_draft_def)

fun budget_text :: "budget_limit \<Rightarrow> string" where
  "budget_text (Sessions used _) = ''budget spent: '' @ show_nat used @ '' sessions''"
| "budget_text (TimeSpent elapsed _) =
     ''budget spent: '' @ format_elapsed (int elapsed * 1000) @ '' of work''"

text \<open>\<^verbatim>\<open>Words\<close>: how a run's words differ by who ran it.\<close>

record run_words =
  words_budget :: "budget_limit \<Rightarrow> string"
  words_stopped_by :: "string option"

definition local_words :: run_words where
  "local_words = \<lparr>words_budget = budget_text, words_stopped_by = None\<rparr>"

definition sending :: draft where
  "sending = mk_draft RStarting K_SENDING
     ''sending the node to the cloud; its supervisor reports in when it has started'' RESUMABLE_BY_RUNNER"

definition working_draft :: "string \<Rightarrow> draft" where
  "working_draft what = mk_draft RWorking K_WORKING what RESUMABLE_BY_NOBODY"

definition waiting_outside :: "string \<Rightarrow> draft" where
  "waiting_outside what = mk_draft RWaiting K_WAITING_OUTSIDE what RESUMABLE_BY_RUNNER"

definition left_stopped :: "string \<Rightarrow> draft" where
  "left_stopped reason = mk_draft RStopped K_LEFT_STOPPED reason RESUMABLE_BY_YOU"

definition runner_failed :: "string \<Rightarrow> draft" where
  "runner_failed error = mk_draft RStopped K_FAILED error RESUMABLE_BY_YOU"

definition is_scheduled_wait :: "string \<Rightarrow> bool" where
  "is_scheduled_wait reason = (starts_with ''waiting'' reason \<or> starts_with ''usage limit: waiting'' reason)"

primrec for_needs_human :: "needs_human \<Rightarrow> draft" where
  "for_needs_human (NhDecision p) = mk_draft RWaiting K_REQUEST (describe (NhDecision p)) RESUMABLE_BY_YOU"
| "for_needs_human (BlockedSteps c) = mk_draft RWaiting K_REQUEST (describe (BlockedSteps c)) RESUMABLE_BY_YOU"
| "for_needs_human (FailingCriteria c) = mk_draft RWaiting K_REQUEST (describe (FailingCriteria c)) RESUMABLE_BY_YOU"
| "for_needs_human (GateNotPassed r s) = mk_draft RWaiting K_REQUEST (describe (GateNotPassed r s)) RESUMABLE_BY_YOU"
| "for_needs_human NoPlan = mk_draft RStopped K_NO_PLAN (describe NoPlan) RESUMABLE_BY_YOU"
| "for_needs_human (EvaluationStuck f) = mk_draft RStopped K_EVALUATION_STUCK (describe (EvaluationStuck f)) RESUMABLE_BY_YOU"
| "for_needs_human (PrBlocked w) = mk_draft RStopped K_PR_BLOCKED (describe (PrBlocked w)) RESUMABLE_BY_YOU"
| "for_needs_human (PrStuck w) = mk_draft RStopped K_PR_STUCK (describe (PrStuck w)) RESUMABLE_BY_YOU"
| "for_needs_human (NhPermission t) = mk_draft RStopped K_PERMISSION (describe (NhPermission t)) RESUMABLE_BY_YOU"
| "for_needs_human (AgentFailed e) = mk_draft RStopped K_FAILED e RESUMABLE_BY_YOU"
| "for_needs_human (NoProgress s) = mk_draft RStopped K_NO_PROGRESS (describe (NoProgress s)) RESUMABLE_BY_YOU"
| "for_needs_human (Looping w n) = mk_draft RStopped K_LOOPING (describe (Looping w n)) RESUMABLE_BY_YOU"
| "for_needs_human (ReviewNotConverging r s) =
     mk_draft RStopped K_REVIEW_NOT_CONVERGING (describe (ReviewNotConverging r s)) RESUMABLE_BY_YOU"

fun for_outcome :: "run_words \<Rightarrow> outcome \<Rightarrow> draft" where
  "for_outcome w ODone = mk_draft RDone K_DONE ''the node reached done'' RESUMABLE_BY_NOBODY"
| "for_outcome w (OWaiting what _) = waiting_outside what"
| "for_outcome w (OBudgetExhausted limit) = mk_draft RStopped K_BUDGET (words_budget w limit) RESUMABLE_BY_YOU"
| "for_outcome w (OStopped reason) =
     (if stopped_by_user (OStopped reason) then
        (if reason = PAUSED
         then mk_draft RStopped K_PAUSED ''you paused it; resume it to carry on'' RESUMABLE_BY_YOU
         else mk_draft RStopped K_STOPPED_NOW ''you stopped it; run it again to carry on'' RESUMABLE_BY_YOU)
      else if is_scheduled_wait reason then mk_draft RWaiting K_WAITING_RETRY reason RESUMABLE_BY_RUNNER
      else (case strip_prefix FAILED_PREFIX reason of
              Some error \<Rightarrow> mk_draft RStopped K_FAILED error RESUMABLE_BY_YOU
            | None \<Rightarrow>
                mk_draft RStopped K_STOPPED
                  (case words_stopped_by w of Some who \<Rightarrow> who @ '' stopped: '' @ reason | None \<Rightarrow> reason)
                  RESUMABLE_BY_YOU))"
| "for_outcome w (ONeedsHuman reason) = for_needs_human reason"

datatype you_reason =
  YRequest nat
| YPermission string
| YFailed string
| YStopped string
| YPaused
| YNotStarted

text \<open>\<^verbatim>\<open>run_state::you_reason\<close>: the user's side of a row.\<close>

definition you_reason_of :: "run_state \<Rightarrow> you_reason option" where
  "you_reason_of s =
     (if rs_phase s \<noteq> RStopped then None
      else Some (if rs_kind s = K_PAUSED \<or> rs_kind s = K_STOPPED_NOW then YPaused
                 else if rs_kind s = K_FAILED then YFailed (rs_text s)
                 else YStopped (rs_text s)))"

text \<open>\<^verbatim>\<open>next_actor::outcome_reason\<close>: what a saved run's outcome asks of the user.\<close>

definition needs_reason :: "needs_human \<Rightarrow> you_reason option" where
  "needs_reason r =
     (case r of
        AgentFailed error \<Rightarrow> Some (YFailed error)
      | _ \<Rightarrow> if is_request r then None else Some (YStopped (describe r)))"

definition outcome_reason :: "outcome \<Rightarrow> you_reason option" where
  "outcome_reason out =
     (case out of
        ODone \<Rightarrow> None
      | OWaiting _ _ \<Rightarrow> None
      | ONeedsHuman r \<Rightarrow> needs_reason r
      | OStopped reason \<Rightarrow>
          if stopped_by_user out then Some YPaused
          else (case strip_prefix FAILED_PREFIX reason of
                  Some error \<Rightarrow> Some (YFailed error)
                | None \<Rightarrow> Some (YStopped reason))
      | OBudgetExhausted limit \<Rightarrow>
          Some (YStopped (case limit of
             Sessions used _ \<Rightarrow> ''budget spent: '' @ show_nat used @ '' sessions''
           | TimeSpent elapsed _ \<Rightarrow> ''budget spent: '' @ format_elapsed (int elapsed * 1000) @ '' of work'')))"

section \<open>Properties\<close>

interpretation run_rows: node_table "\<lambda>(d, writer, at) n t. snd (set_run_state n d writer at t)"
proof
  fix m n :: uuid and a :: "draft \<times> string \<times> ms" and db db' :: run_states
  show "m \<noteq> n \<Longrightarrow> (case a of (d, writer, at) \<Rightarrow> \<lambda>n t. snd (set_run_state n d writer at t)) n db m = db m"
    by (cases a) (simp add: set_run_state_def)
  show "db n = db' n \<Longrightarrow>
      (case a of (d, writer, at) \<Rightarrow> \<lambda>n t. snd (set_run_state n d writer at t)) n db n =
      (case a of (d, writer, at) \<Rightarrow> \<lambda>n t. snd (set_run_state n d writer at t)) n db' n"
    by (cases a) (simp add: set_run_state_def)
qed

text \<open>The row written for an outcome reads back as what the saved run says: for every
  outcome but a scheduled wait (whose row says \<^verbatim>\<open>waiting\<close>), the user's reason read from the
  stored row is the reason read from the outcome itself.\<close>
theorem row_agrees_with_outcome:
  assumes "\<And>reason. out = OStopped reason \<Longrightarrow> \<not> is_scheduled_wait reason"
    and "\<not> is_some_and (\<lambda>now. says now (for_outcome local_words out)) (t n)"
  shows "\<exists>row. snd (set_run_state n (for_outcome local_words out) writer at t) n = Some row
     \<and> rs_since row = at \<and> you_reason_of row = outcome_reason out"
proof -
  have "you_reason_of \<lparr>rs_node = n, rs_phase = dr_phase d, rs_kind = dr_kind d, rs_text = dr_text d,
      rs_since = at, rs_resumable = dr_resumable d, rs_updated = at, rs_writer = writer\<rparr> = outcome_reason out"
    if d: "d = for_outcome local_words out" for d
  proof (cases out)
    case (ONeedsHuman r)
    then show ?thesis by (cases r) (simp_all add: d you_reason_of_def outcome_reason_def needs_reason_def is_request_def del: describe.simps)
  next
    case (OBudgetExhausted l)
    then show ?thesis by (cases l) (simp_all add: d you_reason_of_def local_words_def outcome_reason_def)
  next
    case (OStopped reason)
    then show ?thesis
      using assms(1) by (simp add: d you_reason_of_def local_words_def outcome_reason_def split: option.split)
  qed (simp_all add: d you_reason_of_def waiting_outside_def outcome_reason_def)
  then show ?thesis using assms(2) by (simp add: set_run_state_def)
qed

theorem row_agrees_with_outcome_witness:
  "\<exists>row. snd (set_run_state 7 (for_outcome local_words (OStopped ''failed: disk'')) ''local'' 5 (\<lambda>_. None)) 7 = Some row
     \<and> you_reason_of row = Some (YFailed ''disk'')"
  using row_agrees_with_outcome[of "OStopped ''failed: disk''" "\<lambda>_. None" 7 "''local''" 5]
  by (auto simp add: outcome_reason_def is_scheduled_wait_def starts_with_def strip_prefix_def)

text \<open>The user is asked to act by a stopped row exactly when the outcome is not done, not
  a wait, not a scheduled retry and not a request (requests are answered elsewhere), and every
  such row is the user's to resume.\<close>
theorem stopped_rows_are_yours:
  "(dr_phase (for_outcome w out) = RStopped) =
     (case out of ODone \<Rightarrow> False | OWaiting _ _ \<Rightarrow> False
      | OStopped reason \<Rightarrow> reason \<in> {PAUSED, STOPPED} \<or> \<not> is_scheduled_wait reason
      | OBudgetExhausted _ \<Rightarrow> True | ONeedsHuman r \<Rightarrow> \<not> is_request r)
   \<and> (dr_resumable (for_outcome w out) = RESUMABLE_BY_YOU \<longleftrightarrow>
       dr_phase (for_outcome w out) = RStopped \<or> dr_kind (for_outcome w out) = K_REQUEST)"
proof (cases out)
  case (ONeedsHuman r)
  then show ?thesis by (cases r) (simp_all add: is_request_def del: describe.simps)
qed (auto simp: waiting_outside_def split: option.split)

text \<open>Saying the same thing again keeps the row and when it began, whatever the writer and
  the clock; saying anything else replaces it, stamped now.\<close>
theorem set_run_state_since:
  "fst (set_run_state n d writer at t) = (\<not> is_some_and (\<lambda>now. says now d) (t n))
   \<and> (\<exists>row. snd (set_run_state n d writer at t) n = Some row \<and> says row d
        \<and> rs_since row = (case t n of Some now \<Rightarrow> if says now d then rs_since now else at | None \<Rightarrow> at)
        \<and> set_run_state n d writer' at' (snd (set_run_state n d writer at t))
            = (False, snd (set_run_state n d writer at t)))"
proof (cases "t n")
  case None
  then show ?thesis by (simp add: set_run_state_def says_def)
next
  case (Some now)
  then show ?thesis by (cases "says now d") (auto simp: set_run_state_def says_def)
qed

end
