(* ===== verification/Decisions.thy ===== *)
theory Decisions
  imports Prelude "HOL-Library.Product_Lexorder"
begin

text \<open>
  What the user is asked and answers: decisions with their append-only answer log
  (\<^verbatim>\<open>tod-store/src/decisions.rs\<close>), the stop questions that are decisions of a reserved
  protocol (\<^verbatim>\<open>tod-core/src/stop_questions.rs\<close>), and review findings with their responses
  (\<^verbatim>\<open>tod-store/src/review.rs\<close>).
\<close>

section \<open>Decisions\<close>

abbreviation DECISION_PENDING :: string where "DECISION_PENDING \<equiv> ''pending''"
abbreviation DECISION_ANSWERED :: string where "DECISION_ANSWERED \<equiv> ''answered''"
abbreviation DECISION_WITHDRAWN :: string where "DECISION_WITHDRAWN \<equiv> ''withdrawn''"

definition EVIDENCE_KINDS :: "string list" where
  "EVIDENCE_KINDS = [''obligation'', ''plan_step'', ''test_run'', ''conversation'', ''finding'', ''node'']"

abbreviation REASON_OTHER :: string where "REASON_OTHER \<equiv> ''other''"

definition DECISION_REASONS :: "string list" where
  "DECISION_REASONS = [''intent'', ''missing_rule'', ''conflict'', ''access'', ''risk'', ''capability'',
     ''broken'', REASON_OTHER]"

record decision =
  de_id :: uuid
  de_node :: uuid
  de_conversation :: "uuid option"
  de_protocol :: "string option"
  de_question :: string
  de_options :: "string list"
  de_evidence :: "(string \<times> uuid) list"
  de_status :: string
  de_created :: ms
  de_reason :: string

record answer =
  an_id :: nat
  an_decision :: uuid
  an_option :: "int option"
  an_text :: "string option"
  an_actor :: string
  an_at :: ms

record new_decision =
  nd_question :: string
  nd_options :: "string list"
  nd_evidence :: "(string \<times> uuid) list"
  nd_reason :: string

text \<open>The two tables, and the next \<^verbatim>\<open>AUTOINCREMENT\<close> id of an answer.\<close>

record decision_db =
  dd_decisions :: "decision list"
  dd_answers :: "answer list"
  dd_next :: nat

definition create_decision ::
    "uuid \<Rightarrow> ms \<Rightarrow> uuid \<Rightarrow> uuid option \<Rightarrow> string option \<Rightarrow> new_decision \<Rightarrow> decision_db
     \<Rightarrow> (decision \<times> decision_db) fallible" where
  "create_decision i now node conv protocol nd db =
     (let question = trim (nd_question nd);
          options = filter (\<lambda>o'. o' \<noteq> []) (map trim (nd_options nd));
          reason0 = trim (nd_reason nd);
          reason = (if reason0 = [] then REASON_OTHER else reason0)
      in if question = [] then Inl ''a decision needs a question''
         else (case find (\<lambda>(k, _). k \<notin> set EVIDENCE_KINDS) (nd_evidence nd) of
             Some (k, _) \<Rightarrow>
               Inl (''unknown evidence kind `'' @ k @ ''` (expected '' @ join ''|'' EVIDENCE_KINDS @ '')'')
           | None \<Rightarrow>
               if reason \<notin> set DECISION_REASONS
               then Inl (''unknown reason `'' @ reason @ ''` (expected '' @ join ''|'' DECISION_REASONS @ '')'')
               else
                 let d = \<lparr>de_id = i, de_node = node, de_conversation = conv, de_protocol = protocol,
                          de_question = question, de_options = options, de_evidence = nd_evidence nd,
                          de_status = DECISION_PENDING, de_created = now, de_reason = reason\<rparr>
                 in Inr (d, db\<lparr>dd_decisions := dd_decisions db @ [d]\<rparr>)))"

definition get_decision :: "uuid \<Rightarrow> decision_db \<Rightarrow> decision option" where
  "get_decision i db = find (\<lambda>d. de_id d = i) (dd_decisions db)"

definition list_answers :: "uuid \<Rightarrow> decision_db \<Rightarrow> answer list" where
  "list_answers i db = sort_key an_id (filter (\<lambda>a. an_decision a = i) (dd_answers db))"

definition pending_by_protocol :: "string \<Rightarrow> decision_db \<Rightarrow> decision list" where
  "pending_by_protocol p db =
     sort_key de_created (filter (\<lambda>d. de_status d = DECISION_PENDING \<and> de_protocol d = Some p) (dd_decisions db))"

definition pending_decisions :: "uuid list \<Rightarrow> decision_db \<Rightarrow> decision list" where
  "pending_decisions ns db =
     (if ns = [] then []
      else sort_key de_created
             (filter (\<lambda>d. de_status d = DECISION_PENDING \<and> de_node d \<in> set ns) (dd_decisions db)))"

definition set_status :: "uuid \<Rightarrow> string \<Rightarrow> decision list \<Rightarrow> decision list" where
  "set_status i s ds = map (\<lambda>d. if de_id d = i then d\<lparr>de_status := s\<rparr> else d) ds"

definition answer_decision ::
    "ms \<Rightarrow> uuid \<Rightarrow> int option \<Rightarrow> string option \<Rightarrow> string \<Rightarrow> decision_db \<Rightarrow> (answer \<times> decision_db) fallible" where
  "answer_decision now i opt text0 actor db =
     (case get_decision i db of
        None \<Rightarrow> Inl (''decision '' @ show_uuid i @ '' not found'')
      | Some d \<Rightarrow>
          if de_status d = DECISION_WITHDRAWN then Inl (''decision '' @ show_uuid i @ '' was withdrawn'')
          else
            let text = opt_filter (\<lambda>t. t \<noteq> []) (map_option trim text0)
            in (case opt_filter (\<lambda>o'. o' < 1 \<or> int (length (de_options d)) < o') opt of
                  Some o' \<Rightarrow> Inl (''decision '' @ show_uuid i @ '' has no option '' @ show_int o')
                | None \<Rightarrow>
                    if opt = None \<and> text = None then Inl ''an answer needs an option or text''
                    else
                      let a = \<lparr>an_id = dd_next db, an_decision = i, an_option = opt, an_text = text,
                               an_actor = actor, an_at = now\<rparr>;
                          ds = (if de_status d = DECISION_PENDING
                                then set_status i DECISION_ANSWERED (dd_decisions db) else dd_decisions db)
                      in Inr (a, \<lparr>dd_decisions = ds, dd_answers = dd_answers db @ [a], dd_next = dd_next db + 1\<rparr>)))"

definition withdraw :: "uuid \<Rightarrow> decision_db \<Rightarrow> decision_db fallible" where
  "withdraw i db =
     (if list_ex (\<lambda>d. de_id d = i \<and> de_status d = DECISION_PENDING) (dd_decisions db)
      then Inr (db\<lparr>dd_decisions :=
             map (\<lambda>d. if de_id d = i \<and> de_status d = DECISION_PENDING
                      then d\<lparr>de_status := DECISION_WITHDRAWN\<rparr> else d) (dd_decisions db)\<rparr>)
      else Inl (''decision '' @ show_uuid i @ '' not found or not pending''))"

section \<open>Stop questions\<close>

abbreviation SQ_FAILURES :: string where "SQ_FAILURES \<equiv> ''supervisor:failures''"
abbreviation SQ_BUDGET :: string where "SQ_BUDGET \<equiv> ''supervisor:budget''"
abbreviation SQ_WATCHDOG :: string where "SQ_WATCHDOG \<equiv> ''watchdog''"
abbreviation SQ_CONFIG :: string where "SQ_CONFIG \<equiv> ''supervisor:config''"

definition SQ_KINDS :: "string list" where
  "SQ_KINDS = [SQ_FAILURES, SQ_BUDGET, SQ_WATCHDOG, SQ_CONFIG]"

abbreviation KEEP_GOING :: string where "KEEP_GOING \<equiv> ''Keep going''"
abbreviation LEAVE_STOPPED :: string where "LEAVE_STOPPED \<equiv> ''Leave it stopped''"
abbreviation FIXED_TRY_AGAIN :: string where "FIXED_TRY_AGAIN \<equiv> ''Fixed, try again''"
abbreviation WAKE_AGAIN :: string where "WAKE_AGAIN \<equiv> ''Wake it again''"
abbreviation LEAVE_ASLEEP :: string where "LEAVE_ASLEEP \<equiv> ''Leave it asleep''"

definition SUPERVISOR_OPTIONS :: "string list" where "SUPERVISOR_OPTIONS = [KEEP_GOING, LEAVE_STOPPED]"
definition CONFIG_OPTIONS :: "string list" where "CONFIG_OPTIONS = [FIXED_TRY_AGAIN, LEAVE_STOPPED]"
definition WATCHDOG_OPTIONS :: "string list" where "WATCHDOG_OPTIONS = [WAKE_AGAIN, LEAVE_ASLEEP]"

definition is_stop_kind :: "string option \<Rightarrow> bool" where
  "is_stop_kind p = is_some_and (\<lambda>p. p \<in> set SQ_KINDS) p"

datatype stop_verdict = SqPending | SqContinue | SqStop

record stop_latest =
  sl_decision :: uuid
  sl_kind :: string
  sl_answer :: stop_verdict
  sl_key :: "string option"
  sl_at :: "ms option"

definition nth_opt :: "nat \<Rightarrow> 'a list \<Rightarrow> 'a option" where
  "nth_opt i xs = (if i < length xs then Some (xs ! i) else None)"

definition chosen_option :: "decision \<Rightarrow> answer \<Rightarrow> string option" where
  "chosen_option d a =
     (case an_option a of
        None \<Rightarrow> None
      | Some i \<Rightarrow> if 1 \<le> i then nth_opt (nat (i - 1)) (de_options d) else None)"

definition stop_question_of :: "uuid \<Rightarrow> decision_db \<Rightarrow> decision option" where
  "stop_question_of n db =
     max_by_key de_created
       (filter (\<lambda>d. de_node d = n \<and> is_stop_kind (de_protocol d) \<and> de_status d \<noteq> DECISION_WITHDRAWN)
          (dd_decisions db))"

definition latest_stop :: "uuid \<Rightarrow> decision_db \<Rightarrow> stop_latest option" where
  "latest_stop n db =
     (case stop_question_of n db of
        None \<Rightarrow> None
      | Some d \<Rightarrow>
          let kind = unwrap_or [] (de_protocol d)
          in (case max_by_key (\<lambda>a. (an_at a, an_id a)) (list_answers (de_id d) db) of
                None \<Rightarrow> Some \<lparr>sl_decision = de_id d, sl_kind = kind, sl_answer = SqPending,
                               sl_key = None, sl_at = None\<rparr>
              | Some la \<Rightarrow>
                  let answer = (if chosen_option d la = Some LEAVE_STOPPED
                                   \<or> chosen_option d la = Some LEAVE_ASLEEP
                                then SqStop else SqContinue)
                  in Some \<lparr>sl_decision = de_id d, sl_kind = kind, sl_answer = answer,
                           sl_key = Some (show_uuid (de_id d) @ '':'' @ show_int (an_at la)),
                           sl_at = Some (an_at la)\<rparr>))"

definition stop_subject :: "string \<Rightarrow> string" where
  "stop_subject kind =
     (if kind = SQ_FAILURES then ''the agent failing several times in a row''
      else if kind = SQ_BUDGET then ''its budget''
      else if kind = SQ_CONFIG then ''its configuration''
      else if kind = SQ_WATCHDOG then ''its sandbox being left asleep''
      else ''why it stopped'')"

definition left_stopped_reason :: "string \<Rightarrow> string" where
  "left_stopped_reason kind =
     (let go = (if kind = SQ_CONFIG then FIXED_TRY_AGAIN
                else if kind = SQ_WATCHDOG then WAKE_AGAIN else KEEP_GOING)
      in ''you answered the question about '' @ stop_subject kind @ '' with '' @ [CHR 0x22]
         @ (if kind = SQ_WATCHDOG then LEAVE_ASLEEP else LEAVE_STOPPED) @ [CHR 0x22]
         @ '', so it stays stopped. Answering it '' @ [CHR 0x22] @ go @ [CHR 0x22]
         @ '' (or Run with a new session) resumes it'')"

definition stop_node_of :: "uuid \<Rightarrow> decision_db \<Rightarrow> uuid option" where
  "stop_node_of i db =
     map_option de_node (opt_filter (\<lambda>d. is_stop_kind (de_protocol d)) (get_decision i db))"

section \<open>The log's invariant\<close>

text \<open>Ids are keys, a decision awaits an answer exactly while it has none and was not
  withdrawn, a withdrawn one never got any, and every recorded pick is one of its options.\<close>

definition wf_decisions :: "decision_db \<Rightarrow> bool" where
  "wf_decisions db \<longleftrightarrow>
     distinct (map de_id (dd_decisions db))
     \<and> distinct (map an_id (dd_answers db))
     \<and> (\<forall>a\<in>set (dd_answers db). an_id a < dd_next db
          \<and> (\<exists>d\<in>set (dd_decisions db). de_id d = an_decision a
                \<and> is_none_or (\<lambda>o'. 1 \<le> o' \<and> o' \<le> int (length (de_options d))) (an_option a)
                \<and> (an_option a \<noteq> None \<or> an_text a \<noteq> None)))
     \<and> (\<forall>d\<in>set (dd_decisions db).
          de_status d \<in> {DECISION_PENDING, DECISION_ANSWERED, DECISION_WITHDRAWN}
          \<and> (de_status d = DECISION_ANSWERED \<longleftrightarrow> (\<exists>a\<in>set (dd_answers db). an_decision a = de_id d)))"

lemma get_decision_Some: "get_decision i db = Some d \<Longrightarrow> d \<in> set (dd_decisions db) \<and> de_id d = i"
  unfolding get_decision_def using find_Some_in by fastforce

lemma set_status_ids [simp]: "map de_id (set_status i s ds) = map de_id ds"
  by (simp add: set_status_def comp_def if_distrib cong: if_cong)

lemma decision_id_eq:
  "distinct (map de_id ds) \<Longrightarrow> d \<in> set ds \<Longrightarrow> e \<in> set ds \<Longrightarrow> de_id d = de_id e \<Longrightarrow> d = e"
  by (meson distinct_map inj_onD)

lemma answer_decision_Inr:
  assumes "answer_decision now i opt text actor db = Inr (a, db')"
  obtains d where "get_decision i db = Some d" "de_status d \<noteq> DECISION_WITHDRAWN"
    "is_none_or (\<lambda>o'. 1 \<le> o' \<and> o' \<le> int (length (de_options d))) opt"
    "opt \<noteq> None \<or> an_text a \<noteq> None"
    "a = \<lparr>an_id = dd_next db, an_decision = i, an_option = opt,
          an_text = opt_filter (\<lambda>t. t \<noteq> []) (map_option trim text), an_actor = actor, an_at = now\<rparr>"
    "db' = \<lparr>dd_decisions = (if de_status d = DECISION_PENDING
                            then set_status i DECISION_ANSWERED (dd_decisions db) else dd_decisions db),
           dd_answers = dd_answers db @ [a], dd_next = dd_next db + 1\<rparr>"
  using assms
  by (cases opt) (auto simp: answer_decision_def Let_def split: option.splits if_splits)

lemma set_set_status:
  "set (set_status i s ds) = {if de_id d = i then d\<lparr>de_status := s\<rparr> else d | d. d \<in> set ds}"
  by (auto simp: set_status_def image_iff)

lemma wf_create:
  assumes "wf_decisions db" "create_decision i now n c p nd db = Inr (d, db')"
    and "i \<notin> de_id ` set (dd_decisions db)"
  shows "wf_decisions db'"
proof -
  have db': "db' = db\<lparr>dd_decisions := dd_decisions db @ [d]\<rparr>" "de_status d = DECISION_PENDING" "de_id d = i"
    using assms(2) by (auto simp: create_decision_def Let_def split: option.splits if_splits)
  have "\<forall>a\<in>set (dd_answers db). an_decision a \<noteq> i"
    using assms(1,3) by (fastforce simp: wf_decisions_def image_iff)
  then show ?thesis
    using assms(1,3) unfolding wf_decisions_def db' by (auto simp: db')
qed

lemma wf_answer:
  assumes wf: "wf_decisions db" and ans: "answer_decision now i opt text actor db = Inr (a, db')"
  shows "wf_decisions db'"
proof -
  from ans obtain d where d: "get_decision i db = Some d" "de_status d \<noteq> DECISION_WITHDRAWN"
    "is_none_or (\<lambda>o'. 1 \<le> o' \<and> o' \<le> int (length (de_options d))) opt" "opt \<noteq> None \<or> an_text a \<noteq> None"
    and a: "a = \<lparr>an_id = dd_next db, an_decision = i, an_option = opt,
          an_text = opt_filter (\<lambda>t. t \<noteq> []) (map_option trim text), an_actor = actor, an_at = now\<rparr>"
    and db': "db' = \<lparr>dd_decisions = (if de_status d = DECISION_PENDING
                            then set_status i DECISION_ANSWERED (dd_decisions db) else dd_decisions db),
           dd_answers = dd_answers db @ [a], dd_next = dd_next db + 1\<rparr>"
    by (rule answer_decision_Inr)
  have din: "d \<in> set (dd_decisions db)" "de_id d = i" using get_decision_Some[OF d(1)] by auto
  have ids: "distinct (map de_id (dd_decisions db))" using wf by (simp add: wf_decisions_def)
  have only: "e = d" if "e \<in> set (dd_decisions db)" "de_id e = i" for e
    using decision_id_eq[OF ids that(1) din(1)] that(2) din(2) by simp
  let ?f = "\<lambda>e. if de_id e = i \<and> de_status d = DECISION_PENDING then e\<lparr>de_status := DECISION_ANSWERED\<rparr> else e"
  have ds: "dd_decisions db' = map ?f (dd_decisions db)"
    by (auto simp: db' set_status_def)
  have "map de_id (dd_decisions db') = map de_id (dd_decisions db)"
    unfolding ds by (rule map_map_same) simp
  then have "distinct (map de_id (dd_decisions db'))" using ids by (simp only:)
  moreover have "distinct (map an_id (dd_answers db'))" and "\<forall>x\<in>set (dd_answers db'). an_id x < dd_next db'"
    using wf by (auto simp: db' a wf_decisions_def)
  moreover have "\<exists>e\<in>set (dd_decisions db'). de_id e = an_decision x
                \<and> is_none_or (\<lambda>o'. 1 \<le> o' \<and> o' \<le> int (length (de_options e))) (an_option x)
                \<and> (an_option x \<noteq> None \<or> an_text x \<noteq> None)" if "x \<in> set (dd_answers db')" for x
  proof -
    have "\<exists>e\<in>set (dd_decisions db). de_id e = an_decision x
                \<and> is_none_or (\<lambda>o'. 1 \<le> o' \<and> o' \<le> int (length (de_options e))) (an_option x)
                \<and> (an_option x \<noteq> None \<or> an_text x \<noteq> None)"
      using that wf din d(3,4) by (auto simp: db' a wf_decisions_def)
    then obtain e where e: "e \<in> set (dd_decisions db)" "de_id e = an_decision x"
      "is_none_or (\<lambda>o'. 1 \<le> o' \<and> o' \<le> int (length (de_options e))) (an_option x)"
      "an_option x \<noteq> None \<or> an_text x \<noteq> None" by blast
    show ?thesis
      by (rule bexI[of _ "?f e"]) (use e in \<open>auto simp: ds\<close>)
  qed
  moreover have "de_status e \<in> {DECISION_PENDING, DECISION_ANSWERED, DECISION_WITHDRAWN}
          \<and> (de_status e = DECISION_ANSWERED \<longleftrightarrow> (\<exists>x\<in>set (dd_answers db'). an_decision x = de_id e))"
    if ein: "e \<in> set (dd_decisions db')" for e
  proof -
    obtain e0 where e0: "e0 \<in> set (dd_decisions db)" "e = ?f e0"
      using ein unfolding ds set_map by blast
    have w: "de_status e0 \<in> {DECISION_PENDING, DECISION_ANSWERED, DECISION_WITHDRAWN}
          \<and> (de_status e0 = DECISION_ANSWERED \<longleftrightarrow> (\<exists>x\<in>set (dd_answers db). an_decision x = de_id e0))"
      using wf e0(1) unfolding wf_decisions_def by blast
    show ?thesis
    proof (cases "de_id e0 = i")
      case True
      then have [simp]: "e0 = d" using only e0(1) by simp
      show ?thesis using w d(2) e0(2) din(2) by (auto simp: db' a)
    next
      case False
      then show ?thesis using w e0(2) by (auto simp: db' a)
    qed
  qed
  ultimately show ?thesis unfolding wf_decisions_def by blast
qed

lemma wf_withdraw:
  assumes wf: "wf_decisions db" and "withdraw i db = Inr db'"
  shows "wf_decisions db'"
proof -
  let ?f = "\<lambda>d. if de_id d = i \<and> de_status d = DECISION_PENDING then d\<lparr>de_status := DECISION_WITHDRAWN\<rparr> else d"
  have db': "db' = db\<lparr>dd_decisions := map ?f (dd_decisions db)\<rparr>"
    using assms(2) by (simp add: withdraw_def split: if_splits)
  have "map de_id (map ?f (dd_decisions db)) = map de_id (dd_decisions db)"
    by (rule map_map_same) simp
  then have "distinct (map de_id (map ?f (dd_decisions db)))"
    using wf by (simp only: wf_decisions_def)
  moreover have "\<exists>e\<in>set (map ?f (dd_decisions db)). de_id e = an_decision x
                \<and> is_none_or (\<lambda>o'. 1 \<le> o' \<and> o' \<le> int (length (de_options e))) (an_option x)
                \<and> (an_option x \<noteq> None \<or> an_text x \<noteq> None)" if x: "x \<in> set (dd_answers db)" for x
  proof -
    obtain e where e: "e \<in> set (dd_decisions db)" "de_id e = an_decision x"
      "is_none_or (\<lambda>o'. 1 \<le> o' \<and> o' \<le> int (length (de_options e))) (an_option x)"
      "an_option x \<noteq> None \<or> an_text x \<noteq> None"
      using wf x by (auto simp: wf_decisions_def)
    show ?thesis by (rule bexI[of _ "?f e"]) (use e in auto)
  qed
  moreover have "de_status e \<in> {DECISION_PENDING, DECISION_ANSWERED, DECISION_WITHDRAWN}
          \<and> (de_status e = DECISION_ANSWERED \<longleftrightarrow> (\<exists>x\<in>set (dd_answers db). an_decision x = de_id e))"
    if e: "e \<in> set (map ?f (dd_decisions db))" for e
  proof -
    obtain e0 where e0: "e0 \<in> set (dd_decisions db)" "e = ?f e0"
      using e unfolding set_map by blast
    have w: "de_status e0 \<in> {DECISION_PENDING, DECISION_ANSWERED, DECISION_WITHDRAWN}
          \<and> (de_status e0 = DECISION_ANSWERED \<longleftrightarrow> (\<exists>x\<in>set (dd_answers db). an_decision x = de_id e0))"
      using wf e0(1) unfolding wf_decisions_def by blast
    show ?thesis using w unfolding e0(2) by auto
  qed
  moreover have "distinct (map an_id (dd_answers db))" "\<forall>a\<in>set (dd_answers db). an_id a < dd_next db"
    using wf unfolding wf_decisions_def by blast+
  moreover have sel: "dd_decisions db' = map ?f (dd_decisions db)" "dd_answers db' = dd_answers db" "dd_next db' = dd_next db"
    by (simp_all add: db')
  ultimately show ?thesis unfolding wf_decisions_def sel by blast
qed

text \<open>What happens to the two tables: any sequence of asks, answers and withdrawals.\<close>

inductive decision_step :: "decision_db \<Rightarrow> decision_db \<Rightarrow> bool" where
  ask: "i \<notin> de_id ` set (dd_decisions db) \<Longrightarrow> create_decision i now n c p nd db = Inr (d, db') \<Longrightarrow> decision_step db db'"
| reply: "answer_decision now i opt text actor db = Inr (a, db') \<Longrightarrow> decision_step db db'"
| take_back: "withdraw i db = Inr db' \<Longrightarrow> decision_step db db'"

lemma decision_step_wf: "decision_step db db' \<Longrightarrow> wf_decisions db \<Longrightarrow> wf_decisions db'"
  by (induction rule: decision_step.induct) (auto intro: wf_create wf_answer wf_withdraw)

lemma decision_step_log: "decision_step db db' \<Longrightarrow> \<exists>more. dd_answers db' = dd_answers db @ more"
  by (induction rule: decision_step.induct)
    (auto simp: create_decision_def withdraw_def Let_def elim!: answer_decision_Inr
      split: option.splits if_splits)

definition no_decisions :: decision_db where
  "no_decisions = \<lparr>dd_decisions = [], dd_answers = [], dd_next = 1\<rparr>"

text \<open>C25: From an empty store, any sequence of asks, answers and withdrawals keeps the log's
  invariant (a decision is answered exactly when it has an answer, a withdrawn one has none,
  every pick is one of the options), and no step ever changes or drops an answer already given.\<close>
theorem decisions_append_only:
  assumes "decision_step\<^sup>*\<^sup>* no_decisions db" "decision_step\<^sup>*\<^sup>* db db'"
  shows "wf_decisions db \<and> (\<exists>more. dd_answers db' = dd_answers db @ more)"
proof
  show "wf_decisions db"
    using assms(1)
  proof (induction rule: rtranclp_induct)
    case base
    then show ?case by (simp add: no_decisions_def wf_decisions_def)
  next
    case (step y z)
    then show ?case using decision_step_wf by blast
  qed
  show "\<exists>more. dd_answers db' = dd_answers db @ more"
    using assms(2)
  proof (induction rule: rtranclp_induct)
    case (step y z)
    then show ?case using decision_step_log by (metis append.assoc)
  qed simp
qed

text \<open>C24: The user's last word on a node's latest stop question governs: answering that
  question (at a time not before its earlier answers) with a "leave it" option reads as
  \<^verbatim>\<open>Stop\<close>, with any other option or free text as \<^verbatim>\<open>Continue\<close>, whatever was answered before.\<close>
theorem latest_answer_governs:
  assumes wf: "wf_decisions db"
    and q: "stop_question_of n db = Some d"
    and ans: "answer_decision now (de_id d) opt text actor db = Inr (a, db')"
    and later: "\<And>b. b \<in> set (list_answers (de_id d) db) \<Longrightarrow> an_at b \<le> now"
  shows "\<exists>l. latest_stop n db' = Some l \<and> sl_decision l = de_id d \<and> sl_at l = Some now
     \<and> sl_answer l = (if chosen_option d a = Some LEAVE_STOPPED \<or> chosen_option d a = Some LEAVE_ASLEEP
                      then SqStop else SqContinue)"
proof -
  let ?P = "\<lambda>d. de_node d = n \<and> is_stop_kind (de_protocol d) \<and> de_status d \<noteq> DECISION_WITHDRAWN"
  have "d \<in> set (filter ?P (dd_decisions db))"
    by (rule max_by_key_in[OF q[unfolded stop_question_of_def]])
  then have d: "d \<in> set (dd_decisions db)" "?P d" by auto
  have ids: "distinct (map de_id (dd_decisions db))" using wf by (simp add: wf_decisions_def)
  from ans obtain d0 where d0: "get_decision (de_id d) db = Some d0"
    and a: "a = \<lparr>an_id = dd_next db, an_decision = de_id d, an_option = opt,
          an_text = opt_filter (\<lambda>t. t \<noteq> []) (map_option trim text), an_actor = actor, an_at = now\<rparr>"
    and db': "db' = \<lparr>dd_decisions = (if de_status d0 = DECISION_PENDING
                            then set_status (de_id d) DECISION_ANSWERED (dd_decisions db) else dd_decisions db),
           dd_answers = dd_answers db @ [a], dd_next = dd_next db + 1\<rparr>"
    by (rule answer_decision_Inr)
  have "d0 = d" using get_decision_Some[OF d0] decision_id_eq[OF ids] d(1) by metis
  define f where "f = (\<lambda>e::decision. if de_id e = de_id d \<and> de_status d = DECISION_PENDING
                             then e\<lparr>de_status := DECISION_ANSWERED\<rparr> else e)"
  have ds: "dd_decisions db' = map f (dd_decisions db)"
    by (auto simp: db' \<open>d0 = d\<close> f_def set_status_def)
  have "?P (f e) = ?P e" if "e \<in> set (dd_decisions db)" for e
    using decision_id_eq[OF ids that d(1)] d(2) by (auto simp: f_def)
  then have "filter ?P (dd_decisions db') = map f (filter ?P (dd_decisions db))"
    unfolding ds filter_map comp_def by (simp cong: filter_cong)
  then have sq: "stop_question_of n db' = Some (f d)"
    using q max_by_key_map[of de_created f] unfolding stop_question_of_def by (simp add: f_def)
  have f_sel: "de_id (f e) = de_id e" "de_options (f e) = de_options e" "de_protocol (f e) = de_protocol e" for e
    by (simp_all add: f_def)
  have "max_by_key (\<lambda>a. (an_at a, an_id a)) (list_answers (de_id d) db') = Some a"
  proof (rule max_by_key_unique)
    show "a \<in> set (list_answers (de_id d) db')" by (simp add: list_answers_def db' a)
    fix b assume b: "b \<in> set (list_answers (de_id d) db')" "b \<noteq> a"
    then have "b \<in> set (list_answers (de_id d) db)" by (auto simp: list_answers_def db' split: if_splits)
    moreover from this have "an_id b < dd_next db"
      using wf by (auto simp: list_answers_def wf_decisions_def)
    ultimately show "(an_at b, an_id b) < (an_at a, an_id a)"
      using later by (auto simp: a less_prod_def)
  qed
  moreover have "chosen_option (f d) a = chosen_option d a"
    by (simp add: chosen_option_def f_sel split: option.split)
  ultimately show ?thesis
    by (simp add: latest_stop_def sq f_sel Let_def a)
qed

definition sample_questions :: decision_db where
  "sample_questions = \<lparr>dd_decisions = [\<lparr>de_id = 1, de_node = 7, de_conversation = None,
      de_protocol = Some SQ_BUDGET, de_question = ''Go on?'', de_options = SUPERVISOR_OPTIONS,
      de_evidence = [], de_status = DECISION_PENDING, de_created = 5, de_reason = REASON_OTHER\<rparr>],
    dd_answers = [], dd_next = 1\<rparr>"

theorem latest_answer_governs_witness:
  "\<exists>a db'. answer_decision 9 1 (Some 2) None ''user'' sample_questions = Inr (a, db')
     \<and> (\<exists>l. latest_stop 7 db' = Some l \<and> sl_answer l = SqStop)"
proof -
  let ?d = "hd (dd_decisions sample_questions)"
  obtain a db' where ans: "answer_decision 9 1 (Some 2) None ''user'' sample_questions = Inr (a, db')"
    and a: "an_option a = Some 2"
    by (simp add: answer_decision_def get_decision_def sample_questions_def SUPERVISOR_OPTIONS_def Let_def)
  have "\<exists>l. latest_stop 7 db' = Some l \<and> sl_decision l = de_id ?d \<and> sl_at l = Some 9
     \<and> sl_answer l = (if chosen_option ?d a = Some LEAVE_STOPPED \<or> chosen_option ?d a = Some LEAVE_ASLEEP
                      then SqStop else SqContinue)"
    by (rule latest_answer_governs[of sample_questions 7 ?d 9 "Some 2" None "''user''"])
      (use ans in \<open>simp_all add: sample_questions_def wf_decisions_def stop_question_of_def is_stop_kind_def
          SQ_KINDS_def list_answers_def\<close>)
  moreover have "chosen_option ?d a = Some LEAVE_STOPPED"
    by (simp add: chosen_option_def a sample_questions_def SUPERVISOR_OPTIONS_def nth_opt_def)
  ultimately show ?thesis using ans by auto
qed

theorem decisions_append_only_witness:
  "\<exists>db'. withdraw 1 sample_questions = Inr db' \<and> wf_decisions db'"
proof -
  have "create_decision 1 5 7 None (Some SQ_BUDGET)
      \<lparr>nd_question = ''Go on?'', nd_options = SUPERVISOR_OPTIONS, nd_evidence = [], nd_reason = []\<rparr> no_decisions
      = Inr (hd (dd_decisions sample_questions), sample_questions)"
    by (simp add: create_decision_def no_decisions_def sample_questions_def SUPERVISOR_OPTIONS_def trim_def
        is_space_def DECISION_REASONS_def Let_def)
  then have "decision_step no_decisions sample_questions"
    by (intro decision_step.ask) (auto simp: no_decisions_def)
  moreover obtain db' where w: "withdraw 1 sample_questions = Inr db'"
    by (simp add: withdraw_def sample_questions_def)
  ultimately have "decision_step\<^sup>*\<^sup>* no_decisions db'"
    by (meson decision_step.take_back r_into_rtranclp rtranclp.rtrancl_into_rtrancl)
  then show ?thesis
    using decisions_append_only[of db' db'] w by simp
qed

end
