(* ===== verification/Review.thy ===== *)
theory Review
  imports Prelude
begin

text \<open>
  Code review findings and their responses (\<^verbatim>\<open>tod-store/src/review.rs\<close>). A finding belongs
  to its node; its position \<^verbatim>\<open>seq\<close> is counted per node.
\<close>

abbreviation FINDING_OPEN :: string where "FINDING_OPEN \<equiv> ''open''"
abbreviation FINDING_FIXED :: string where "FINDING_FIXED \<equiv> ''fixed''"
abbreviation FINDING_OUT_OF_SCOPE :: string where "FINDING_OUT_OF_SCOPE \<equiv> ''out_of_scope''"
abbreviation FINDING_DECLINED :: string where "FINDING_DECLINED \<equiv> ''declined''"
abbreviation FINDING_REJECTED :: string where "FINDING_REJECTED \<equiv> ''rejected''"

definition FINDING_STATUSES :: "string list" where
  "FINDING_STATUSES = [FINDING_OPEN, FINDING_FIXED, FINDING_OUT_OF_SCOPE, FINDING_DECLINED, FINDING_REJECTED]"

definition USER_FINDING_STATUSES :: "string list" where
  "USER_FINDING_STATUSES = [FINDING_OPEN, FINDING_FIXED, FINDING_OUT_OF_SCOPE, FINDING_DECLINED]"

definition FIX_AGENT_STATUSES :: "string list" where
  "FIX_AGENT_STATUSES = [FINDING_FIXED, FINDING_REJECTED]"

definition FINDING_SEVERITIES :: "string list" where
  "FINDING_SEVERITIES = [''high'', ''medium'', ''low'']"

record finding =
  fi_id :: uuid
  fi_node :: uuid
  fi_conversation :: "uuid option"
  fi_seq :: int
  fi_severity :: string
  fi_file :: "string option"
  fi_line :: "int option"
  fi_summary :: string
  fi_detail :: "string option"
  fi_status :: string
  fi_response :: "string option"
  fi_created :: ms
  fi_updated :: ms
  fi_pr_thread :: "string option"
  fi_pr_posted :: "ms option"

type_synonym findings = "finding list"

record new_finding =
  nf_severity :: string
  nf_file :: "string option"
  nf_line :: "int option"
  nf_summary :: string
  nf_detail :: "string option"

definition finding_location :: "finding \<Rightarrow> string option" where
  "finding_location f =
     (case fi_file f of
        None \<Rightarrow> None
      | Some file \<Rightarrow> Some (case fi_line f of Some line \<Rightarrow> file @ '':'' @ show_int line | None \<Rightarrow> file))"

definition finding_open :: "finding \<Rightarrow> bool" where
  "finding_open f = (fi_status f = FINDING_OPEN)"

text \<open>\<^verbatim>\<open>review::normalize\<close>: \<open>raw\<close> as one of \<open>allowed\<close>, whatever its case.\<close>

definition wanted_form :: "string \<Rightarrow> string" where
  "wanted_form raw = map (\<lambda>c. if c = CHR ''-'' then CHR ''_'' else c) (map ascii_lower (trim raw))"

definition normalize_word :: "string \<Rightarrow> string list \<Rightarrow> string \<Rightarrow> string fallible" where
  "normalize_word raw allowed what =
     (case find (\<lambda>s. s = wanted_form raw) allowed of
        Some s \<Rightarrow> Inr s
      | None \<Rightarrow> Inl (''unknown '' @ what @ '' `'' @ raw @ ''` (expected '' @ join ''|'' allowed @ '')''))"

definition nonblank :: "string option \<Rightarrow> string option" where
  "nonblank s = opt_filter (\<lambda>t. t \<noteq> []) (map_option trim s)"

definition next_seq :: "uuid \<Rightarrow> findings \<Rightarrow> int" where
  "next_seq n fs = fold max (map fi_seq (filter (\<lambda>f. fi_node f = n) fs)) 0 + 1"

definition add_finding ::
    "uuid \<Rightarrow> ms \<Rightarrow> uuid \<Rightarrow> uuid option \<Rightarrow> new_finding \<Rightarrow> findings \<Rightarrow> (finding \<times> findings) fallible" where
  "add_finding i now n conv nf fs =
     (case normalize_word (nf_severity nf) FINDING_SEVERITIES ''severity'' of
        Inl e \<Rightarrow> Inl e
      | Inr severity \<Rightarrow>
          let summary = trim (nf_summary nf); file = nonblank (nf_file nf)
          in if summary = [] then Inl ''a finding needs a summary''
             else if nf_line nf \<noteq> None \<and> file = None then Inl ''a line needs a file''
             else
               let f = \<lparr>fi_id = i, fi_node = n, fi_conversation = conv, fi_seq = next_seq n fs,
                        fi_severity = severity, fi_file = file, fi_line = nf_line nf, fi_summary = summary,
                        fi_detail = nonblank (nf_detail nf), fi_status = FINDING_OPEN, fi_response = None,
                        fi_created = now, fi_updated = now, fi_pr_thread = None, fi_pr_posted = None\<rparr>
               in Inr (f, fs @ [f]))"

definition respond_finding :: "ms \<Rightarrow> uuid \<Rightarrow> string \<Rightarrow> string option \<Rightarrow> findings \<Rightarrow> findings fallible" where
  "respond_finding now i status0 response0 fs =
     (case normalize_word status0 FINDING_STATUSES ''status'' of
        Inl e \<Rightarrow> Inl e
      | Inr status \<Rightarrow>
          let response = opt_filter (\<lambda>r. r \<noteq> [] \<and> status \<noteq> FINDING_OPEN) (map_option trim response0)
          in if status = FINDING_REJECTED \<and> response = None
             then Inl ''rejecting a finding needs a note saying why it is not a problem''
             else if list_all (\<lambda>f. fi_id f \<noteq> i) fs then Inl (''finding '' @ show_uuid i @ '' not found'')
             else Inr (map (\<lambda>f. if fi_id f = i
                                then f\<lparr>fi_status := status, fi_response := response, fi_updated := now\<rparr> else f) fs))"

definition set_pr_posted :: "ms \<Rightarrow> uuid \<Rightarrow> string option \<Rightarrow> findings \<Rightarrow> findings fallible" where
  "set_pr_posted now i thread fs =
     (if list_all (\<lambda>f. fi_id f \<noteq> i) fs then Inl (''finding '' @ show_uuid i @ '' not found'')
      else Inr (map (\<lambda>f. if fi_id f = i
                         then f\<lparr>fi_pr_thread := thread, fi_pr_posted := Some now, fi_updated := now\<rparr> else f) fs))"

definition find_by_pr_thread :: "uuid \<Rightarrow> string \<Rightarrow> findings \<Rightarrow> finding option" where
  "find_by_pr_thread n thread fs = find (\<lambda>f. fi_node f = n \<and> fi_pr_thread f = Some thread) fs"

definition findings_for_node :: "uuid \<Rightarrow> findings \<Rightarrow> findings" where
  "findings_for_node n fs = sort_key fi_seq (filter (\<lambda>f. fi_node f = n) fs)"

definition open_findings_for_nodes :: "uuid list \<Rightarrow> findings \<Rightarrow> findings" where
  "open_findings_for_nodes ns fs =
     (if ns = [] then [] else sort_key fi_created (filter (\<lambda>f. finding_open f \<and> fi_node f \<in> set ns) fs))"

section \<open>The table's invariant\<close>

definition wf_finding :: "finding \<Rightarrow> bool" where
  "wf_finding f \<longleftrightarrow>
     fi_severity f \<in> set FINDING_SEVERITIES \<and> fi_status f \<in> set FINDING_STATUSES
     \<and> fi_summary f \<noteq> [] \<and> (fi_line f \<noteq> None \<longrightarrow> fi_file f \<noteq> None)
     \<and> (fi_status f = FINDING_OPEN \<longrightarrow> fi_response f = None)
     \<and> (fi_status f = FINDING_REJECTED \<longrightarrow> fi_response f \<noteq> None)"

text \<open>Every row is sound, and a node's findings are numbered 1, 2, 3, ... as recorded.\<close>

definition wf_findings :: "findings \<Rightarrow> bool" where
  "wf_findings fs \<longleftrightarrow>
     list_all wf_finding fs \<and>
     (\<forall>n. map fi_seq (filter (\<lambda>f. fi_node f = n) fs)
          = map (\<lambda>k. int k + 1) [0..<length (filter (\<lambda>f. fi_node f = n) fs)])"

lemma fold_max_upt: "fold max (map (\<lambda>k. int k + 1) [0..<m]) 0 = int m"
  by (induction m) simp_all

lemma next_seq_wf:
  "wf_findings fs \<Longrightarrow> next_seq n fs = int (length (filter (\<lambda>f. fi_node f = n) fs)) + 1"
  by (simp add: next_seq_def wf_findings_def fold_max_upt)

lemma normalize_word_Inr: "normalize_word raw allowed what = Inr s \<Longrightarrow> s \<in> set allowed \<and> s = wanted_form raw"
  by (auto simp: normalize_word_def dest: find_Some_in split: option.splits)

lemma wf_findings_map:
  assumes "wf_findings fs"
    and "\<And>f. f \<in> set fs \<Longrightarrow> wf_finding (g f)" "\<And>f. fi_node (g f) = fi_node f" "\<And>f. fi_seq (g f) = fi_seq f"
  shows "wf_findings (map g fs)"
  using assms unfolding wf_findings_def
  by (simp add: list_all_iff filter_map comp_def)

lemma wf_add_finding:
  assumes wf: "wf_findings fs" and "add_finding i now n conv nf fs = Inr (f, fs')"
  shows "wf_findings fs'"
proof -
  have fs': "fs' = fs @ [f]" "fi_seq f = next_seq n fs" "fi_node f = n" "wf_finding f"
    using assms(2)
    by (auto simp: add_finding_def wf_finding_def FINDING_STATUSES_def Let_def dest: normalize_word_Inr
        split: sum.splits if_splits)
  show ?thesis
    using wf fs'(4) next_seq_wf[OF wf, of n] unfolding wf_findings_def fs'(1)
    by (simp add: fs'(2,3))
qed

lemma wf_respond_finding:
  assumes wf: "wf_findings fs" and "respond_finding now i status response fs = Inr fs'"
  shows "wf_findings fs'"
proof -
  obtain s where n: "normalize_word status FINDING_STATUSES ''status'' = Inr s"
    using assms(2) by (auto simp: respond_finding_def split: sum.splits)
  define r where "r = opt_filter (\<lambda>r. r \<noteq> [] \<and> s \<noteq> FINDING_OPEN) (map_option trim response)"
  have fs': "fs' = map (\<lambda>f. if fi_id f = i then f\<lparr>fi_status := s, fi_response := r, fi_updated := now\<rparr> else f) fs"
    and rej: "s = FINDING_REJECTED \<longrightarrow> r \<noteq> None"
    using assms(2) by (auto simp: respond_finding_def n r_def Let_def split: if_splits)
  have "s = FINDING_OPEN \<longrightarrow> r = None"
    by (simp add: r_def opt_filter_def split: option.split)
  with rej normalize_word_Inr[OF n]
  have s: "s \<in> set FINDING_STATUSES" "s = FINDING_OPEN \<longrightarrow> r = None" "s = FINDING_REJECTED \<longrightarrow> r \<noteq> None"
    by blast+
  show ?thesis
    unfolding fs' by (rule wf_findings_map[OF wf])
      (use wf s in \<open>auto simp: wf_findings_def list_all_iff wf_finding_def\<close>)
qed

lemma wf_set_pr_posted:
  assumes wf: "wf_findings fs" and "set_pr_posted now i thread fs = Inr fs'"
  shows "wf_findings fs'"
proof -
  have fs': "fs' = map (\<lambda>f. if fi_id f = i
      then f\<lparr>fi_pr_thread := thread, fi_pr_posted := Some now, fi_updated := now\<rparr> else f) fs"
    using assms(2) by (simp add: set_pr_posted_def split: if_splits)
  show ?thesis
    unfolding fs' by (rule wf_findings_map[OF wf])
      (use wf in \<open>auto simp: wf_findings_def list_all_iff wf_finding_def\<close>)
qed

inductive review_step :: "findings \<Rightarrow> findings \<Rightarrow> bool" where
  add: "add_finding i now n conv nf fs = Inr (f, fs') \<Longrightarrow> review_step fs fs'"
| respond: "respond_finding now i status response fs = Inr fs' \<Longrightarrow> review_step fs fs'"
| post: "set_pr_posted now i thread fs = Inr fs' \<Longrightarrow> review_step fs fs'"

text \<open>Whatever is recorded, answered and posted, in any order, every finding stays sound
  (known severity and status, a line only with a file, no response while open, always a note
  when rejected) and each node's findings are numbered 1, 2, 3, ... without a gap.\<close>
theorem findings_sound:
  assumes "review_step\<^sup>*\<^sup>* [] fs"
  shows "wf_findings fs"
  using assms
proof (induction rule: rtranclp_induct)
  case base
  then show ?case by (simp add: wf_findings_def)
next
  case (step y z)
  from step.hyps(2) step.IH show ?case
    by (induction rule: review_step.induct) (auto intro: wf_add_finding wf_respond_finding wf_set_pr_posted)
qed

lemma high_normalizes: "normalize_word ''High '' FINDING_SEVERITIES ''severity'' = Inr ''high''"
  by code_simp

theorem findings_sound_witness:
  "\<exists>f fs. add_finding 1 5 7 None \<lparr>nf_severity = ''High '', nf_file = None, nf_line = None,
       nf_summary = ''leak'', nf_detail = None\<rparr> [] = Inr (f, fs) \<and> wf_findings fs"
proof -
  obtain f fs where a: "add_finding 1 5 7 None \<lparr>nf_severity = ''High '', nf_file = None, nf_line = None,
       nf_summary = ''leak'', nf_detail = None\<rparr> [] = Inr (f, fs)"
    by (simp add: add_finding_def high_normalizes nonblank_def trim_def is_space_def Let_def)
  then have "review_step\<^sup>*\<^sup>* [] fs" using review_step.add by blast
  then show ?thesis using findings_sound a by blast
qed

end
