(* ===== verification/Verdicts.thy ===== *)
theory Verdicts
  imports Review
begin

text \<open>
  Requirement verdicts (\<^verbatim>\<open>tod-store/src/verification.rs\<close>): an append-only table whose
  latest row for a node and an obligation is that obligation's verdict there.
\<close>

abbreviation VERDICT_VERIFIED :: string where "VERDICT_VERIFIED \<equiv> ''verified''"
abbreviation VERDICT_FAILED :: string where "VERDICT_FAILED \<equiv> ''failed''"
abbreviation VERDICT_REOPENED :: string where "VERDICT_REOPENED \<equiv> ''reopened''"

definition AGENT_VERDICTS :: "string list" where
  "AGENT_VERDICTS = [VERDICT_VERIFIED, VERDICT_FAILED]"

record verdict =
  ve_id :: nat
  ve_node :: uuid
  ve_obligation :: uuid
  ve_conversation :: "uuid option"
  ve_status :: string
  ve_evidence :: string
  ve_created :: ms

record verdict_db =
  vd_rows :: "verdict list"
  vd_next :: nat

definition is_verified :: "verdict \<Rightarrow> bool" where
  "is_verified v = (ve_status v = VERDICT_VERIFIED)"

definition is_failed :: "verdict \<Rightarrow> bool" where
  "is_failed v = (ve_status v = VERDICT_FAILED)"

definition insert_verdict ::
    "ms \<Rightarrow> uuid \<Rightarrow> uuid \<Rightarrow> uuid option \<Rightarrow> string \<Rightarrow> string \<Rightarrow> verdict_db \<Rightarrow> verdict \<times> verdict_db" where
  "insert_verdict now n ob conv status evidence db =
     (let v = \<lparr>ve_id = vd_next db, ve_node = n, ve_obligation = ob, ve_conversation = conv,
               ve_status = status, ve_evidence = evidence, ve_created = now\<rparr>
      in (v, \<lparr>vd_rows = vd_rows db @ [v], vd_next = vd_next db + 1\<rparr>))"

definition record_verdict ::
    "ms \<Rightarrow> uuid \<Rightarrow> uuid \<Rightarrow> uuid option \<Rightarrow> string \<Rightarrow> string \<Rightarrow> verdict_db \<Rightarrow> (verdict \<times> verdict_db) fallible" where
  "record_verdict now n ob conv status0 evidence0 db =
     (case normalize_word status0 AGENT_VERDICTS ''status'' of
        Inl e \<Rightarrow> Inl e
      | Inr status \<Rightarrow>
          let evidence = trim evidence0
          in if evidence = [] then Inl ''a verdict needs evidence: what you ran and what happened''
             else Inr (insert_verdict now n ob conv status evidence db))"

definition history_for_node :: "uuid \<Rightarrow> verdict_db \<Rightarrow> verdict list" where
  "history_for_node n db = sort_key ve_id (filter (\<lambda>v. ve_node v = n) (vd_rows db))"

definition latest_by :: "(verdict \<Rightarrow> uuid) \<Rightarrow> verdict list \<Rightarrow> uuid \<Rightarrow> verdict option" where
  "latest_by key vs = fold (\<lambda>v m. m(key v \<mapsto> v)) vs (\<lambda>_. None)"

definition latest_for_node :: "uuid \<Rightarrow> verdict_db \<Rightarrow> uuid \<Rightarrow> verdict option" where
  "latest_for_node n db = latest_by ve_obligation (history_for_node n db)"

text \<open>The reopened rows are appended in the order of a hash map; here it is the order of
  first mention (each key gets one row, so no latest verdict depends on it).\<close>

definition reopen_verified :: "ms \<Rightarrow> uuid \<Rightarrow> string \<Rightarrow> verdict_db \<Rightarrow> nat \<times> verdict_db" where
  "reopen_verified now n why db =
     (let verified = filter (\<lambda>ob. is_some_and is_verified (latest_for_node n db ob))
                       (remdups (map ve_obligation (history_for_node n db)))
      in (length verified,
          fold (\<lambda>ob d. snd (insert_verdict now n ob None VERDICT_REOPENED why d)) verified db))"

definition reopen_obligation :: "ms \<Rightarrow> uuid \<Rightarrow> string \<Rightarrow> verdict_db \<Rightarrow> nat \<times> verdict_db" where
  "reopen_obligation now ob why db =
     (let hist = sort_key ve_id (filter (\<lambda>v. ve_obligation v = ob) (vd_rows db));
          verified = filter (\<lambda>n. is_some_and is_verified (latest_by ve_node hist n)) (remdups (map ve_node hist))
      in (length verified,
          fold (\<lambda>n d. snd (insert_verdict now n ob None VERDICT_REOPENED why d)) verified db))"

section \<open>The table\<close>

definition wf_verdicts :: "verdict_db \<Rightarrow> bool" where
  "wf_verdicts db \<longleftrightarrow> sorted_wrt (<) (map ve_id (vd_rows db)) \<and> (\<forall>v\<in>set (vd_rows db). ve_id v < vd_next db)"

text \<open>The current verdict of a node and obligation, read off the rows directly.\<close>

definition current_verdict :: "uuid \<Rightarrow> uuid \<Rightarrow> verdict_db \<Rightarrow> verdict option" where
  "current_verdict n ob db = find (\<lambda>v. ve_node v = n \<and> ve_obligation v = ob) (rev (vd_rows db))"

lemma sorted_wrt_less_filter:
  fixes f :: "'a \<Rightarrow> nat"
  shows "sorted_wrt (<) (map f xs) \<Longrightarrow> sorted (map f (filter p xs))"
  by (induction xs) (auto simp: less_imp_le)

lemma history_filter: "wf_verdicts db \<Longrightarrow> history_for_node n db = filter (\<lambda>v. ve_node v = n) (vd_rows db)"
  unfolding history_for_node_def wf_verdicts_def
  by (intro sort_key_id_if_sorted sorted_wrt_less_filter) simp

lemma latest_by_snoc: "latest_by key (vs @ [v]) = (latest_by key vs)(key v \<mapsto> v)"
  by (simp add: latest_by_def)

lemma latest_by_find: "latest_by key vs k = find (\<lambda>v. key v = k) (rev vs)"
  by (induction vs rule: rev_induct) (simp_all add: latest_by_snoc, simp add: latest_by_def)

lemma find_filter: "find p (filter q xs) = find (\<lambda>x. q x \<and> p x) xs"
  by (induction xs) auto

lemma latest_current: "wf_verdicts db \<Longrightarrow> latest_for_node n db ob = current_verdict n ob db"
  by (simp add: latest_for_node_def history_filter latest_by_find current_verdict_def rev_filter find_filter)

lemma latest_by_node_current:
  assumes "wf_verdicts db"
  shows "latest_by ve_node (sort_key ve_id (filter (\<lambda>v. ve_obligation v = ob) (vd_rows db))) n = current_verdict n ob db"
proof -
  have "sort_key ve_id (filter (\<lambda>v. ve_obligation v = ob) (vd_rows db)) = filter (\<lambda>v. ve_obligation v = ob) (vd_rows db)"
    using assms unfolding wf_verdicts_def by (intro sort_key_id_if_sorted sorted_wrt_less_filter) simp
  then show ?thesis
    by (simp add: latest_by_find current_verdict_def rev_filter find_filter conj_commute)
qed

lemma insert_wf: "wf_verdicts db \<Longrightarrow> wf_verdicts (snd (insert_verdict now n ob c s e db))"
  by (auto simp: wf_verdicts_def insert_verdict_def Let_def sorted_wrt_append less_Suc_eq)

lemma insert_current:
  "current_verdict m ob' (snd (insert_verdict now n ob c s e db)) =
     (if m = n \<and> ob' = ob then Some (fst (insert_verdict now n ob c s e db)) else current_verdict m ob' db)"
  by (auto simp: current_verdict_def insert_verdict_def Let_def)

lemma insert_rows: "vd_rows (snd (insert_verdict now n ob c s e db)) = vd_rows db @ [fst (insert_verdict now n ob c s e db)]"
  by (simp add: insert_verdict_def Let_def)

lemma insert_status [simp]: "ve_status (fst (insert_verdict now n ob c s e db)) = s"
  by (simp add: insert_verdict_def Let_def)

text \<open>Appending \<^verbatim>\<open>reopened\<close> rows, one per key.\<close>

definition reopen_keys :: "ms \<Rightarrow> string \<Rightarrow> (uuid \<times> uuid) list \<Rightarrow> verdict_db \<Rightarrow> verdict_db" where
  "reopen_keys now why keys db =
     fold (\<lambda>(n, ob) d. snd (insert_verdict now n ob None VERDICT_REOPENED why d)) keys db"

lemma reopen_keys_wf: "wf_verdicts db \<Longrightarrow> wf_verdicts (reopen_keys now why keys db)"
  unfolding reopen_keys_def by (induction keys arbitrary: db) (auto intro: insert_wf)

lemma reopen_keys_rows: "\<exists>more. vd_rows (reopen_keys now why keys db) = vd_rows db @ more"
  unfolding reopen_keys_def
proof (induction keys arbitrary: db)
  case (Cons k keys)
  then show ?case
    using Cons.IH[of "snd (insert_verdict now (fst k) (snd k) None VERDICT_REOPENED why db)"]
    by (auto simp: insert_rows split_beta)
qed simp

lemma reopen_keys_current:
  "if (m, ob') \<in> set keys
   then \<exists>v. current_verdict m ob' (reopen_keys now why keys db) = Some v \<and> ve_status v = VERDICT_REOPENED
   else current_verdict m ob' (reopen_keys now why keys db) = current_verdict m ob' db"
  unfolding reopen_keys_def
proof (induction keys rule: rev_induct)
  case (snoc k keys)
  obtain n ob where k: "k = (n, ob)" by (cases k)
  show ?case using snoc by (auto simp: k insert_current split: if_splits)
qed simp

lemma reopen_verified_keys:
  "snd (reopen_verified now n why db) =
     reopen_keys now why (map (Pair n) (filter (\<lambda>ob. is_some_and is_verified (latest_for_node n db ob))
       (remdups (map ve_obligation (history_for_node n db))))) db"
  by (simp add: reopen_verified_def reopen_keys_def Let_def fold_map comp_def)

lemma reopen_obligation_keys:
  "snd (reopen_obligation now ob why db) =
     reopen_keys now why (map (\<lambda>n. (n, ob)) (filter (\<lambda>n. is_some_and is_verified
         (latest_by ve_node (sort_key ve_id (filter (\<lambda>v. ve_obligation v = ob) (vd_rows db))) n))
       (remdups (map ve_node (sort_key ve_id (filter (\<lambda>v. ve_obligation v = ob) (vd_rows db))))))) db"
  by (simp add: reopen_obligation_def reopen_keys_def Let_def fold_map comp_def)

lemma current_in_rows: "current_verdict n ob db = Some v \<Longrightarrow> v \<in> set (vd_rows db) \<and> ve_node v = n \<and> ve_obligation v = ob"
  by (auto simp: current_verdict_def dest!: find_Some_in)

lemma reopen_verified_current:
  assumes wf: "wf_verdicts db"
  shows "if m = n \<and> is_some_and is_verified (current_verdict n ob db)
     then \<exists>v. current_verdict m ob (snd (reopen_verified now n why db)) = Some v \<and> ve_status v = VERDICT_REOPENED
     else current_verdict m ob (snd (reopen_verified now n why db)) = current_verdict m ob db"
proof -
  let ?keys = "map (Pair n) (filter (\<lambda>ob. is_some_and is_verified (latest_for_node n db ob))
       (remdups (map ve_obligation (history_for_node n db))))"
  have "(m, ob) \<in> set ?keys \<longleftrightarrow> m = n \<and> is_some_and is_verified (current_verdict n ob db)"
  proof -
    have "ob \<in> ve_obligation ` set (history_for_node n db)" if "is_some_and is_verified (current_verdict n ob db)"
      using that current_in_rows[of n ob db] by (auto simp: is_some_and_iff history_filter[OF wf])
    then show ?thesis by (auto simp: latest_current[OF wf])
  qed
  then show ?thesis
    using reopen_keys_current[of m ob ?keys now why db] unfolding reopen_verified_keys by meson
qed

lemma reopen_verified_rows:
  "\<exists>more. vd_rows (snd (reopen_verified now n why db)) = vd_rows db @ more"
  "wf_verdicts db \<Longrightarrow> wf_verdicts (snd (reopen_verified now n why db))"
  unfolding reopen_verified_keys by (rule reopen_keys_rows) (rule reopen_keys_wf)

section \<open>Properties\<close>

text \<open>When a node's code changes, exactly its confirmed requirements are withdrawn: after
  \<^verbatim>\<open>reopen_verified\<close> no current verdict of the node is \<^verbatim>\<open>verified\<close>, one that was is
  \<^verbatim>\<open>reopened\<close>, every other current verdict (a failed one, another node's) is unchanged, and no
  row is ever removed or changed.\<close>
theorem reopen_verified_exact:
  fixes now :: ms and n m ob :: uuid and why :: string
  assumes wf: "wf_verdicts db"
  defines "db' \<equiv> snd (reopen_verified now n why db)"
  shows "\<not> is_some_and is_verified (current_verdict n ob db')
    \<and> (is_some_and is_verified (current_verdict n ob db) \<longrightarrow>
         (\<exists>v. current_verdict n ob db' = Some v \<and> ve_status v = VERDICT_REOPENED))
    \<and> (m \<noteq> n \<or> \<not> is_some_and is_verified (current_verdict m ob db) \<longrightarrow>
         current_verdict m ob db' = current_verdict m ob db)
    \<and> (\<exists>more. vd_rows db' = vd_rows db @ more) \<and> wf_verdicts db'"
  unfolding db'_def
  using reopen_verified_current[OF wf, of n n ob now why] reopen_verified_current[OF wf, of m n ob now why]
    reopen_verified_rows(1)[of now n why db] reopen_verified_rows(2)[OF wf, of now n why]
  by (auto simp: is_verified_def split: if_splits)

definition sample_verdicts :: verdict_db where
  "sample_verdicts = snd (insert_verdict 5 7 3 None VERDICT_VERIFIED ''ran it'' \<lparr>vd_rows = [], vd_next = 1\<rparr>)"

lemma sample_verdicts_wf: "wf_verdicts sample_verdicts"
  by (simp add: sample_verdicts_def wf_verdicts_def insert_verdict_def Let_def)

theorem reopen_verified_exact_witness:
  "\<not> is_some_and is_verified (current_verdict 7 3 (snd (reopen_verified 9 7 ''code changed'' sample_verdicts)))"
  using reopen_verified_exact[where db = sample_verdicts and now = 9 and n = 7 and m = 7 and ob = 3
      and why = "''code changed''"]
  using sample_verdicts_wf by blast

text \<open>Rewording an obligation withdraws its confirmation on every node at once, and touches
  no other obligation's verdict.\<close>
theorem reopen_obligation_exact:
  fixes now :: ms and n ob ob' :: uuid and why :: string
  assumes wf: "wf_verdicts db"
  defines "db' \<equiv> snd (reopen_obligation now ob why db)"
  shows "\<not> is_some_and is_verified (current_verdict n ob db')
    \<and> (is_some_and is_verified (current_verdict n ob' db) \<and> ob' = ob \<longrightarrow>
         (\<exists>v. current_verdict n ob' db' = Some v \<and> ve_status v = VERDICT_REOPENED))
    \<and> (ob' \<noteq> ob \<or> \<not> is_some_and is_verified (current_verdict n ob db) \<longrightarrow>
         current_verdict n ob' db' = current_verdict n ob' db)
    \<and> (\<exists>more. vd_rows db' = vd_rows db @ more) \<and> wf_verdicts db'"
proof -
  let ?hist = "sort_key ve_id (filter (\<lambda>v. ve_obligation v = ob) (vd_rows db))"
  define keys where "keys = map (\<lambda>n. (n, ob)) (filter (\<lambda>n. is_some_and is_verified (latest_by ve_node ?hist n))
       (remdups (map ve_node ?hist)))"
  have db': "db' = reopen_keys now why keys db"
    by (simp add: db'_def reopen_obligation_keys keys_def)
  have keys: "(k, o') \<in> set keys \<longleftrightarrow> o' = ob \<and> is_some_and is_verified (current_verdict k ob db)" for k o'
  proof -
    have "k \<in> ve_node ` set ?hist" if "is_some_and is_verified (current_verdict k ob db)"
      using that current_in_rows[of k ob db] by (auto simp: is_some_and_iff)
    then show ?thesis by (auto simp: keys_def latest_by_node_current[OF wf])
  qed
  have cur: "if o' = ob \<and> is_some_and is_verified (current_verdict k ob db)
     then \<exists>v. current_verdict k o' db' = Some v \<and> ve_status v = VERDICT_REOPENED
     else current_verdict k o' db' = current_verdict k o' db" for k o'
    using reopen_keys_current[of k o' keys now why db] unfolding keys db' by blast
  show ?thesis
    using cur[of ob n] cur[of ob' n] reopen_keys_rows[of now why keys db] reopen_keys_wf[OF wf, of now why keys]
    by (auto simp: db' is_verified_def split: if_splits)
qed

theorem reopen_obligation_exact_witness:
  "\<not> is_some_and is_verified (current_verdict 7 3 (snd (reopen_obligation 9 3 ''reworded'' sample_verdicts)))"
  using reopen_obligation_exact[where db = sample_verdicts and now = 9 and n = 7 and ob = 3 and ob' = 3
      and why = "''reworded''"]
  using sample_verdicts_wf by blast

end
