(* ===== verification/Ordinals.thy ===== *)
theory Ordinals
  imports Prelude "HOL-Library.Multiset"
begin

text \<open>
  Rows kept in an order of their own: \<^verbatim>\<open>node_plan_steps\<close> (numbered per node) and
  \<^verbatim>\<open>node_obligations\<close> (numbered per node and kind) are renumbered by the same two passes
  (\<^verbatim>\<open>write_ordinals\<close> in \<^verbatim>\<open>plan_steps.rs\<close> and \<^verbatim>\<open>obligations.rs\<close>): first to negative
  places, so that no two rows of a group ever share one, then to their final ones. The passes
  are defined over the selectors they use; the locale states what the selectors must satisfy and
  proves what the passes achieve.
\<close>

section \<open>The passes\<close>

definition group_ids :: "('r \<Rightarrow> uuid) \<Rightarrow> ('r \<Rightarrow> 'g) \<Rightarrow> ('r \<Rightarrow> int) \<Rightarrow> 'g \<Rightarrow> 'r list \<Rightarrow> uuid list" where
  "group_ids rid grp ord g rows = map rid (sort_key ord (filter (\<lambda>r. grp r = g) rows))"

definition negative_pass ::
    "('r \<Rightarrow> uuid) \<Rightarrow> ('r \<Rightarrow> 'g) \<Rightarrow> (int \<Rightarrow> 'r \<Rightarrow> 'r) \<Rightarrow> 'g \<Rightarrow> uuid list \<Rightarrow> 'r list \<Rightarrow> 'r list" where
  "negative_pass rid grp touch g ids rows =
     fold (\<lambda>(i, k). map (\<lambda>r. if rid r = k \<and> grp r = g then touch (- (int i + 1)) r else r))
       (enumerate 0 ids) rows"

definition final_pass :: "('r \<Rightarrow> uuid) \<Rightarrow> (int \<Rightarrow> 'r \<Rightarrow> 'r) \<Rightarrow> uuid list \<Rightarrow> 'r list \<Rightarrow> 'r list" where
  "final_pass rid set_ord ids rows =
     fold (\<lambda>(i, k). map (\<lambda>r. if rid r = k then set_ord (int i + 1) r else r)) (enumerate 0 ids) rows"

definition renumber ::
    "('r \<Rightarrow> uuid) \<Rightarrow> ('r \<Rightarrow> 'g) \<Rightarrow> (int \<Rightarrow> 'r \<Rightarrow> 'r) \<Rightarrow> (int \<Rightarrow> 'r \<Rightarrow> 'r) \<Rightarrow> 'g \<Rightarrow> uuid list \<Rightarrow> 'r list \<Rightarrow> 'r list" where
  "renumber rid grp touch set_ord g ids rows =
     final_pass rid set_ord ids (negative_pass rid grp touch g ids rows)"

text \<open>\<^verbatim>\<open>Vec::insert\<close> and \<^verbatim>\<open>Vec::swap\<close>.\<close>

definition insert_nth :: "nat \<Rightarrow> 'a \<Rightarrow> 'a list \<Rightarrow> 'a list" where
  "insert_nth i x xs = take i xs @ x # drop i xs"

definition swap_nth :: "nat \<Rightarrow> nat \<Rightarrow> 'a list \<Rightarrow> 'a list" where
  "swap_nth i j xs = xs[i := xs ! j, j := xs ! i]"

lemma set_insert_nth [simp]: "set (insert_nth i x xs) = insert x (set xs)"
proof -
  have "set xs = set (take i xs) \<union> set (drop i xs)"
    by (metis append_take_drop_id set_append)
  then show ?thesis by (auto simp: insert_nth_def)
qed

lemma distinct_insert_nth [simp]: "distinct (insert_nth i x xs) \<longleftrightarrow> distinct xs \<and> x \<notin> set xs"
proof -
  have "distinct (as @ x # bs) \<longleftrightarrow> distinct (as @ bs) \<and> x \<notin> set (as @ bs)" for as bs
    by auto
  from this[of "take i xs" "drop i xs"] show ?thesis
    by (simp add: insert_nth_def del: distinct_append set_append)
qed

lemma set_swap_nth [simp]: "i < length xs \<Longrightarrow> j < length xs \<Longrightarrow> set (swap_nth i j xs) = set xs"
  by (simp add: swap_nth_def)

lemma distinct_swap_nth [simp]:
  "i < length xs \<Longrightarrow> j < length xs \<Longrightarrow> distinct (swap_nth i j xs) \<longleftrightarrow> distinct xs"
  by (simp add: swap_nth_def)

text \<open>The positions of a list of distinct ids.\<close>

definition pos_in :: "uuid list \<Rightarrow> uuid \<Rightarrow> nat option" where
  "pos_in ids k = map_option fst (find (\<lambda>(_, x). x = k) (enumerate 0 ids))"

lemma pos_in_nth: "distinct ids \<Longrightarrow> i < length ids \<Longrightarrow> pos_in ids (ids ! i) = Some i"
  unfolding pos_in_def
proof (induction ids rule: rev_induct)
  case (snoc x xs)
  have find_append: "find p (as @ bs) = (case find p as of Some y \<Rightarrow> Some y | None \<Rightarrow> find p bs)"
    for p :: "nat \<times> uuid \<Rightarrow> bool" and as bs
    by (induction as) auto
  have none: "find (\<lambda>(_, y). y = x) (enumerate 0 xs) = None" if "x \<notin> set xs"
    using that by (auto simp: find_None_list_all list_all_iff in_set_enumerate_eq)
  show ?case
  proof (cases "i < length xs")
    case True
    then have "map_option fst (find (\<lambda>(_, y). y = xs ! i) (enumerate 0 xs)) = Some i"
      using snoc by simp
    then show ?thesis using True
      by (auto simp: enumerate_append_eq find_append nth_append)
  next
    case False
    with snoc.prems have "i = length xs" by simp
    then show ?thesis using none snoc.prems(1)
      by (simp add: enumerate_append_eq find_append)
  qed
qed simp

lemma pos_in_Some: "pos_in ids k = Some i \<Longrightarrow> i < length ids \<and> ids ! i = k"
  by (auto simp: pos_in_def in_set_enumerate_eq dest!: find_Some_in)

lemma pos_in_None: "pos_in ids k = None \<longleftrightarrow> k \<notin> set ids"
proof -
  have "snd ` set (enumerate 0 ids) = set ids" by (metis list.set_map map_snd_enumerate)
  then show ?thesis by (force simp: pos_in_def find_None_list_all list_all_iff)
qed

section \<open>What they achieve\<close>

locale ordinal_rows =
  fixes rid :: "'r \<Rightarrow> uuid" and grp :: "'r \<Rightarrow> 'g" and ord :: "'r \<Rightarrow> int"
    and touch :: "int \<Rightarrow> 'r \<Rightarrow> 'r" and set_ord :: "int \<Rightarrow> 'r \<Rightarrow> 'r"
  assumes touch_sel: "rid (touch k r) = rid r" "grp (touch k r) = grp r"
    and set_sel: "rid (set_ord k r) = rid r" "grp (set_ord k r) = grp r" "ord (set_ord k r) = k"
begin

lemma fold_map_hit:
  assumes "distinct (map snd es)" "\<And>i r. rid (h i r) = rid r" and Q: "\<And>i r. Q (h i r) = Q r"
  shows "fold (\<lambda>(i, k). map (\<lambda>r. if rid r = k \<and> Q r then h i r else r)) es rows
       = map (\<lambda>r. case find (\<lambda>(_, k). k = rid r) es of Some (i, _) \<Rightarrow> if Q r then h i r else r | None \<Rightarrow> r) rows"
  using assms(1)
proof (induction es arbitrary: rows)
  case (Cons e es)
  obtain i k where e: "e = (i, k)" by (cases e)
  have none: "find (\<lambda>(_, k'). k' = k) es = None"
    using Cons.prems by (force simp: e find_None_list_all list_all_iff)
  show ?case
    using Cons none Q assms(2)
    by (auto simp: e split: option.split)
qed simp

abbreviation renum :: "'g \<Rightarrow> uuid list \<Rightarrow> 'r list \<Rightarrow> 'r list" where
  "renum \<equiv> renumber rid grp touch set_ord"

definition placed :: "'g \<Rightarrow> uuid list \<Rightarrow> 'r \<Rightarrow> 'r" where
  "placed g ids r =
     (case pos_in ids (rid r) of
        None \<Rightarrow> r
      | Some i \<Rightarrow> set_ord (int i + 1) (if grp r = g then touch (- (int i + 1)) r else r))"

lemma renum_map: "distinct ids \<Longrightarrow> renum g ids rows = map (placed g ids) rows"
proof -
  assume d: "distinct ids"
  have neg: "negative_pass rid grp touch g ids rows
      = map (\<lambda>r. case find (\<lambda>(_, k). k = rid r) (enumerate 0 ids) of
                   Some (i, _) \<Rightarrow> if grp r = g then touch (- (int i + 1)) r else r | None \<Rightarrow> r) rows"
    unfolding negative_pass_def
    by (rule fold_map_hit[where Q = "\<lambda>r. grp r = g"]) (simp_all add: d touch_sel)
  have fin: "final_pass rid set_ord ids rows'
      = map (\<lambda>r. case find (\<lambda>(_, k). k = rid r) (enumerate 0 ids) of
                   Some (i, _) \<Rightarrow> if True then set_ord (int i + 1) r else r | None \<Rightarrow> r) rows'" for rows'
    unfolding final_pass_def
    using fold_map_hit[where Q = "\<lambda>_. True" and h = "\<lambda>i. set_ord (int i + 1)" and es = "enumerate 0 ids" and rows = rows']
    by (simp add: d set_sel)
  show "renum g ids rows = map (placed g ids) rows"
    unfolding renumber_def neg fin
    by (auto simp: placed_def pos_in_def touch_sel split: option.splits)
qed

lemma placed_sel [simp]: "rid (placed g ids r) = rid r" "grp (placed g ids r) = grp r"
  by (simp_all add: placed_def touch_sel set_sel split: option.splits)

lemma placed_ord: "pos_in ids (rid r) = Some i \<Longrightarrow> ord (placed g ids r) = int i + 1"
  by (simp add: placed_def set_sel)

lemma renum_ids: "distinct ids \<Longrightarrow> map rid (renum g ids rows) = map rid rows"
  by (simp add: renum_map)

text \<open>The group is in the order asked for, numbered 1, 2, 3, ...\<close>

lemma renum_group:
  assumes "distinct ids" "distinct (map rid rows)"
    and "set ids = rid ` {r \<in> set rows. grp r = g}"
  shows "group_ids rid grp ord g (renum g ids rows) = ids"
    and "map ord (sort_key ord (filter (\<lambda>r. grp r = g) (renum g ids rows))) = map (\<lambda>i. int i + 1) [0..<length ids]"
proof -
  let ?f = "placed g ids"
  let ?rows = "filter (\<lambda>r. grp r = g) rows"
  have hit: "\<exists>i<length ids. pos_in ids (rid r) = Some i" if "r \<in> set ?rows" for r
  proof -
    have "rid r \<in> set ids" using that assms(3) by auto
    then show ?thesis using pos_in_nth[OF assms(1)] by (metis in_set_conv_nth)
  qed
  define row where "row i = (THE r. r \<in> set ?rows \<and> rid r = ids ! i)" for i
  have inj: "inj_on rid (set rows)" using assms(2) by (simp add: distinct_map)
  have row: "row i \<in> set ?rows \<and> rid (row i) = ids ! i" if "i < length ids" for i
  proof -
    have "ids ! i \<in> rid ` {r \<in> set rows. grp r = g}" using that assms(3) nth_mem by metis
    then obtain r where r: "r \<in> set ?rows" "rid r = ids ! i" by auto
    have uniq: "r' = r" if "r' \<in> set ?rows \<and> rid r' = ids ! i" for r'
    proof -
      from that r have "r' \<in> set rows" "r \<in> set rows" "rid r' = rid r" by auto
      then show "r' = r" using inj by (simp add: inj_on_def)
    qed
    show ?thesis unfolding row_def
      by (rule theI[of _ r]) (use r uniq in blast)+
  qed
  define ys where "ys = map (\<lambda>i. ?f (row i)) [0..<length ids]"
  have ord_row: "ord (?f (row i)) = int i + 1" if "i < length ids" for i
    by (rule placed_ord) (use row[OF that] pos_in_nth[OF assms(1) that] in simp)
  have "map ord ys = map (\<lambda>i. int i + 1) [0..<length ids]"
    using ord_row by (simp add: ys_def)
  moreover have "map rid ys = ids"
    by (rule nth_equalityI) (use row in \<open>auto simp: ys_def\<close>)
  moreover have "sort_key ord (filter (\<lambda>r. grp r = g) (renum g ids rows)) = ys"
  proof (rule sort_key_inj_key_eq)
    have eq: "filter (\<lambda>r. grp r = g) (renum g ids rows) = map ?f ?rows"
      by (simp add: renum_map[OF assms(1)] filter_map comp_def)
    have "set ?rows = row ` {0..<length ids}"
    proof
      show "set ?rows \<subseteq> row ` {0..<length ids}"
      proof
        fix r assume r: "r \<in> set ?rows"
        then obtain i where i: "i < length ids" "pos_in ids (rid r) = Some i" using hit by blast
        then have "rid (row i) = rid r" using row pos_in_Some by metis
        then have "row i = r" using row[OF i(1)] r inj by (auto dest: inj_onD)
        then show "r \<in> row ` {0..<length ids}" using i(1) by auto
      qed
      show "row ` {0..<length ids} \<subseteq> set ?rows" using row by auto
    qed
    then have "set (map ?f ?rows) = set ys" by (auto simp: ys_def)
    moreover have "distinct (map ?f ?rows)"
    proof -
      have "distinct (map rid (map ?f ?rows))"
        using assms(2) by (simp add: distinct_map_filter comp_def)
      then show ?thesis using distinct_map by blast
    qed
    moreover have "distinct ys"
      using \<open>map rid ys = ids\<close> assms(1) by (metis distinct_map)
    ultimately show "mset (filter (\<lambda>r. grp r = g) (renum g ids rows)) = mset ys"
      unfolding eq using set_eq_iff_mset_eq_distinct by blast
    show "inj_on ord (set (filter (\<lambda>r. grp r = g) (renum g ids rows)))"
    proof (rule inj_onI)
      fix a b assume ab: "a \<in> set (filter (\<lambda>r. grp r = g) (renum g ids rows))"
        "b \<in> set (filter (\<lambda>r. grp r = g) (renum g ids rows))" "ord a = ord b"
      then have "a \<in> set ys" "b \<in> set ys" using \<open>set (map ?f ?rows) = set ys\<close> eq by auto
      then obtain i j where "i < length ids" "a = ?f (row i)" "j < length ids" "b = ?f (row j)"
        by (auto simp: ys_def)
      then show "a = b" using ab(3) ord_row by auto
    qed
    show "sorted (map ord ys)"
      unfolding \<open>map ord ys = _\<close> by (auto simp: sorted_iff_nth_mono)
  qed
  ultimately show "group_ids rid grp ord g (renum g ids rows) = ids"
    and "map ord (sort_key ord (filter (\<lambda>r. grp r = g) (renum g ids rows))) = map (\<lambda>i. int i + 1) [0..<length ids]"
    by (simp_all add: group_ids_def)
qed

text \<open>No other group moves.\<close>

lemma renum_other:
  assumes "distinct ids" "distinct (map rid rows)" "set ids \<subseteq> rid ` {r \<in> set rows. grp r = g}" "h \<noteq> g"
  shows "filter (\<lambda>r. grp r = h) (renum g ids rows) = filter (\<lambda>r. grp r = h) rows"
proof -
  have "placed g ids r = r" if "r \<in> set rows" "grp r = h" for r
  proof -
    have "rid r \<notin> set ids"
    proof
      assume "rid r \<in> set ids"
      then obtain r' where "r' \<in> set rows" "grp r' = g" "rid r' = rid r" using assms(3) by fastforce
      then show False using that assms(2,4) by (metis distinct_map inj_onD)
    qed
    then show ?thesis using pos_in_None[of ids "rid r"] by (simp add: placed_def)
  qed
  then have "map (placed g ids) (filter (\<lambda>r. grp r = h) rows) = filter (\<lambda>r. grp r = h) rows"
    by (intro map_idI) auto
  then show ?thesis by (simp add: renum_map[OF assms(1)] filter_map comp_def)
qed

text \<open>Numbered without a gap: the invariant the operations keep.\<close>

definition dense :: "'r list \<Rightarrow> bool" where
  "dense rows \<longleftrightarrow> distinct (map rid rows) \<and>
     (\<forall>g. map ord (sort_key ord (filter (\<lambda>r. grp r = g) rows))
          = map (\<lambda>i. int i + 1) [0..<length (filter (\<lambda>r. grp r = g) rows)])"

lemma group_ids_set: "set (group_ids rid grp ord g rows) = rid ` {r \<in> set rows. grp r = g}"
  by (auto simp: group_ids_def)

lemma group_ids_distinct: "distinct (map rid rows) \<Longrightarrow> distinct (group_ids rid grp ord g rows)"
  unfolding group_ids_def by (simp add: distinct_map distinct_filter inj_on_def)

lemma dense_renum:
  assumes "distinct ids" "distinct (map rid rows)" "set ids = rid ` {r \<in> set rows. grp r = g}"
    and "\<And>h. h \<noteq> g \<Longrightarrow> map ord (sort_key ord (filter (\<lambda>r. grp r = h) rows))
          = map (\<lambda>i. int i + 1) [0..<length (filter (\<lambda>r. grp r = h) rows)]"
  shows "dense (renum g ids rows)"
  unfolding dense_def
proof (intro conjI allI)
  show "distinct (map rid (renum g ids rows))" using assms(1,2) by (simp add: renum_ids)
  fix h
  show "map ord (sort_key ord (filter (\<lambda>r. grp r = h) (renum g ids rows)))
          = map (\<lambda>i. int i + 1) [0..<length (filter (\<lambda>r. grp r = h) (renum g ids rows))]"
  proof (cases "h = g")
    case True
    have "length (filter (\<lambda>r. grp r = g) (renum g ids rows)) = length ids"
      using renum_group(1)[OF assms(1-3)] by (metis group_ids_def length_map length_sort)
    then show ?thesis using True renum_group(2)[OF assms(1-3)] by simp
  next
    case False
    then show ?thesis using assms by (simp add: renum_other)
  qed
qed

lemma dense_group:
  "dense rows \<Longrightarrow> map ord (sort_key ord (filter (\<lambda>r. grp r = h) rows))
     = map (\<lambda>i. int i + 1) [0..<length (filter (\<lambda>r. grp r = h) rows)]"
  by (simp add: dense_def)

lemma dense_ids: "dense rows \<Longrightarrow> distinct (map rid rows)"
  by (simp add: dense_def)

text \<open>The operations that renumber: a new order, an insertion, a deletion.\<close>

lemma dense_reorder:
  assumes "dense rows" "distinct ids" "set ids = set (group_ids rid grp ord g rows)"
  shows "dense (renum g ids rows)"
  using dense_renum[OF assms(2) dense_ids[OF assms(1)]] assms dense_group by (simp add: group_ids_set)

lemma dense_insert:
  assumes "dense rows" "rid row \<notin> rid ` set rows" "grp row = g"
  shows "dense (renum g (insert_nth i (rid row) (group_ids rid grp ord g rows)) (rows @ [row]))"
proof (rule dense_renum)
  note d = dense_ids[OF assms(1)]
  show "distinct (insert_nth i (rid row) (group_ids rid grp ord g rows))"
    using assms(2) by (auto simp: group_ids_distinct[OF d] group_ids_set)
  show "distinct (map rid (rows @ [row]))" using d assms(2) by auto
  have "{r \<in> set (rows @ [row]). grp r = g} = insert row {r \<in> set rows. grp r = g}"
    using assms(3) by auto
  then show "set (insert_nth i (rid row) (group_ids rid grp ord g rows)) = rid ` {r \<in> set (rows @ [row]). grp r = g}"
    by (simp add: group_ids_set)
  show "map ord (sort_key ord (filter (\<lambda>r. grp r = h) (rows @ [row])))
          = map (\<lambda>i. int i + 1) [0..<length (filter (\<lambda>r. grp r = h) (rows @ [row]))]" if "h \<noteq> g" for h
    using that assms(3) dense_group[OF assms(1), of h] by auto
qed

lemma dense_delete:
  assumes "dense rows" "row \<in> set rows" "rid row = k" "rows' = filter (\<lambda>r. rid r \<noteq> k) rows"
  shows "dense (renum (grp row) (group_ids rid grp ord (grp row) rows') rows')"
proof (rule dense_renum)
  note d = dense_ids[OF assms(1)]
  show d': "distinct (map rid rows')" using d by (simp add: assms(4) distinct_map_filter)
  show "distinct (group_ids rid grp ord (grp row) rows')" by (rule group_ids_distinct[OF d'])
  show "set (group_ids rid grp ord (grp row) rows') = rid ` {r \<in> set rows'. grp r = grp row}" by (rule group_ids_set)
  fix h assume h: "h \<noteq> grp row"
  have "rid r \<noteq> k" if "r \<in> set rows" "grp r = h" for r
    using that h assms(2,3) d by (auto simp: distinct_map inj_on_def)
  then have "filter (\<lambda>r. grp r = h) rows' = filter (\<lambda>r. grp r = h) rows"
    by (auto simp: assms(4) intro: filter_cong)
  then show "map ord (sort_key ord (filter (\<lambda>r. grp r = h) rows'))
          = map (\<lambda>i. int i + 1) [0..<length (filter (\<lambda>r. grp r = h) rows')]"
    using dense_group[OF assms(1), of h] by simp
qed

lemma sort_key_snoc_greatest:
  assumes "\<And>r. r \<in> set rs \<Longrightarrow> ord r \<le> ord x"
  shows "sort_key ord (rs @ [x]) = sort_key ord rs @ [x]"
proof -
  have ins: "insort_key ord y (xs @ [x]) = insort_key ord y xs @ [x]" if "ord y \<le> ord x" for y xs
    using that by (induction xs) auto
  show ?thesis
    using assms by (induction rs) (auto simp: ins)
qed

text \<open>A row appended with the next number.\<close>

lemma dense_append:
  assumes "dense rows" "rid row \<notin> rid ` set rows"
    and "ord row = int (length (filter (\<lambda>r. grp r = grp row) rows)) + 1"
  shows "dense (rows @ [row])"
  unfolding dense_def
proof (intro conjI allI)
  show "distinct (map rid (rows @ [row]))" using assms(2) dense_ids[OF assms(1)] by auto
  fix h
  let ?rs = "filter (\<lambda>r. grp r = h) rows"
  show "map ord (sort_key ord (filter (\<lambda>r. grp r = h) (rows @ [row])))
          = map (\<lambda>i. int i + 1) [0..<length (filter (\<lambda>r. grp r = h) (rows @ [row]))]"
  proof (cases "grp row = h")
    case True
    have "ord ` set ?rs = set (map ord (sort_key ord ?rs))" by simp
    also have "\<dots> = (\<lambda>i. int i + 1) ` {0..<length ?rs}"
      unfolding dense_group[OF assms(1)] by simp
    finally have "ord r \<le> ord row" if "r \<in> set ?rs" for r
    proof -
      assume img: "ord ` set ?rs = (\<lambda>i. int i + 1) ` {0..<length ?rs}"
      have "ord r \<in> (\<lambda>i. int i + 1) ` {0..<length ?rs}" using that img by blast
      then show "ord r \<le> ord row" using assms(3) True by auto
    qed
    then have "sort_key ord (?rs @ [row]) = sort_key ord ?rs @ [row]"
      by (intro sort_key_snoc_greatest)
    then show ?thesis
      using dense_group[OF assms(1), of h] assms(3) True by simp
  next
    case False
    then show ?thesis using dense_group[OF assms(1), of h] by simp
  qed
qed

text \<open>Deleting a row of a group and renumbering what is left of it does not need the row's
  place; neither does a write that leaves ids, groups and places alone.\<close>

lemma dense_map_rows:
  assumes "dense rows" "\<And>r. rid (f r) = rid r" "\<And>r. grp (f r) = grp r" "\<And>r. ord (f r) = ord r"
  shows "dense (map f rows)"
proof -
  have key: "map ord (sort_key ord (map f xs)) = map ord (sort_key ord xs)" for xs
  proof -
    have "map k (sort_key k ys) = sort (map k ys)" for k :: "'r \<Rightarrow> int" and ys
      by (rule properties_for_sort[symmetric]) (metis mset_map mset_sort, simp)
    then show ?thesis by (simp add: assms(4) comp_def)
  qed
  show ?thesis
    using assms(1) unfolding dense_def by (simp add: filter_map comp_def assms(2,3) key)
qed

subsection \<open>What the passes leave alone, and what places rest on\<close>

text \<open>A reading of the rows that no write of an ordinal changes.\<close>

lemma renum_keeps:
  assumes "\<And>k r. f (touch k r) = f r" "\<And>k r. f (set_ord k r) = f r"
  shows "map f (renum g ids rows) = map f rows"
proof -
  have neg: "map f (fold (\<lambda>(i, k). map (\<lambda>r. if rid r = k \<and> grp r = g then touch (- (int i + 1)) r else r)) xs rows) = map f rows" for xs rows
    by (induction xs arbitrary: rows) (auto simp: assms)
  have fin: "map f (fold (\<lambda>(i, k). map (\<lambda>r. if rid r = k then set_ord (int i + 1) r else r)) xs rows) = map f rows" for xs rows
    by (induction xs arbitrary: rows) (auto simp: assms)
  show ?thesis by (simp add: renumber_def final_pass_def negative_pass_def neg fin)
qed

lemma group_ids_renum:
  assumes "distinct ids" "distinct (map rid rows)" "set ids = rid ` {r \<in> set rows. grp r = g}"
  shows "group_ids rid grp ord h (renum g ids rows) = (if h = g then ids else group_ids rid grp ord h rows)"
proof (cases "h = g")
  case True
  then show ?thesis using renum_group(1)[OF assms] by simp
next
  case False
  have "set ids \<subseteq> rid ` {r \<in> set rows. grp r = g}" using assms(3) by blast
  then show ?thesis using False renum_other[OF assms(1,2) _ False] by (simp add: group_ids_def)
qed

text \<open>In dense rows a row's number is its place in the order of its group.\<close>

lemma dense_ord:
  assumes "dense rows" "r \<in> set rows"
  obtains p where "p < length (group_ids rid grp ord (grp r) rows)" "group_ids rid grp ord (grp r) rows ! p = rid r" "ord r = int p + 1"
proof -
  let ?xs = "sort_key ord (filter (\<lambda>x. grp x = grp r) rows)"
  have "r \<in> set ?xs" using assms(2) by simp
  then obtain p where p: "p < length ?xs" "?xs ! p = r" by (metis in_set_conv_nth)
  have "map ord ?xs ! p = int p + 1"
    using p(1) dense_group[OF assms(1), of "grp r"] by simp
  then have "ord r = int p + 1" using p by simp
  then show ?thesis using that[of p] p by (simp add: group_ids_def)
qed

text \<open>So dense rows are the same, numbers and all, when they hold the same apart from the numbers and are in the same order.\<close>

lemma dense_same:
  assumes "dense rows" "dense rows'" "\<And>g. group_ids rid grp ord g rows = group_ids rid grp ord g rows'"
    and "r \<in> set rows" "r' \<in> set rows'" "rid r = rid r'" "grp r = grp r'"
  shows "ord r = ord r'"
proof -
  obtain p where p: "p < length (group_ids rid grp ord (grp r) rows)" "group_ids rid grp ord (grp r) rows ! p = rid r" "ord r = int p + 1"
    using dense_ord[OF assms(1,4)] by metis
  obtain q where q: "q < length (group_ids rid grp ord (grp r') rows')" "group_ids rid grp ord (grp r') rows' ! q = rid r'" "ord r' = int q + 1"
    using dense_ord[OF assms(2,5)] by metis
  have "distinct (group_ids rid grp ord (grp r) rows)" by (rule group_ids_distinct) (rule dense_ids[OF assms(1)])
  then have "p = q" using p(1,2) q(1,2) assms(3,6,7) by (metis nth_eq_iff_index_eq)
  then show ?thesis by (simp add: p q)
qed

text \<open>The order after a row is appended, deleted, or put back.\<close>

lemma group_ids_delete:
  assumes "distinct (map rid rows)"
  shows "group_ids rid grp ord g (filter (\<lambda>r. rid r \<noteq> i) rows) = filter (\<lambda>k. k \<noteq> i) (group_ids rid grp ord g rows)"
proof -
  have "filter (\<lambda>r. grp r = g) (filter (\<lambda>r. rid r \<noteq> i) rows) = filter (\<lambda>r. rid r \<noteq> i) (filter (\<lambda>r. grp r = g) rows)"
    by (simp add: conj_commute)
  then show ?thesis
    by (simp add: group_ids_def filter_sort filter_map comp_def)
qed

end

end
