(* ===== verification/PlanSteps.thy ===== *)
theory PlanSteps
  imports Ordinals Verdicts
begin

text \<open>
  Plan steps (\<^verbatim>\<open>tod-store/src/outline/repos/plan_steps.rs\<close>): a node's steps in display
  order, the dependency graph between them, their links to obligations, their statuses with
  notes, and the verdicts a change of code withdraws. The tables are one record; foreign keys
  cascade as the schema says.
\<close>

section \<open>States, phases, statuses\<close>

definition VALID_LIFECYCLE_STATES :: "string list" where
  "VALID_LIFECYCLE_STATES =
     [''proposed'', ''design'', ''planning'', ''ready'', ''active'', ''verifying'', ''review'', ''pr'',
      ''pr_draft'', ''pr_review'', ''approved'', ''merged'', ''released'', ''learn'', ''done'']"

definition USIZE_MAX :: nat where "USIZE_MAX = 18446744073709551615"

fun position_of :: "string \<Rightarrow> string list \<Rightarrow> nat option" where
  "position_of s [] = None"
| "position_of s (x # xs) = (if x = s then Some 0 else map_option Suc (position_of s xs))"

definition state_rank :: "string \<Rightarrow> nat" where
  "state_rank state = unwrap_or USIZE_MAX (position_of state VALID_LIFECYCLE_STATES)"

definition due_by :: "string \<Rightarrow> string \<Rightarrow> bool" where
  "due_by phase state = (state_rank phase \<le> state_rank state)"

definition dependency_allowed :: "string \<Rightarrow> string \<Rightarrow> bool" where
  "dependency_allowed phase depends_on_phase = due_by depends_on_phase phase"

abbreviation STATUS_PENDING :: string where "STATUS_PENDING \<equiv> ''pending''"
abbreviation STATUS_READY :: string where "STATUS_READY \<equiv> ''ready''"
abbreviation STATUS_IN_PROGRESS :: string where "STATUS_IN_PROGRESS \<equiv> ''in_progress''"
abbreviation STATUS_IMPLEMENTED :: string where "STATUS_IMPLEMENTED \<equiv> ''implemented''"
abbreviation STATUS_VERIFIED :: string where "STATUS_VERIFIED \<equiv> ''verified''"
abbreviation STATUS_FAILED :: string where "STATUS_FAILED \<equiv> ''failed''"
abbreviation STATUS_PARTIAL :: string where "STATUS_PARTIAL \<equiv> ''partial''"
abbreviation STATUS_BLOCKED :: string where "STATUS_BLOCKED \<equiv> ''blocked''"

definition PLAN_STEP_STATUSES :: "string list" where
  "PLAN_STEP_STATUSES = [STATUS_PENDING, STATUS_READY, STATUS_IN_PROGRESS, STATUS_IMPLEMENTED,
     STATUS_VERIFIED, STATUS_FAILED, STATUS_PARTIAL, STATUS_BLOCKED]"

abbreviation PHASE_ACTIVE :: string where "PHASE_ACTIVE \<equiv> ''active''"
abbreviation PHASE_VERIFYING :: string where "PHASE_VERIFYING \<equiv> ''verifying''"
abbreviation PHASE_MERGED :: string where "PHASE_MERGED \<equiv> ''merged''"
abbreviation PHASE_RELEASED :: string where "PHASE_RELEASED \<equiv> ''released''"

definition PLAN_STEP_PHASES :: "string list" where
  "PLAN_STEP_PHASES = [PHASE_ACTIVE, PHASE_VERIFYING, PHASE_MERGED, PHASE_RELEASED]"

definition needs_user :: "string \<Rightarrow> bool" where
  "needs_user status = (status = STATUS_PARTIAL \<or> status = STATUS_BLOCKED)"

definition satisfies_dependency :: "string \<Rightarrow> bool" where
  "satisfies_dependency status = (status = STATUS_IMPLEMENTED \<or> status = STATUS_VERIFIED)"

datatype handoff_reason =
  HConflict "uuid list"
| HDecision "string list"
| HAccess string string

fun handoff_kind :: "handoff_reason \<Rightarrow> string" where
  "handoff_kind (HConflict _) = ''conflict''"
| "handoff_kind (HDecision _) = ''decision''"
| "handoff_kind (HAccess _ _) = ''access''"

fun handoff_label :: "handoff_reason \<Rightarrow> string" where
  "handoff_label (HConflict _) = ''Conflicting obligations''"
| "handoff_label (HDecision _) = ''Needs your decision''"
| "handoff_label (HAccess _ _) = ''Needs access''"

fun handoff_describe :: "handoff_reason \<Rightarrow> string" where
  "handoff_describe (HConflict obs) = ''conflict between ['' @ join '', '' (map short_id obs) @ '']''"
| "handoff_describe (HDecision opts) = ''decision: '' @ join '' | '' opts"
| "handoff_describe (HAccess needs tried) = (if needs = [] then ''access'' else ''access: '' @ needs)"

section \<open>The tables\<close>

record plan_step =
  ps_id :: uuid
  ps_node :: uuid
  ps_ordinal :: int
  ps_body :: string
  ps_status :: string
  ps_note :: "string option"
  ps_reason :: "handoff_reason option"
  ps_phase :: string
  ps_updated :: ms

record step_note =
  sn_step :: uuid
  sn_status :: string
  sn_body :: string
  sn_created :: ms

text \<open>\<open>pl_deps\<close> holds the pairs (step, the step it depends on), \<open>pl_links\<close> the pairs
  (step, obligation).\<close>

record plan_db =
  pl_steps :: "plan_step list"
  pl_deps :: "(uuid \<times> uuid) list"
  pl_links :: "(uuid \<times> uuid) list"
  pl_notes :: "step_note list"
  pl_verdicts :: verdict_db

definition get_step :: "uuid \<Rightarrow> plan_db \<Rightarrow> plan_step option" where
  "get_step i db = find (\<lambda>s. ps_id s = i) (pl_steps db)"

definition step_due_by :: "plan_step \<Rightarrow> string \<Rightarrow> bool" where
  "step_due_by s state = due_by (ps_phase s) state"

definition steps_for_node :: "uuid \<Rightarrow> plan_db \<Rightarrow> plan_step list" where
  "steps_for_node n db = sort_key ps_ordinal (filter (\<lambda>s. ps_node s = n) (pl_steps db))"

definition step_ids_for_node :: "uuid \<Rightarrow> plan_db \<Rightarrow> uuid list" where
  "step_ids_for_node n db = group_ids ps_id ps_node ps_ordinal n (pl_steps db)"

definition needs_user_for_nodes :: "uuid list \<Rightarrow> plan_db \<Rightarrow> (plan_step \<times> ms) list" where
  "needs_user_for_nodes ns db =
     (if ns = [] then []
      else map (\<lambda>s. (s, ps_updated s))
             (sort_key ps_updated (filter (\<lambda>s. needs_user (ps_status s) \<and> ps_node s \<in> set ns) (pl_steps db))))"

text \<open>The two writes of \<^verbatim>\<open>write_ordinals\<close>.\<close>

definition touch_step :: "ms \<Rightarrow> int \<Rightarrow> plan_step \<Rightarrow> plan_step" where
  "touch_step now k s = s\<lparr>ps_ordinal := k, ps_updated := now\<rparr>"

definition place_step :: "int \<Rightarrow> plan_step \<Rightarrow> plan_step" where
  "place_step k s = s\<lparr>ps_ordinal := k\<rparr>"

definition write_step_ordinals :: "ms \<Rightarrow> uuid \<Rightarrow> uuid list \<Rightarrow> plan_db \<Rightarrow> plan_db" where
  "write_step_ordinals now n ids db =
     db\<lparr>pl_steps := renumber ps_id ps_node (touch_step now) place_step n ids (pl_steps db)\<rparr>"

definition insert_step_at :: "ms \<Rightarrow> uuid \<Rightarrow> uuid \<Rightarrow> nat \<Rightarrow> string \<Rightarrow> plan_db \<Rightarrow> plan_db fallible" where
  "insert_step_at now i n index0 body db =
     (let ids = step_ids_for_node n db;
          index = min index0 (length ids);
          row = \<lparr>ps_id = i, ps_node = n, ps_ordinal = 10000 + int (length ids), ps_body = body,
                 ps_status = STATUS_PENDING, ps_note = None, ps_reason = None,
                 ps_phase = PHASE_ACTIVE, ps_updated = now\<rparr>
      in if i \<in> ps_id ` set (pl_steps db)
         then Inl ''UNIQUE constraint failed: node_plan_steps.id''
         else Inr (write_step_ordinals now n (insert_nth index i ids)
                     (db\<lparr>pl_steps := pl_steps db @ [row]\<rparr>)))"

definition map_step :: "uuid \<Rightarrow> (plan_step \<Rightarrow> plan_step) \<Rightarrow> plan_db \<Rightarrow> plan_db" where
  "map_step i f db = db\<lparr>pl_steps := map (\<lambda>s. if ps_id s = i then f s else s) (pl_steps db)\<rparr>"

definition has_step :: "uuid \<Rightarrow> plan_db \<Rightarrow> bool" where
  "has_step i db = list_ex (\<lambda>s. ps_id s = i) (pl_steps db)"

definition update_step_body :: "ms \<Rightarrow> uuid \<Rightarrow> string \<Rightarrow> plan_db \<Rightarrow> plan_db fallible" where
  "update_step_body now i body db =
     (if has_step i db then Inr (map_step i (\<lambda>s. s\<lparr>ps_body := body, ps_updated := now\<rparr>) db)
      else Inl ''plan step not found'')"

definition list_dependencies :: "uuid \<Rightarrow> plan_db \<Rightarrow> uuid list" where
  "list_dependencies i db = map snd (filter (\<lambda>(a, _). a = i) (pl_deps db))"

definition list_dependents :: "uuid \<Rightarrow> plan_db \<Rightarrow> uuid list" where
  "list_dependents i db = map fst (filter (\<lambda>(_, b). b = i) (pl_deps db))"

text \<open>A loop of \<^verbatim>\<open>ensure!\<close>s: the first refusal, if any.\<close>

fun first_refusal :: "('a \<Rightarrow> string option) \<Rightarrow> 'a list \<Rightarrow> string option" where
  "first_refusal f [] = None"
| "first_refusal f (x # xs) = (case f x of Some e \<Rightarrow> Some e | None \<Rightarrow> first_refusal f xs)"

definition wait_refusal :: "string \<Rightarrow> string \<Rightarrow> string" where
  "wait_refusal phase on =
     ''a `'' @ phase @ ''` step cannot depend on a `'' @ on @ ''` step: it would wait on work done after it''"

definition move_refusal :: "string \<Rightarrow> string \<Rightarrow> string" where
  "move_refusal dependent phase =
     ''a `'' @ dependent @ ''` step depends on this one, so it cannot move to `'' @ phase @
     ''`: it would wait on work done after it''"

definition set_step_phase :: "ms \<Rightarrow> uuid \<Rightarrow> string \<Rightarrow> plan_db \<Rightarrow> plan_db fallible" where
  "set_step_phase now i phase db =
     (if phase \<notin> set PLAN_STEP_PHASES
      then Inl (''unknown plan step phase `'' @ phase @ ''` (expected: '' @ join '', '' PLAN_STEP_PHASES @ '')'')
      else (case first_refusal (\<lambda>d. case get_step d db of
                    None \<Rightarrow> Some ''plan step dependency not found''
                  | Some dep \<Rightarrow> if dependency_allowed phase (ps_phase dep) then None
                               else Some (wait_refusal phase (ps_phase dep))) (list_dependencies i db) of
          Some e \<Rightarrow> Inl e
        | None \<Rightarrow> (case first_refusal (\<lambda>d. case get_step d db of
                    None \<Rightarrow> Some ''plan step dependent not found''
                  | Some dep \<Rightarrow> if dependency_allowed (ps_phase dep) phase then None
                               else Some (move_refusal (ps_phase dep) phase)) (list_dependents i db) of
              Some e \<Rightarrow> Inl e
            | None \<Rightarrow>
                if has_step i db then Inr (map_step i (\<lambda>s. s\<lparr>ps_phase := phase, ps_updated := now\<rparr>) db)
                else Inl ''plan step not found'')))"

section \<open>Statuses\<close>

definition record_note :: "ms \<Rightarrow> uuid \<Rightarrow> string \<Rightarrow> string \<Rightarrow> plan_db \<Rightarrow> plan_db" where
  "record_note now i status body db =
     (if list_ex (\<lambda>m. sn_step m = i \<and> sn_status m = status \<and> sn_body m = body) (pl_notes db) then db
      else db\<lparr>pl_notes := pl_notes db @
              [\<lparr>sn_step = i, sn_status = status, sn_body = body, sn_created = now\<rparr>]\<rparr>)"

definition list_notes :: "uuid \<Rightarrow> plan_db \<Rightarrow> step_note list" where
  "list_notes i db = filter (\<lambda>m. sn_step m = i) (pl_notes db)"

text \<open>The row's write in \<^verbatim>\<open>update_status\<close>.\<close>

definition write_status ::
    "ms \<Rightarrow> uuid \<Rightarrow> string \<Rightarrow> string option \<Rightarrow> handoff_reason option \<Rightarrow> plan_db \<Rightarrow> plan_db" where
  "write_status now i status note reason db =
     map_step i (\<lambda>s. s\<lparr>ps_status := status, ps_note := note, ps_reason := reason, ps_updated := now\<rparr>) db"

text \<open>\<^verbatim>\<open>maybe_promote_to_ready\<close>: a dependency whose row is gone does not hold the step.
  For \<^verbatim>\<open>ready\<close> the recursive \<^verbatim>\<open>update_status\<close> is its row write alone: it has no note, and
  \<^verbatim>\<open>ready\<close> neither reopens nor satisfies anything.\<close>

definition maybe_promote :: "ms \<Rightarrow> uuid \<Rightarrow> plan_db \<Rightarrow> plan_db" where
  "maybe_promote now i db =
     (case get_step i db of
        None \<Rightarrow> db
      | Some s \<Rightarrow>
          if ps_status s \<noteq> STATUS_PENDING then db
          else if list_all (\<lambda>d. is_none_or (\<lambda>dep. satisfies_dependency (ps_status dep)) (get_step d db))
                    (list_dependencies i db)
          then write_status now i STATUS_READY None None db
          else db)"

text \<open>The first part of \<^verbatim>\<open>update_status\<close>: the row, its note, and what a change of code withdraws.\<close>

definition apply_status ::
    "ms \<Rightarrow> uuid \<Rightarrow> string \<Rightarrow> string option \<Rightarrow> handoff_reason option \<Rightarrow> plan_db \<Rightarrow> plan_db" where
  "apply_status now i status note reason db =
     (let db1 = write_status now i status note reason db;
          db2 = (case note of Some body \<Rightarrow> record_note now i status body db1 | None \<Rightarrow> db1)
      in (case get_step i db2 of
            Some s \<Rightarrow>
              if status = STATUS_IMPLEMENTED \<and> ps_phase s = PHASE_ACTIVE
              then db2\<lparr>pl_verdicts := snd (reopen_verified now (ps_node s)
                     ''A plan step was implemented again after this was verified.'' (pl_verdicts db2))\<rparr>
              else db2
          | None \<Rightarrow> db2))"

definition update_step_status ::
    "ms \<Rightarrow> uuid \<Rightarrow> string \<Rightarrow> string option \<Rightarrow> handoff_reason option \<Rightarrow> plan_db \<Rightarrow> plan_db fallible" where
  "update_step_status now i status note reason db =
     (if status \<notin> set PLAN_STEP_STATUSES then Inl (''unknown plan step status `'' @ status @ ''`'')
      else if \<not> has_step i db then Inl ''plan step not found''
      else
        let db3 = apply_status now i status (nonblank note) reason db
        in Inr (if satisfies_dependency status then fold (maybe_promote now) (list_dependents i db3) db3 else db3))"

definition reopen_verification :: "ms \<Rightarrow> uuid \<Rightarrow> string \<Rightarrow> plan_db \<Rightarrow> (nat \<times> nat) \<times> plan_db" where
  "reopen_verification now n why db =
     (let hit = (\<lambda>s. ps_node s = n \<and> ps_status s = STATUS_VERIFIED
                     \<and> (ps_phase s = PHASE_ACTIVE \<or> ps_phase s = PHASE_VERIFYING));
          (count, vs) = reopen_verified now n why (pl_verdicts db)
      in ((length (filter hit (pl_steps db)), count),
          db\<lparr>pl_steps := map (\<lambda>s. if hit s then s\<lparr>ps_status := STATUS_IMPLEMENTED, ps_updated := now\<rparr> else s)
                          (pl_steps db),
             pl_verdicts := vs\<rparr>))"

section \<open>Order\<close>

definition delete_step :: "ms \<Rightarrow> uuid \<Rightarrow> plan_db \<Rightarrow> plan_step option \<times> plan_db" where
  "delete_step now i db =
     (case get_step i db of
        None \<Rightarrow> (None, db)
      | Some row \<Rightarrow>
          let db1 = db\<lparr>pl_steps := filter (\<lambda>s. ps_id s \<noteq> i) (pl_steps db),
                       pl_deps := filter (\<lambda>(a, b). a \<noteq> i \<and> b \<noteq> i) (pl_deps db),
                       pl_links := filter (\<lambda>(a, _). a \<noteq> i) (pl_links db),
                       pl_notes := filter (\<lambda>m. sn_step m \<noteq> i) (pl_notes db)\<rparr>
          in (Some row, write_step_ordinals now (ps_node row) (step_ids_for_node (ps_node row) db1) db1))"

text \<open>\<^verbatim>\<open>ids.iter().position(|item| *item == id)\<close> is \<open>pos_in\<close>.\<close>

definition reorder_step :: "ms \<Rightarrow> uuid \<Rightarrow> int \<Rightarrow> plan_db \<Rightarrow> plan_db fallible" where
  "reorder_step now i delta db =
     (case get_step i db of
        None \<Rightarrow> Inl ''plan step not found''
      | Some row \<Rightarrow>
          let ids = step_ids_for_node (ps_node row) db
          in (case pos_in ids i of
                None \<Rightarrow> Inr db
              | Some pos \<Rightarrow>
                  let new_pos = int pos + delta
                  in if new_pos < 0 \<or> int (length ids) \<le> new_pos then Inr db
                     else Inr (write_step_ordinals now (ps_node row) (swap_nth pos (nat new_pos) ids) db)))"

definition place_step_at :: "ms \<Rightarrow> uuid \<Rightarrow> nat \<Rightarrow> plan_db \<Rightarrow> plan_db fallible" where
  "place_step_at now i index db =
     (case get_step i db of
        None \<Rightarrow> Inl ''plan step not found''
      | Some row \<Rightarrow>
          let ids = filter (\<lambda>k. k \<noteq> i) (step_ids_for_node (ps_node row) db)
          in Inr (write_step_ordinals now (ps_node row) (insert_nth (min index (length ids)) i ids) db))"

section \<open>The dependency graph\<close>

text \<open>The recursive query: SQLite takes a row off the queue, adds the rows it leads to that it
  has not produced before (\<^verbatim>\<open>UNION\<close>), and stops when the queue is empty.\<close>

definition successors :: "(uuid \<times> uuid) list \<Rightarrow> uuid \<Rightarrow> uuid list" where
  "successors es x = map snd (filter (\<lambda>(a, _). a = x) es)"

function reach_loop :: "(uuid \<times> uuid) list \<Rightarrow> uuid list \<Rightarrow> uuid list \<Rightarrow> uuid list" where
  "reach_loop es [] seen = seen"
| "reach_loop es (x # queue) seen =
     (let new = remdups (filter (\<lambda>y. y \<notin> set seen) (successors es x))
      in reach_loop es (queue @ new) (seen @ new))"
  by pat_completeness auto

definition reach :: "(uuid \<times> uuid) list \<Rightarrow> uuid \<Rightarrow> uuid list" where
  "reach es x = (let start = remdups (successors es x) in reach_loop es start start)"

lemma set_successors: "set (successors es x) = {y. (x, y) \<in> set es}"
  by (force simp: successors_def)

termination reach_loop
proof (relation "measure (\<lambda>(es, queue, seen). card (snd ` set es - set seen) + length queue)", goal_cases)
  case (2 es x queue seen new)
  have new: "set new \<subseteq> snd ` set es - set seen" "distinct new"
    using 2 by (force simp: set_successors)+
  have "card (snd ` set es - set (seen @ new)) = card ((snd ` set es - set seen) - set new)"
    by (rule arg_cong[where f = card]) auto
  also have "\<dots> = card (snd ` set es - set seen) - length new"
    using new by (subst card_Diff_subset) (auto simp: distinct_card)
  finally have "card (snd ` set es - set (seen @ new)) + length new = card (snd ` set es - set seen)"
    using card_mono[OF _ new(1)] new(2) by (simp add: distinct_card)
  then show ?case by simp
qed simp

lemma reach_loop_sound:
  "set seen \<subseteq> R \<Longrightarrow> set queue \<subseteq> R \<Longrightarrow> (\<And>a b. a \<in> R \<Longrightarrow> (a, b) \<in> set es \<Longrightarrow> b \<in> R) \<Longrightarrow>
   set (reach_loop es queue seen) \<subseteq> R"
proof (induction es queue seen rule: reach_loop.induct)
  case (2 es x queue seen)
  have "set (successors es x) \<subseteq> R" using 2(3,4) by (auto simp: set_successors)
  then show ?case using 2 by (auto simp: Let_def)
qed simp

lemma reach_loop_closed:
  "set queue \<subseteq> set seen \<Longrightarrow> (\<And>a b. a \<in> set seen \<Longrightarrow> a \<notin> set queue \<Longrightarrow> (a, b) \<in> set es \<Longrightarrow> b \<in> set seen) \<Longrightarrow>
   set seen \<subseteq> set (reach_loop es queue seen)
   \<and> (\<forall>a b. a \<in> set (reach_loop es queue seen) \<longrightarrow> (a, b) \<in> set es \<longrightarrow> b \<in> set (reach_loop es queue seen))"
proof (induction es queue seen rule: reach_loop.induct)
  case (2 es x queue seen)
  define new where "new = remdups (filter (\<lambda>y. y \<notin> set seen) (successors es x))"
  have "set seen \<union> set new \<subseteq> set (reach_loop es (queue @ new) (seen @ new))
   \<and> (\<forall>a b. a \<in> set (reach_loop es (queue @ new) (seen @ new)) \<longrightarrow> (a, b) \<in> set es \<longrightarrow>
        b \<in> set (reach_loop es (queue @ new) (seen @ new)))"
    using 2(1)[OF new_def] 2(2,3) by (auto simp: new_def set_successors)
  then show ?case by (simp add: new_def Let_def)
qed auto

text \<open>The query answers reachability.\<close>

lemma set_reach: "set (reach es x) = {y. (x, y) \<in> (set es)\<^sup>+}"
proof
  let ?start = "remdups (successors es x)"
  show "set (reach es x) \<subseteq> {y. (x, y) \<in> (set es)\<^sup>+}"
    unfolding reach_def Let_def by (rule reach_loop_sound) (auto simp: set_successors)
  have c: "set ?start \<subseteq> set (reach_loop es ?start ?start)"
    "\<And>a b. a \<in> set (reach_loop es ?start ?start) \<Longrightarrow> (a, b) \<in> set es \<Longrightarrow> b \<in> set (reach_loop es ?start ?start)"
    using reach_loop_closed[of ?start ?start es] by auto
  show "{y. (x, y) \<in> (set es)\<^sup>+} \<subseteq> set (reach es x)"
  proof clarify
    fix y assume "(x, y) \<in> (set es)\<^sup>+"
    then show "y \<in> set (reach es x)"
    proof (induction rule: trancl_induct)
      case (base y)
      then show ?case using c(1) by (auto simp: reach_def Let_def set_successors)
    next
      case (step y z)
      then show ?case using c(2) by (simp add: reach_def Let_def)
    qed
  qed
qed

definition add_dependency :: "uuid \<Rightarrow> uuid \<Rightarrow> plan_db \<Rightarrow> plan_db fallible" where
  "add_dependency i on db =
     (if i = on then Inl ''a plan step cannot depend on itself''
      else if i \<in> set (reach (pl_deps db) on) then Inl ''that dependency would create a cycle''
      else (case (get_step i db, get_step on db) of
          (Some s, Some d) \<Rightarrow>
            if \<not> dependency_allowed (ps_phase s) (ps_phase d)
            then Inl (wait_refusal (ps_phase s) (ps_phase d))
            else Inr (if (i, on) \<in> set (pl_deps db) then db else db\<lparr>pl_deps := pl_deps db @ [(i, on)]\<rparr>)
        | _ \<Rightarrow> Inl ''plan step not found''))"

definition remove_dependency :: "uuid \<Rightarrow> uuid \<Rightarrow> plan_db \<Rightarrow> plan_db" where
  "remove_dependency i on db = db\<lparr>pl_deps := filter (\<lambda>e. e \<noteq> (i, on)) (pl_deps db)\<rparr>"

definition list_obligations :: "uuid \<Rightarrow> plan_db \<Rightarrow> uuid list" where
  "list_obligations i db = map snd (filter (\<lambda>(s, _). s = i) (pl_links db))"

definition steps_for_obligation :: "uuid \<Rightarrow> plan_db \<Rightarrow> uuid list" where
  "steps_for_obligation ob db = map fst (filter (\<lambda>(_, o'). o' = ob) (pl_links db))"

definition link_obligation :: "uuid \<Rightarrow> uuid \<Rightarrow> plan_db \<Rightarrow> plan_db" where
  "link_obligation i ob db =
     (if (i, ob) \<in> set (pl_links db) then db else db\<lparr>pl_links := pl_links db @ [(i, ob)]\<rparr>)"

definition unlink_obligation :: "uuid \<Rightarrow> uuid \<Rightarrow> plan_db \<Rightarrow> plan_db" where
  "unlink_obligation i ob db = db\<lparr>pl_links := filter (\<lambda>e. e \<noteq> (i, ob)) (pl_links db)\<rparr>"

text \<open>The rows of the join of links and steps, and the latest phase per obligation.\<close>

definition linked_phases :: "uuid \<Rightarrow> plan_db \<Rightarrow> (uuid \<times> string) list" where
  "linked_phases n db =
     List.map_filter (\<lambda>(i, ob). case get_step i db of
         Some s \<Rightarrow> if ps_node s = n then Some (ob, ps_phase s) else None
       | None \<Rightarrow> None) (pl_links db)"

definition obligation_phases :: "uuid \<Rightarrow> plan_db \<Rightarrow> uuid \<Rightarrow> string option" where
  "obligation_phases n db =
     fold (\<lambda>(ob, phase) m. case m ob of
             None \<Rightarrow> m(ob \<mapsto> phase)
           | Some latest \<Rightarrow> if state_rank latest < state_rank phase then m(ob \<mapsto> phase) else m)
       (linked_phases n db) (\<lambda>_. None)"

definition ready_steps :: "uuid \<Rightarrow> string option \<Rightarrow> plan_db \<Rightarrow> uuid list" where
  "ready_steps n state db =
     map ps_id (filter (\<lambda>s.
        is_none_or (\<lambda>st. step_due_by s st) state
        \<and> (ps_status s = STATUS_READY
           \<or> ps_status s = STATUS_PENDING
             \<and> list_all (\<lambda>d. is_some_and (\<lambda>dep. satisfies_dependency (ps_status dep)) (get_step d db))
                  (list_dependencies (ps_id s) db)))
       (steps_for_node n db))"

section \<open>Order kept by the operations\<close>

interpretation st: ordinal_rows ps_id ps_node ps_ordinal "touch_step now" place_step
  by unfold_locales (simp_all add: touch_step_def place_step_def)

lemma placed_fields [simp]:
  "ps_phase (st.placed now n ids s) = ps_phase s" "ps_status (st.placed now n ids s) = ps_status s"
  by (simp_all add: st.placed_def touch_step_def place_step_def split: option.split)

lemma get_step_Some: "get_step i db = Some s \<Longrightarrow> s \<in> set (pl_steps db) \<and> ps_id s = i"
  unfolding get_step_def using find_Some_in by fastforce

lemma find_id_map:
  "(\<And>s. s \<in> set ss \<Longrightarrow> ps_id (f s) = ps_id s) \<Longrightarrow>
   find (\<lambda>s. ps_id s = i) (map f ss) = map_option f (find (\<lambda>s. ps_id s = i) ss)"
  by (induction ss) auto

lemma get_step_in:
  assumes "distinct (map ps_id (pl_steps db))" "s \<in> set (pl_steps db)"
  shows "get_step (ps_id s) db = Some s"
proof -
  have "list_ex (\<lambda>x. ps_id x = ps_id s) (pl_steps db)" using assms(2) by (auto simp: list_ex_iff)
  then obtain x where x: "get_step (ps_id s) db = Some x"
    unfolding get_step_def find_isSome_iff[symmetric] by blast
  then have "x \<in> set (pl_steps db)" "ps_id x = ps_id s" using get_step_Some by blast+
  then have "x = s" using assms by (simp add: distinct_map inj_on_def)
  with x show ?thesis by simp
qed

section \<open>The plan's invariant\<close>

text \<open>Ids are keys, every node's steps are numbered 1, 2, 3, ..., statuses and phases are known
  ones, and the dependencies are between existing steps, without a cycle, never from a step to
  one of a later phase.\<close>

definition dep_ok :: "plan_db \<Rightarrow> uuid \<times> uuid \<Rightarrow> bool" where
  "dep_ok db e \<longleftrightarrow> (\<exists>s d. get_step (fst e) db = Some s \<and> get_step (snd e) db = Some d
      \<and> dependency_allowed (ps_phase s) (ps_phase d))"

definition wf_plan :: "plan_db \<Rightarrow> bool" where
  "wf_plan db \<longleftrightarrow> st.dense (pl_steps db)
     \<and> (\<forall>s\<in>set (pl_steps db). ps_status s \<in> set PLAN_STEP_STATUSES \<and> ps_phase s \<in> set PLAN_STEP_PHASES)
     \<and> acyclic (set (pl_deps db)) \<and> (\<forall>e\<in>set (pl_deps db). dep_ok db e)"

text \<open>Writes of fields the invariant does not look at.\<close>

lemma wf_keep:
  assumes "wf_plan db" and steps: "pl_steps db' = map f (pl_steps db)" and deps: "set (pl_deps db') \<subseteq> set (pl_deps db)"
    and f: "\<And>s. ps_id (f s) = ps_id s" "\<And>s. ps_node (f s) = ps_node s" "\<And>s. ps_ordinal (f s) = ps_ordinal s"
      "\<And>s. ps_phase (f s) = ps_phase s"
    and status: "\<And>s. s \<in> set (pl_steps db) \<Longrightarrow> ps_status (f s) \<in> set PLAN_STEP_STATUSES"
  shows "wf_plan db'"
proof -
  have get: "get_step i db' = map_option f (get_step i db)" for i
    by (simp add: get_step_def steps find_id_map f)
  have "acyclic (set (pl_deps db'))"
    using assms(1) deps by (auto simp: wf_plan_def intro: acyclic_subset)
  moreover have "\<forall>e\<in>set (pl_deps db'). dep_ok db' e"
    using assms(1) deps by (fastforce simp: wf_plan_def dep_ok_def get f)
  moreover have "st.dense (pl_steps db')"
    using assms(1) f unfolding steps wf_plan_def by (intro st.dense_map_rows) auto
  moreover have "\<forall>s\<in>set (pl_steps db'). ps_status s \<in> set PLAN_STEP_STATUSES \<and> ps_phase s \<in> set PLAN_STEP_PHASES"
    using assms(1) status by (auto simp: steps wf_plan_def f)
  ultimately show ?thesis by (simp add: wf_plan_def)
qed

lemma wf_distinct: "wf_plan db \<Longrightarrow> distinct (map ps_id (pl_steps db))"
  by (simp add: wf_plan_def st.dense_def)

text \<open>Renumbering a node's own ids keeps it.\<close>

lemma wf_renumber:
  assumes wf: "wf_plan db" and ids: "distinct ids" "set ids = set (step_ids_for_node n db)"
  shows "wf_plan (write_step_ordinals now n ids db)"
proof -
  have d: "distinct (map ps_id (pl_steps db))" using wf by (rule wf_distinct)
  have steps: "pl_steps (write_step_ordinals now n ids db) = map (st.placed now n ids) (pl_steps db)"
    by (simp add: write_step_ordinals_def st.renum_map ids(1))
  have set_ids: "set ids = ps_id ` {s \<in> set (pl_steps db). ps_node s = n}"
    using ids(2) by (simp add: step_ids_for_node_def st.group_ids_set)
  have dense: "st.dense (pl_steps (write_step_ordinals now n ids db))"
    using st.dense_renum[OF ids(1) d set_ids] wf
    by (simp add: write_step_ordinals_def wf_plan_def st.dense_def)
  have get: "get_step i (write_step_ordinals now n ids db) = map_option (st.placed now n ids) (get_step i db)" for i
    unfolding get_step_def steps by (rule find_id_map) simp
  have deps: "pl_deps (write_step_ordinals now n ids db) = pl_deps db"
    by (simp add: write_step_ordinals_def)
  show ?thesis
    using wf dense by (fastforce simp: wf_plan_def steps deps dep_ok_def get)
qed

lemma step_ids_distinct: "wf_plan db \<Longrightarrow> distinct (step_ids_for_node n db)"
  unfolding step_ids_for_node_def by (rule st.group_ids_distinct) (rule wf_distinct)

lemma wf_map_step:
  assumes "wf_plan db"
    and "\<And>s. ps_id (f s) = ps_id s" "\<And>s. ps_node (f s) = ps_node s" "\<And>s. ps_ordinal (f s) = ps_ordinal s"
      "\<And>s. ps_phase (f s) = ps_phase s" "\<And>s. ps_status s \<in> set PLAN_STEP_STATUSES \<Longrightarrow> ps_status (f s) \<in> set PLAN_STEP_STATUSES"
  shows "wf_plan (map_step i f db)"
  by (rule wf_keep[OF assms(1), where f = "\<lambda>s. if ps_id s = i then f s else s"])
    (use assms in \<open>auto simp: map_step_def wf_plan_def\<close>)

lemma wf_write_status:
  "wf_plan db \<Longrightarrow> status \<in> set PLAN_STEP_STATUSES \<Longrightarrow> wf_plan (write_status now i status note reason db)"
  unfolding write_status_def by (rule wf_map_step) simp_all

lemma wf_same:
  "wf_plan db \<Longrightarrow> pl_steps db' = pl_steps db \<Longrightarrow> pl_deps db' = pl_deps db \<Longrightarrow> wf_plan db'"
  by (rule wf_keep[where f = "\<lambda>s. s"]) (auto simp: wf_plan_def)

lemma wf_record_note: "wf_plan db \<Longrightarrow> wf_plan (record_note now i status body db)"
  by (erule wf_same) (simp_all add: record_note_def)

lemma wf_maybe_promote: "wf_plan db \<Longrightarrow> wf_plan (maybe_promote now i db)"
  by (auto simp: maybe_promote_def PLAN_STEP_STATUSES_def intro!: wf_write_status split: option.split)

lemma wf_fold_promote: "wf_plan db \<Longrightarrow> wf_plan (fold (maybe_promote now) is db)"
  by (induction "is" arbitrary: db) (simp_all add: wf_maybe_promote)

lemma wf_apply_status:
  assumes "wf_plan db" "status \<in> set PLAN_STEP_STATUSES"
  shows "wf_plan (apply_status now i status note reason db)"
proof -
  define db2 where "db2 = (case note of Some body \<Rightarrow> record_note now i status body (write_status now i status note reason db)
     | None \<Rightarrow> write_status now i status note reason db)"
  have "wf_plan db2"
    using assms by (simp add: db2_def wf_record_note wf_write_status split: option.split)
  then show ?thesis
    unfolding apply_status_def Let_def db2_def[symmetric]
    by (rule wf_same) (simp_all split: option.split)
qed

lemma wf_update_status:
  assumes "wf_plan db" "update_step_status now i status note reason db = Inr db'"
  shows "wf_plan db'"
  using assms
  by (auto simp: update_step_status_def Let_def intro!: wf_fold_promote wf_apply_status split: if_splits)

lemma wf_reopen_verification: "wf_plan db \<Longrightarrow> wf_plan (snd (reopen_verification now n why db))"
  unfolding reopen_verification_def Let_def
  by (rule wf_keep[where f = "\<lambda>s. if ps_node s = n \<and> ps_status s = STATUS_VERIFIED
                     \<and> (ps_phase s = PHASE_ACTIVE \<or> ps_phase s = PHASE_VERIFYING)
                    then s\<lparr>ps_status := STATUS_IMPLEMENTED, ps_updated := now\<rparr> else s"])
    (auto simp: wf_plan_def PLAN_STEP_STATUSES_def split_beta)

section \<open>Order, insertion and deletion keep the plan well formed\<close>

lemma wf_renumber_core:
  assumes d: "distinct (map ps_id (pl_steps db))"
    and known: "\<forall>s\<in>set (pl_steps db). ps_status s \<in> set PLAN_STEP_STATUSES \<and> ps_phase s \<in> set PLAN_STEP_PHASES"
    and graph: "acyclic (set (pl_deps db))" "\<forall>e\<in>set (pl_deps db). dep_ok db e"
    and others: "\<And>h. h \<noteq> n \<Longrightarrow> map ps_ordinal (sort_key ps_ordinal (filter (\<lambda>r. ps_node r = h) (pl_steps db)))
          = map (\<lambda>i. int i + 1) [0..<length (filter (\<lambda>r. ps_node r = h) (pl_steps db))]"
    and ids: "distinct ids" "set ids = ps_id ` {s \<in> set (pl_steps db). ps_node s = n}"
  shows "wf_plan (write_step_ordinals now n ids db)"
proof -
  have steps: "pl_steps (write_step_ordinals now n ids db) = map (st.placed now n ids) (pl_steps db)"
    by (simp add: write_step_ordinals_def st.renum_map ids(1))
  have dense: "st.dense (pl_steps (write_step_ordinals now n ids db))"
    using st.dense_renum[OF ids(1) d ids(2)] others by (simp add: write_step_ordinals_def)
  have get: "get_step i (write_step_ordinals now n ids db) = map_option (st.placed now n ids) (get_step i db)" for i
    unfolding get_step_def steps by (rule find_id_map) simp
  have deps: "pl_deps (write_step_ordinals now n ids db) = pl_deps db"
    by (simp add: write_step_ordinals_def)
  show ?thesis
    using known graph dense by (fastforce simp: wf_plan_def steps deps dep_ok_def get)
qed

lemma wf_plan_parts:
  assumes "wf_plan db"
  shows "distinct (map ps_id (pl_steps db))"
    and "\<forall>s\<in>set (pl_steps db). ps_status s \<in> set PLAN_STEP_STATUSES \<and> ps_phase s \<in> set PLAN_STEP_PHASES"
    and "acyclic (set (pl_deps db))" "\<forall>e\<in>set (pl_deps db). dep_ok db e"
    and "map ps_ordinal (sort_key ps_ordinal (filter (\<lambda>r. ps_node r = h) (pl_steps db)))
          = map (\<lambda>i. int i + 1) [0..<length (filter (\<lambda>r. ps_node r = h) (pl_steps db))]"
  using assms by (simp_all add: wf_plan_def st.dense_def)

lemma set_step_ids: "set (step_ids_for_node n db) = ps_id ` {s \<in> set (pl_steps db). ps_node s = n}"
  by (simp add: step_ids_for_node_def st.group_ids_set)

lemma find_append_None: "find p (xs @ ys) = (case find p xs of Some x \<Rightarrow> Some x | None \<Rightarrow> find p ys)"
  by (induction xs) auto

lemma wf_insert_step:
  assumes wf: "wf_plan db" and ins: "insert_step_at now i n index body db = Inr db'"
  shows "wf_plan db'"
proof -
  define row where "row = \<lparr>ps_id = i, ps_node = n, ps_ordinal = 10000 + int (length (step_ids_for_node n db)),
     ps_body = body, ps_status = STATUS_PENDING, ps_note = None, ps_reason = None, ps_phase = PHASE_ACTIVE, ps_updated = now\<rparr>"
  define ids where "ids = insert_nth (min index (length (step_ids_for_node n db))) i (step_ids_for_node n db)"
  have rowsel: "ps_id row = i" "ps_node row = n" by (simp_all add: row_def)
  let ?db = "db\<lparr>pl_steps := pl_steps db @ [row]\<rparr>"
  have fresh: "i \<notin> ps_id ` set (pl_steps db)" and db': "db' = write_step_ordinals now n ids ?db"
    using ins by (auto simp: insert_step_at_def Let_def row_def ids_def split: if_splits)
  note P = wf_plan_parts[OF wf]
  have get: "get_step k db = Some s \<Longrightarrow> get_step k ?db = Some s" for k s
    by (simp add: get_step_def find_append_None)
  show ?thesis
    unfolding db'
  proof (rule wf_renumber_core)
    show "distinct (map ps_id (pl_steps ?db))" using P(1) fresh by (auto simp: row_def)
    show "\<forall>s\<in>set (pl_steps ?db). ps_status s \<in> set PLAN_STEP_STATUSES \<and> ps_phase s \<in> set PLAN_STEP_PHASES"
      using P(2) by (auto simp: row_def PLAN_STEP_STATUSES_def PLAN_STEP_PHASES_def)
    show "acyclic (set (pl_deps ?db))" using P(3) by simp
    show "\<forall>e\<in>set (pl_deps ?db). dep_ok ?db e" using P(4) get by (fastforce simp: dep_ok_def)
    show "distinct ids" using fresh step_ids_distinct[OF wf] by (auto simp: ids_def set_step_ids)
    show "set ids = ps_id ` {s \<in> set (pl_steps ?db). ps_node s = n}"
    proof -
      have "{s \<in> set (pl_steps ?db). ps_node s = n} = insert row {s \<in> set (pl_steps db). ps_node s = n}"
        using rowsel by auto
      then show ?thesis using rowsel by (simp add: ids_def set_step_ids)
    qed
    fix h assume "h \<noteq> n"
    then have "filter (\<lambda>r. ps_node r = h) (pl_steps ?db) = filter (\<lambda>r. ps_node r = h) (pl_steps db)"
      by (simp add: row_def)
    then show "map ps_ordinal (sort_key ps_ordinal (filter (\<lambda>r. ps_node r = h) (pl_steps ?db)))
          = map (\<lambda>i. int i + 1) [0..<length (filter (\<lambda>r. ps_node r = h) (pl_steps ?db))]"
      using P(5) by simp
  qed
qed

lemma wf_delete_step:
  assumes wf: "wf_plan db"
  shows "wf_plan (snd (delete_step now i db))"
proof (cases "get_step i db")
  case None
  then show ?thesis using wf by (simp add: delete_step_def)
next
  case (Some row)
  let ?db = "db\<lparr>pl_steps := filter (\<lambda>s. ps_id s \<noteq> i) (pl_steps db),
                       pl_deps := filter (\<lambda>(a, b). a \<noteq> i \<and> b \<noteq> i) (pl_deps db),
                       pl_links := filter (\<lambda>(a, _). a \<noteq> i) (pl_links db),
                       pl_notes := filter (\<lambda>m. sn_step m \<noteq> i) (pl_notes db)\<rparr>"
  note P = wf_plan_parts[OF wf]
  have row: "row \<in> set (pl_steps db)" "ps_id row = i" using get_step_Some[OF Some] by auto
  have get: "get_step k ?db = get_step k db" if "k \<noteq> i" for k
  proof -
    have "find (\<lambda>s. ps_id s = k) (filter (\<lambda>s. ps_id s \<noteq> i) ss) = find (\<lambda>s. ps_id s = k) ss" for ss
      using that by (induction ss) auto
    then show ?thesis by (simp add: get_step_def)
  qed
  have "wf_plan (write_step_ordinals now (ps_node row) (step_ids_for_node (ps_node row) ?db) ?db)"
  proof (rule wf_renumber_core)
    show d: "distinct (map ps_id (pl_steps ?db))" using P(1) by (simp add: distinct_map_filter)
    show "\<forall>s\<in>set (pl_steps ?db). ps_status s \<in> set PLAN_STEP_STATUSES \<and> ps_phase s \<in> set PLAN_STEP_PHASES"
      using P(2) by simp
    show "acyclic (set (pl_deps ?db))" using P(3) by (auto intro: acyclic_subset)
    show "\<forall>e\<in>set (pl_deps ?db). dep_ok ?db e" using P(4) by (auto simp: dep_ok_def get)
    show "distinct (step_ids_for_node (ps_node row) ?db)"
      unfolding step_ids_for_node_def by (rule st.group_ids_distinct) (rule d)
    show "set (step_ids_for_node (ps_node row) ?db) = ps_id ` {s \<in> set (pl_steps ?db). ps_node s = ps_node row}"
      by (rule set_step_ids)
    fix h assume h: "h \<noteq> ps_node row"
    have "ps_id s \<noteq> i" if "s \<in> set (pl_steps db)" "ps_node s = h" for s
      using that h row P(1) by (auto simp: distinct_map inj_on_def)
    then have "filter (\<lambda>r. ps_node r = h) (pl_steps ?db) = filter (\<lambda>r. ps_node r = h) (pl_steps db)"
      by (auto intro: filter_cong)
    then show "map ps_ordinal (sort_key ps_ordinal (filter (\<lambda>r. ps_node r = h) (pl_steps ?db)))
          = map (\<lambda>i. int i + 1) [0..<length (filter (\<lambda>r. ps_node r = h) (pl_steps ?db))]"
      using P(5) by simp
  qed
  then show ?thesis by (simp add: delete_step_def Some Let_def)
qed

lemma wf_reorder_step:
  assumes wf: "wf_plan db" and "reorder_step now i delta db = Inr db'"
  shows "wf_plan db'"
proof (cases "get_step i db")
  case None
  then show ?thesis using assms by (simp add: reorder_step_def)
next
  case (Some row)
  let ?ids = "step_ids_for_node (ps_node row) db"
  show ?thesis
  proof (cases "pos_in ?ids i")
    case None
    then show ?thesis using Some assms by (simp add: reorder_step_def Let_def)
  next
    case (Some pos)
    note pos = Some
    have pos_lt: "pos < length ?ids" using pos_in_Some[OF pos] by simp
    show ?thesis
    proof (cases "int pos + delta < 0 \<or> int (length ?ids) \<le> int pos + delta")
      case True
      then show ?thesis using \<open>get_step i db = Some row\<close> pos assms by (simp add: reorder_step_def Let_def)
    next
      case False
      then have "db' = write_step_ordinals now (ps_node row) (swap_nth pos (nat (int pos + delta)) ?ids) db"
        using \<open>get_step i db = Some row\<close> pos assms(2) by (simp add: reorder_step_def Let_def)
      moreover have "nat (int pos + delta) < length ?ids" using False by linarith
      ultimately show ?thesis
        using pos_lt by (simp add: wf_renumber[OF wf] step_ids_distinct[OF wf])
    qed
  qed
qed

lemma wf_place_step:
  assumes wf: "wf_plan db" and "place_step_at now i index db = Inr db'"
  shows "wf_plan db'"
proof -
  obtain row where row: "get_step i db = Some row"
    and db': "db' = write_step_ordinals now (ps_node row)
       (insert_nth (min index (length (filter (\<lambda>k. k \<noteq> i) (step_ids_for_node (ps_node row) db)))) i
          (filter (\<lambda>k. k \<noteq> i) (step_ids_for_node (ps_node row) db))) db"
    using assms(2) by (auto simp: place_step_at_def Let_def split: option.splits)
  have "i \<in> set (step_ids_for_node (ps_node row) db)"
    using get_step_Some[OF row] by (auto simp: set_step_ids)
  then show ?thesis
    unfolding db' by (intro wf_renumber[OF wf]) (auto simp: step_ids_distinct[OF wf])
qed

section \<open>The graph\<close>

lemma first_refusal_None: "first_refusal f xs = None \<longleftrightarrow> (\<forall>x\<in>set xs. f x = None)"
  by (induction xs) (auto split: option.splits)

lemma set_dependencies: "set (list_dependencies i db) = {d. (i, d) \<in> set (pl_deps db)}"
  by (force simp: list_dependencies_def)

lemma set_dependents: "set (list_dependents i db) = {d. (d, i) \<in> set (pl_deps db)}"
  by (force simp: list_dependents_def)

lemma get_map_step:
  "(\<And>s. ps_id (f s) = ps_id s) \<Longrightarrow>
   get_step k (map_step i f db) = map_option (\<lambda>s. if k = i then f s else s) (get_step k db)"
proof -
  assume f: "\<And>s. ps_id (f s) = ps_id s"
  have "get_step k (map_step i f db) = map_option (\<lambda>s. if ps_id s = i then f s else s) (get_step k db)"
    unfolding get_step_def map_step_def by (simp add: find_id_map f)
  then show ?thesis by (cases "get_step k db") (auto dest: get_step_Some)
qed

lemma wf_set_phase:
  assumes wf: "wf_plan db" and "set_step_phase now i phase db = Inr db'"
  shows "wf_plan db'"
proof -
  let ?f = "\<lambda>s. s\<lparr>ps_phase := phase, ps_updated := now\<rparr>"
  have phase: "phase \<in> set PLAN_STEP_PHASES"
    and deps: "\<And>d dep. (i, d) \<in> set (pl_deps db) \<Longrightarrow> get_step d db = Some dep \<Longrightarrow> dependency_allowed phase (ps_phase dep)"
    and dents: "\<And>d dep. (d, i) \<in> set (pl_deps db) \<Longrightarrow> get_step d db = Some dep \<Longrightarrow> dependency_allowed (ps_phase dep) phase"
    and db': "db' = map_step i ?f db"
    using assms(2)
    by (force simp: set_step_phase_def first_refusal_None set_dependencies set_dependents split: option.splits if_splits)+
  note P = wf_plan_parts[OF wf]
  have get: "get_step k db' = map_option (\<lambda>s. if k = i then ?f s else s) (get_step k db)" for k
    unfolding db' by (rule get_map_step) simp
  have "dep_ok db' e" if e: "e \<in> set (pl_deps db)" for e
  proof -
    obtain a b where ab: "e = (a, b)" by (cases e)
    obtain s d where sd: "get_step a db = Some s" "get_step b db = Some d" "dependency_allowed (ps_phase s) (ps_phase d)"
      using P(4) e by (auto simp: ab dep_ok_def)
    have "a \<noteq> b" using P(3) e by (auto simp: ab acyclic_def)
    then show ?thesis using sd deps[of b d] dents[of a s] e by (auto simp: dep_ok_def get ab)
  qed
  moreover have "st.dense (pl_steps db')"
    unfolding db' map_step_def using wf by (auto simp: wf_plan_def intro!: st.dense_map_rows)
  ultimately show ?thesis
    using P(2,3) phase by (auto simp: wf_plan_def db' map_step_def)
qed

lemma wf_add_dependency:
  assumes wf: "wf_plan db" and "add_dependency i on db = Inr db'"
  shows "wf_plan db'"
proof (cases "(i, on) \<in> set (pl_deps db)")
  case True
  then show ?thesis using assms by (auto simp: add_dependency_def split: option.splits if_splits)
next
  case False
  obtain s d where ok: "i \<noteq> on" "i \<notin> set (reach (pl_deps db) on)" "get_step i db = Some s" "get_step on db = Some d"
    "dependency_allowed (ps_phase s) (ps_phase d)" and db': "db' = db\<lparr>pl_deps := pl_deps db @ [(i, on)]\<rparr>"
    using assms(2) False by (auto simp: add_dependency_def split: option.splits if_splits)
  have "(on, i) \<notin> (set (pl_deps db))\<^sup>*"
    using ok(1,2) by (auto simp: set_reach rtrancl_eq_or_trancl)
  then have "acyclic (set (pl_deps db'))"
    using wf by (simp add: db' wf_plan_def acyclic_insert)
  moreover have "dep_ok db' e" if "e \<in> set (pl_deps db')" for e
    using that wf ok by (auto simp: db' wf_plan_def dep_ok_def get_step_def)
  ultimately show ?thesis using wf by (auto simp: wf_plan_def db')
qed

lemma wf_remove_dependency: "wf_plan db \<Longrightarrow> wf_plan (remove_dependency i on db)"
  by (rule wf_keep[where f = "\<lambda>s. s"]) (auto simp: remove_dependency_def wf_plan_def)

text \<open>Every operation of the repository that writes.\<close>

inductive plan_write :: "plan_db \<Rightarrow> plan_db \<Rightarrow> bool" where
  "insert_step_at now i n index body db = Inr db' \<Longrightarrow> plan_write db db'"
| "update_step_body now i body db = Inr db' \<Longrightarrow> plan_write db db'"
| "set_step_phase now i phase db = Inr db' \<Longrightarrow> plan_write db db'"
| "update_step_status now i status note reason db = Inr db' \<Longrightarrow> plan_write db db'"
| "plan_write db (snd (reopen_verification now n why db))"
| "plan_write db (snd (delete_step now i db))"
| "reorder_step now i delta db = Inr db' \<Longrightarrow> plan_write db db'"
| "place_step_at now i index db = Inr db' \<Longrightarrow> plan_write db db'"
| "add_dependency i on db = Inr db' \<Longrightarrow> plan_write db db'"
| "plan_write db (remove_dependency i on db)"
| "plan_write db (link_obligation i ob db)"
| "plan_write db (unlink_obligation i ob db)"

lemma plan_write_wf: "plan_write db db' \<Longrightarrow> wf_plan db \<Longrightarrow> wf_plan db'"
proof (induction rule: plan_write.induct)
  case (2 now i body db db')
  then show ?case by (auto simp: update_step_body_def intro!: wf_map_step split: if_splits)
next
  case (11 db i ob)
  then show ?case by (auto simp: link_obligation_def intro: wf_same)
next
  case (12 db i ob)
  then show ?case by (auto simp: unlink_obligation_def intro: wf_same)
qed (auto intro: wf_insert_step wf_set_phase wf_update_status wf_reopen_verification wf_delete_step
      wf_reorder_step wf_place_step wf_add_dependency wf_remove_dependency)

definition empty_plan :: plan_db where
  "empty_plan = \<lparr>pl_steps = [], pl_deps = [], pl_links = [], pl_notes = [], pl_verdicts = \<lparr>vd_rows = [], vd_next = 1\<rparr>\<rparr>"

lemma wf_empty_plan: "wf_plan empty_plan"
  by (simp add: wf_plan_def empty_plan_def st.dense_def acyclic_def)

section \<open>Properties\<close>

lemma dep_phase_trancl:
  assumes "wf_plan db" "(a, b) \<in> (set (pl_deps db))\<^sup>+"
  shows "\<exists>s d. get_step a db = Some s \<and> get_step b db = Some d \<and> due_by (ps_phase d) (ps_phase s)"
  using assms(2)
proof (induction rule: trancl_induct)
  case (base y)
  then show ?case
    using wf_plan_parts(4)[OF assms(1)] by (fastforce simp: dep_ok_def dependency_allowed_def)
next
  case (step y z)
  moreover have "dep_ok db (y, z)" using wf_plan_parts(4)[OF assms(1)] step(2) by blast
  ultimately show ?case by (auto simp: dep_ok_def dependency_allowed_def due_by_def)
qed

text \<open>C22: However a plan is edited (steps added, moved, deleted and rephased, dependencies
  added and removed, statuses set), no step ever waits on itself through any chain of
  dependencies, none waits on work of a later phase, and each node's steps are numbered
  1, 2, 3, ... without a gap.\<close>
theorem plan_stays_sound:
  assumes "plan_write\<^sup>*\<^sup>* empty_plan db"
  shows "(a, a) \<notin> (set (pl_deps db))\<^sup>+
    \<and> ((a, b) \<in> (set (pl_deps db))\<^sup>+ \<longrightarrow>
         (\<exists>s d. get_step a db = Some s \<and> get_step b db = Some d \<and> due_by (ps_phase d) (ps_phase s)))
    \<and> map ps_ordinal (steps_for_node n db) = map (\<lambda>i. int i + 1) [0..<length (steps_for_node n db)]"
proof -
  have wf: "wf_plan db"
    using assms by (induction rule: rtranclp_induct) (auto intro: wf_empty_plan plan_write_wf)
  show ?thesis
    using wf_plan_parts(3,5)[OF wf] dep_phase_trancl[OF wf]
    by (auto simp: acyclic_def steps_for_node_def)
qed

theorem plan_stays_sound_witness:
  "\<exists>db. insert_step_at 5 1 7 0 ''build'' empty_plan = Inr db
     \<and> map ps_ordinal (steps_for_node 7 db) = map (\<lambda>i. int i + 1) [0..<length (steps_for_node 7 db)]"
proof -
  obtain db where ins: "insert_step_at 5 1 7 0 ''build'' empty_plan = Inr db"
    by (simp add: insert_step_at_def empty_plan_def Let_def)
  then have "plan_write\<^sup>*\<^sup>* empty_plan db" using plan_write.intros(1) by blast
  then show ?thesis using plan_stays_sound[of db 0 0 7] ins by blast
qed

text \<open>A dependency is refused exactly when it would be a self-edge or close a cycle, when a
  step is missing, or when the step it waits on is of a later phase; otherwise the edge is
  there afterwards and nothing else changed.\<close>
theorem add_dependency_exact:
  "add_dependency i on db =
     (if i = on then Inl ''a plan step cannot depend on itself''
      else if (on, i) \<in> (set (pl_deps db))\<^sup>+ then Inl ''that dependency would create a cycle''
      else case (get_step i db, get_step on db) of
          (Some s, Some d) \<Rightarrow>
            if state_rank (ps_phase s) < state_rank (ps_phase d) then Inl (wait_refusal (ps_phase s) (ps_phase d))
            else Inr (if (i, on) \<in> set (pl_deps db) then db else db\<lparr>pl_deps := pl_deps db @ [(i, on)]\<rparr>)
        | _ \<Rightarrow> Inl ''plan step not found'')"
  by (auto simp: add_dependency_def set_reach dependency_allowed_def due_by_def split: option.split)

text \<open>What a change of status does to the rows.\<close>

definition promotable :: "uuid \<Rightarrow> plan_db \<Rightarrow> bool" where
  "promotable i db \<longleftrightarrow> is_some_and (\<lambda>s. ps_status s = STATUS_PENDING) (get_step i db)
     \<and> (\<forall>d. (i, d) \<in> set (pl_deps db) \<longrightarrow> is_none_or (\<lambda>dep. satisfies_dependency (ps_status dep)) (get_step d db))"

lemma maybe_promote_get:
  "map_option ps_status (get_step k (maybe_promote now i db)) =
     (if k = i \<and> promotable i db then Some STATUS_READY else map_option ps_status (get_step k db))"
  by (auto simp: maybe_promote_def promotable_def write_status_def get_map_step set_dependencies list_all_iff
      option.map_ident split: option.splits)

lemma maybe_promote_deps [simp]: "pl_deps (maybe_promote now i db) = pl_deps db"
  by (simp add: maybe_promote_def write_status_def map_step_def split: option.split)

lemma satisfied_status:
  "is_none_or (\<lambda>dep. satisfies_dependency (ps_status dep)) x \<longleftrightarrow> is_none_or satisfies_dependency (map_option ps_status x)"
  by (cases x) simp_all

lemma pending_status:
  "is_some_and (\<lambda>s. ps_status s = STATUS_PENDING) x \<longleftrightarrow> map_option ps_status x = Some STATUS_PENDING"
  by (cases x) simp_all

lemma promotable_status:
  "promotable i db \<longleftrightarrow> map_option ps_status (get_step i db) = Some STATUS_PENDING
     \<and> (\<forall>d. (i, d) \<in> set (pl_deps db) \<longrightarrow> is_none_or satisfies_dependency (map_option ps_status (get_step d db)))"
  by (simp add: promotable_def satisfied_status pending_status)

lemma maybe_promote_promotable:
  "promotable k (maybe_promote now i db) \<longleftrightarrow> promotable k db \<and> k \<noteq> i"
proof -
  have "is_none_or satisfies_dependency (map_option ps_status (get_step d (maybe_promote now i db)))
      = is_none_or satisfies_dependency (map_option ps_status (get_step d db))" for d
    by (auto simp: maybe_promote_get promotable_status satisfies_dependency_def)
  then show ?thesis
    unfolding promotable_status maybe_promote_deps
    by (auto simp: maybe_promote_get promotable_status)
qed

lemma fold_promote_get:
  "map_option ps_status (get_step k (fold (maybe_promote now) is db)) =
     (if k \<in> set is \<and> promotable k db then Some STATUS_READY else map_option ps_status (get_step k db))"
  by (induction "is" arbitrary: db) (auto simp: maybe_promote_get maybe_promote_promotable)

lemma record_note_get [simp]: "get_step k (record_note now i status body db) = get_step k db"
  by (simp add: record_note_def get_step_def)

lemma record_note_deps [simp]: "pl_deps (record_note now i status body db) = pl_deps db"
  by (simp add: record_note_def)

lemma get_step_verdicts [simp]: "get_step k (db\<lparr>pl_verdicts := v\<rparr>) = get_step k db"
  by (simp add: get_step_def)

lemma apply_status_get:
  "map_option ps_status (get_step k (apply_status now i status note reason db)) =
     (if k = i then map_option (\<lambda>_. status) (get_step k db) else map_option ps_status (get_step k db))"
  by (cases "get_step k db")
    (auto simp: apply_status_def Let_def write_status_def get_map_step split: option.split)

lemma apply_status_deps [simp]: "pl_deps (apply_status now i status note reason db) = pl_deps db"
  by (simp add: apply_status_def Let_def write_status_def map_step_def split: option.split)

lemma has_step_get: "has_step i db \<longleftrightarrow> get_step i db \<noteq> None"
  by (auto simp: has_step_def get_step_def find_None_list_all list_ex_iff list_all_iff)

text \<open>Setting a status writes that step, and when the status satisfies dependents it makes
  \<^verbatim>\<open>ready\<close> exactly the pending steps that depend on it and wait on no unfinished step; no other
  status moves.\<close>
theorem promotion_exact:
  assumes "update_step_status now i status note reason db = Inr db'" "(i, i) \<notin> set (pl_deps db)"
  shows "map_option ps_status (get_step k db') =
     (if k = i then Some status
      else if satisfies_dependency status \<and> (k, i) \<in> set (pl_deps db)
         \<and> map_option ps_status (get_step k db) = Some STATUS_PENDING
         \<and> (\<forall>d. (k, d) \<in> set (pl_deps db) \<and> d \<noteq> i \<longrightarrow>
              is_none_or (\<lambda>dep. satisfies_dependency (ps_status dep)) (get_step d db))
      then Some STATUS_READY
      else map_option ps_status (get_step k db))"
proof -
  define db3 where "db3 = apply_status now i status (nonblank note) reason db"
  have i: "get_step i db \<noteq> None"
    and db': "db' = (if satisfies_dependency status then fold (maybe_promote now) (list_dependents i db3) db3 else db3)"
    using assms(1) by (auto simp: update_step_status_def Let_def db3_def has_step_get split: if_splits)
  have get3: "map_option ps_status (get_step k db3) =
     (if k = i then Some status else map_option ps_status (get_step k db))" for k
    using i by (auto simp: db3_def apply_status_get)
  have deps3: "pl_deps db3 = pl_deps db" by (simp add: db3_def)
  show ?thesis
  proof (cases "satisfies_dependency status")
    case True
    then have "status \<noteq> STATUS_PENDING" by (auto simp: satisfies_dependency_def)
    then show ?thesis
      using True assms(2)
      unfolding db' by (auto simp: fold_promote_get set_dependents deps3 promotable_status get3 satisfied_status)
  next
    case False
    then show ?thesis by (simp add: db' get3)
  qed
qed

definition sample_plan :: plan_db where
  "sample_plan = \<lparr>pl_steps =
      [\<lparr>ps_id = 1, ps_node = 7, ps_ordinal = 1, ps_body = ''build'', ps_status = STATUS_IN_PROGRESS, ps_note = None,
        ps_reason = None, ps_phase = PHASE_ACTIVE, ps_updated = 0\<rparr>,
       \<lparr>ps_id = 2, ps_node = 7, ps_ordinal = 2, ps_body = ''wire'', ps_status = STATUS_PENDING, ps_note = None,
        ps_reason = None, ps_phase = PHASE_ACTIVE, ps_updated = 0\<rparr>],
     pl_deps = [(2, 1)], pl_links = [], pl_notes = [], pl_verdicts = \<lparr>vd_rows = [], vd_next = 1\<rparr>\<rparr>"

theorem promotion_exact_witness:
  "\<exists>db'. update_step_status 9 1 STATUS_IMPLEMENTED None None sample_plan = Inr db'
     \<and> map_option ps_status (get_step 2 db') = Some STATUS_READY"
proof -
  obtain db' where u: "update_step_status 9 1 STATUS_IMPLEMENTED None None sample_plan = Inr db'"
    by (simp add: update_step_status_def PLAN_STEP_STATUSES_def has_step_def sample_plan_def Let_def)
  then show ?thesis
    using promotion_exact[OF u, of 2]
    by (auto simp: sample_plan_def satisfies_dependency_def get_step_def)
qed

text \<open>C23: A plan never deadlocks: while every step of the node due by a state is pending, ready,
  implemented or verified and dependencies stay within the node, a pending due step means some
  step can be started now.\<close>
theorem ready_steps_progress:
  assumes wf: "wf_plan db"
    and due: "s \<in> set (pl_steps db)" "ps_node s = n" "step_due_by s state" "ps_status s = STATUS_PENDING"
    and local: "\<And>x y. (x, y) \<in> set (pl_deps db) \<Longrightarrow>
        map_option ps_node (get_step x db) = map_option ps_node (get_step y db)"
    and open_steps: "\<And>x. x \<in> set (pl_steps db) \<Longrightarrow> ps_node x = n \<Longrightarrow> step_due_by x state \<Longrightarrow>
        ps_status x \<in> {STATUS_PENDING, STATUS_READY, STATUS_IMPLEMENTED, STATUS_VERIFIED}"
  shows "ready_steps n (Some state) db \<noteq> []"
proof -
  note P = wf_plan_parts[OF wf]
  let ?Q = "{k. \<exists>x. get_step k db = Some x \<and> ps_node x = n \<and> step_due_by x state \<and> ps_status x = STATUS_PENDING}"
  have inQ: "ps_id s \<in> ?Q" using get_step_in[OF P(1) due(1)] due by auto
  have wfc: "wf ((set (pl_deps db))\<inverse>)" using P(3) by (intro finite_acyclic_wf_converse) simp_all
  obtain k where kQ: "k \<in> ?Q" and kmin: "\<And>y. (y, k) \<in> (set (pl_deps db))\<inverse> \<Longrightarrow> y \<notin> ?Q"
    by (rule wfE_min[OF wfc inQ]) blast
  have k: "k \<in> ?Q" "\<And>y. (k, y) \<in> set (pl_deps db) \<Longrightarrow> y \<notin> ?Q"
    using kQ kmin by simp_all
  from k(1) obtain x where x: "get_step k db = Some x" "ps_node x = n" "step_due_by x state" "ps_status x = STATUS_PENDING"
    by blast
  have xin: "x \<in> set (pl_steps db)" "ps_id x = k" using get_step_Some[OF x(1)] by auto
  show ?thesis
  proof (cases "\<exists>d\<in>set (pl_steps db). ps_node d = n \<and> step_due_by d state \<and> ps_status d = STATUS_READY")
    case True
    then show ?thesis by (auto simp: ready_steps_def filter_empty_conv steps_for_node_def)
  next
    case False
    have "is_some_and (\<lambda>dep. satisfies_dependency (ps_status dep)) (get_step d db)"
      if d: "(k, d) \<in> set (pl_deps db)" for d
    proof -
      have "dep_ok db (k, d)" using P(4) d by blast
      then obtain y where y: "get_step d db = Some y" "dependency_allowed (ps_phase x) (ps_phase y)"
        using x(1) by (auto simp: dep_ok_def)
      have yin: "y \<in> set (pl_steps db)" using get_step_Some[OF y(1)] by simp
      have "ps_node y = n" using local[OF d] x(1,2) y(1) by simp
      moreover have "step_due_by y state"
        using x(3) y(2) by (simp add: step_due_by_def dependency_allowed_def due_by_def)
      moreover from calculation have "ps_status y \<noteq> STATUS_PENDING" using k(2)[OF d] y(1) by blast
      ultimately have "ps_status y \<in> {STATUS_IMPLEMENTED, STATUS_VERIFIED}"
        using open_steps[OF yin] False yin by blast
      then show ?thesis using y(1) by (auto simp: satisfies_dependency_def)
    qed
    then show ?thesis
      using x xin by (auto simp: ready_steps_def filter_empty_conv steps_for_node_def set_dependencies list_all_iff)
  qed
qed

lemma sample_plan_wf: "wf_plan (map_step 1 (\<lambda>s. s\<lparr>ps_status := STATUS_IMPLEMENTED\<rparr>) sample_plan)"
proof -
  have "acyclic {(2::nat, 1::nat)}"
    by (rule acyclicI) (auto simp: trancl_insert)
  moreover have "st.dense (pl_steps (map_step 1 (\<lambda>s. s\<lparr>ps_status := STATUS_IMPLEMENTED\<rparr>) sample_plan))"
    by (simp add: st.dense_def map_step_def sample_plan_def upt_conv_Cons)
  ultimately show ?thesis
    by (simp add: wf_plan_def map_step_def sample_plan_def dep_ok_def get_step_def PLAN_STEP_STATUSES_def
        PLAN_STEP_PHASES_def dependency_allowed_def due_by_def)
qed

theorem ready_steps_progress_witness:
  "ready_steps 7 (Some PHASE_ACTIVE) (map_step 1 (\<lambda>s. s\<lparr>ps_status := STATUS_IMPLEMENTED\<rparr>) sample_plan) \<noteq> []"
  by (rule ready_steps_progress[where s = "pl_steps sample_plan ! 1"])
    (use sample_plan_wf in \<open>auto simp: map_step_def sample_plan_def get_step_def step_due_by_def due_by_def\<close>)

end
