(* ===== verification/Obligations.thy ===== *)
theory Obligations
  imports PlanSteps "HOL-Library.Product_Lexorder" "HOL-Library.List_Lexorder" "HOL-Library.Char_ord"
begin

text \<open>
  Obligations (\<^verbatim>\<open>tod-store/src/outline/repos/obligations.rs\<close>), numbered per node and kind,
  and where verification stands on each (\<^verbatim>\<open>ObligationStanding\<close>, \<^verbatim>\<open>standings\<close> and
  \<^verbatim>\<open>later_phase\<close> in \<^verbatim>\<open>tod-store/src/verification.rs\<close>). Deleting an obligation cascades to its
  plan-step links and its verdicts.
\<close>

abbreviation KIND_REQUIREMENT :: string where "KIND_REQUIREMENT \<equiv> ''requirement''"
abbreviation KIND_CONSTRAINT :: string where "KIND_CONSTRAINT \<equiv> ''constraint''"

abbreviation ACTS_IN_DESIGN :: string where "ACTS_IN_DESIGN \<equiv> ''design''"
abbreviation ACTS_IN_ACTIVE :: string where "ACTS_IN_ACTIVE \<equiv> ''active''"
abbreviation ACTS_IN_VERIFYING :: string where "ACTS_IN_VERIFYING \<equiv> ''verifying''"
abbreviation ACTS_IN_MERGED :: string where "ACTS_IN_MERGED \<equiv> ''merged''"
abbreviation ACTS_IN_RELEASED :: string where "ACTS_IN_RELEASED \<equiv> ''released''"

definition OBLIGATION_ACTS_IN :: "string list" where
  "OBLIGATION_ACTS_IN = [ACTS_IN_DESIGN, ACTS_IN_ACTIVE, ACTS_IN_VERIFYING, ACTS_IN_MERGED, ACTS_IN_RELEASED]"

record obligation =
  ob_id :: uuid
  ob_node :: uuid
  ob_kind :: string
  ob_ordinal :: int
  ob_section :: "string option"
  ob_body :: string
  ob_phase :: string
  ob_acts_in :: string
  ob_visual :: "string option"
  ob_updated :: ms

definition ob_group :: "obligation \<Rightarrow> uuid \<times> string" where
  "ob_group o' = (ob_node o', ob_kind o')"

record outline_db =
  ol_obligations :: "obligation list"
  ol_plan :: plan_db

definition needs_plan_step :: "obligation \<Rightarrow> bool" where
  "needs_plan_step o' = (ob_acts_in o' \<noteq> ACTS_IN_DESIGN \<and> ob_acts_in o' \<noteq> ACTS_IN_VERIFYING)"

definition get_obligation :: "uuid \<Rightarrow> outline_db \<Rightarrow> obligation option" where
  "get_obligation i db = find (\<lambda>o'. ob_id o' = i) (ol_obligations db)"

definition obligations_for_node :: "uuid \<Rightarrow> outline_db \<Rightarrow> obligation list" where
  "obligations_for_node n db =
     sort_key (\<lambda>o'. (ob_kind o', ob_ordinal o')) (filter (\<lambda>o'. ob_node o' = n) (ol_obligations db))"

definition obligation_ids_for_kind :: "uuid \<Rightarrow> string \<Rightarrow> outline_db \<Rightarrow> uuid list" where
  "obligation_ids_for_kind n kind db = group_ids ob_id ob_group ob_ordinal (n, kind) (ol_obligations db)"

text \<open>\<^verbatim>\<open>ObligationRepo::insert\<close>: the row as given, stamped now.\<close>

definition insert_obligation :: "ms \<Rightarrow> obligation \<Rightarrow> outline_db \<Rightarrow> outline_db fallible" where
  "insert_obligation now row db =
     (if ob_id row \<in> ob_id ` set (ol_obligations db)
      then Inl ''UNIQUE constraint failed: node_obligations.id''
      else if list_ex (\<lambda>o'. ob_group o' = ob_group row \<and> ob_ordinal o' = ob_ordinal row) (ol_obligations db)
      then Inl ''UNIQUE constraint failed: node_obligations.node_id, node_obligations.kind, node_obligations.ordinal''
      else Inr (db\<lparr>ol_obligations := ol_obligations db @ [row\<lparr>ob_updated := now\<rparr>]\<rparr>))"

definition map_obligation :: "uuid \<Rightarrow> (obligation \<Rightarrow> obligation) \<Rightarrow> outline_db \<Rightarrow> outline_db fallible" where
  "map_obligation i f db =
     (if list_ex (\<lambda>o'. ob_id o' = i) (ol_obligations db)
      then Inr (db\<lparr>ol_obligations := map (\<lambda>o'. if ob_id o' = i then f o' else o') (ol_obligations db)\<rparr>)
      else Inl ''obligation not found'')"

definition update_obligation_body :: "ms \<Rightarrow> uuid \<Rightarrow> string \<Rightarrow> outline_db \<Rightarrow> outline_db fallible" where
  "update_obligation_body now i body db =
     (let unchanged = is_some_and (\<lambda>o'. ob_body o' = body) (get_obligation i db)
      in (case map_obligation i (\<lambda>o'. o'\<lparr>ob_body := body, ob_updated := now\<rparr>) db of
            Inl e \<Rightarrow> Inl e
          | Inr db1 \<Rightarrow>
              if unchanged then Inr db1
              else Inr (db1\<lparr>ol_plan := (ol_plan db1)\<lparr>pl_verdicts :=
                     snd (reopen_obligation now i ''The obligation was reworded after this was verified.''
                            (pl_verdicts (ol_plan db1)))\<rparr>\<rparr>)))"

definition update_section :: "ms \<Rightarrow> uuid \<Rightarrow> string option \<Rightarrow> outline_db \<Rightarrow> outline_db fallible" where
  "update_section now i section db = map_obligation i (\<lambda>o'. o'\<lparr>ob_section := section, ob_updated := now\<rparr>) db"

definition update_phase :: "ms \<Rightarrow> uuid \<Rightarrow> string \<Rightarrow> outline_db \<Rightarrow> outline_db fallible" where
  "update_phase now i phase db = map_obligation i (\<lambda>o'. o'\<lparr>ob_phase := phase, ob_updated := now\<rparr>) db"

definition update_acts_in :: "ms \<Rightarrow> uuid \<Rightarrow> string \<Rightarrow> outline_db \<Rightarrow> outline_db fallible" where
  "update_acts_in now i acts_in db = map_obligation i (\<lambda>o'. o'\<lparr>ob_acts_in := acts_in, ob_updated := now\<rparr>) db"

definition update_visual_design_path :: "ms \<Rightarrow> uuid \<Rightarrow> string option \<Rightarrow> outline_db \<Rightarrow> outline_db fallible" where
  "update_visual_design_path now i path db =
     map_obligation i (\<lambda>o'. o'\<lparr>ob_visual := path, ob_updated := now\<rparr>) db"

text \<open>The two writes of \<^verbatim>\<open>write_ordinals\<close>.\<close>

definition touch_ob :: "ms \<Rightarrow> int \<Rightarrow> obligation \<Rightarrow> obligation" where
  "touch_ob now k o' = o'\<lparr>ob_ordinal := k, ob_updated := now\<rparr>"

definition place_ob :: "int \<Rightarrow> obligation \<Rightarrow> obligation" where
  "place_ob k o' = o'\<lparr>ob_ordinal := k\<rparr>"

definition write_ob_ordinals :: "ms \<Rightarrow> uuid \<Rightarrow> string \<Rightarrow> uuid list \<Rightarrow> outline_db \<Rightarrow> outline_db" where
  "write_ob_ordinals now n kind ids db =
     db\<lparr>ol_obligations := renumber ob_id ob_group (touch_ob now) place_ob (n, kind) ids (ol_obligations db)\<rparr>"

text \<open>\<^verbatim>\<open>DELETE FROM node_obligations\<close>, with what the foreign keys delete along.\<close>

definition delete_obligation_row :: "uuid \<Rightarrow> outline_db \<Rightarrow> outline_db" where
  "delete_obligation_row i db =
     \<lparr>ol_obligations = filter (\<lambda>o'. ob_id o' \<noteq> i) (ol_obligations db),
      ol_plan = (ol_plan db)\<lparr>
        pl_links := filter (\<lambda>(_, ob). ob \<noteq> i) (pl_links (ol_plan db)),
        pl_verdicts := (pl_verdicts (ol_plan db))\<lparr>vd_rows :=
          filter (\<lambda>v. ve_obligation v \<noteq> i) (vd_rows (pl_verdicts (ol_plan db)))\<rparr>\<rparr>\<rparr>"

definition delete_obligation :: "ms \<Rightarrow> uuid \<Rightarrow> outline_db \<Rightarrow> obligation option \<times> outline_db" where
  "delete_obligation now i db =
     (case get_obligation i db of
        None \<Rightarrow> (None, db)
      | Some row \<Rightarrow>
          let db1 = delete_obligation_row i db
          in (Some row, write_ob_ordinals now (ob_node row) (ob_kind row)
                          (obligation_ids_for_kind (ob_node row) (ob_kind row) db1) db1))"

definition insert_obligation_at ::
    "ms \<Rightarrow> uuid \<Rightarrow> uuid \<Rightarrow> string \<Rightarrow> nat \<Rightarrow> string option \<Rightarrow> string \<Rightarrow> string \<Rightarrow> outline_db \<Rightarrow> outline_db fallible" where
  "insert_obligation_at now i n kind index0 section body phase db =
     (let ids = obligation_ids_for_kind n kind db;
          index = min index0 (length ids);
          row = \<lparr>ob_id = i, ob_node = n, ob_kind = kind, ob_ordinal = 10000 + int (length ids),
                 ob_section = section, ob_body = body, ob_phase = phase, ob_acts_in = ACTS_IN_ACTIVE,
                 ob_visual = None, ob_updated = now\<rparr>
      in (case insert_obligation now row db of
            Inl e \<Rightarrow> Inl e
          | Inr db1 \<Rightarrow> Inr (write_ob_ordinals now n kind (insert_nth index i ids) db1)))"

definition rename_section :: "ms \<Rightarrow> uuid \<Rightarrow> string \<Rightarrow> string option \<Rightarrow> string \<Rightarrow> outline_db \<Rightarrow> outline_db" where
  "rename_section now n kind old new db =
     db\<lparr>ol_obligations := map (\<lambda>o'. if ob_node o' = n \<and> ob_kind o' = kind \<and> ob_section o' = old
                                  then o'\<lparr>ob_section := Some new, ob_updated := now\<rparr> else o')
                            (ol_obligations db)\<rparr>"

definition move_to_node :: "ms \<Rightarrow> uuid \<Rightarrow> uuid \<Rightarrow> outline_db \<Rightarrow> outline_db fallible" where
  "move_to_node now i target db =
     (case get_obligation i db of
        None \<Rightarrow> Inl ''obligation not found''
      | Some row \<Rightarrow>
          if ob_node row = target then Inr db
          else
            let db1 = delete_obligation_row i db;
                db2 = write_ob_ordinals now (ob_node row) (ob_kind row)
                        (obligation_ids_for_kind (ob_node row) (ob_kind row) db1) db1;
                ordinal = int (length (obligation_ids_for_kind target (ob_kind row) db2)) + 1
            in insert_obligation now (row\<lparr>ob_node := target, ob_ordinal := ordinal\<rparr>) db2)"

definition reorder_obligation :: "ms \<Rightarrow> uuid \<Rightarrow> int \<Rightarrow> outline_db \<Rightarrow> outline_db fallible" where
  "reorder_obligation now i delta db =
     (case get_obligation i db of
        None \<Rightarrow> Inl ''obligation not found''
      | Some row \<Rightarrow>
          let ids = obligation_ids_for_kind (ob_node row) (ob_kind row) db
          in (case pos_in ids i of
                None \<Rightarrow> Inr db
              | Some pos \<Rightarrow>
                  let new_pos = int pos + delta
                  in if new_pos < 0 \<or> int (length ids) \<le> new_pos then Inr db
                     else Inr (write_ob_ordinals now (ob_node row) (ob_kind row)
                                 (swap_nth pos (nat new_pos) ids) db)))"

definition place_obligation :: "ms \<Rightarrow> uuid \<Rightarrow> nat \<Rightarrow> outline_db \<Rightarrow> outline_db fallible" where
  "place_obligation now i index db =
     (case get_obligation i db of
        None \<Rightarrow> Inl ''obligation not found''
      | Some row \<Rightarrow>
          let ids = filter (\<lambda>k. k \<noteq> i) (obligation_ids_for_kind (ob_node row) (ob_kind row) db)
          in Inr (write_ob_ordinals now (ob_node row) (ob_kind row) (insert_nth (min index (length ids)) i ids) db))"

section \<open>Where verification stands\<close>

abbreviation STANDING_PLANNED :: string where "STANDING_PLANNED \<equiv> ''planned''"
abbreviation STANDING_NOT_PLANNED :: string where "STANDING_NOT_PLANNED \<equiv> ''not planned''"

record ob_standing =
  os_obligation :: obligation
  os_verdict :: "verdict option"
  os_phase :: string

definition later_phase :: "string \<Rightarrow> string \<Rightarrow> string" where
  "later_phase acts_in by_steps =
     (if acts_in = ACTS_IN_DESIGN \<or> \<not> due_by acts_in by_steps then acts_in else by_steps)"

definition standing_due_by :: "ob_standing \<Rightarrow> string \<Rightarrow> bool" where
  "standing_due_by s state = (ob_acts_in (os_obligation s) \<noteq> ACTS_IN_DESIGN \<and> due_by (os_phase s) state)"

definition standing_verified :: "ob_standing \<Rightarrow> bool" where
  "standing_verified s = is_some_and is_verified (os_verdict s)"

definition standing_failed :: "ob_standing \<Rightarrow> bool" where
  "standing_failed s = is_some_and is_failed (os_verdict s)"

definition standing_unchecked :: "ob_standing \<Rightarrow> bool" where
  "standing_unchecked s = (\<not> standing_verified s \<and> \<not> standing_failed s)"

definition standing_status :: "ob_standing \<Rightarrow> string" where
  "standing_status s = (case os_verdict s of Some v \<Rightarrow> ve_status v | None \<Rightarrow> ''unchecked'')"

definition listing_status :: "ob_standing \<Rightarrow> bool \<Rightarrow> string" where
  "listing_status s planned =
     (case os_verdict s of
        Some v \<Rightarrow> ve_status v
      | None \<Rightarrow> if planned then STANDING_PLANNED else STANDING_NOT_PLANNED)"

definition standings :: "uuid \<Rightarrow> outline_db \<Rightarrow> ob_standing list" where
  "standings n db =
     (let latest = latest_for_node n (pl_verdicts (ol_plan db));
          phases = obligation_phases n (ol_plan db)
      in map (\<lambda>o'. let by_steps = unwrap_or PHASE_ACTIVE (phases (ob_id o'))
                   in \<lparr>os_obligation = o', os_verdict = latest (ob_id o'),
                       os_phase = later_phase (ob_acts_in o') by_steps\<rparr>)
           (obligations_for_node n db))"

section \<open>Order kept by the operations\<close>

interpretation ob: ordinal_rows ob_id ob_group ob_ordinal "touch_ob now" place_ob
  by unfold_locales (simp_all add: touch_ob_def place_ob_def ob_group_def)

abbreviation ob_dense :: "outline_db \<Rightarrow> bool" where
  "ob_dense db \<equiv> ob.dense (ol_obligations db)"

lemma get_obligation_Some: "get_obligation i db = Some o' \<Longrightarrow> o' \<in> set (ol_obligations db) \<and> ob_id o' = i"
  unfolding get_obligation_def using find_Some_in by fastforce

lemma group_eq: "(ob_node o', ob_kind o') = ob_group o'"
  by (simp add: ob_group_def)

lemma ob_group_update [simp]:
  "ob_group (o'\<lparr>ob_ordinal := k\<rparr>) = ob_group o'" "ob_group (o'\<lparr>ob_section := sec\<rparr>) = ob_group o'"
  "ob_group (o'\<lparr>ob_body := b\<rparr>) = ob_group o'" "ob_group (o'\<lparr>ob_phase := ph\<rparr>) = ob_group o'"
  "ob_group (o'\<lparr>ob_acts_in := ac\<rparr>) = ob_group o'" "ob_group (o'\<lparr>ob_visual := path\<rparr>) = ob_group o'"
  "ob_group (o'\<lparr>ob_updated := now\<rparr>) = ob_group o'"
  by (simp_all add: ob_group_def)

lemma dense_map_obligation:
  assumes "ob_dense db" "map_obligation i f db = Inr db'"
    and "\<And>r. ob_id (f r) = ob_id r" "\<And>r. ob_group (f r) = ob_group r" "\<And>r. ob_ordinal (f r) = ob_ordinal r"
  shows "ob_dense db'"
  using assms by (auto simp: map_obligation_def split: if_splits intro!: ob.dense_map_rows)

lemma dense_update_body:
  assumes "ob_dense db" "update_obligation_body now i body db = Inr db'"
  shows "ob_dense db'"
proof -
  obtain db1 where db1: "map_obligation i (\<lambda>o'. o'\<lparr>ob_body := body, ob_updated := now\<rparr>) db = Inr db1"
    and same: "ol_obligations db' = ol_obligations db1"
    using assms(2) by (auto simp: update_obligation_body_def Let_def split: sum.splits if_splits)
  have "ob_dense db1" by (rule dense_map_obligation[OF assms(1) db1]) (simp_all add: ob_group_def)
  then show ?thesis by (simp add: same)
qed

lemma delete_row_obligations [simp]:
  "ol_obligations (delete_obligation_row i db) = filter (\<lambda>o'. ob_id o' \<noteq> i) (ol_obligations db)"
  by (simp add: delete_obligation_row_def)

text \<open>Deleting a row and renumbering its group.\<close>

lemma dense_delete_renumber:
  assumes "ob_dense db" "get_obligation i db = Some row"
  shows "ob_dense (write_ob_ordinals now (ob_node row) (ob_kind row)
           (obligation_ids_for_kind (ob_node row) (ob_kind row) (delete_obligation_row i db))
           (delete_obligation_row i db))"
  using ob.dense_delete[OF assms(1), of row i] get_obligation_Some[OF assms(2)]
  by (simp add: write_ob_ordinals_def obligation_ids_for_kind_def group_eq)

lemma dense_delete_obligation: "ob_dense db \<Longrightarrow> ob_dense (snd (delete_obligation now i db))"
  by (auto simp: delete_obligation_def Let_def dense_delete_renumber split: option.split)

lemma dense_insert_at:
  assumes "ob_dense db" "insert_obligation_at now i n kind index section body phase db = Inr db'"
  shows "ob_dense db'"
proof -
  define ids where "ids = obligation_ids_for_kind n kind db"
  define row where "row = \<lparr>ob_id = i, ob_node = n, ob_kind = kind, ob_ordinal = 10000 + int (length ids),
                 ob_section = section, ob_body = body, ob_phase = phase, ob_acts_in = ACTS_IN_ACTIVE,
                 ob_visual = None, ob_updated = now\<rparr>"
  have fresh: "i \<notin> ob_id ` set (ol_obligations db)"
    and db': "db' = write_ob_ordinals now n kind (insert_nth (min index (length ids)) i ids)
        (db\<lparr>ol_obligations := ol_obligations db @ [row]\<rparr>)"
    using assms(2)
    by (auto simp: insert_obligation_at_def insert_obligation_def Let_def ids_def row_def split: if_splits)
  have "ob_id row = i" "ob_group row = (n, kind)" by (simp_all add: row_def ob_group_def)
  then show ?thesis
    using ob.dense_insert[OF assms(1), of row "(n, kind)" now "min index (length ids)"] fresh
    by (simp add: db' write_ob_ordinals_def ids_def obligation_ids_for_kind_def)
qed

lemma write_ob_ids: "distinct ids \<Longrightarrow> ob_id ` set (ol_obligations (write_ob_ordinals now n kind ids db)) = ob_id ` set (ol_obligations db)"
  by (metis list.set_map ob.renum_ids outline_db.select_convs(1) outline_db.surjective outline_db.update_convs(1) write_ob_ordinals_def)

lemma dense_insert_next:
  assumes "ob_dense db" "insert_obligation now row db = Inr db'"
    and "ob_ordinal row = int (length (obligation_ids_for_kind (ob_node row) (ob_kind row) db)) + 1"
  shows "ob_dense db'"
proof -
  have fresh: "ob_id row \<notin> ob_id ` set (ol_obligations db)"
    and db': "db' = db\<lparr>ol_obligations := ol_obligations db @ [row\<lparr>ob_updated := now\<rparr>]\<rparr>"
    using assms(2) by (auto simp: insert_obligation_def split: if_splits)
  have "length (obligation_ids_for_kind (ob_node row) (ob_kind row) db)
      = length (filter (\<lambda>r. ob_group r = ob_group row) (ol_obligations db))"
    by (simp add: obligation_ids_for_kind_def group_ids_def group_eq)
  then show ?thesis
    using ob.dense_append[OF assms(1), of "row\<lparr>ob_updated := now\<rparr>"] fresh assms(3)
    by (simp add: db' ob_group_def)
qed

lemma dense_move:
  assumes "ob_dense db" "move_to_node now i target db = Inr db'"
  shows "ob_dense db'"
proof -
  obtain row where row: "get_obligation i db = Some row"
    using assms(2) by (auto simp: move_to_node_def split: option.splits)
  show ?thesis
  proof (cases "ob_node row = target")
    case True
    then show ?thesis using assms row by (simp add: move_to_node_def)
  next
    case False
    let ?db2 = "write_ob_ordinals now (ob_node row) (ob_kind row)
           (obligation_ids_for_kind (ob_node row) (ob_kind row) (delete_obligation_row i db))
           (delete_obligation_row i db)"
    have "insert_obligation now (row\<lparr>ob_node := target,
            ob_ordinal := int (length (obligation_ids_for_kind target (ob_kind row) ?db2)) + 1\<rparr>) ?db2 = Inr db'"
      using assms(2) row False by (simp add: move_to_node_def Let_def)
    then show ?thesis
      by (rule dense_insert_next[OF dense_delete_renumber[OF assms(1) row]]) simp
  qed
qed

lemma ob_ids_distinct: "ob_dense db \<Longrightarrow> distinct (obligation_ids_for_kind n kind db)"
  unfolding obligation_ids_for_kind_def by (rule ob.group_ids_distinct) (rule ob.dense_ids)

lemma dense_write_ordinals:
  "ob_dense db \<Longrightarrow> distinct ids \<Longrightarrow> set ids = set (obligation_ids_for_kind n kind db) \<Longrightarrow>
   ob_dense (write_ob_ordinals now n kind ids db)"
  using ob.dense_reorder by (simp add: write_ob_ordinals_def obligation_ids_for_kind_def)

lemma dense_reorder_obligation:
  assumes "ob_dense db" "reorder_obligation now i delta db = Inr db'"
  shows "ob_dense db'"
proof (cases "get_obligation i db")
  case None
  then show ?thesis using assms by (simp add: reorder_obligation_def)
next
  case (Some row)
  let ?ids = "obligation_ids_for_kind (ob_node row) (ob_kind row) db"
  show ?thesis
  proof (cases "pos_in ?ids i")
    case None
    then show ?thesis using Some assms by (simp add: reorder_obligation_def Let_def)
  next
    case (Some pos)
    have pos_lt: "pos < length ?ids" using pos_in_Some[OF Some] by simp
    show ?thesis
    proof (cases "int pos + delta < 0 \<or> int (length ?ids) \<le> int pos + delta")
      case True
      then show ?thesis using \<open>get_obligation i db = Some row\<close> Some assms by (simp add: reorder_obligation_def Let_def)
    next
      case False
      then have "db' = write_ob_ordinals now (ob_node row) (ob_kind row) (swap_nth pos (nat (int pos + delta)) ?ids) db"
        using \<open>get_obligation i db = Some row\<close> Some assms(2) by (simp add: reorder_obligation_def Let_def)
      moreover have "nat (int pos + delta) < length ?ids" using False by linarith
      ultimately show ?thesis
        using pos_lt by (simp add: dense_write_ordinals[OF assms(1)] ob_ids_distinct[OF assms(1)])
    qed
  qed
qed

lemma dense_place_obligation:
  assumes "ob_dense db" "place_obligation now i index db = Inr db'"
  shows "ob_dense db'"
proof -
  obtain row where row: "get_obligation i db = Some row"
    and db': "db' = write_ob_ordinals now (ob_node row) (ob_kind row)
       (insert_nth (min index (length (filter (\<lambda>k. k \<noteq> i) (obligation_ids_for_kind (ob_node row) (ob_kind row) db)))) i
          (filter (\<lambda>k. k \<noteq> i) (obligation_ids_for_kind (ob_node row) (ob_kind row) db))) db"
    using assms(2) by (auto simp: place_obligation_def Let_def split: option.splits)
  have "i \<in> set (obligation_ids_for_kind (ob_node row) (ob_kind row) db)"
    using get_obligation_Some[OF row] by (auto simp: obligation_ids_for_kind_def ob.group_ids_set ob_group_def)
  then show ?thesis
    unfolding db' by (intro dense_write_ordinals[OF assms(1)]) (auto simp: ob_ids_distinct[OF assms(1)])
qed

inductive ob_write :: "outline_db \<Rightarrow> outline_db \<Rightarrow> bool" where
  "insert_obligation_at now i n kind index section body phase db = Inr db' \<Longrightarrow> ob_write db db'"
| "update_obligation_body now i body db = Inr db' \<Longrightarrow> ob_write db db'"
| "update_section now i section db = Inr db' \<Longrightarrow> ob_write db db'"
| "update_phase now i phase db = Inr db' \<Longrightarrow> ob_write db db'"
| "update_acts_in now i acts_in db = Inr db' \<Longrightarrow> ob_write db db'"
| "update_visual_design_path now i path db = Inr db' \<Longrightarrow> ob_write db db'"
| "ob_write db (snd (delete_obligation now i db))"
| "ob_write db (rename_section now n kind old new db)"
| "move_to_node now i target db = Inr db' \<Longrightarrow> ob_write db db'"
| "reorder_obligation now i delta db = Inr db' \<Longrightarrow> ob_write db db'"
| "place_obligation now i index db = Inr db' \<Longrightarrow> ob_write db db'"

lemma dense_rename_section: "ob_dense db \<Longrightarrow> ob_dense (rename_section now n kind old new db)"
proof -
  let ?f = "\<lambda>o'. if ob_node o' = n \<and> ob_kind o' = kind \<and> ob_section o' = old
     then o'\<lparr>ob_section := Some new, ob_updated := now\<rparr> else o'"
  assume "ob_dense db"
  then have "ob.dense (map ?f (ol_obligations db))" by (rule ob.dense_map_rows) simp_all
  then show ?thesis by (simp add: rename_section_def)
qed

lemma dense_update_field:
  assumes "ob_dense db"
  shows "update_section now i s db = Inr db' \<Longrightarrow> ob_dense db'"
    and "update_phase now i ph db = Inr db' \<Longrightarrow> ob_dense db'"
    and "update_acts_in now i ac db = Inr db' \<Longrightarrow> ob_dense db'"
    and "update_visual_design_path now i path db = Inr db' \<Longrightarrow> ob_dense db'"
  unfolding update_section_def update_phase_def update_acts_in_def update_visual_design_path_def
  by (erule dense_map_obligation[OF assms]; simp)+

lemma ob_write_dense: "ob_write db db' \<Longrightarrow> ob_dense db \<Longrightarrow> ob_dense db'"
  by (induction rule: ob_write.induct)
    (blast intro: dense_insert_at dense_update_body dense_delete_obligation dense_move dense_reorder_obligation
      dense_place_obligation dense_rename_section dense_update_field)+

section \<open>Properties\<close>

definition empty_outline :: outline_db where
  "empty_outline = \<lparr>ol_obligations = [], ol_plan = empty_plan\<rparr>"

text \<open>However obligations are added, edited, moved (within a node or to another) and
  deleted, those of each node and kind stay numbered 1, 2, 3, ... without a gap.\<close>
theorem obligations_numbered:
  assumes "ob_write\<^sup>*\<^sup>* empty_outline db"
  shows "map ob_ordinal (sort_key ob_ordinal (filter (\<lambda>r. ob_group r = (n, kind)) (ol_obligations db)))
     = map (\<lambda>i. int i + 1) [0..<length (filter (\<lambda>r. ob_group r = (n, kind)) (ol_obligations db))]"
proof -
  have "ob_dense db"
    using assms
  proof (induction rule: rtranclp_induct)
    case base
    show ?case by (simp add: empty_outline_def ob.dense_def)
  next
    case (step y z)
    then show ?case by (blast intro: ob_write_dense)
  qed
  then show ?thesis by (rule ob.dense_group)
qed

theorem obligations_numbered_witness:
  "\<exists>db. insert_obligation_at 5 1 7 KIND_REQUIREMENT 0 None ''fast'' ''design'' empty_outline = Inr db
     \<and> map ob_ordinal (sort_key ob_ordinal (filter (\<lambda>r. ob_group r = (7, KIND_REQUIREMENT)) (ol_obligations db)))
       = map (\<lambda>i. int i + 1) [0..<length (filter (\<lambda>r. ob_group r = (7, KIND_REQUIREMENT)) (ol_obligations db))]"
proof -
  obtain db where ins: "insert_obligation_at 5 1 7 KIND_REQUIREMENT 0 None ''fast'' ''design'' empty_outline = Inr db"
    by (simp add: insert_obligation_at_def insert_obligation_def empty_outline_def Let_def)
  then have "ob_write\<^sup>*\<^sup>* empty_outline db" using ob_write.intros(1) by blast
  then show ?thesis using obligations_numbered ins by blast
qed

lemma obligation_phases_spec:
  "case obligation_phases n db ob of
     None \<Rightarrow> \<forall>p. (ob, p) \<notin> set (linked_phases n db)
   | Some latest \<Rightarrow> (ob, latest) \<in> set (linked_phases n db)
       \<and> (\<forall>p. (ob, p) \<in> set (linked_phases n db) \<longrightarrow> state_rank p \<le> state_rank latest)"
proof -
  let ?step = "\<lambda>(ob, phase) m. case m ob of
             None \<Rightarrow> m(ob \<mapsto> phase)
           | Some latest \<Rightarrow> if state_rank latest < state_rank phase then m(ob \<mapsto> phase) else m"
  let ?ok = "\<lambda>ls m. case m ob of None \<Rightarrow> \<forall>p. (ob, p) \<notin> set ls
     | Some latest \<Rightarrow> (ob, latest) \<in> set ls \<and> (\<forall>p. (ob, p) \<in> set ls \<longrightarrow> state_rank p \<le> state_rank latest)"
  have "?ok ls (fold ?step ls (\<lambda>_. None))" for ls :: "(uuid \<times> string) list"
  proof (induction ls rule: rev_induct)
    case (snoc l ls)
    obtain o1 p1 where l: "l = (o1, p1)" by (cases l)
    show ?case
    proof (cases "o1 = ob")
      case True
      then show ?thesis using snoc by (fastforce simp: l split: option.splits)
    next
      case False
      then show ?thesis using snoc by (auto simp: l split: option.splits)
    qed
  qed simp
  then show ?thesis by (simp add: obligation_phases_def)
qed

lemma due_by_later:
  "acts_in \<noteq> ACTS_IN_DESIGN \<Longrightarrow> due_by (later_phase acts_in p) state \<longleftrightarrow> due_by acts_in state \<and> due_by p state"
  by (auto simp: later_phase_def due_by_def)

text \<open>An obligation is up for verification in a lifecycle state exactly when it does not
  act in design, the state it acts in is reached, and so is the state of every plan step of
  the node that satisfies it (with no such step, the state the work itself is done in).\<close>
theorem standing_due_exact:
  assumes "s \<in> set (standings n db)"
  shows "standing_due_by s state \<longleftrightarrow>
     ob_acts_in (os_obligation s) \<noteq> ACTS_IN_DESIGN
   \<and> due_by (ob_acts_in (os_obligation s)) state
   \<and> (if \<exists>p. (ob_id (os_obligation s), p) \<in> set (linked_phases n (ol_plan db))
      then \<forall>p. (ob_id (os_obligation s), p) \<in> set (linked_phases n (ol_plan db)) \<longrightarrow> due_by p state
      else due_by PHASE_ACTIVE state)"
proof -
  let ?o = "os_obligation s"
  let ?steps = "unwrap_or PHASE_ACTIVE (obligation_phases n (ol_plan db) (ob_id ?o))"
  have phase: "os_phase s = later_phase (ob_acts_in ?o) ?steps"
    using assms by (auto simp: standings_def Let_def)
  have steps: "due_by ?steps state = (if \<exists>p. (ob_id ?o, p) \<in> set (linked_phases n (ol_plan db))
      then \<forall>p. (ob_id ?o, p) \<in> set (linked_phases n (ol_plan db)) \<longrightarrow> due_by p state
      else due_by PHASE_ACTIVE state)"
    using obligation_phases_spec[where n = n and db = "ol_plan db" and ob = "ob_id ?o"]
    by (auto simp: due_by_def split: option.splits intro: order_trans)
  show ?thesis
    by (cases "ob_acts_in ?o = ACTS_IN_DESIGN") (simp_all add: standing_due_by_def phase due_by_later steps)
qed

theorem standing_due_exact_witness:
  defines "o1 \<equiv> \<lparr>ob_id = 1, ob_node = 7, ob_kind = KIND_REQUIREMENT, ob_ordinal = 1, ob_section = None, ob_body = ''fast'',
      ob_phase = ''design'', ob_acts_in = ACTS_IN_MERGED, ob_visual = None, ob_updated = 5\<rparr>"
  shows "\<exists>s \<in> set (standings 7 (empty_outline\<lparr>ol_obligations := [o1]\<rparr>)).
     standing_due_by s ''released'' \<and> \<not> standing_due_by s ''verifying''"
proof -
  let ?db = "empty_outline\<lparr>ol_obligations := [o1]\<rparr>"
  let ?s = "\<lparr>os_obligation = o1, os_verdict = None, os_phase = ACTS_IN_MERGED\<rparr>"
  have s: "?s \<in> set (standings 7 ?db)"
    by (simp add: standings_def obligations_for_node_def empty_outline_def empty_plan_def latest_for_node_def latest_by_def
        obligation_phases_def linked_phases_def history_for_node_def o1_def later_phase_def due_by_def state_rank_def
        VALID_LIFECYCLE_STATES_def Let_def)
  have "linked_phases 7 (ol_plan ?db) = []"
    by (simp add: linked_phases_def empty_outline_def empty_plan_def)
  then show ?thesis
    using standing_due_exact[OF s, of "''released''"] standing_due_exact[OF s, of "''verifying''"] s
    by (auto simp: o1_def due_by_def state_rank_def VALID_LIFECYCLE_STATES_def)
qed

lemma renumber_keeps_plan [simp]: "ol_plan (write_ob_ordinals now n kind ids db) = ol_plan db"
  by (simp add: write_ob_ordinals_def)

text \<open>Moving an obligation to another node puts it last of its kind there, and takes from
  it every plan-step link and every verdict it had (the row is deleted and inserted again, and
  its links and verdicts go with the deletion); those of other obligations stay.\<close>
theorem move_forgets:
  assumes "get_obligation i db = Some row" "ob_node row \<noteq> target" "move_to_node now i target db = Inr db'"
  shows "last_opt (ol_obligations db') = Some (row\<lparr>ob_node := target, ob_updated := now,
           ob_ordinal := int (length (filter (\<lambda>r. ob_group r = (target, ob_kind row))
                                (ol_obligations db'))) \<rparr>)
   \<and> pl_links (ol_plan db') = filter (\<lambda>(_, ob). ob \<noteq> i) (pl_links (ol_plan db))
   \<and> vd_rows (pl_verdicts (ol_plan db')) = filter (\<lambda>v. ve_obligation v \<noteq> i) (vd_rows (pl_verdicts (ol_plan db)))"
proof -
  let ?db1 = "delete_obligation_row i db"
  let ?db2 = "write_ob_ordinals now (ob_node row) (ob_kind row)
           (obligation_ids_for_kind (ob_node row) (ob_kind row) ?db1) ?db1"
  define new where "new = row\<lparr>ob_node := target, ob_updated := now,
      ob_ordinal := int (length (obligation_ids_for_kind target (ob_kind row) ?db2)) + 1\<rparr>"
  have db': "db' = ?db2\<lparr>ol_obligations := ol_obligations ?db2 @ [new]\<rparr>"
    using assms by (auto simp: move_to_node_def insert_obligation_def Let_def new_def split: if_splits)
  have "length (obligation_ids_for_kind target (ob_kind row) ?db2)
      = length (filter (\<lambda>r. ob_group r = (target, ob_kind row)) (ol_obligations ?db2))"
    by (simp add: obligation_ids_for_kind_def group_ids_def)
  moreover have "ob_group new = (target, ob_kind row)" by (simp add: new_def ob_group_def)
  ultimately have "int (length (filter (\<lambda>r. ob_group r = (target, ob_kind row)) (ol_obligations db'))) = ob_ordinal new"
    by (simp add: db' new_def)
  then show ?thesis
    by (simp add: db' last_opt_def new_def) (simp add: delete_obligation_row_def)
qed

theorem move_forgets_witness:
  defines "o1 \<equiv> \<lparr>ob_id = 1, ob_node = 7, ob_kind = KIND_REQUIREMENT, ob_ordinal = 1, ob_section = None, ob_body = ''fast'',
      ob_phase = ''design'', ob_acts_in = ACTS_IN_MERGED, ob_visual = None, ob_updated = 5\<rparr>"
  defines "db \<equiv> \<lparr>ol_obligations = [o1], ol_plan = empty_plan\<lparr>pl_links := [(3, 1), (3, 2)]\<rparr>\<rparr>"
  shows "\<exists>db'. move_to_node 9 1 8 db = Inr db' \<and> pl_links (ol_plan db') = [(3, 2)]"
proof -
  have row: "get_obligation 1 db = Some o1" "ob_node o1 \<noteq> 8" by (simp_all add: get_obligation_def db_def o1_def)
  obtain db' where db': "move_to_node 9 1 8 db = Inr db'"
    using row by (auto simp: move_to_node_def insert_obligation_def Let_def write_ob_ordinals_def db_def o1_def
        renumber_def negative_pass_def final_pass_def obligation_ids_for_kind_def group_ids_def ob_group_def)
  show ?thesis using move_forgets[OF row db'] db' by (simp add: db_def)
qed

end
