(* ===== verification/CloudNodes.thy ===== *)
theory CloudNodes
  imports Prelude Interfaces
begin

text \<open>
  Which nodes run in the cloud (\<^verbatim>\<open>tod-store/src/cloud_nodes.rs\<close>): one row per node, its
  sandbox, the context mark that only moves forward, the lost mark, whose it is, and the form
  in which repositories are compared. The table is a map of the node to its row.
\<close>

record ownership =
  ow_workspace :: "string option"
  ow_client :: "string option"
  ow_repo :: "string option"

record cloud_node =
  cn_node :: uuid
  cn_sandbox :: string
  cn_user :: string
  cn_accepted :: ms
  cn_context :: "ms option"
  cn_lost :: "ms option"
  cn_owner :: ownership

type_synonym cloud_nodes = "uuid \<Rightarrow> cloud_node option"

definition nobody :: ownership where
  "nobody = \<lparr>ow_workspace = None, ow_client = None, ow_repo = None\<rparr>"

definition repo_path :: "string \<Rightarrow> string option" where
  "repo_path s =
     (case split_once ''://'' s of
        Some (_, rest) \<Rightarrow> map_option snd (split_once ''/'' rest)
      | None \<Rightarrow>
          (case split_once '':'' s of
             Some (host, path) \<Rightarrow> if CHR ''@'' \<in> set host then Some path else Some s
           | None \<Rightarrow> Some s))"

definition normalize_repo :: "string \<Rightarrow> string option" where
  "normalize_repo url_or_slug =
     (let s0 = trim_end_char (CHR ''/'') (trim url_or_slug);
          s = unwrap_or s0 (strip_suffix ''.git'' s0)
      in (case repo_path s of
            None \<Rightarrow> None
          | Some path \<Rightarrow>
              (case filter (\<lambda>p. p \<noteq> []) (split_on (\<lambda>c. c = CHR ''/'') path) of
                 [owner, name] \<Rightarrow> Some (map ascii_lower (owner @ ''/'' @ name))
               | _ \<Rightarrow> None)))"

definition upsert_cloud :: "uuid \<Rightarrow> string \<Rightarrow> string \<Rightarrow> ms \<Rightarrow> cloud_nodes \<Rightarrow> cloud_nodes" where
  "upsert_cloud n sandbox user at t =
     t(n \<mapsto> (case t n of
               None \<Rightarrow> \<lparr>cn_node = n, cn_sandbox = sandbox, cn_user = user, cn_accepted = at,
                        cn_context = None, cn_lost = None, cn_owner = nobody\<rparr>
             | Some r \<Rightarrow> r\<lparr>cn_sandbox := sandbox, cn_user := user, cn_accepted := at, cn_lost := None\<rparr>))"

definition set_sandbox :: "uuid \<Rightarrow> string \<Rightarrow> cloud_nodes \<Rightarrow> cloud_nodes" where
  "set_sandbox n sandbox t = t(n := map_option (\<lambda>r. r\<lparr>cn_sandbox := sandbox\<rparr>) (t n))"

definition set_ownership :: "uuid \<Rightarrow> ownership \<Rightarrow> cloud_nodes \<Rightarrow> cloud_nodes" where
  "set_ownership n ow t =
     t(n := map_option (\<lambda>r. r\<lparr>cn_owner :=
          \<lparr>ow_workspace = or_else (ow_workspace ow) (ow_workspace (cn_owner r)),
           ow_client = or_else (ow_client ow) (ow_client (cn_owner r)),
           ow_repo = or_else (ow_repo ow) (ow_repo (cn_owner r))\<rparr>\<rparr>) (t n))"

definition get_cloud :: "uuid \<Rightarrow> cloud_nodes \<Rightarrow> cloud_node option" where
  "get_cloud n t = t n"

definition mark_context_changed :: "uuid \<Rightarrow> ms \<Rightarrow> cloud_nodes \<Rightarrow> cloud_nodes" where
  "mark_context_changed n at t =
     t(n := map_option (\<lambda>r. if is_none_or (\<lambda>c. c < at) (cn_context r) then r\<lparr>cn_context := Some at\<rparr> else r) (t n))"

definition mark_lost :: "uuid \<Rightarrow> ms \<Rightarrow> cloud_nodes \<Rightarrow> cloud_nodes" where
  "mark_lost n at t =
     t(n := map_option (\<lambda>r. if cn_lost r = None then r\<lparr>cn_lost := Some at\<rparr> else r) (t n))"

definition remove_cloud :: "uuid \<Rightarrow> cloud_nodes \<Rightarrow> cloud_nodes" where
  "remove_cloud n t = t(n := None)"

text \<open>The writes of the table, as one operation of a node's row.\<close>

datatype cloud_write =
  CwUpsert string string ms | CwSandbox string | CwOwner ownership | CwContext ms | CwLost ms | CwRemove

primrec write_cloud :: "cloud_write \<Rightarrow> uuid \<Rightarrow> cloud_nodes \<Rightarrow> cloud_nodes" where
  "write_cloud (CwUpsert sandbox user at) n t = upsert_cloud n sandbox user at t"
| "write_cloud (CwSandbox sandbox) n t = set_sandbox n sandbox t"
| "write_cloud (CwOwner ow) n t = set_ownership n ow t"
| "write_cloud (CwContext at) n t = mark_context_changed n at t"
| "write_cloud (CwLost at) n t = mark_lost n at t"
| "write_cloud CwRemove n t = remove_cloud n t"

lemmas cloud_write_defs =
  upsert_cloud_def set_sandbox_def set_ownership_def mark_context_changed_def mark_lost_def remove_cloud_def

interpretation cloud_rows: node_table write_cloud
proof
  fix m n :: uuid and a and db db' :: cloud_nodes
  show "m \<noteq> n \<Longrightarrow> write_cloud a n db m = db m"
    by (cases a) (simp_all add: cloud_write_defs)
  show "db n = db' n \<Longrightarrow> write_cloud a n db n = write_cloud a n db' n"
    by (cases a) (simp_all add: cloud_write_defs)
qed

section \<open>Properties\<close>

lemma context_step:
  assumes "t n = Some r" "write_cloud w n t n = Some r'" "cn_context r = Some c"
  shows "\<exists>c'. cn_context r' = Some c' \<and> c \<le> c'"
  using assms by (cases w) (auto simp: cloud_write_defs split: if_splits)

lemma known_step:
  assumes "t n = Some r" "write_cloud w n t n = Some r'"
  shows "(ow_workspace (cn_owner r) \<noteq> None \<longrightarrow> ow_workspace (cn_owner r') \<noteq> None)
       \<and> (ow_client (cn_owner r) \<noteq> None \<longrightarrow> ow_client (cn_owner r') \<noteq> None)
       \<and> (ow_repo (cn_owner r) \<noteq> None \<longrightarrow> ow_repo (cn_owner r') \<noteq> None)"
  using assms by (cases w) (auto simp: cloud_write_defs or_else_def split: option.splits)

lemma row_stays: "t n = Some r \<Longrightarrow> w \<noteq> CwRemove \<Longrightarrow> \<exists>r'. write_cloud w n t n = Some r'"
  by (cases w) (auto simp: cloud_write_defs)

text \<open>Whatever the app, the supervisors and the orchestrator write about any nodes, in any
  order, a node's context mark never moves back and what is known of its owner is never
  forgotten, as long as its row is not removed.\<close>
theorem cloud_marks_only_grow:
  assumes "t n = Some r" "(CwRemove, n) \<notin> set evs"
  shows "\<exists>r'. fold (\<lambda>(w, m). write_cloud w m) evs t n = Some r'
     \<and> (\<forall>c. cn_context r = Some c \<longrightarrow> (\<exists>c'. cn_context r' = Some c' \<and> c \<le> c'))
     \<and> (ow_repo (cn_owner r) \<noteq> None \<longrightarrow> ow_repo (cn_owner r') \<noteq> None)
     \<and> (ow_client (cn_owner r) \<noteq> None \<longrightarrow> ow_client (cn_owner r') \<noteq> None)
     \<and> (ow_workspace (cn_owner r) \<noteq> None \<longrightarrow> ow_workspace (cn_owner r') \<noteq> None)"
  using assms
proof (induction evs arbitrary: t r)
  case (Cons ev evs)
  obtain w m where ev: "ev = (w, m)" by (cases ev)
  show ?case
  proof (cases "m = n")
    case False
    then have "write_cloud w m t n = Some r" using Cons.prems by (simp add: cloud_rows.frame)
    then show ?thesis using Cons.IH[of "write_cloud w m t" r] Cons.prems by (simp add: ev)
  next
    case True
    then have "w \<noteq> CwRemove" using Cons.prems by (auto simp: ev)
    then obtain r1 where r1: "write_cloud w n t n = Some r1" using row_stays Cons.prems(1) by blast
    obtain r' where r': "fold (\<lambda>(w, m). write_cloud w m) evs (write_cloud w n t) n = Some r'"
      and ctx: "\<forall>c. cn_context r1 = Some c \<longrightarrow> (\<exists>c'. cn_context r' = Some c' \<and> c \<le> c')"
      and own: "ow_repo (cn_owner r1) \<noteq> None \<longrightarrow> ow_repo (cn_owner r') \<noteq> None"
        "ow_client (cn_owner r1) \<noteq> None \<longrightarrow> ow_client (cn_owner r') \<noteq> None"
        "ow_workspace (cn_owner r1) \<noteq> None \<longrightarrow> ow_workspace (cn_owner r') \<noteq> None"
      using Cons.IH[where t = "write_cloud w n t" and r = r1, OF r1] Cons.prems by (auto simp: ev True)
    have "\<exists>c'. cn_context r' = Some c' \<and> c \<le> c'" if "cn_context r = Some c" for c
      using context_step[OF Cons.prems(1) r1 that] ctx order_trans by blast
    then show ?thesis using known_step[OF Cons.prems(1) r1] own r' by (simp add: ev True)
  qed
qed simp

theorem cloud_marks_only_grow_witness:
  "\<exists>r'. fold (\<lambda>(w, m). write_cloud w m) [(CwLost 9, 3), (CwContext 4, 7), (CwUpsert ''box2'' ''ann'' 8, 7)]
      (write_cloud (CwContext 5) 7 (write_cloud (CwUpsert ''box'' ''ann'' 1) 7 (\<lambda>_. None))) 7 = Some r'
    \<and> (\<exists>c'. cn_context r' = Some c' \<and> 5 \<le> c')"
proof -
  let ?t = "write_cloud (CwContext 5) 7 (write_cloud (CwUpsert ''box'' ''ann'' 1) 7 (\<lambda>_. None))"
  have t: "?t 7 = Some \<lparr>cn_node = 7, cn_sandbox = ''box'', cn_user = ''ann'', cn_accepted = 1,
      cn_context = Some 5, cn_lost = None, cn_owner = nobody\<rparr>"
    by (simp add: cloud_write_defs)
  show ?thesis
    using cloud_marks_only_grow[where t = ?t and n = 7, OF t, of "[(CwLost 9, 3), (CwContext 4, 7), (CwUpsert ''box2'' ''ann'' 8, 7)]"]
    by auto
qed

section \<open>One repository, many spellings\<close>

lemma trim_end_char_append: "c \<noteq> d \<Longrightarrow> trim_end_char d (s @ [c]) = s @ [c]" "trim_end_char d (s @ [d]) = trim_end_char d s"
  by (simp_all add: trim_end_char_def)

definition plain_char :: "char \<Rightarrow> bool" where
  "plain_char c = (\<not> is_space c \<and> c \<notin> {CHR ''/'', CHR '':'', CHR ''@''})"

definition plain_name :: "string \<Rightarrow> bool" where
  "plain_name s = (s \<noteq> [] \<and> list_all plain_char s)"

lemma split_once_absent:
  "list_all (\<lambda>c. c \<noteq> p) s \<Longrightarrow> split_once (p # ps) s = None"
  by (induction s) (auto simp: starts_with_def)

lemma plain_name_props:
  assumes "plain_name s"
  shows "s \<noteq> []" "list_all (\<lambda>c. c \<noteq> CHR ''/'') s" "list_all (\<lambda>c. c \<noteq> CHR '':'') s"
    "list_all (\<lambda>c. c \<noteq> CHR ''@'') s" "\<not> is_space (hd s)" "\<not> is_space (last s)" "last s \<noteq> CHR ''/''"
  using assms unfolding plain_name_def
  by (cases s rule: rev_cases; auto simp: list_all_iff plain_char_def hd_append)+

lemma no_git_suffix:
  assumes "plain_name name" "strip_suffix ''.git'' name = None"
  shows "strip_suffix ''.git'' (p @ CHR ''/'' # name) = None"
proof (rule ccontr)
  assume "strip_suffix ''.git'' (p @ CHR ''/'' # name) \<noteq> None"
  then obtain r where "p @ CHR ''/'' # name = r @ ''.git''" by (auto simp: strip_suffix_Some_iff)
  then have "takeWhile (\<lambda>c. c \<noteq> CHR ''/'') (rev (p @ CHR ''/'' # name))
      = takeWhile (\<lambda>c. c \<noteq> CHR ''/'') (rev (r @ ''.git''))" by simp
  moreover have "takeWhile (\<lambda>c. c \<noteq> CHR ''/'') (rev (p @ CHR ''/'' # name)) = rev name"
    using plain_name_props(2)[OF assms(1)] by (simp add: takeWhile_append list_all_iff)
  ultimately have "rev name = rev ''.git'' @ takeWhile (\<lambda>c. c \<noteq> CHR ''/'') (rev r)" by simp
  then have "name = rev (takeWhile (\<lambda>c. c \<noteq> CHR ''/'') (rev r)) @ ''.git''"
    by (simp add: rev_swap)
  then have "strip_suffix ''.git'' name = Some (rev (takeWhile (\<lambda>c. c \<noteq> CHR ''/'') (rev r)))"
    by (simp add: strip_suffix_Some_iff)
  then show False using assms(2) by simp
qed

definition repo_prefixes :: "string \<Rightarrow> string list" where
  "repo_prefixes host = [[], ''https://'' @ host @ ''/'', ''git@'' @ host @ '':'', ''ssh://git@'' @ host @ ''/'']"

lemma split_once_scp:
  "list_all (\<lambda>c. c \<noteq> p) a \<Longrightarrow> list_all (\<lambda>c. c \<noteq> p) r \<Longrightarrow> c \<noteq> p \<Longrightarrow> c \<noteq> q
   \<Longrightarrow> split_once (p # q # ps) (a @ p # c # r) = None"
  by (induction a) (auto simp: starts_with_def split_once_absent)

lemma repo_path_core:
  assumes "plain_name host" "plain_name owner" "plain_name name" "pre \<in> set (repo_prefixes host)"
  shows "repo_path (pre @ owner @ ''/'' @ name) = Some (owner @ ''/'' @ name)"
proof -
  let ?core = "owner @ ''/'' @ name"
  note o' = plain_name_props[OF assms(2)] and n' = plain_name_props[OF assms(3)] and h' = plain_name_props[OF assms(1)]
  obtain c cs where cs: "owner = c # cs" using o'(1) by (cases owner) auto
  have c: "c \<noteq> CHR '':''" "c \<noteq> CHR ''/''" "list_all (\<lambda>c. c \<noteq> CHR '':'') (cs @ ''/'' @ name)"
    using o'(2,3) n'(3) by (auto simp: cs)
  have host: "split_once ''/'' (host @ ''/'' @ ?core) = Some (host, ?core)"
    using split_once_at[of "CHR ''/''" host "[]" ?core] h'(2) by simp
  have githost: "split_once ''/'' (''git@'' @ host @ ''/'' @ ?core) = Some (''git@'' @ host, ?core)"
    using split_once_at[of "CHR ''/''" "''git@'' @ host" "[]" ?core] h'(2) by simp
  have bare: "split_once ''://'' ?core = None" "split_once '':'' ?core = None"
    using o'(3) n'(3) by (auto intro!: split_once_absent)
  have scp: "split_once ''://'' (''git@'' @ host @ '':'' @ ?core) = None"
    using split_once_scp[of "CHR '':''" "''git@'' @ host" "cs @ ''/'' @ name" c "CHR ''/''" "''/''"] c h'(3)
    by (simp add: cs)
  have colon: "split_once '':'' (''git@'' @ host @ '':'' @ ?core) = Some (''git@'' @ host, ?core)"
    using split_once_at[of "CHR '':''" "''git@'' @ host" "[]" ?core] h'(3) by simp
  have https: "split_once ''://'' (''https://'' @ r) = Some (''https'', r)" for r
    using split_once_at[of "CHR '':''" "''https''" "''//''" r] by simp
  have ssh: "split_once ''://'' (''ssh://git@'' @ r) = Some (''ssh'', ''git@'' @ r)" for r
    using split_once_at[of "CHR '':''" "''ssh''" "''//''" "''git@'' @ r"] by simp
  consider "pre = []" | "pre = ''https://'' @ host @ ''/''" | "pre = ''git@'' @ host @ '':''" | "pre = ''ssh://git@'' @ host @ ''/''"
    using assms(4) by (auto simp: repo_prefixes_def)
  then show ?thesis
  proof cases
    case 1
    then have "pre @ ?core = ?core" by simp
    then show ?thesis by (simp only: repo_path_def bare option.case)
  next
    case 2
    then have "pre @ ?core = ''https://'' @ host @ ''/'' @ ?core" by simp
    then show ?thesis by (simp only: repo_path_def https host option.case prod.case option.map snd_conv)
  next
    case 3
    then have "pre @ ?core = ''git@'' @ host @ '':'' @ ?core" by simp
    moreover have "CHR ''@'' \<in> set (''git@'' @ host)" by simp
    ultimately show ?thesis by (simp only: repo_path_def scp colon option.case prod.case if_True)
  next
    case 4
    then have "pre @ ?core = ''ssh://git@'' @ host @ ''/'' @ ?core" by simp
    then show ?thesis by (simp only: repo_path_def ssh githost option.case prod.case option.map snd_conv)
  qed
qed

lemma split_core:
  assumes "plain_name owner" "plain_name name"
  shows "filter (\<lambda>p. p \<noteq> []) (split_on (\<lambda>c. c = CHR ''/'') (owner @ ''/'' @ name)) = [owner, name]"
  using plain_name_props(1,2)[OF assms(1)] plain_name_props(1,2)[OF assms(2)]
  by (simp add: split_on_append_sep split_on_no_sep list_all_iff)

lemma hd_prefix: "pre \<in> set (repo_prefixes host) \<Longrightarrow> plain_name owner \<Longrightarrow> \<not> is_space (hd (pre @ owner @ r))"
  using plain_name_props(1,5)[of owner] by (auto simp: repo_prefixes_def is_space_def hd_append)

text \<open>A repository has one form however it is written: as a slug, an https, ssh or scp-like
  URL, with or without \<^verbatim>\<open>.git\<close> and a final slash, it normalises to its lower-case
  \<^verbatim>\<open>owner/name\<close>.\<close>
theorem repo_spellings_agree:
  assumes "plain_name host" "plain_name owner" "plain_name name" "strip_suffix ''.git'' name = None"
    and "pre \<in> set (repo_prefixes host)" "suf \<in> {[], ''/'', ''.git'', ''.git/''}"
  shows "normalize_repo (pre @ owner @ ''/'' @ name @ suf) = Some (map ascii_lower (owner @ ''/'' @ name))"
proof -
  let ?u = "pre @ owner @ ''/'' @ name"
  note n' = plain_name_props[OF assms(3)]
  obtain nm c where nm: "name = nm @ [c]" using n'(1) by (cases name rule: rev_cases) auto
  have last: "trim (?u @ suf) = ?u @ suf"
  proof (rule trim_id)
    show "\<not> is_space (hd (?u @ suf))" using hd_prefix[OF assms(5,2)] by simp
    show "\<not> is_space (last (?u @ suf))" using assms(6) n'(1,6) by (auto simp: is_space_def)
  qed simp
  have slash: "trim_end_char (CHR ''/'') (?u @ suf)
      = (if suf = ''.git'' \<or> suf = ''.git/'' then ?u @ ''.git'' else ?u)"
    using assms(6) n'(7) by (auto simp: trim_end_char_def nm)
  have git: "strip_suffix ''.git'' (?u @ ''.git'') = Some ?u" by (simp add: strip_suffix_Some_iff)
  have nogit: "strip_suffix ''.git'' ?u = None"
    using no_git_suffix[OF assms(3,4), of "pre @ owner"] by simp
  have core: "unwrap_or s0 (strip_suffix ''.git'' s0) = ?u"
    if "s0 = trim_end_char (CHR ''/'') (?u @ suf)" for s0
    using that git nogit by (simp only: slash split: if_splits) simp_all
  show ?thesis
    unfolding normalize_repo_def Let_def using last core repo_path_core[OF assms(1-3,5)] split_core[OF assms(2,3)]
    by simp
qed

lemma lower_sample: "map ascii_lower ''Acme/Widget'' = ''acme/widget''"
  by code_simp

theorem repo_spellings_agree_witness:
  "normalize_repo ''git@github.com:Acme/Widget.git'' = Some ''acme/widget''"
  using repo_spellings_agree[of "''github.com''" "''Acme''" "''Widget''" "''git@github.com:''" "''.git''"]
  using lower_sample
  by (simp add: plain_name_def plain_char_def is_space_def repo_prefixes_def strip_suffix_def strip_prefix_def
      starts_with_def)

end
