(* ===== verification/Attention.thy ===== *)
theory Attention
  imports Decisions Review PlanSteps
begin

text \<open>
  What a node is waiting on the user for (\<^verbatim>\<open>tod-core/src/attention.rs\<close>): pending decisions,
  plan steps handed back and, in review, open findings, merged per node, oldest first. The
  store's lifecycle rows are the map of a node to its state and when it was entered
  (\<^verbatim>\<open>NodeRepo::get_lifecycle_entered_for_nodes\<close>).
\<close>

datatype attention_kind = AkDecision | AkPlanStep | AkFinding

datatype request_reason =
  RIntent | RMissingRule | RConflict | RAccess | RRisk | RCapability | RBroken | ROther

primrec reason_str :: "request_reason \<Rightarrow> string" where
  "reason_str RIntent = ''intent''"
| "reason_str RMissingRule = ''missing_rule''"
| "reason_str RConflict = ''conflict''"
| "reason_str RAccess = ''access''"
| "reason_str RRisk = ''risk''"
| "reason_str RCapability = ''capability''"
| "reason_str RBroken = ''broken''"
| "reason_str ROther = ''other''"

definition reason_parse :: "string \<Rightarrow> request_reason" where
  "reason_parse raw =
     (if raw = ''intent'' then RIntent
      else if raw = ''missing_rule'' then RMissingRule
      else if raw = ''conflict'' then RConflict
      else if raw = ''access'' then RAccess
      else if raw = ''risk'' then RRisk
      else if raw = ''capability'' then RCapability
      else if raw = ''broken'' then RBroken
      else ROther)"

record attention_item =
  ai_kind :: attention_kind
  ai_id :: uuid
  ai_node :: uuid
  ai_summary :: string
  ai_options :: "string list"
  ai_since :: ms
  ai_reason :: request_reason
  ai_permission :: bool

record node_attention =
  na_node :: uuid
  na_items :: "attention_item list"
  na_since :: "ms option"
  na_count :: nat

definition from_items :: "uuid \<Rightarrow> attention_item list \<Rightarrow> node_attention" where
  "from_items n items =
     (let sorted_items = sort_key ai_since items
      in \<lparr>na_node = n, na_items = sorted_items,
          na_since = (case sorted_items of [] \<Rightarrow> None | i # _ \<Rightarrow> Some (ai_since i)),
          na_count = length sorted_items\<rparr>)"

text \<open>\<^verbatim>\<open>NodeAttention::default()\<close>, what \<^verbatim>\<open>next_actor::for_nodes\<close> reads for an unknown node.\<close>

definition no_attention :: node_attention where
  "no_attention = \<lparr>na_node = 0, na_items = [], na_since = None, na_count = 0\<rparr>"

abbreviation PERMISSION_PROTOCOL :: string where "PERMISSION_PROTOCOL \<equiv> ''permission''"

definition decision_item :: "decision \<Rightarrow> attention_item" where
  "decision_item d =
     \<lparr>ai_kind = AkDecision, ai_id = de_id d, ai_node = de_node d, ai_summary = de_question d,
      ai_options = de_options d, ai_since = de_created d, ai_reason = reason_parse (de_reason d),
      ai_permission = (de_protocol d = Some PERMISSION_PROTOCOL)\<rparr>"

definition plan_step_item :: "plan_step \<Rightarrow> ms \<Rightarrow> attention_item" where
  "plan_step_item s updated_at =
     (let options = (case ps_reason s of Some (HDecision os) \<Rightarrow> os | _ \<Rightarrow> []);
          reason = (case ps_reason s of
              Some (HDecision _) \<Rightarrow> RMissingRule
            | Some (HConflict _) \<Rightarrow> RConflict
            | Some (HAccess _ _) \<Rightarrow> RAccess
            | None \<Rightarrow> ROther)
      in \<lparr>ai_kind = AkPlanStep, ai_id = ps_id s, ai_node = ps_node s, ai_summary = ps_body s,
          ai_options = options, ai_since = updated_at, ai_reason = reason, ai_permission = False\<rparr>)"

definition finding_item :: "finding \<Rightarrow> attention_item" where
  "finding_item f =
     \<lparr>ai_kind = AkFinding, ai_id = fi_id f, ai_node = fi_node f, ai_summary = fi_summary f,
      ai_options = [], ai_since = fi_created f, ai_reason = RRisk, ai_permission = False\<rparr>"

text \<open>The tables the requests come from; \<open>ad_stays n\<close> is the node's lifecycle row.\<close>

record attention_db =
  ad_decisions :: decision_db
  ad_plan :: plan_db
  ad_findings :: findings
  ad_stays :: "uuid \<Rightarrow> (string \<times> ms) option"

definition lifecycle_entered :: "uuid list \<Rightarrow> (uuid \<Rightarrow> (string \<times> ms) option) \<Rightarrow> uuid \<Rightarrow> (string \<times> ms) option" where
  "lifecycle_entered ns t n = (if n \<in> set ns then t n else None)"

definition lifecycle_for_nodes :: "uuid list \<Rightarrow> (uuid \<Rightarrow> (string \<times> ms) option) \<Rightarrow> uuid \<Rightarrow> string option" where
  "lifecycle_for_nodes ns t n = (if n \<in> set ns then map_option fst (t n) else None)"

definition reviewing_nodes :: "uuid list \<Rightarrow> attention_db \<Rightarrow> uuid list" where
  "reviewing_nodes ns db = filter (\<lambda>n. lifecycle_for_nodes ns (ad_stays db) n = Some ''review'') ns"

text \<open>\<^verbatim>\<open>for_nodes\<close>: the pushes onto \<^verbatim>\<open>by_node\<close>, in order, then one entry per node asked for.\<close>

definition collected :: "uuid list \<Rightarrow> attention_db \<Rightarrow> attention_item list" where
  "collected ns db =
     map decision_item (pending_decisions ns (ad_decisions db))
     @ map (\<lambda>(s, updated_at). plan_step_item s updated_at) (needs_user_for_nodes ns (ad_plan db))
     @ (if reviewing_nodes ns db = [] then []
        else map finding_item (open_findings_for_nodes (reviewing_nodes ns db) (ad_findings db)))"

definition attention_for_nodes :: "uuid list \<Rightarrow> attention_db \<Rightarrow> uuid \<Rightarrow> node_attention option" where
  "attention_for_nodes ns db n =
     (if n \<in> set ns then Some (from_items n (filter (\<lambda>i. ai_node i = n) (collected ns db))) else None)"

definition attention_for_node :: "uuid \<Rightarrow> attention_db \<Rightarrow> node_attention" where
  "attention_for_node n db = unwrap_or (from_items n []) (attention_for_nodes [n] db n)"

section \<open>Facts\<close>

lemma reason_roundtrip [simp]: "reason_parse (reason_str r) = r"
  by (cases r) (simp_all add: reason_parse_def)

lemma from_items_sel [simp]:
  "na_node (from_items n is) = n" "na_items (from_items n is) = sort_key ai_since is"
  "na_count (from_items n is) = length is"
  by (simp_all add: from_items_def Let_def)

lemma from_items_since:
  "na_since (from_items n is) = (if is = [] then None else Some (Min (ai_since ` set is)))"
proof (cases "sort_key ai_since is")
  case Nil
  then have "is = []" by (metis set_empty set_sort)
  then show ?thesis by (simp add: from_items_def)
next
  case (Cons i rest)
  have set_is: "set is = insert i (set rest)" using Cons by (metis list.simps(15) set_sort)
  have "sorted (map ai_since (i # rest))" using Cons by (metis sorted_sort_key)
  then have "Min (ai_since ` set is) = ai_since i"
    unfolding set_is by (intro Min_eqI) auto
  moreover have "is \<noteq> []" using Cons by force
  ultimately show ?thesis by (simp add: from_items_def Cons)
qed

lemma item_node [simp]:
  "ai_node (decision_item d) = de_node d" "ai_node (plan_step_item s u) = ps_node s"
  "ai_node (finding_item f) = fi_node f"
  by (simp_all add: decision_item_def plan_step_item_def finding_item_def Let_def)

lemma item_kind [simp]:
  "ai_kind (decision_item d) = AkDecision" "ai_kind (plan_step_item s u) = AkPlanStep"
  "ai_kind (finding_item f) = AkFinding"
  "ai_id (decision_item d) = de_id d" "ai_id (plan_step_item s u) = ps_id s"
  "ai_id (finding_item f) = fi_id f"
  by (simp_all add: decision_item_def plan_step_item_def finding_item_def Let_def)

lemma sort_key_filter: "sort_key f (filter P xs) = filter P (sort_key f xs)"
  by (rule filter_sort[symmetric])

text \<open>Asking for many nodes at once gives each what asking for it alone gives.\<close>

lemma filter_pending:
  "n \<in> set ns \<Longrightarrow> filter (\<lambda>d. de_node d = n) (pending_decisions ns db) = pending_decisions [n] db"
  by (auto simp: pending_decisions_def sort_key_filter[symmetric] intro!: arg_cong[where f = "sort_key de_created"]
      filter_cong)

lemma filter_needs_user:
  "n \<in> set ns \<Longrightarrow> filter (\<lambda>(s, _). ps_node s = n) (needs_user_for_nodes ns db) = needs_user_for_nodes [n] db"
  by (auto simp: needs_user_for_nodes_def filter_map comp_def sort_key_filter[symmetric]
      intro!: arg_cong[where f = "\<lambda>x. map (\<lambda>s. (s, ps_updated s)) (sort_key ps_updated x)"] filter_cong)

lemma filter_open_findings:
  "n \<in> set ns \<Longrightarrow> filter (\<lambda>f. fi_node f = n) (open_findings_for_nodes ns fs) = open_findings_for_nodes [n] fs"
  by (auto simp: open_findings_for_nodes_def sort_key_filter[symmetric] intro!: arg_cong[where f = "sort_key fi_created"]
      filter_cong)

lemma reviewing_one:
  "reviewing_nodes [n] db = (if map_option fst (ad_stays db n) = Some ''review'' then [n] else [])"
  by (simp add: reviewing_nodes_def lifecycle_for_nodes_def)

lemma in_reviewing:
  "n \<in> set ns \<Longrightarrow> n \<in> set (reviewing_nodes ns db) \<longleftrightarrow> map_option fst (ad_stays db n) = Some ''review''"
  by (simp add: reviewing_nodes_def lifecycle_for_nodes_def)

lemma collected_one:
  assumes "n \<in> set ns"
  shows "filter (\<lambda>i. ai_node i = n) (collected ns db) = collected [n] db"
proof -
  have d: "filter (\<lambda>i. ai_node i = n) (map decision_item (pending_decisions ns (ad_decisions db)))
      = map decision_item (pending_decisions [n] (ad_decisions db))"
    using filter_pending[OF assms] by (simp add: filter_map comp_def)
  have p: "filter (\<lambda>i. ai_node i = n) (map (\<lambda>(s, u). plan_step_item s u) (needs_user_for_nodes ns (ad_plan db)))
      = map (\<lambda>(s, u). plan_step_item s u) (needs_user_for_nodes [n] (ad_plan db))"
    using filter_needs_user[OF assms, of "ad_plan db"] by (simp add: filter_map comp_def case_prod_beta')
  have f: "filter (\<lambda>i. ai_node i = n) (if reviewing_nodes ns db = [] then []
        else map finding_item (open_findings_for_nodes (reviewing_nodes ns db) (ad_findings db)))
      = (if reviewing_nodes [n] db = [] then []
        else map finding_item (open_findings_for_nodes (reviewing_nodes [n] db) (ad_findings db)))"
  proof (cases "n \<in> set (reviewing_nodes ns db)")
    case True
    then have "reviewing_nodes [n] db = [n]" "reviewing_nodes ns db \<noteq> []"
      using in_reviewing[OF assms, of db] by (auto simp: reviewing_one elim: list.set_cases)
    then show ?thesis using filter_open_findings[OF True] by (simp add: filter_map comp_def)
  next
    case False
    then have "reviewing_nodes [n] db = []" using in_reviewing[OF assms] by (simp add: reviewing_one)
    moreover have "filter (\<lambda>f. fi_node f = n) (open_findings_for_nodes (reviewing_nodes ns db) (ad_findings db)) = []"
      using False by (auto simp: open_findings_for_nodes_def filter_empty_conv)
    ultimately show ?thesis by (simp add: filter_map comp_def)
  qed
  show ?thesis unfolding collected_def filter_append d p f ..
qed

lemma for_nodes_one:
  "n \<in> set ns \<Longrightarrow> attention_for_nodes ns db n = Some (from_items n (collected [n] db))"
  by (simp add: attention_for_nodes_def collected_one)

lemma for_node_items: "attention_for_node n db = from_items n (collected [n] db)"
  by (simp add: attention_for_node_def for_nodes_one)

section \<open>Properties\<close>

text \<open>What a node waits on the user for is exactly its pending decisions, its plan steps
  handed back and, while it is in review, its open findings, no matter which other nodes are
  asked about in the same call; it waits since the oldest of them, and counts them all.\<close>
theorem attention_exact:
  assumes "n \<in> set ns"
  shows "\<exists>a. attention_for_nodes ns db n = Some a
   \<and> (\<forall>i. i \<in> set (na_items a) \<longleftrightarrow>
        (\<exists>d \<in> set (dd_decisions (ad_decisions db)). i = decision_item d \<and> de_node d = n \<and> de_status d = DECISION_PENDING)
      \<or> (\<exists>s \<in> set (pl_steps (ad_plan db)). i = plan_step_item s (ps_updated s) \<and> ps_node s = n \<and> needs_user (ps_status s))
      \<or> (\<exists>f \<in> set (ad_findings db). i = finding_item f \<and> fi_node f = n \<and> finding_open f
           \<and> map_option fst (ad_stays db n) = Some ''review''))
   \<and> na_count a = length (na_items a)
   \<and> na_since a = (if na_items a = [] then None else Some (Min (ai_since ` set (na_items a))))"
proof -
  let ?a = "from_items n (collected [n] db)"
  have items: "set (collected [n] db) =
      decision_item ` {d \<in> set (dd_decisions (ad_decisions db)). de_status d = DECISION_PENDING \<and> de_node d = n}
    \<union> (\<lambda>s. plan_step_item s (ps_updated s)) ` {s \<in> set (pl_steps (ad_plan db)). needs_user (ps_status s) \<and> ps_node s = n}
    \<union> (if map_option fst (ad_stays db n) = Some ''review''
       then finding_item ` {f \<in> set (ad_findings db). finding_open f \<and> fi_node f = n} else {})"
    by (auto simp: collected_def pending_decisions_def needs_user_for_nodes_def open_findings_for_nodes_def reviewing_one)
  have "i \<in> set (na_items ?a) \<longleftrightarrow> i \<in> set (collected [n] db)" for i by simp
  then have "i \<in> set (na_items ?a) \<longleftrightarrow>
        (\<exists>d \<in> set (dd_decisions (ad_decisions db)). i = decision_item d \<and> de_node d = n \<and> de_status d = DECISION_PENDING)
      \<or> (\<exists>s \<in> set (pl_steps (ad_plan db)). i = plan_step_item s (ps_updated s) \<and> ps_node s = n \<and> needs_user (ps_status s))
      \<or> (\<exists>f \<in> set (ad_findings db). i = finding_item f \<and> fi_node f = n \<and> finding_open f
           \<and> map_option fst (ad_stays db n) = Some ''review'')" for i
    unfolding items by auto
  moreover have "na_since ?a = (if na_items ?a = [] then None else Some (Min (ai_since ` set (na_items ?a))))"
    by (simp add: from_items_since) (metis set_empty set_sort)
  moreover have "na_count ?a = length (na_items ?a)" by simp
  ultimately show ?thesis using for_nodes_one[OF assms, of db] by blast
qed

theorem attention_exact_witness:
  "\<exists>a. attention_for_nodes [3, 7]
        \<lparr>ad_decisions = sample_questions, ad_plan = empty_plan, ad_findings = [], ad_stays = (\<lambda>_. None)\<rparr> 7 = Some a
      \<and> na_items a \<noteq> []"
proof -
  let ?db = "\<lparr>ad_decisions = sample_questions, ad_plan = empty_plan, ad_findings = [], ad_stays = (\<lambda>_. None)\<rparr>"
  let ?d = "hd (dd_decisions sample_questions)"
  obtain a where a: "attention_for_nodes [3, 7] ?db 7 = Some a"
    and mem: "decision_item ?d \<in> set (na_items a)"
    using attention_exact[of 7 "[3, 7]" ?db] by (auto simp: sample_questions_def)
  from mem have "na_items a \<noteq> []" by auto
  then show ?thesis using a by blast
qed

end
