(* ===== verification/NextActor.thy ===== *)
theory NextActor
  imports Attention Activity Outcomes Waits CloudNodes
begin

text \<open>
  Who has to act for a node to move (\<^verbatim>\<open>tod-core/src/next_actor.rs\<close>): the rule \<^verbatim>\<open>derive\<close> over
  a node's facts, read from the store by \<^verbatim>\<open>for_nodes\<close>. The early returns of \<^verbatim>\<open>actor_for\<close>
  are one definition each, in the source's order; the first that answers decides
  (\<open>first_answer\<close>), and \<open>not_started\<close> is what is left.
\<close>

abbreviation DONE_STATE :: string where "DONE_STATE \<equiv> ''done''"

section \<open>What the processing is\<close>

datatype work =
  WConversation protocol_kind
| WGateCheck
| WIncomingCheck
| WRunner
| WCloud
| WCloudStart
| WCloudRepair
| WOther

definition work_from_kind :: "string \<Rightarrow> work" where
  "work_from_kind kind =
     (case strip_prefix KIND_PROTOCOL_PREFIX kind of
        Some protocol \<Rightarrow> (case protocol_parse protocol of Some p \<Rightarrow> WConversation p | None \<Rightarrow> WOther)
      | None \<Rightarrow>
          if kind = KIND_RUN then WRunner
          else if kind = KIND_CLOUD_START then WCloudStart
          else if kind = KIND_CLOUD_REPAIR then WCloudRepair
          else if kind = KIND_GATE_CHECK then WGateCheck
          else if kind = KIND_INCOMING_CHECK then WIncomingCheck
          else WOther)"

definition conversation_kind :: "protocol_kind \<Rightarrow> string" where
  "conversation_kind p =
     (if p = PkOutline \<or> p = PkChat \<or> p = PkVisualDesign then KIND_CHAT
      else KIND_PROTOCOL_PREFIX @ protocol_str p)"

section \<open>Waits on something outside\<close>

record retry =
  re_attempt :: nat
  re_max :: nat
  re_error :: string

datatype wait_class = WcHumanReview | WcBotReview | WcChecks | WcMerge | WcRelease | WcOther

record external_wait =
  ew_kind :: wait_class
  ew_who :: "string option"
  ew_detail :: "string option"
  ew_since :: ms
  ew_next :: "ms option"
  ew_overdue :: bool
  ew_retry :: "retry option"

definition review_spec :: "int option \<Rightarrow> string list \<Rightarrow> string" where
  "review_spec number reviewers =
     (let spec = (case number of
            Some n \<Rightarrow> ''github:pr:'' @ show_int n @ '':review''
          | None \<Rightarrow> ''github:pr:review'')
      in if reviewers \<noteq> [] then spec @ '':'' @ join '','' reviewers else spec)"

definition is_review_spec :: "string \<Rightarrow> bool" where
  "is_review_spec spec =
     (starts_with ''github:pr:'' spec \<and> (ends_with '':review'' spec \<or> contains_str '':review:'' spec))"

definition review_spec_reviewers :: "string \<Rightarrow> string option" where
  "review_spec_reviewers spec =
     (if \<not> is_review_spec spec then None
      else opt_filter (\<lambda>who. who \<noteq> []) (map_option snd (split_once '':review:'' spec)))"

definition wait_class_of :: "string \<Rightarrow> wait_class" where
  "wait_class_of spec0 =
     (let spec = normalize_spec spec0
      in if starts_with ''github:release:'' spec then WcRelease
         else if starts_with ''github:pr:'' spec \<and> contains_str '':bot-review:'' spec then WcBotReview
         else if is_review_spec spec then WcHumanReview
         else if starts_with ''github:pr:'' spec \<and> ends_with '':checks'' spec then WcChecks
         else if starts_with ''github:pr:'' spec \<and> ends_with '':merged'' spec then WcMerge
         else WcOther)"

definition external_wait_of :: "wait \<Rightarrow> external_wait" where
  "external_wait_of w =
     \<lparr>ew_kind = wait_class_of (w_spec w),
      ew_who = opt_filter (\<lambda>who. who \<noteq> [])
                 (or_else (map_option snd (split_once '':bot-review:'' (w_spec w)))
                          (review_spec_reviewers (w_spec w))),
      ew_detail = opt_filter (\<lambda>d. trim d \<noteq> []) (w_detail w),
      ew_since = w_created w, ew_next = Some (w_due w), ew_overdue = False,
      ew_retry = map_option (\<lambda>e. \<lparr>re_attempt = w_attempt w,
                                  re_max = unwrap_or DEFAULT_MAX_ATTEMPTS (w_max w), re_error = e\<rparr>) (w_error w)\<rparr>"

section \<open>The facts and the answer\<close>

datatype next_actor =
  Working work ms
| You you_reason ms
| Others external_wait
| ADone

record held =
  h_until :: "ms option"
  h_at :: ms

record node_standing =
  nst_node :: uuid
  nst_actor :: next_actor
  nst_deferred :: "held option"

primrec is_you :: "next_actor \<Rightarrow> bool" where
  "is_you (You _ _) = True"
| "is_you (Working _ _) = False"
| "is_you (Others _) = False"
| "is_you ADone = False"

definition on_you :: "node_standing \<Rightarrow> bool" where
  "on_you s = (is_you (nst_actor s) \<and> nst_deferred s = None)"

definition standing_since :: "node_standing \<Rightarrow> ms option" where
  "standing_since s =
     (case nst_actor s of Working _ t \<Rightarrow> Some t | You _ t \<Rightarrow> Some t | Others w \<Rightarrow> Some (ew_since w) | ADone \<Rightarrow> None)"

record run_facts =
  rf_permission :: "(string \<times> ms) option"
  rf_outcome :: "(outcome \<times> ms) option"

definition no_run :: run_facts where
  "no_run = \<lparr>rf_permission = None, rf_outcome = None\<rparr>"

record cloud_lost =
  cl_since :: ms
  cl_by_user :: bool

record stop_answer =
  sa_kind :: string
  sa_at :: ms

record facts =
  fa_node :: uuid
  fa_lifecycle :: string
  fa_entered :: ms
  fa_attention :: node_attention
  fa_waits :: waits
  fa_leases :: leases
  fa_cloud :: "cloud_beat option"
  fa_lost :: "cloud_lost option"
  fa_row :: "run_state option"
  fa_stop :: "stop_answer option"
  fa_run :: run_facts
  fa_problems :: problems
  fa_deferral :: "held option"
  fa_now :: ms

type_synonym verdict_of_rule = "(next_actor \<times> ms) option"

definition START_REPORTS_WITHIN_MS :: ms where "START_REPORTS_WITHIN_MS = 150000"
definition RUN_STATE_SKEW_MS :: ms where "RUN_STATE_SKEW_MS = 5000"

section \<open>The rules\<close>

definition done_actor :: "facts \<Rightarrow> next_actor \<times> ms" where
  "done_actor f =
     (case find (\<lambda>p. np_kind p = KIND_SANDBOX_RETIRE) (fa_problems f) of
        None \<Rightarrow> (ADone, 0)
      | Some p \<Rightarrow>
          if \<not> np_transient p then (You (YFailed (np_message p)) (np_first p), np_updated p)
          else (Others \<lparr>ew_kind = WcOther, ew_who = None,
                  ew_detail = Some (''deleting its sandbox failed; the daemon tries again: '' @ np_message p),
                  ew_since = np_first p, ew_next = None, ew_overdue = False, ew_retry = None\<rparr>, 0))"

definition permission_rule :: "facts \<Rightarrow> verdict_of_rule" where
  "permission_rule f = map_option (\<lambda>(title, since). (You (YPermission title) since, since)) (rf_permission (fa_run f))"

definition lifecycle_leases :: "facts \<Rightarrow> leases" where
  "lifecycle_leases f = filter is_lifecycle (fa_leases f)"

definition lease_rule :: "facts \<Rightarrow> verdict_of_rule" where
  "lease_rule f = map_option (\<lambda>l. (Working (work_from_kind (l_kind l)) (l_started l), 0))
     (find (\<lambda>l. lease_live l (fa_now f)) (lifecycle_leases f))"

definition beat_rule :: "facts \<Rightarrow> verdict_of_rule" where
  "beat_rule f = map_option (\<lambda>b. (Working WCloud (cb_started b), 0))
     (opt_filter (\<lambda>b. cb_live b (fa_now f)) (fa_cloud f))"

definition asks_permission :: "attention_item \<Rightarrow> bool" where
  "asks_permission i = (ai_permission i \<and> ai_reason i = RAccess)"

definition request_reason_of :: "node_attention \<Rightarrow> you_reason" where
  "request_reason_of a =
     (case na_items a of
        first # rest \<Rightarrow>
          if asks_permission first \<and> list_all asks_permission rest then YPermission (ai_summary first)
          else YRequest (na_count a)
      | [] \<Rightarrow> YRequest (na_count a))"

definition request_rule :: "facts \<Rightarrow> verdict_of_rule" where
  "request_rule f =
     (let a = fa_attention f
      in map_option (\<lambda>since.
           let newest = unwrap_or since (map_option ai_since (max_by_key ai_since (na_items a)))
           in (You (request_reason_of a) since, newest)) (na_since a))"

definition starting_rule :: "facts \<Rightarrow> verdict_of_rule" where
  "starting_rule f =
     (case fa_row f of
        None \<Rightarrow> None
      | Some row \<Rightarrow>
          if rs_phase row = RStarting \<and> is_none_or (\<lambda>b. cb_heartbeat b \<le> rs_updated row) (fa_cloud f) then
            let waited = fa_now f - rs_updated row
            in if waited \<le> START_REPORTS_WITHIN_MS then Some (Working WCloudStart (rs_since row), 0)
               else Some (You (YFailed (''the cloud supervisor has not reported in '' @ format_elapsed waited
                              @ '' after the node was sent ('' @ rs_text row @ ''); Start sends it again''))
                            (rs_since row), rs_since row)
          else None)"

definition lost_rule :: "facts \<Rightarrow> verdict_of_rule" where
  "lost_rule f = map_option (\<lambda>lost.
     (You (YStopped (if cl_by_user lost then ''its sandbox was deleted; Start makes a new one''
                     else ''its sandbox is gone; a new one is made at the next sync, or Start makes one now''))
        (cl_since lost), cl_since lost)) (fa_lost f)"

definition stop_answer_rule :: "facts \<Rightarrow> verdict_of_rule" where
  "stop_answer_rule f = map_option (\<lambda>a.
     (You (YStopped (''stopped: '' @ left_stopped_reason (sa_kind a))) (sa_at a), sa_at a)) (fa_stop f)"

definition row_rule :: "facts \<Rightarrow> verdict_of_rule" where
  "row_rule f =
     (case fa_row f of
        None \<Rightarrow> None
      | Some row \<Rightarrow>
          (case you_reason_of row of
             None \<Rightarrow> None
           | Some why \<Rightarrow>
               if is_none_or (\<lambda>b. cb_heartbeat b \<le> rs_updated row + RUN_STATE_SKEW_MS) (fa_cloud f)
                  \<and> is_none_or (\<lambda>(_, at). at \<le> rs_updated row + RUN_STATE_SKEW_MS) (rf_outcome (fa_run f))
               then Some (You why (rs_since row), rs_since row) else None))"

definition idle_beat_rule :: "facts \<Rightarrow> verdict_of_rule" where
  "idle_beat_rule f =
     (case opt_filter cb_idle (fa_cloud f) of
        None \<Rightarrow> None
      | Some b \<Rightarrow> map_option (\<lambda>reason. (You (YStopped reason) (cb_heartbeat b), cb_heartbeat b)) (cb_stopped b))"

definition outcome_rule :: "facts \<Rightarrow> verdict_of_rule" where
  "outcome_rule f =
     (case rf_outcome (fa_run f) of
        None \<Rightarrow> None
      | Some (out, at) \<Rightarrow>
          if \<not> is_some_and (\<lambda>row. at \<le> rs_updated row + RUN_STATE_SKEW_MS) (fa_row f)
          then map_option (\<lambda>why. (You why at, at)) (outcome_reason out) else None)"

definition lost_lease_rule :: "facts \<Rightarrow> verdict_of_rule" where
  "lost_lease_rule f = map_option (\<lambda>l.
     (You (YFailed (''processing was lost: '' @ l_kind l @ '' held by '' @ l_owner l @ '' stopped responding ''
             @ format_elapsed (fa_now f - l_heartbeat l) @ '' ago''))
        (l_heartbeat l), l_heartbeat l))
     (find (\<lambda>l. \<not> lease_live l (fa_now f)) (lifecycle_leases f))"

definition lost_beat_rule :: "facts \<Rightarrow> verdict_of_rule" where
  "lost_beat_rule f = map_option (\<lambda>b.
     (You (YFailed (''the cloud supervisor stopped responding '' @ format_elapsed (fa_now f - cb_heartbeat b)
             @ '' ago (last heard while '' @ (if cb_what b = [] then ''working'' else cb_what b) @ '')''))
        (cb_heartbeat b), cb_heartbeat b))
     (opt_filter (\<lambda>b. \<not> cb_idle b \<and> \<not> cb_live b (fa_now f)) (fa_cloud f))"

text \<open>The waits that still hold: one recorded in a stay the node has left does not.\<close>

definition wait_holds :: "ms \<Rightarrow> wait \<Rightarrow> bool" where
  "wait_holds entered w =
     (\<not> (is_some_and ends_with_stay (for_kind (w_kind w)) \<and> is_some_and (\<lambda>stay. stay \<noteq> entered) (w_stay w)))"

definition held_waits :: "facts \<Rightarrow> waits" where
  "held_waits f = filter (wait_holds (fa_entered f)) (fa_waits f)"

definition exhausted_rule :: "facts \<Rightarrow> verdict_of_rule" where
  "exhausted_rule f = map_option (\<lambda>w.
     (You (YFailed (unwrap_or [] (w_error w))) (w_updated w), w_updated w)) (find exhausted (held_waits f))"

definition overdue_by :: "facts \<Rightarrow> wait \<Rightarrow> ms option" where
  "overdue_by f w = expired_by w (fa_now f) (fa_cloud f \<noteq> None)"

definition overdue_text :: "string \<Rightarrow> ms \<Rightarrow> string" where
  "overdue_text on late = ''its wait on '' @ on @ '' was due '' @ format_elapsed late @ '' ago and nothing is looking at it''"

definition overdue_rule :: "facts \<Rightarrow> verdict_of_rule" where
  "overdue_rule f = map_option (\<lambda>(w, late).
     let on = unwrap_or (w_spec w) (opt_filter (\<lambda>d. trim d \<noteq> []) (w_detail w))
     in (You (YStopped (overdue_text on late)) (w_due w), w_due w))
     (max_by_key snd (List.map_filter (\<lambda>w. map_option (\<lambda>late. (w, late)) (overdue_by f w)) (held_waits f)))"

definition wait_rule :: "facts \<Rightarrow> verdict_of_rule" where
  "wait_rule f = map_option (\<lambda>w. (Others (external_wait_of w), 0))
     (or_else (find (\<lambda>w. w_error w \<noteq> None) (held_waits f))
              (case held_waits f of [] \<Rightarrow> None | w # _ \<Rightarrow> Some w))"

text \<open>The wait row a run that ended waiting stands for.\<close>

definition run_wait :: "uuid \<Rightarrow> ms \<Rightarrow> ms \<Rightarrow> wait" where
  "run_wait n due at =
     \<lparr>w_id = 0, w_node = n, w_kind = KIND_EVENT, w_spec = [], w_every = None, w_due = due,
      w_state = WAIT_PENDING, w_created = at, w_updated = at, w_detail = None, w_attempt = 0, w_max = None,
      w_error = None, w_stay = None\<rparr>"

definition run_wait_rule :: "facts \<Rightarrow> verdict_of_rule" where
  "run_wait_rule f =
     (case rf_outcome (fa_run f) of
        Some (OWaiting what due, at) \<Rightarrow>
          (case overdue_by f (run_wait (fa_node f) due at) of
             Some late \<Rightarrow> Some (You (YStopped (overdue_text what late)) due, due)
           | None \<Rightarrow> Some (Others \<lparr>ew_kind = WcOther, ew_who = None, ew_detail = Some what, ew_since = at,
                              ew_next = Some due, ew_overdue = False, ew_retry = None\<rparr>, 0))
      | _ \<Rightarrow> None)"

definition not_started :: "facts \<Rightarrow> next_actor \<times> ms" where
  "not_started f = (You YNotStarted (fa_entered f), fa_entered f)"

fun first_answer :: "('a \<Rightarrow> 'b option) list \<Rightarrow> 'a \<Rightarrow> 'b option" where
  "first_answer [] f = None"
| "first_answer (r # rs) f = or_else (r f) (first_answer rs f)"

definition request_rules :: "(facts \<Rightarrow> verdict_of_rule) list" where
  "request_rules = [permission_rule, lease_rule, beat_rule, request_rule, starting_rule]"

definition stopped_rules :: "(facts \<Rightarrow> verdict_of_rule) list" where
  "stopped_rules = [lost_rule, stop_answer_rule, row_rule, idle_beat_rule, outcome_rule, lost_lease_rule, lost_beat_rule]"

definition wait_rules :: "(facts \<Rightarrow> verdict_of_rule) list" where
  "wait_rules = [exhausted_rule, overdue_rule, wait_rule, run_wait_rule]"

definition actor_for :: "facts \<Rightarrow> next_actor \<times> ms" where
  "actor_for f =
     (if fa_lifecycle f = DONE_STATE then done_actor f
      else unwrap_or (not_started f) (first_answer (request_rules @ stopped_rules @ wait_rules) f))"

definition deferral_holds :: "held \<Rightarrow> ms \<Rightarrow> ms \<Rightarrow> bool" where
  "deferral_holds d newest now =
     (\<not> is_some_and (\<lambda>until. until \<le> now) (h_until d) \<and> newest \<le> h_at d)"

definition derive :: "facts \<Rightarrow> node_standing" where
  "derive f =
     (let (actor, newest) = actor_for f
      in \<lparr>nst_node = fa_node f, nst_actor = actor,
          nst_deferred = (if is_you actor then opt_filter (\<lambda>d. deferral_holds d newest (fa_now f)) (fa_deferral f)
                          else None)\<rparr>)"

section \<open>Reading the store\<close>

record actor_db =
  ac_attention :: attention_db
  ac_waits :: waits
  ac_leases :: leases
  ac_rows :: run_states
  ac_beats :: cloud_beats
  ac_cloud :: cloud_nodes
  ac_deferrals :: deferrals
  ac_problems :: problems

record inputs =
  in_deleted :: "uuid list"
  in_runs :: "uuid \<Rightarrow> run_facts option"
  in_deferrals :: "uuid \<Rightarrow> held option"
  in_now :: ms

definition lost_of :: "inputs \<Rightarrow> actor_db \<Rightarrow> uuid \<Rightarrow> cloud_lost option" where
  "lost_of inp db n =
     (case ac_cloud db n of
        None \<Rightarrow> None
      | Some row \<Rightarrow> map_option (\<lambda>since. \<lparr>cl_since = since, cl_by_user = (n \<in> set (in_deleted inp))\<rparr>) (cn_lost row))"

definition stop_answer_of :: "actor_db \<Rightarrow> uuid \<Rightarrow> stop_answer option" where
  "stop_answer_of db n =
     (case ac_cloud db n of
        None \<Rightarrow> None
      | Some row \<Rightarrow>
          if cn_lost row \<noteq> None then None
          else (case latest_stop n (ad_decisions (ac_attention db)) of
                  None \<Rightarrow> None
                | Some l \<Rightarrow>
                    if sl_answer l = SqStop
                    then Some \<lparr>sa_kind = sl_kind l, sa_at = unwrap_or (cn_accepted row) (sl_at l)\<rparr> else None))"

definition deferral_of :: "inputs \<Rightarrow> actor_db \<Rightarrow> uuid \<Rightarrow> held option" where
  "deferral_of inp db n =
     or_else (in_deferrals inp n)
       (map_option (\<lambda>d. \<lparr>h_until = d_until d, h_at = d_deferred_at d\<rparr>) (ac_deferrals db n))"

definition facts_of :: "uuid list \<Rightarrow> inputs \<Rightarrow> actor_db \<Rightarrow> uuid \<Rightarrow> string \<times> ms \<Rightarrow> facts" where
  "facts_of ns inp db n stay =
     \<lparr>fa_node = n, fa_lifecycle = fst stay, fa_entered = snd stay,
      fa_attention = unwrap_or no_attention (attention_for_nodes ns (ac_attention db) n),
      fa_waits = filter (\<lambda>w. w_node w = n) (list_pending_for_nodes ns (ac_waits db)),
      fa_leases = filter (\<lambda>l. l_node l = n) (leases_for_nodes ns (ac_leases db)),
      fa_cloud = ac_beats db n, fa_lost = lost_of inp db n, fa_row = ac_rows db n,
      fa_stop = stop_answer_of db n, fa_run = unwrap_or no_run (in_runs inp n),
      fa_problems = filter (\<lambda>p. np_node p = n) (problems_for_nodes ns (ac_problems db)),
      fa_deferral = deferral_of inp db n, fa_now = in_now inp\<rparr>"

definition standings_for_nodes :: "uuid list \<Rightarrow> inputs \<Rightarrow> actor_db \<Rightarrow> uuid \<Rightarrow> node_standing option" where
  "standings_for_nodes ns inp db n =
     map_option (\<lambda>stay. derive (facts_of ns inp db n stay)) (lifecycle_entered ns (ad_stays (ac_attention db)) n)"

text \<open>\<^verbatim>\<open>compute\<close>: \<open>nodes\<close> are the ids of every node, \<open>saved n\<close> the node's saved run as read from
  its file (\<open>None\<close> without a file; its outcome, or the error of reading it) and when it was
  last written.\<close>

definition compute_runs :: "cloud_nodes \<Rightarrow> (uuid \<Rightarrow> (outcome option fallible \<times> ms) option) \<Rightarrow> uuid \<Rightarrow> run_facts option" where
  "compute_runs cloud saved n =
     (if is_some_and (\<lambda>row. cn_lost row = None) (cloud n) then None
      else (case saved n of
              None \<Rightarrow> None
            | Some (loaded, at) \<Rightarrow>
                map_option (\<lambda>out. no_run\<lparr>rf_outcome := Some (out, at)\<rparr>)
                  (case loaded of Inr out \<Rightarrow> out | Inl err \<Rightarrow> Some (OStopped (FAILED_PREFIX @ err)))))"

definition compute_standings ::
    "ms \<Rightarrow> uuid list \<Rightarrow> uuid list \<Rightarrow> (uuid \<Rightarrow> (outcome option fallible \<times> ms) option) \<Rightarrow> actor_db
     \<Rightarrow> uuid \<Rightarrow> node_standing option" where
  "compute_standings now nodes deleted saved db =
     standings_for_nodes nodes
       \<lparr>in_deleted = deleted,
        in_runs = (\<lambda>n. if lifecycle_for_nodes nodes (ad_stays (ac_attention db)) n = None then None
                       else compute_runs (ac_cloud db) saved n),
        in_deferrals = (\<lambda>_. None), in_now = now\<rparr> db"

definition spent_deferrals :: "deferral list \<Rightarrow> (uuid \<Rightarrow> node_standing option) \<Rightarrow> ms \<Rightarrow> uuid list" where
  "spent_deferrals ds standings now =
     map d_node (filter (\<lambda>d. is_some_and (\<lambda>until. until \<le> now) (d_until d)
        \<or> (case standings (d_node d) of
             None \<Rightarrow> True
           | Some s \<Rightarrow> is_you (nst_actor s) \<and> nst_deferred s = None)) ds)"

section \<open>The rules one by one\<close>

lemma first_answer_append [simp]:
  "first_answer (rs @ rs') f = or_else (first_answer rs f) (first_answer rs' f)"
  by (induction rs) (auto simp: or_else_def split: option.split)

lemma first_answer_cong: "(\<And>r. r \<in> set rs \<Longrightarrow> r f = r g) \<Longrightarrow> first_answer rs f = first_answer rs g"
proof (induction rs)
  case (Cons r rs)
  then have "r f = r g" "first_answer rs f = first_answer rs g" by simp_all
  then show ?case by simp
qed simp

lemma or_else_Some_iff: "or_else x y = Some z \<longleftrightarrow> x = Some z \<or> x = None \<and> y = Some z"
  by (cases x) auto

lemma or_else_None_iff: "or_else x y = None \<longleftrightarrow> x = None \<and> y = None"
  by (cases x) auto

abbreviation starting_fresh :: "facts \<Rightarrow> bool" where
  "starting_fresh f \<equiv> \<exists>row. fa_row f = Some row \<and> rs_phase row = RStarting
     \<and> is_none_or (\<lambda>b. cb_heartbeat b \<le> rs_updated row) (fa_cloud f)
     \<and> fa_now f - rs_updated row \<le> START_REPORTS_WITHIN_MS"

abbreviation at_work :: "facts \<Rightarrow> bool" where
  "at_work f \<equiv> (\<exists>l \<in> set (fa_leases f). is_lifecycle l \<and> lease_live l (fa_now f))
     \<or> (\<exists>b. fa_cloud f = Some b \<and> cb_live b (fa_now f))"

lemma lease_rule_None: "lease_rule f = None \<longleftrightarrow> \<not> (\<exists>l \<in> set (fa_leases f). is_lifecycle l \<and> lease_live l (fa_now f))"
  by (auto simp: lease_rule_def lifecycle_leases_def find_None_iff)

lemma beat_rule_None: "beat_rule f = None \<longleftrightarrow> \<not> (\<exists>b. fa_cloud f = Some b \<and> cb_live b (fa_now f))"
  by (cases "fa_cloud f") (auto simp: beat_rule_def)

lemma permission_rule_None: "permission_rule f = None \<longleftrightarrow> rf_permission (fa_run f) = None"
  by (auto simp: permission_rule_def)

lemma request_rule_None: "request_rule f = None \<longleftrightarrow> na_since (fa_attention f) = None"
  by (simp add: request_rule_def Let_def)

text \<open>What kind of answer each rule gives.\<close>

lemma work_rules_working:
  "lease_rule f = Some (a, k) \<Longrightarrow> \<exists>w t. a = Working w t"
  "beat_rule f = Some (a, k) \<Longrightarrow> \<exists>w t. a = Working w t"
  by (auto simp: lease_rule_def beat_rule_def)

lemma you_rules:
  "permission_rule f = Some (a, k) \<Longrightarrow> \<exists>y. a = You y k"
  "lost_rule f = Some (a, k) \<Longrightarrow> \<exists>y. a = You y k"
  "stop_answer_rule f = Some (a, k) \<Longrightarrow> \<exists>y. a = You y k"
  "row_rule f = Some (a, k) \<Longrightarrow> \<exists>y. a = You y k"
  "idle_beat_rule f = Some (a, k) \<Longrightarrow> \<exists>y. a = You y k"
  "outcome_rule f = Some (a, k) \<Longrightarrow> \<exists>y. a = You y k"
  "lost_lease_rule f = Some (a, k) \<Longrightarrow> \<exists>y. a = You y k"
  "lost_beat_rule f = Some (a, k) \<Longrightarrow> \<exists>y. a = You y k"
  "exhausted_rule f = Some (a, k) \<Longrightarrow> \<exists>y. a = You y k"
  "overdue_rule f = Some (a, k) \<Longrightarrow> \<exists>y. a = You y k"
  by (auto simp: permission_rule_def lost_rule_def stop_answer_rule_def row_rule_def idle_beat_rule_def
      outcome_rule_def lost_lease_rule_def lost_beat_rule_def exhausted_rule_def overdue_rule_def Let_def
      split: option.splits if_splits)

lemma request_rule_you: "request_rule f = Some (a, k) \<Longrightarrow> \<exists>y t. a = You y t"
  by (auto simp: request_rule_def Let_def)

lemma wait_rule_others: "wait_rule f = Some (a, k) \<Longrightarrow> \<exists>w. a = Others w"
  by (auto simp: wait_rule_def)

lemma starting_rule_answer:
  "starting_rule f = Some (a, k) \<Longrightarrow>
     (if starting_fresh f then \<exists>t. a = Working WCloudStart t else \<exists>y. a = You y k)"
  by (auto simp: starting_rule_def Let_def split: option.splits if_splits)

lemma starting_rule_fresh: "starting_fresh f \<Longrightarrow> \<exists>t. starting_rule f = Some (Working WCloudStart t, 0)"
  by (auto simp: starting_rule_def)

lemma run_wait_rule_answer:
  "run_wait_rule f = Some (a, k) \<Longrightarrow> (\<exists>y. a = You y k) \<or> (\<exists>w. a = Others w)"
  by (auto simp: run_wait_rule_def split: option.splits outcome.splits)

lemma stopped_rules_you: "first_answer stopped_rules f = Some (a, k) \<Longrightarrow> \<exists>y. a = You y k"
  using you_rules by (auto simp: stopped_rules_def or_else_Some_iff)

lemma wait_rules_answer:
  "first_answer wait_rules f = Some (a, k) \<Longrightarrow> (\<exists>y. a = You y k) \<or> (\<exists>w. a = Others w)"
  unfolding wait_rules_def first_answer.simps or_else_Some_iff
  by (blast dest: you_rules wait_rule_others run_wait_rule_answer)

lemma rest_not_working:
  "unwrap_or (not_started f) (first_answer (stopped_rules @ wait_rules) f) = (a, k)
   \<Longrightarrow> (\<exists>y. a = You y k) \<or> (\<exists>w. a = Others w)"
proof (cases "first_answer stopped_rules f")
  case None
  assume "unwrap_or (not_started f) (first_answer (stopped_rules @ wait_rules) f) = (a, k)"
  then show ?thesis
    using None wait_rules_answer[of f a k] by (cases "first_answer wait_rules f") (auto simp: not_started_def)
next
  case (Some z)
  assume "unwrap_or (not_started f) (first_answer (stopped_rules @ wait_rules) f) = (a, k)"
  then show ?thesis using Some stopped_rules_you[of f a k] by simp
qed

lemma done_not_working: "done_actor f = (a, k) \<Longrightarrow> a \<noteq> Working w t"
  by (auto simp: done_actor_def split: option.splits if_splits)

text \<open>The order of the first five rules.\<close>

lemma actor_for_order:
  "fa_lifecycle f \<noteq> DONE_STATE \<Longrightarrow> actor_for f =
     (case permission_rule f of Some a \<Rightarrow> a | None \<Rightarrow>
      case lease_rule f of Some a \<Rightarrow> a | None \<Rightarrow>
      case beat_rule f of Some a \<Rightarrow> a | None \<Rightarrow>
      case request_rule f of Some a \<Rightarrow> a | None \<Rightarrow>
      case starting_rule f of Some a \<Rightarrow> a | None \<Rightarrow>
        unwrap_or (not_started f) (first_answer (stopped_rules @ wait_rules) f))"
  unfolding actor_for_def request_rules_def
  by (cases "permission_rule f"; cases "lease_rule f"; cases "beat_rule f"; cases "request_rule f";
      cases "starting_rule f") simp_all

lemma derive_sel [simp]:
  "nst_node (derive f) = fa_node f" "nst_actor (derive f) = fst (actor_for f)"
  "nst_deferred (derive f) = (if is_you (fst (actor_for f))
     then opt_filter (\<lambda>d. deferral_holds d (snd (actor_for f)) (fa_now f)) (fa_deferral f) else None)"
  by (simp_all add: derive_def case_prod_beta' Let_def)

section \<open>Properties\<close>

text \<open>C1: A node reads as being worked on exactly when something proves it: it is not done, no
  permission is pending, and a live lifecycle lease or a live supervisor heartbeat is there, or
  it was sent to the cloud at most 150 seconds ago, nothing has reported in since, and no
  request is open.\<close>
theorem working_exact:
  "(\<exists>w t. nst_actor (derive f) = Working w t) \<longleftrightarrow>
     fa_lifecycle f \<noteq> DONE_STATE \<and> rf_permission (fa_run f) = None
   \<and> (at_work f \<or> na_since (fa_attention f) = None \<and> starting_fresh f)"
proof (cases "fa_lifecycle f = DONE_STATE")
  case True
  then show ?thesis using done_not_working by (cases "done_actor f") (auto simp: actor_for_def)
next
  case False
  have rest: "\<not> (\<exists>w t. fst (unwrap_or (not_started f) (first_answer (stopped_rules @ wait_rules) f)) = Working w t)"
    using rest_not_working[of f] by (metis next_actor.distinct(1,3) prod.collapse)
  show ?thesis
  proof (cases "permission_rule f")
    case (Some a)
    then show ?thesis using False you_rules(1)[of f] permission_rule_None[of f]
      by (cases a) (fastforce simp: actor_for_order)
  next
    case perm: None
    note order = actor_for_order[OF False] perm option.case derive_sel
    show ?thesis
    proof (cases "at_work f")
      case True
      then have "lease_rule f \<noteq> None \<or> beat_rule f \<noteq> None" by (auto simp: lease_rule_None beat_rule_None)
      then have "\<exists>w t. fst (actor_for f) = Working w t"
        unfolding order using work_rules_working
        by (cases "lease_rule f"; cases "beat_rule f") (fastforce, fastforce, fastforce, fastforce)
      then show ?thesis using True False perm permission_rule_None by simp
    next
      case idle: False
      then have none: "lease_rule f = None" "beat_rule f = None" by (auto simp: lease_rule_None beat_rule_None)
      show ?thesis
      proof (cases "request_rule f")
        case (Some a)
        then have "\<not> (\<exists>w t. fst (actor_for f) = Working w t)" "na_since (fa_attention f) \<noteq> None"
          using request_rule_you[of f "fst a" "snd a"] request_rule_None[of f] unfolding order none by auto
        then show ?thesis using idle by simp
      next
        case req: None
        then have since: "na_since (fa_attention f) = None" by (simp add: request_rule_None)
        have "(\<exists>w t. fst (actor_for f) = Working w t) \<longleftrightarrow> starting_fresh f"
        proof (cases "starting_fresh f")
          case True
          then show ?thesis using starting_rule_fresh[of f] unfolding order none req by fastforce
        next
          case stale: False
          then show ?thesis
            using starting_rule_answer[of f] rest unfolding order none req
            by (cases "starting_rule f") (fastforce simp del: append.simps)+
        qed
        moreover have "rf_permission (fa_run f) = None" using perm by (simp add: permission_rule_None)
        ultimately show ?thesis using idle False since unfolding derive_sel by blast
      qed
    qed
  qed
qed

text \<open>The user's own chats never make a node look worked on or lost: its standing is the one
  without their leases.\<close>
theorem chats_do_not_count:
  "derive (f\<lparr>fa_leases := ls\<rparr>) = derive (f\<lparr>fa_leases := filter is_lifecycle ls\<rparr>)"
proof -
  have "actor_for (f\<lparr>fa_leases := ls\<rparr>) = actor_for (f\<lparr>fa_leases := filter is_lifecycle ls\<rparr>)"
  proof (cases "fa_lifecycle f = DONE_STATE")
    case True
    then show ?thesis by (simp add: actor_for_def done_actor_def)
  next
    case False
    have "r (f\<lparr>fa_leases := ls\<rparr>) = r (f\<lparr>fa_leases := filter is_lifecycle ls\<rparr>)"
      if r: "r \<in> set (request_rules @ stopped_rules @ wait_rules)" for r
    proof -
      have leases: "lifecycle_leases (f\<lparr>fa_leases := ls\<rparr>) = lifecycle_leases (f\<lparr>fa_leases := filter is_lifecycle ls\<rparr>)"
        by (simp add: lifecycle_leases_def)
      have waits: "held_waits (f\<lparr>fa_leases := ls\<rparr>) = held_waits (f\<lparr>fa_leases := filter is_lifecycle ls\<rparr>)"
        "overdue_by (f\<lparr>fa_leases := ls\<rparr>) = overdue_by (f\<lparr>fa_leases := filter is_lifecycle ls\<rparr>)"
        by (simp_all add: held_waits_def overdue_by_def fun_eq_iff)
      consider "r \<in> set request_rules" | "r \<in> set stopped_rules" | "r \<in> set wait_rules"
        using r unfolding set_append by blast
      then show ?thesis
      proof cases
        case 1
        then show ?thesis using leases
          by (auto simp: request_rules_def permission_rule_def lease_rule_def beat_rule_def request_rule_def starting_rule_def
              cong: option.case_cong if_cong)
      next
        case 2
        then show ?thesis using leases
          by (auto simp: stopped_rules_def lost_rule_def stop_answer_rule_def row_rule_def idle_beat_rule_def
              outcome_rule_def lost_lease_rule_def lost_beat_rule_def
              cong: option.case_cong if_cong)
      next
        case 3
        then show ?thesis using waits
          by (auto simp: wait_rules_def exhausted_rule_def overdue_rule_def wait_rule_def run_wait_rule_def
              split: option.split outcome.split)
      qed
    qed
    then have "first_answer (request_rules @ stopped_rules @ wait_rules) (f\<lparr>fa_leases := ls\<rparr>)
        = first_answer (request_rules @ stopped_rules @ wait_rules) (f\<lparr>fa_leases := filter is_lifecycle ls\<rparr>)"
      by (rule first_answer_cong)
    then show ?thesis using False by (simp add: actor_for_def not_started_def)
  qed
  then show ?thesis by (simp add: derive_def case_prod_beta' Let_def)
qed

lemma you_newest:
  assumes "fa_lifecycle f \<noteq> DONE_STATE" "actor_for f = (You why since, k)"
  shows "k = (if rf_permission (fa_run f) = None \<and> na_since (fa_attention f) \<noteq> None
              then snd (the (request_rule f)) else since)"
proof -
  note order = actor_for_order[OF assms(1)]
  have perm: "rf_permission (fa_run f) = None \<longleftrightarrow> permission_rule f = None" by (simp add: permission_rule_None)
  have req: "na_since (fa_attention f) = None \<longleftrightarrow> request_rule f = None" by (simp add: request_rule_None)
  show ?thesis
  proof (cases "permission_rule f")
    case (Some a)
    then show ?thesis using assms(2) you_rules(1)[of f "fst a" "snd a"] perm by (cases a) (auto simp: order)
  next
    case p: None
    have "lease_rule f = None" "beat_rule f = None"
      using assms(2) p work_rules_working[of f] by (fastforce simp: order split: option.splits)+
    note none = p this
    show ?thesis
    proof (cases "request_rule f")
      case (Some a)
      then show ?thesis using assms(2) perm req none by (simp add: order)
    next
      case r: None
      show ?thesis
      proof (cases "starting_rule f")
        case (Some a)
        then show ?thesis
          using assms(2) perm req none r starting_rule_answer[of f "fst a" "snd a"]
          by (cases a) (auto simp: order split: if_splits)
      next
        case None
        then show ?thesis
          using assms(2) perm req none r rest_not_working[of f "You why since" k] by (simp add: order)
      qed
    qed
  qed
qed

lemma request_newest:
  assumes "fa_attention f = from_items n items" "items \<noteq> []"
  shows "snd (the (request_rule f)) = Max (ai_since ` set items)"
proof -
  let ?m = "max_by_key ai_since (sort_key ai_since items)"
  have "sort_key ai_since items \<noteq> []" using assms(2) by (metis set_empty set_sort)
  then obtain i where i: "?m = Some i" by (cases ?m) auto
  have "i \<in> set items" using max_by_key_in[OF i] by simp
  moreover have "ai_since j \<le> ai_since i" if "j \<in> set items" for j
    using max_by_key_ge[OF i] that by simp
  ultimately have "Max (ai_since ` set items) = ai_since i" by (intro Max_eqI) auto
  then show ?thesis
    using i assms(2) by (simp add: request_rule_def Let_def assms(1) from_items_since)
qed

text \<open>C3: A deferral hides a node only until it expires or something newer reaches the user: a
  deferred node the user has to act on is back on their list exactly when its time is over, or
  what makes it theirs began after they deferred it, or (no permission pending) any of its open
  requests did.\<close>
theorem deferral_wakes:
  assumes "fa_lifecycle f \<noteq> DONE_STATE" "fa_deferral f = Some d" "fa_attention f = from_items n items"
    and "nst_actor (derive f) = You why since"
  shows "on_you (derive f) \<longleftrightarrow>
     (\<exists>u. h_until d = Some u \<and> u \<le> fa_now f) \<or> h_at d < since
   \<or> (rf_permission (fa_run f) = None \<and> (\<exists>i \<in> set items. h_at d < ai_since i))"
proof -
  obtain k where act: "actor_for f = (You why since, k)"
    using assms(4) by (cases "actor_for f") simp
  have newest: "on_you (derive f) \<longleftrightarrow> (\<exists>u. h_until d = Some u \<and> u \<le> fa_now f) \<or> h_at d < k"
    by (cases "h_until d") (auto simp: on_you_def act assms(2) deferral_holds_def)
  show ?thesis
  proof (cases "rf_permission (fa_run f) = None \<and> items \<noteq> []")
    case True
    then have since: "na_since (fa_attention f) \<noteq> None" by (simp add: assms(3) from_items_since)
    have k: "k = Max (ai_since ` set items)"
      using you_newest[OF assms(1) act] request_newest[OF assms(3)] True since by simp
    have "h_at d < k \<longleftrightarrow> (\<exists>i \<in> set items. h_at d < ai_since i)"
      unfolding k using True by (subst Max_gr_iff) auto
    moreover have "h_at d < since \<Longrightarrow> \<exists>i \<in> set items. h_at d < ai_since i"
    proof -
      assume "h_at d < since"
      have "lease_rule f = None" "beat_rule f = None" "permission_rule f = None"
        using act True work_rules_working[of f] permission_rule_None[of f]
        by (fastforce simp: actor_for_order[OF assms(1)] split: option.splits)+
      then have "request_rule f = Some (You why since, k)"
        using act since by (auto simp: actor_for_order[OF assms(1)] request_rule_None split: option.splits)
      then have "na_since (fa_attention f) = Some since" by (auto simp: request_rule_def Let_def)
      then have "since = Min (ai_since ` set items)" using True by (simp add: assms(3) from_items_since)
      then have "since \<in> ai_since ` set items" using True by simp
      then show ?thesis using \<open>h_at d < since\<close> by auto
    qed
    ultimately show ?thesis using newest True by blast
  next
    case False
    have "k = since"
      using you_newest[OF assms(1) act] False by (auto simp: assms(3) from_items_since split: if_splits)
    then show ?thesis using newest False by auto
  qed
qed

text \<open>C2: A node is someone else's turn only when nothing needs the user: a node that is not done
  and reads as waiting on something outside has no request and no permission open, no lifecycle
  processing (live or lost), and either the wait shown is one it recorded in this stay, and none
  of those is exhausted or overdue, or it recorded none and its last run ended waiting for
  something not overdue.\<close>
theorem others_means_waiting:
  assumes "fa_lifecycle f \<noteq> DONE_STATE" "nst_actor (derive f) = Others ew"
  shows "rf_permission (fa_run f) = None \<and> na_since (fa_attention f) = None
   \<and> lifecycle_leases f = [] \<and> fa_lost f = None \<and> fa_stop f = None
   \<and> (\<forall>w \<in> set (held_waits f). \<not> exhausted w \<and> overdue_by f w = None)
   \<and> ((\<exists>w \<in> set (held_waits f). ew = external_wait_of w)
     \<or> held_waits f = [] \<and> (\<exists>what due at. rf_outcome (fa_run f) = Some (OWaiting what due, at)
          \<and> overdue_by f (run_wait (fa_node f) due at) = None))"
proof -
  obtain k where act: "actor_for f = (Others ew, k)" using assms(2) by (cases "actor_for f") simp
  note order = actor_for_order[OF assms(1)]
  have perm: "permission_rule f = None"
    using act you_rules(1)[of f] by (fastforce simp: order split: option.splits)
  have work: "lease_rule f = None" "beat_rule f = None"
    using act perm work_rules_working[of f] by (fastforce simp: order split: option.splits)+
  have req: "request_rule f = None"
    using act perm work request_rule_you[of f] by (fastforce simp: order split: option.splits)
  have start: "starting_rule f = None"
  proof (rule ccontr)
    assume "starting_rule f \<noteq> None"
    then have "starting_rule f = Some (Others ew, k)" using act perm work req by (auto simp: order)
    then show False using starting_rule_answer by (fastforce split: if_splits)
  qed
  have rest: "unwrap_or (not_started f) (first_answer (stopped_rules @ wait_rules) f) = (Others ew, k)"
    using act perm work req start by (simp add: order)
  have stopped: "first_answer stopped_rules f = None"
    using rest stopped_rules_you[of f] by (cases "first_answer stopped_rules f") fastforce+
  then have waits: "first_answer wait_rules f = Some (Others ew, k)"
    using rest by (cases "first_answer wait_rules f") (auto simp: not_started_def)
  have none: "exhausted_rule f = None" "overdue_rule f = None"
    using waits you_rules(9,10)[of f] by (fastforce simp: wait_rules_def or_else_Some_iff)+
  have "\<forall>w \<in> set (held_waits f). \<not> exhausted w \<and> overdue_by f w = None"
    using none by (auto simp: exhausted_rule_def overdue_rule_def find_None_iff map_filter_def filter_empty_conv)
  moreover have "lifecycle_leases f = []" "fa_lost f = None" "fa_stop f = None"
  proof -
    have "lost_lease_rule f = None" "lost_rule f = None" "stop_answer_rule f = None"
      using stopped by (auto simp: stopped_rules_def or_else_None_iff)
    then show "lifecycle_leases f = []" "fa_lost f = None" "fa_stop f = None"
      using work(1) by (auto simp: lost_lease_rule_def lease_rule_def find_None_iff lost_rule_def stop_answer_rule_def)
  qed
  moreover have "(\<exists>w \<in> set (held_waits f). ew = external_wait_of w)
     \<or> held_waits f = [] \<and> (\<exists>what due at. rf_outcome (fa_run f) = Some (OWaiting what due, at)
          \<and> overdue_by f (run_wait (fa_node f) due at) = None)"
  proof (cases "wait_rule f")
    case None
    then have "held_waits f = []" by (auto simp: wait_rule_def or_else_None_iff split: list.splits)
    moreover have "run_wait_rule f = Some (Others ew, k)"
      using waits none None by (simp add: wait_rules_def or_else_Some_iff)
    then have "\<exists>what due at. rf_outcome (fa_run f) = Some (OWaiting what due, at)
          \<and> overdue_by f (run_wait (fa_node f) due at) = None"
      by (auto simp: run_wait_rule_def split: option.splits outcome.splits)
    ultimately show ?thesis by blast
  next
    case (Some a)
    then have "wait_rule f = Some (Others ew, k)" using waits none by (simp add: wait_rules_def or_else_Some_iff)
    then obtain w where w: "ew = external_wait_of w"
      "or_else (find (\<lambda>w. w_error w \<noteq> None) (held_waits f)) (case held_waits f of [] \<Rightarrow> None | w # _ \<Rightarrow> Some w) = Some w"
      by (auto simp: wait_rule_def)
    have "w \<in> set (held_waits f)"
      using w(2) find_Some_in[of "\<lambda>w. w_error w \<noteq> None" "held_waits f" w]
      unfolding or_else_Some_iff by (auto split: list.splits)
    then show ?thesis using w(1) by blast
  qed
  ultimately show ?thesis using perm req by (simp add: permission_rule_None request_rule_None)
qed

section \<open>One node, or many at once\<close>

lemma sort_filter_one:
  assumes "n \<in> set ns"
  shows "filter (\<lambda>x. g x = n) (sort_key k (filter (\<lambda>x. P x \<and> g x \<in> set ns) xs))
       = sort_key k (filter (\<lambda>x. P x \<and> g x = n) xs)"
  unfolding sort_key_filter[symmetric] filter_filter
  by (rule arg_cong[where f = "sort_key k"]) (rule filter_cong, use assms in auto)

lemma facts_of_one:
  assumes "n \<in> set ns"
  shows "facts_of ns inp db n stay = facts_of [n] inp db n stay"
proof -
  have ne: "ns \<noteq> []" using assms by auto
  have "attention_for_nodes ns (ac_attention db) n = attention_for_nodes [n] (ac_attention db) n"
    using for_nodes_one[OF assms] for_nodes_one[of n "[n]"] by simp
  moreover have "filter (\<lambda>w. w_node w = n) (list_pending_for_nodes ms (ac_waits db))
        = sort_key (\<lambda>w. (w_due w, w_created w)) (filter (\<lambda>w. is_pending w \<and> w_node w = n) (ac_waits db))"
      "filter (\<lambda>l. l_node l = n) (leases_for_nodes ms (ac_leases db))
        = sort_key l_started (filter (\<lambda>l. True \<and> l_node l = n) (ac_leases db))"
      "filter (\<lambda>p. np_node p = n) (problems_for_nodes ms (ac_problems db))
        = sort_key (\<lambda>p. (np_first p, np_kind p)) (filter (\<lambda>p. True \<and> np_node p = n) (ac_problems db))"
    if "n \<in> set ms" for ms
    using sort_filter_one[OF that, where g = w_node and P = is_pending and xs = "ac_waits db"]
      sort_filter_one[OF that, where g = l_node and P = "\<lambda>_. True" and xs = "ac_leases db"]
      sort_filter_one[OF that, where g = np_node and P = "\<lambda>_. True" and xs = "ac_problems db"] that
    by (auto simp: list_pending_for_nodes_def query_waits_def leases_for_nodes_def problems_for_nodes_def list_problems_def)
  note this[OF assms] this[of "[n]", simplified]
  ultimately show ?thesis by (simp add: facts_of_def)
qed

text \<open>Reading a whole list of nodes at once gives every node the standing that reading it
  alone gives, and none to a node without a lifecycle or outside the list.\<close>
theorem standings_batch:
  "standings_for_nodes ns inp db n =
     (if n \<in> set ns \<and> ad_stays (ac_attention db) n \<noteq> None then standings_for_nodes [n] inp db n else None)"
proof (cases "n \<in> set ns")
  case True
  then show ?thesis
    using facts_of_one[OF True]
    by (cases "ad_stays (ac_attention db) n") (simp_all add: standings_for_nodes_def lifecycle_entered_def)
next
  case False
  then show ?thesis by (simp add: standings_for_nodes_def lifecycle_entered_def)
qed

text \<open>The daemon clears exactly the deferrals that no longer do anything: after
  \<^verbatim>\<open>spent_deferrals\<close>, every stored deferral that is left has not expired, and its node is
  either held back by it or not waiting on the user at all.\<close>
theorem kept_deferrals_hold:
  assumes "in_deferrals inp = (\<lambda>_. None)" "ac_deferrals db (d_node d) = Some d" "d \<in> set ds"
    and "d_node d \<notin> set (spent_deferrals ds (standings_for_nodes ns inp db) (in_now inp))"
  shows "\<exists>s. standings_for_nodes ns inp db (d_node d) = Some s
     \<and> (\<forall>u. d_until d = Some u \<longrightarrow> in_now inp < u)
     \<and> (is_you (nst_actor s) \<longrightarrow> nst_deferred s = Some \<lparr>h_until = d_until d, h_at = d_deferred_at d\<rparr>)"
proof -
  let ?st = "standings_for_nodes ns inp db"
  have kept: "\<not> is_some_and (\<lambda>until. until \<le> in_now inp) (d_until d)"
    "\<not> (case ?st (d_node d) of None \<Rightarrow> True | Some s \<Rightarrow> is_you (nst_actor s) \<and> nst_deferred s = None)"
    using assms(3,4) by (auto simp: spent_deferrals_def)
  then obtain s where s: "?st (d_node d) = Some s" "\<not> (is_you (nst_actor s) \<and> nst_deferred s = None)"
    by (auto split: option.splits)
  obtain stay where "s = derive (facts_of ns inp db (d_node d) stay)"
    using s(1) by (auto simp: standings_for_nodes_def)
  moreover have "fa_deferral (facts_of ns inp db (d_node d) stay) = Some \<lparr>h_until = d_until d, h_at = d_deferred_at d\<rparr>"
    by (simp add: facts_of_def deferral_of_def assms(1,2))
  ultimately have "is_you (nst_actor s) \<longrightarrow> nst_deferred s = Some \<lparr>h_until = d_until d, h_at = d_deferred_at d\<rparr>"
    using s(2) by (auto split: if_splits)
  moreover have "\<forall>u. d_until d = Some u \<longrightarrow> in_now inp < u" using kept(1) by auto
  ultimately show ?thesis using s(1) by blast
qed

section \<open>A done node\<close>

text \<open>A done node asks for the user exactly while deleting its sandbox has failed for good:
  then it is theirs with the error, since it first failed, and their deferral holds as long as
  the record does not change; while the failure is temporary it is the daemon's; any other
  problem leaves it done.\<close>
theorem done_node_exact:
  assumes "fa_lifecycle f = DONE_STATE"
  shows "(case find (\<lambda>p. np_kind p = KIND_SANDBOX_RETIRE) (fa_problems f) of
      None \<Rightarrow> nst_actor (derive f) = ADone \<and> nst_deferred (derive f) = None
    | Some p \<Rightarrow>
        if np_transient p
        then (\<exists>ew. nst_actor (derive f) = Others ew \<and> ew_since ew = np_first p \<and> ew_retry ew = None)
             \<and> nst_deferred (derive f) = None
        else nst_actor (derive f) = You (YFailed (np_message p)) (np_first p)
             \<and> (\<forall>d. fa_deferral f = Some d \<longrightarrow>
                  (nst_deferred (derive f) = Some d \<longleftrightarrow>
                     np_updated p \<le> h_at d \<and> (\<forall>u. h_until d = Some u \<longrightarrow> fa_now f < u))))"
proof (cases "find (\<lambda>p. np_kind p = KIND_SANDBOX_RETIRE) (fa_problems f)")
  case None
  then show ?thesis by (simp add: actor_for_def assms done_actor_def)
next
  case (Some p)
  have "is_some_and (\<lambda>u. u \<le> fa_now f) (h_until d) \<longleftrightarrow> \<not> (\<forall>u. h_until d = Some u \<longrightarrow> fa_now f < u)" for d
    by (cases "h_until d") auto
  then show ?thesis
    by (cases "np_transient p") (auto simp: actor_for_def assms done_actor_def Some deferral_holds_def)
qed

section \<open>Witnesses\<close>

text \<open>A node in design that nothing is known about, at 1000.\<close>

definition quiet :: facts where
  "quiet = \<lparr>fa_node = 7, fa_lifecycle = ''design'', fa_entered = 100, fa_attention = from_items 7 [],
     fa_waits = [], fa_leases = [], fa_cloud = None, fa_lost = None, fa_row = None, fa_stop = None,
     fa_run = no_run, fa_problems = [], fa_deferral = None, fa_now = 1000\<rparr>"

definition ask :: "ms \<Rightarrow> attention_item" where
  "ask since = \<lparr>ai_kind = AkDecision, ai_id = 1, ai_node = 7, ai_summary = ''Which?'', ai_options = [],
     ai_since = since, ai_reason = ROther, ai_permission = False\<rparr>"

lemma quiet_rules:
  "permission_rule quiet = None" "lease_rule quiet = None" "beat_rule quiet = None"
  by (simp_all add: quiet_def no_run_def permission_rule_def lease_rule_def lifecycle_leases_def beat_rule_def)

theorem deferral_wakes_witness:
  "on_you (derive (quiet\<lparr>fa_attention := from_items 7 [ask 200, ask 600], fa_deferral := Some \<lparr>h_until = None, h_at = 500\<rparr>\<rparr>))
 \<and> \<not> on_you (derive (quiet\<lparr>fa_attention := from_items 7 [ask 200], fa_deferral := Some \<lparr>h_until = None, h_at = 500\<rparr>\<rparr>))"
proof -
  let ?f = "\<lambda>items. quiet\<lparr>fa_attention := from_items 7 items, fa_deferral := Some \<lparr>h_until = None, h_at = 500\<rparr>\<rparr>"
  have act: "nst_actor (derive (?f (ask 200 # items))) = You (YRequest (Suc (length items))) 200"
    if "items = [] \<or> items = [ask 600]" for items
    using that by (auto simp: quiet_def actor_for_order no_run_def permission_rule_def lease_rule_def lifecycle_leases_def
        beat_rule_def request_rule_def request_reason_of_def asks_permission_def from_items_def ask_def Let_def)
  have run: "rf_permission (fa_run (?f items)) = None" for items by (simp add: quiet_def no_run_def)
  have ne: "fa_lifecycle (?f items) \<noteq> DONE_STATE" for items by (simp add: quiet_def)
  have d: "fa_deferral (?f items) = Some \<lparr>h_until = None, h_at = 500\<rparr>" for items by simp
  have a: "fa_attention (?f items) = from_items 7 items" for items by simp
  show ?thesis
    using deferral_wakes[OF ne d a act[of "[ask 600]"]] deferral_wakes[OF ne d a act[of "[]"]] run
    by (auto simp: ask_def)
qed

definition checks_wait :: wait where
  "checks_wait = \<lparr>w_id = 5, w_node = 7, w_kind = KIND_EVENT, w_spec = ''github:pr:3:checks'', w_every = None,
     w_due = 2000, w_state = WAIT_PENDING, w_created = 300, w_updated = 300, w_detail = None, w_attempt = 0,
     w_max = None, w_error = None, w_stay = Some 100\<rparr>"

theorem others_means_waiting_witness:
  "\<exists>ew. nst_actor (derive (quiet\<lparr>fa_waits := [checks_wait]\<rparr>)) = Others ew
     \<and> held_waits (quiet\<lparr>fa_waits := [checks_wait]\<rparr>) \<noteq> []
     \<and> (\<forall>w \<in> set (held_waits (quiet\<lparr>fa_waits := [checks_wait]\<rparr>)). \<not> exhausted w)"
proof -
  let ?f = "quiet\<lparr>fa_waits := [checks_wait]\<rparr>"
  have held: "held_waits ?f = [checks_wait]"
    by (simp add: held_waits_def wait_holds_def quiet_def checks_wait_def)
  have "nst_actor (derive ?f) = Others (external_wait_of checks_wait)"
    by (simp add: actor_for_def request_rules_def stopped_rules_def wait_rules_def permission_rule_def lease_rule_def
        lifecycle_leases_def beat_rule_def request_rule_def starting_rule_def lost_rule_def stop_answer_rule_def row_rule_def
        idle_beat_rule_def outcome_rule_def lost_lease_rule_def lost_beat_rule_def exhausted_rule_def overdue_rule_def
        wait_rule_def held overdue_by_def expired_by_def overdue_grace_def UNSERVED_GRACE_MS_def exhausted_def)
      (simp add: quiet_def no_run_def checks_wait_def from_items_def map_filter_def)
  moreover have "fa_lifecycle ?f \<noteq> DONE_STATE" by (simp add: quiet_def)
  ultimately show ?thesis using others_means_waiting[of ?f "external_wait_of checks_wait"] held by simp
qed

definition sample_actor_db :: actor_db where
  "sample_actor_db = \<lparr>ac_attention = \<lparr>ad_decisions = no_decisions, ad_plan = empty_plan, ad_findings = [],
       ad_stays = (\<lambda>_. Some (''design'', 100))\<rparr>, ac_waits = [], ac_leases = [], ac_rows = (\<lambda>_. None),
     ac_beats = (\<lambda>_. None), ac_cloud = (\<lambda>_. None),
     ac_deferrals = (\<lambda>_. None)(7 \<mapsto> \<lparr>d_node = 7, d_until = None, d_deferred_at = 500\<rparr>), ac_problems = []\<rparr>"

theorem kept_deferrals_hold_witness:
  defines "inp \<equiv> \<lparr>in_deleted = [], in_runs = (\<lambda>_. None), in_deferrals = (\<lambda>_. None), in_now = 1000\<rparr>"
  shows "\<exists>s. standings_for_nodes [7] inp sample_actor_db 7 = Some s
     \<and> nst_deferred s = Some \<lparr>h_until = None, h_at = 500\<rparr>"
proof -
  let ?d = "\<lparr>d_node = 7, d_until = None, d_deferred_at = 500\<rparr>"
  let ?f = "facts_of [7] inp sample_actor_db 7 (''design'', 100)"
  have f: "?f = quiet\<lparr>fa_deferral := Some \<lparr>h_until = None, h_at = 500\<rparr>\<rparr>"
    by (simp add: facts_of_def sample_actor_db_def quiet_def inp_def attention_for_nodes_def collected_def
        pending_decisions_def no_decisions_def needs_user_for_nodes_def empty_plan_def reviewing_nodes_def
        lifecycle_for_nodes_def list_pending_for_nodes_def query_waits_def leases_for_nodes_def lost_of_def
        stop_answer_of_def problems_for_nodes_def list_problems_def deferral_of_def)
  have act: "actor_for (quiet\<lparr>fa_deferral := Some \<lparr>h_until = None, h_at = 500\<rparr>\<rparr>) = (You YNotStarted 100, 100)"
    by (simp add: actor_for_def request_rules_def stopped_rules_def wait_rules_def permission_rule_def lease_rule_def
        lifecycle_leases_def beat_rule_def request_rule_def starting_rule_def lost_rule_def stop_answer_rule_def row_rule_def
        idle_beat_rule_def outcome_rule_def lost_lease_rule_def lost_beat_rule_def exhausted_rule_def overdue_rule_def
        wait_rule_def run_wait_rule_def held_waits_def not_started_def quiet_def no_run_def from_items_def map_filter_def)
  have st: "standings_for_nodes [7] inp sample_actor_db 7 = Some (derive ?f)"
    by (simp add: standings_for_nodes_def lifecycle_entered_def sample_actor_db_def)
  then have "d_node ?d \<notin> set (spent_deferrals [?d] (standings_for_nodes [7] inp sample_actor_db) (in_now inp))"
    by (simp add: spent_deferrals_def f act deferral_holds_def)
  moreover have "in_deferrals inp = (\<lambda>_. None)" "ac_deferrals sample_actor_db (d_node ?d) = Some ?d" "?d \<in> set [?d]"
    by (simp_all add: inp_def sample_actor_db_def)
  ultimately obtain s where "standings_for_nodes [7] inp sample_actor_db (d_node ?d) = Some s"
    "is_you (nst_actor s) \<longrightarrow> nst_deferred s = Some \<lparr>h_until = d_until ?d, h_at = d_deferred_at ?d\<rparr>"
    using kept_deferrals_hold by blast
  moreover have "is_you (nst_actor (derive ?f))" by (simp add: f act)
  ultimately show ?thesis using st by simp
qed

theorem done_node_exact_witness:
  "nst_actor (derive (quiet\<lparr>fa_lifecycle := DONE_STATE\<rparr>)) = ADone"
  using done_node_exact[of "quiet\<lparr>fa_lifecycle := DONE_STATE\<rparr>"] by (simp add: quiet_def)

end
