(* ===== verification/Incoming.thy ===== *)
theory Incoming
  imports Obligations
begin

text \<open>
  Changes a node inherits and has not been checked against
  (\<^verbatim>\<open>tod-store/src/incoming.rs\<close>, with \<^verbatim>\<open>subtree_node_ids\<close> and \<^verbatim>\<open>referrer_node_ids\<close> of
  \<^verbatim>\<open>outline/references.rs\<close>), the verdicts on them, and the snapshot of a node's obligations
  and plan taken when it entered \<^verbatim>\<open>ready\<close> (\<^verbatim>\<open>tod-store/src/lifecycle_baseline.rs\<close>).
\<close>

section \<open>The outline's shape\<close>

record tree_db =
  tr_entries :: "(uuid \<times> uuid) list"       \<comment> \<open>parent, node\<close>
  tr_references :: "(uuid \<times> uuid) list"    \<comment> \<open>from node, to node\<close>
  tr_spec :: "uuid list"                  \<comment> \<open>nodes with the Spec capability\<close>
  tr_stays :: "uuid \<Rightarrow> (string \<times> ms) option"

definition subtree_node_ids :: "uuid \<Rightarrow> tree_db \<Rightarrow> uuid list" where
  "subtree_node_ids n t = reach_loop (tr_entries t) [n] [n]"

definition referrer_node_ids :: "uuid \<Rightarrow> tree_db \<Rightarrow> uuid list" where
  "referrer_node_ids n t = remdups (map fst (filter (\<lambda>(from, to). to = n \<and> from \<noteq> n) (tr_references t)))"

definition has_spec :: "uuid \<Rightarrow> tree_db \<Rightarrow> bool" where
  "has_spec n t = (n \<in> set (tr_spec t))"

definition COMMITTED_STATES :: "string list" where
  "COMMITTED_STATES = [''ready'', ''active'', ''verifying'', ''review'', ''pr'', ''pr_draft'', ''pr_review'',
     ''approved'', ''merged'', ''released'', ''learn'', ''done'']"

definition committed_spec :: "uuid \<Rightarrow> tree_db \<Rightarrow> bool" where
  "committed_spec n t =
     (has_spec n t \<and> is_some_and (\<lambda>(state, _). state \<in> set COMMITTED_STATES) (tr_stays t n))"

section \<open>Snapshots of items\<close>

datatype capability =
  CapSpec | CapLifecycle | CapAgent | CapGenerator | CapTags
  | CapFiles | CapTicket | CapEnvironment | CapLifecycleConfig | CapGroups

primrec capability_str :: "capability \<Rightarrow> string" where
  "capability_str CapSpec = ''spec''"
| "capability_str CapLifecycle = ''lifecycle''"
| "capability_str CapAgent = ''agent''"
| "capability_str CapGenerator = ''generator''"
| "capability_str CapTags = ''tags''"
| "capability_str CapFiles = ''files''"
| "capability_str CapTicket = ''ticket''"
| "capability_str CapEnvironment = ''environment''"
| "capability_str CapLifecycleConfig = ''lifecycle_config''"
| "capability_str CapGroups = ''groups''"

primrec capability_label :: "capability \<Rightarrow> string" where
  "capability_label CapSpec = ''Spec''"
| "capability_label CapLifecycle = ''Lifecycle''"
| "capability_label CapAgent = ''Agent''"
| "capability_label CapGenerator = ''Generator''"
| "capability_label CapTags = ''Tags''"
| "capability_label CapFiles = ''Files''"
| "capability_label CapTicket = ''Ticket''"
| "capability_label CapEnvironment = ''Environment''"
| "capability_label CapLifecycleConfig = ''Lifecycle config''"
| "capability_label CapGroups = ''Groups''"

definition CAPABILITIES :: "capability list" where
  "CAPABILITIES = [CapSpec, CapLifecycle, CapAgent, CapFiles, CapTicket, CapEnvironment, CapLifecycleConfig, CapGroups,
     CapGenerator, CapTags]"

definition capability_parse :: "string \<Rightarrow> capability option" where
  "capability_parse s =
     (if s = ''lifecycle-config'' then Some CapLifecycleConfig else find (\<lambda>c. capability_str c = s) CAPABILITIES)"

lemma capability_roundtrip: "capability_parse (capability_str c) = Some c"
  by (cases c) (simp_all add: capability_parse_def CAPABILITIES_def)

record capability_settings =
  cs_agent :: "string option \<times> string option \<times> string option"
  cs_branch :: "string option"
  cs_files_place :: "string option"
  cs_files_place_name :: "string option"
  cs_ticket :: "string option"
  cs_linked_prs :: "string list"
  cs_tags :: "string list"
  cs_generator :: "(string \<times> string) option"
  cs_obligations :: nat
  cs_managed_nodes :: nat

datatype entity_snapshot =
  SnNode string uuid "uuid option" int
| SnObligation uuid string "string option" string string string int "string option"
    \<comment> \<open>node, kind, section, body, phase, acts in, ordinal, visual design path\<close>
| SnPlanStep uuid int string string "string option" "handoff_reason option" "uuid list" "uuid list" string
| SnCapabilities uuid "capability list" capability_settings

section \<open>The queue\<close>

datatype via = Ancestor | Reference

primrec via_str :: "via \<Rightarrow> string" where
  "via_str Ancestor = ''ancestor''"
| "via_str Reference = ''reference''"

definition via_parse :: "string \<Rightarrow> via fallible" where
  "via_parse s = (if s = ''ancestor'' then Inr Ancestor else if s = ''reference'' then Inr Reference
                  else Inl (''unknown incoming via '' @ s))"

record incoming_entry =
  ie_node :: uuid
  ie_action :: int
  ie_via :: via
  ie_source :: uuid
  ie_queued :: ms

type_synonym incoming_queue = "incoming_entry list"

definition enqueue_incoming ::
    "tree_db \<Rightarrow> int \<Rightarrow> via \<Rightarrow> uuid \<Rightarrow> ms \<Rightarrow> uuid \<Rightarrow> incoming_queue \<Rightarrow> incoming_queue" where
  "enqueue_incoming t a v source now target q =
     (if target = source \<or> \<not> committed_spec target t then q
      else if list_ex (\<lambda>e. ie_node e = target \<and> ie_action e = a) q then q
      else q @ [\<lparr>ie_node = target, ie_action = a, ie_via = v, ie_source = source, ie_queued = now\<rparr>])"

definition inherited_parts :: "entity_snapshot option \<Rightarrow> (uuid \<times> string \<times> string) option" where
  "inherited_parts s = (case s of Some (SnObligation n kind _ body _ _ _ _) \<Rightarrow> Some (n, kind, body) | _ \<Rightarrow> None)"

definition change_sources :: "entity_snapshot option \<Rightarrow> entity_snapshot option \<Rightarrow> uuid list" where
  "change_sources before after =
     fold (\<lambda>p ns. case p of
             Some (n, kind, _) \<Rightarrow> if kind = KIND_CONSTRAINT \<and> n \<notin> set ns then ns @ [n] else ns
           | None \<Rightarrow> ns) [inherited_parts before, inherited_parts after] []"

definition change_components :: "entity_snapshot option \<Rightarrow> entity_snapshot option \<Rightarrow> uuid list" where
  "change_components before after =
     fold (\<lambda>p ns. case p of
             Some (n, _, _) \<Rightarrow> if n \<notin> set ns then ns @ [n] else ns
           | None \<Rightarrow> ns) [inherited_parts before, inherited_parts after] []"

definition enqueue_all ::
    "tree_db \<Rightarrow> int \<Rightarrow> via \<Rightarrow> ms \<Rightarrow> (uuid \<Rightarrow> uuid list) \<Rightarrow> uuid list \<Rightarrow> incoming_queue \<Rightarrow> incoming_queue" where
  "enqueue_all t a v now targets sources q =
     fold (\<lambda>source q. fold (enqueue_incoming t a v source now) (targets source) q) sources q"

definition fan_out ::
    "tree_db \<Rightarrow> int \<Rightarrow> bool \<Rightarrow> entity_snapshot option \<Rightarrow> entity_snapshot option \<Rightarrow> ms \<Rightarrow> incoming_queue \<Rightarrow> incoming_queue" where
  "fan_out t a is_obligation before after now q =
     (if \<not> is_obligation \<or> inherited_parts before = inherited_parts after then q
      else enqueue_all t a Reference now (\<lambda>s. referrer_node_ids s t) (change_components before after)
             (enqueue_all t a Ancestor now (\<lambda>s. subtree_node_ids s t)
                (filter (\<lambda>s. has_spec s t) (change_sources before after)) q))"

definition cancel_incoming :: "int \<Rightarrow> incoming_queue \<Rightarrow> incoming_queue" where
  "cancel_incoming a q = filter (\<lambda>e. ie_action e \<noteq> a) q"

section \<open>Baselines\<close>

record baseline_obligation =
  bo_id :: uuid
  bo_kind :: string
  bo_body :: string
  bo_acts_in :: string

record baseline_step =
  bs_id :: uuid
  bs_body :: string
  bs_phase :: string

record baseline =
  bl_obligations :: "baseline_obligation list"
  bl_steps :: "baseline_step list"
  bl_checked :: "int list"
  bl_verdicts_through :: nat

type_synonym baselines = "uuid \<Rightarrow> baseline option"

definition record_checked :: "uuid \<Rightarrow> int list \<Rightarrow> baselines \<Rightarrow> baselines" where
  "record_checked n ids bs =
     (case bs n of
        None \<Rightarrow> bs
      | Some b \<Rightarrow> bs(n \<mapsto> b\<lparr>bl_checked :=
          fold (\<lambda>i checked. if i \<in> set checked then checked else checked @ [i]) ids (bl_checked b)\<rparr>))"

definition clear_baseline :: "uuid \<Rightarrow> baselines \<Rightarrow> baselines" where
  "clear_baseline n bs = bs(n := None)"

section \<open>Verdicts on incoming changes\<close>

abbreviation AFFECTS_NONE :: string where "AFFECTS_NONE \<equiv> ''none''"
abbreviation AFFECTS_PLAN :: string where "AFFECTS_PLAN \<equiv> ''plan''"
abbreviation AFFECTS_OBLIGATIONS :: string where "AFFECTS_OBLIGATIONS \<equiv> ''obligations''"

definition AFFECTS :: "string list" where
  "AFFECTS = [AFFECTS_NONE, AFFECTS_PLAN, AFFECTS_OBLIGATIONS]"

definition affects_target :: "string \<Rightarrow> string option" where
  "affects_target affects =
     (if affects = AFFECTS_PLAN then Some ''planning''
      else if affects = AFFECTS_OBLIGATIONS then Some ''design'' else None)"

record incoming_verdict =
  iv_id :: nat
  iv_node :: uuid
  iv_affects :: string
  iv_note :: string
  iv_actions :: "int list"
  iv_conversation :: "uuid option"
  iv_created :: ms

definition verdict_target :: "incoming_verdict \<Rightarrow> string option" where
  "verdict_target v = affects_target (iv_affects v)"

record incoming_db =
  ic_queue :: incoming_queue
  ic_verdicts :: "incoming_verdict list"
  ic_next :: nat
  ic_baselines :: baselines

definition pending_incoming :: "uuid \<Rightarrow> incoming_queue \<Rightarrow> incoming_queue" where
  "pending_incoming n q = sort_key ie_action (filter (\<lambda>e. ie_node e = n) q)"

definition incoming_counts :: "incoming_queue \<Rightarrow> uuid \<Rightarrow> nat option" where
  "incoming_counts q n =
     (let k = length (filter (\<lambda>e. ie_node e = n) q) in if k = 0 then None else Some k)"

definition clear_incoming :: "uuid \<Rightarrow> incoming_db \<Rightarrow> nat \<times> incoming_db" where
  "clear_incoming n db =
     (length (filter (\<lambda>e. ie_node e = n) (ic_queue db)),
      db\<lparr>ic_queue := filter (\<lambda>e. ie_node e \<noteq> n) (ic_queue db)\<rparr>)"

definition remove_incoming :: "uuid \<Rightarrow> int list \<Rightarrow> incoming_db \<Rightarrow> incoming_db" where
  "remove_incoming n ids db =
     db\<lparr>ic_queue := fold (\<lambda>i q. filter (\<lambda>e. \<not> (ie_node e = n \<and> ie_action e = i)) q) ids (ic_queue db),
        ic_baselines := record_checked n ids (ic_baselines db)\<rparr>"

definition resolve_incoming ::
    "ms \<Rightarrow> uuid \<Rightarrow> string \<Rightarrow> string \<Rightarrow> int list option \<Rightarrow> uuid option \<Rightarrow> incoming_db
     \<Rightarrow> (incoming_verdict \<times> incoming_db) fallible" where
  "resolve_incoming now n affects0 note0 action_ids conv db =
     (case find (\<lambda>a. map ascii_lower a = map ascii_lower (trim affects0)) AFFECTS of
        None \<Rightarrow> Inl (''unknown --affects `'' @ affects0 @ ''` (expected '' @ join ''|'' AFFECTS @ '')'')
      | Some affects \<Rightarrow>
          let note = trim note0;
              pending = map ie_action (pending_incoming n (ic_queue db));
              ids = (case action_ids of Some ids \<Rightarrow> filter (\<lambda>i. i \<in> set pending) ids | None \<Rightarrow> pending)
          in if note = [] then Inl ''--note is required: say why''
             else if ids = [] then Inl (''node '' @ show_uuid n @ '' has no pending incoming changes to resolve'')
             else
               let v = \<lparr>iv_id = ic_next db, iv_node = n, iv_affects = affects, iv_note = note, iv_actions = ids,
                        iv_conversation = conv, iv_created = now\<rparr>
               in Inr (v, remove_incoming n ids
                         (db\<lparr>ic_verdicts := ic_verdicts db @ [v], ic_next := ic_next db + 1\<rparr>)))"

definition clear_checked :: "uuid \<Rightarrow> incoming_db \<Rightarrow> nat \<times> incoming_db" where
  "clear_checked n db =
     (let ids = map ie_action (pending_incoming n (ic_queue db)) in (length ids, remove_incoming n ids db))"

definition incoming_verdicts :: "uuid \<Rightarrow> incoming_db \<Rightarrow> incoming_verdict list" where
  "incoming_verdicts n db = sort_key iv_id (filter (\<lambda>v. iv_node v = n) (ic_verdicts db))"

definition latest_verdict :: "uuid \<Rightarrow> incoming_db \<Rightarrow> incoming_verdict option" where
  "latest_verdict n db = last_opt (incoming_verdicts n db)"

definition verdict_for_conversation :: "uuid \<Rightarrow> incoming_db \<Rightarrow> incoming_verdict option" where
  "verdict_for_conversation conv db =
     (case max_by_key iv_id (filter (\<lambda>v. iv_conversation v = Some conv) (ic_verdicts db)) of
        None \<Rightarrow> None
      | Some v \<Rightarrow> find (\<lambda>w. iv_conversation w = Some conv) (rev (incoming_verdicts (iv_node v) db)))"

definition take_baseline :: "uuid \<Rightarrow> outline_db \<Rightarrow> incoming_db \<Rightarrow> incoming_db" where
  "take_baseline n ol db =
     db\<lparr>ic_baselines := (ic_baselines db)(n \<mapsto>
        \<lparr>bl_obligations = map (\<lambda>o'. \<lparr>bo_id = ob_id o', bo_kind = ob_kind o', bo_body = ob_body o',
                                     bo_acts_in = ob_acts_in o'\<rparr>) (obligations_for_node n ol),
         bl_steps = map (\<lambda>s. \<lparr>bs_id = ps_id s, bs_body = ps_body s, bs_phase = ps_phase s\<rparr>)
                      (steps_for_node n (ol_plan ol)),
         bl_checked = [],
         bl_verdicts_through = fold max (map iv_id (filter (\<lambda>v. iv_node v = n) (ic_verdicts db))) 0\<rparr>)\<rparr>"

section \<open>Netting the pending changes\<close>

datatype net_op = NetAdded | NetEdited | NetDeleted

record recorded_action =
  ra_id :: int
  ra_entity :: string
  ra_entity_id :: uuid
  ra_before :: "entity_snapshot option"
  ra_after :: "entity_snapshot option"

record pending_change =
  pc_entity :: string
  pc_entity_id :: uuid
  pc_op :: net_op
  pc_before :: "entity_snapshot option"
  pc_after :: "entity_snapshot option"
  pc_via :: via
  pc_source :: uuid
  pc_actions :: "int list"

definition same_inherited :: "entity_snapshot \<Rightarrow> entity_snapshot \<Rightarrow> bool" where
  "same_inherited a b =
     (case (a, b) of
        (SnObligation n1 k1 _ b1 _ _ _ _, SnObligation n2 k2 _ b2 _ _ _ _) \<Rightarrow> n1 = n2 \<and> k1 = k2 \<and> b1 = b2
      | _ \<Rightarrow> a = b)"

definition action_key :: "recorded_action \<Rightarrow> string \<times> uuid" where
  "action_key r = (ra_entity r, ra_entity_id r)"

definition change_key :: "pending_change \<Rightarrow> string \<times> uuid" where
  "change_key c = (pc_entity c, pc_entity_id c)"

text \<open>\<^verbatim>\<open>groups\<close> with \<^verbatim>\<open>order\<close>: one change per item, in the order each was first touched.\<close>

definition net_step :: "incoming_entry \<times> recorded_action \<Rightarrow> pending_change list \<Rightarrow> pending_change list" where
  "net_step er groups =
     (let (e, r) = er
      in if list_ex (\<lambda>c. change_key c = action_key r) groups
         then map (\<lambda>c. if change_key c = action_key r
                       then c\<lparr>pc_after := ra_after r, pc_via := ie_via e, pc_source := ie_source e,
                              pc_actions := pc_actions c @ [ie_action e]\<rparr> else c) groups
         else groups @ [\<lparr>pc_entity = ra_entity r, pc_entity_id = ra_entity_id r, pc_op = NetEdited,
                         pc_before = ra_before r, pc_after = ra_after r, pc_via = ie_via e,
                         pc_source = ie_source e, pc_actions = [ie_action e]\<rparr>])"

definition net_kept :: "pending_change \<Rightarrow> pending_change option" where
  "net_kept c =
     (case (pc_before c, pc_after c) of
        (None, None) \<Rightarrow> None
      | (None, Some _) \<Rightarrow> Some (c\<lparr>pc_op := NetAdded\<rparr>)
      | (Some _, None) \<Rightarrow> Some (c\<lparr>pc_op := NetDeleted\<rparr>)
      | (Some b, Some a) \<Rightarrow> if same_inherited b a then None else Some (c\<lparr>pc_op := NetEdited\<rparr>))"

definition pending_actions ::
    "uuid \<Rightarrow> (int \<Rightarrow> recorded_action option) \<Rightarrow> incoming_queue \<Rightarrow> (incoming_entry \<times> recorded_action) list" where
  "pending_actions n action q =
     List.map_filter (\<lambda>e. map_option (\<lambda>r. (e, r)) (action (ie_action e))) (pending_incoming n q)"

definition net_pending :: "uuid \<Rightarrow> (int \<Rightarrow> recorded_action option) \<Rightarrow> incoming_queue \<Rightarrow> pending_change list" where
  "net_pending n action q = List.map_filter net_kept (fold net_step (pending_actions n action q) [])"

section \<open>Facts\<close>

lemma set_subtree: "set (subtree_node_ids n t) = {m. (n, m) \<in> (set (tr_entries t))\<^sup>*}"
proof
  let ?es = "tr_entries t"
  show "set (subtree_node_ids n t) \<subseteq> {m. (n, m) \<in> (set ?es)\<^sup>*}"
    unfolding subtree_node_ids_def by (rule reach_loop_sound) (auto intro: rtrancl_into_rtrancl)
  have c: "n \<in> set (subtree_node_ids n t)"
    "\<And>a b. a \<in> set (subtree_node_ids n t) \<Longrightarrow> (a, b) \<in> set ?es \<Longrightarrow> b \<in> set (subtree_node_ids n t)"
    using reach_loop_closed[of "[n]" "[n]" ?es] by (auto simp: subtree_node_ids_def)
  have "m \<in> set (subtree_node_ids n t)" if "(n, m) \<in> (set ?es)\<^sup>*" for m
    using that by (induction rule: rtrancl_induct) (use c in auto)
  then show "{m. (n, m) \<in> (set ?es)\<^sup>*} \<subseteq> set (subtree_node_ids n t)" by blast
qed

lemma set_referrers: "set (referrer_node_ids n t) = {m. (m, n) \<in> set (tr_references t) \<and> m \<noteq> n}"
  by (force simp: referrer_node_ids_def)

definition queued_via :: "via \<Rightarrow> int \<Rightarrow> incoming_queue \<Rightarrow> uuid set" where
  "queued_via v a q = set (map ie_node (filter (\<lambda>e. ie_action e = a \<and> ie_via e = v) q))"

definition queued :: "int \<Rightarrow> incoming_queue \<Rightarrow> uuid set" where
  "queued a q = set (map ie_node (filter (\<lambda>e. ie_action e = a) q))"

lemma queued_vias: "queued a q = queued_via Ancestor a q \<union> queued_via Reference a q"
proof -
  have "ie_via e = Ancestor \<or> ie_via e = Reference" for e by (cases "ie_via e") auto
  then show ?thesis by (auto simp: queued_def queued_via_def)
qed

lemma queued_iff: "list_ex (\<lambda>e. ie_node e = m \<and> ie_action e = a) q \<longleftrightarrow> m \<in> queued a q"
  by (auto simp: queued_def list_ex_iff)

lemma queued_via_snoc:
  "queued_via v a (q @ [e]) = queued_via v a q \<union> (if ie_action e = a \<and> ie_via e = v then {ie_node e} else {})"
  unfolding queued_via_def filter_append map_append set_append by simp

lemma enqueue_one:
  "queued_via v' a (enqueue_incoming t a v s now m q) = queued_via v' a q
     \<union> (if v' = v \<and> m \<noteq> s \<and> committed_spec m t \<and> m \<notin> queued a q then {m} else {})"
  "filter (\<lambda>e. ie_action e \<noteq> a) (enqueue_incoming t a v s now m q) = filter (\<lambda>e. ie_action e \<noteq> a) q"
  unfolding enqueue_incoming_def queued_iff by (auto simp: queued_via_snoc)

lemma enqueue_targets:
  "queued_via v' a (fold (enqueue_incoming t a v s now) ms q) = queued_via v' a q
     \<union> (if v' = v then {m \<in> set ms. m \<noteq> s \<and> committed_spec m t} - queued a q else {})
 \<and> filter (\<lambda>e. ie_action e \<noteq> a) (fold (enqueue_incoming t a v s now) ms q) = filter (\<lambda>e. ie_action e \<noteq> a) q"
proof (induction ms arbitrary: q)
  case (Cons m ms)
  have "queued a (enqueue_incoming t a v s now m q)
      = queued a q \<union> (if m \<noteq> s \<and> committed_spec m t \<and> m \<notin> queued a q then {m} else {})"
    unfolding queued_vias enqueue_one by (cases v) auto
  then show ?case unfolding fold_simps using Cons[of "enqueue_incoming t a v s now m q"] by (auto simp: enqueue_one)
qed simp

lemma enqueue_sources:
  "queued_via v' a (enqueue_all t a v now targets ss q) = queued_via v' a q
     \<union> (if v' = v then {m. \<exists>s \<in> set ss. m \<in> set (targets s) \<and> m \<noteq> s \<and> committed_spec m t} - queued a q else {})
 \<and> filter (\<lambda>e. ie_action e \<noteq> a) (enqueue_all t a v now targets ss q) = filter (\<lambda>e. ie_action e \<noteq> a) q"
proof (induction ss arbitrary: q)
  case (Cons s ss)
  let ?q = "fold (enqueue_incoming t a v s now) (targets s) q"
  have "queued a ?q = queued a q \<union> ({m \<in> set (targets s). m \<noteq> s \<and> committed_spec m t} - queued a q)"
    unfolding queued_vias using enqueue_targets[of Ancestor a t v s now "targets s" q]
      enqueue_targets[of Reference a t v s now "targets s" q] by (cases v) (auto simp: queued_vias)
  then show ?case
    using Cons[of ?q] enqueue_targets[of v' a t v s now "targets s" q] by (auto simp: enqueue_all_def)
qed (simp add: enqueue_all_def)

section \<open>Properties\<close>

text \<open>C36: Recording a change to an obligation queues it for exactly the nodes it reaches: the
  committed specs strictly below a spec whose constraint was added, reworded, rekinded, moved or
  deleted, as inherited, and the other committed specs that reference the obligation's node; a
  change nothing inherits is queued for none, and no other action's entries move.\<close>
theorem fan_out_exact:
  fixes before after :: "entity_snapshot option" and t :: tree_db and a :: int and now :: ms and q :: incoming_queue
  assumes "queued a q = {}"
  defines "parts \<equiv> {p. inherited_parts before = Some p \<or> inherited_parts after = Some p}"
  defines "q' \<equiv> fan_out t a True before after now q"
  defines "below \<equiv> {m. committed_spec m t \<and> inherited_parts before \<noteq> inherited_parts after
      \<and> (\<exists>s body. (s, KIND_CONSTRAINT, body) \<in> parts \<and> has_spec s t \<and> m \<noteq> s \<and> (s, m) \<in> (set (tr_entries t))\<^sup>*)}"
  defines "refer \<equiv> {m. committed_spec m t \<and> inherited_parts before \<noteq> inherited_parts after
      \<and> (\<exists>s kind body. (s, kind, body) \<in> parts \<and> m \<noteq> s \<and> (m, s) \<in> set (tr_references t))}"
  shows "queued_via Ancestor a q' = below \<and> queued_via Reference a q' = refer - below
       \<and> filter (\<lambda>e. ie_action e \<noteq> a) q' = filter (\<lambda>e. ie_action e \<noteq> a) q"
proof (cases "inherited_parts before = inherited_parts after")
  case True
  then show ?thesis
    using assms(1) by (auto simp: fan_out_def q'_def below_def refer_def queued_vias)
next
  case False
  have sources: "set (change_sources before after) = {s. \<exists>body. (s, KIND_CONSTRAINT, body) \<in> parts}"
    and components: "set (change_components before after) = {s. \<exists>kind body. (s, kind, body) \<in> parts}"
    unfolding change_sources_def change_components_def parts_def
    by (cases "inherited_parts before"; cases "inherited_parts after"; force)+
  define q1 where "q1 = enqueue_all t a Ancestor now (\<lambda>s. subtree_node_ids s t)
      (filter (\<lambda>s. has_spec s t) (change_sources before after)) q"
  have q': "q' = enqueue_all t a Reference now (\<lambda>s. referrer_node_ids s t) (change_components before after) q1"
    using False by (simp add: q'_def fan_out_def q1_def)
  have empty: "queued_via v a q = {}" for v using assms(1) by (cases v) (auto simp: queued_vias)
  have q1: "queued_via Ancestor a q1 = below" "queued_via Reference a q1 = {}"
    "filter (\<lambda>e. ie_action e \<noteq> a) q1 = filter (\<lambda>e. ie_action e \<noteq> a) q"
    unfolding q1_def using enqueue_sources[of _ a t Ancestor now "\<lambda>s. subtree_node_ids s t"
        "filter (\<lambda>s. has_spec s t) (change_sources before after)" q] False
    by (auto simp: empty assms(1) sources set_subtree below_def)
  have "queued a q1 = below" by (simp add: queued_vias q1)
  then show ?thesis
    unfolding q' using enqueue_sources[of _ a t Reference now "\<lambda>s. referrer_node_ids s t"
        "change_components before after" q1] False q1
    by (auto simp: components set_referrers refer_def)
qed

definition sample_tree :: tree_db where
  "sample_tree = \<lparr>tr_entries = [(1, 2), (2, 3)], tr_references = [], tr_spec = [1, 2, 3],
     tr_stays = (\<lambda>_. Some (''active'', 0))\<rparr>"

theorem fan_out_exact_witness:
  "3 \<in> queued_via Ancestor 9 (fan_out sample_tree 9 True None
      (Some (SnObligation 1 KIND_CONSTRAINT None ''never'' ''design'' ''active'' 1 None)) 5 [])"
proof -
  have "(1, 3) \<in> (set (tr_entries sample_tree))\<^sup>*"
    by (rule rtrancl_into_rtrancl[of _ 2]) (auto simp: sample_tree_def)
  then show ?thesis
    using fan_out_exact[where a = 9 and q = "[]" and before = None and t = sample_tree and now = 5
        and after = "Some (SnObligation 1 KIND_CONSTRAINT None ''never'' ''design'' ''active'' 1 None)"]
    by (simp add: queued_def inherited_parts_def committed_spec_def has_spec_def sample_tree_def COMMITTED_STATES_def)
qed

lemma remove_queue:
  "ic_queue (remove_incoming n ids db) = filter (\<lambda>e. \<not> (ie_node e = n \<and> ie_action e \<in> set ids)) (ic_queue db)"
proof -
  have "fold (\<lambda>i q. filter (\<lambda>e. \<not> (ie_node e = n \<and> ie_action e = i)) q) ids q
      = filter (\<lambda>e. \<not> (ie_node e = n \<and> ie_action e \<in> set ids)) q" for q
    by (induction ids arbitrary: q) (auto intro: filter_cong)
  then show ?thesis by (simp add: remove_incoming_def)
qed

lemma record_checked_set:
  "set (fold (\<lambda>i checked. if i \<in> set checked then checked else checked @ [i]) ids c) = set c \<union> set ids"
  by (induction ids arbitrary: c) auto

lemma record_checked_at:
  "record_checked n ids bs n = Some b' \<Longrightarrow> \<exists>b. bs n = Some b \<and> set (bl_checked b') = set (bl_checked b) \<union> set ids"
  "m \<noteq> n \<Longrightarrow> record_checked n ids bs m = bs m"
  by (auto simp: record_checked_def record_checked_set split: option.splits)

text \<open>An evaluation resolves exactly the pending changes it covers: the verdict recorded is the
  node's latest and names changes that were pending, exactly those leave the queue, the node's
  snapshot notes it was checked against them, and no other node's queue or snapshot moves.\<close>
theorem resolve_exact:
  assumes "resolve_incoming now n affects note ids conv db = Inr (v, db')"
    and "\<And>w. w \<in> set (ic_verdicts db) \<Longrightarrow> iv_id w < ic_next db"
  shows "latest_verdict n db' = Some v \<and> iv_affects v \<in> set AFFECTS \<and> iv_actions v \<noteq> []
   \<and> set (iv_actions v) = {i. (\<exists>e \<in> set (ic_queue db). ie_node e = n \<and> ie_action e = i)
                             \<and> is_none_or (\<lambda>ids. i \<in> set ids) ids}
   \<and> ic_queue db' = filter (\<lambda>e. \<not> (ie_node e = n \<and> ie_action e \<in> set (iv_actions v))) (ic_queue db)
   \<and> (\<forall>b'. ic_baselines db' n = Some b' \<longrightarrow> set (iv_actions v) \<subseteq> set (bl_checked b'))
   \<and> (\<forall>m. m \<noteq> n \<longrightarrow> ic_baselines db' m = ic_baselines db m)"
proof -
  obtain a where a: "find (\<lambda>a. map ascii_lower a = map ascii_lower (trim affects)) AFFECTS = Some a"
    using assms(1) by (auto simp: resolve_incoming_def split: option.splits)
  define ids' where "ids' = (case ids of Some ids \<Rightarrow> filter (\<lambda>i. i \<in> set (map ie_action (pending_incoming n (ic_queue db)))) ids
      | None \<Rightarrow> map ie_action (pending_incoming n (ic_queue db)))"
  have v: "v = \<lparr>iv_id = ic_next db, iv_node = n, iv_affects = a, iv_note = trim note, iv_actions = ids',
              iv_conversation = conv, iv_created = now\<rparr>"
    and ne: "ids' \<noteq> []"
    and db': "db' = remove_incoming n ids' (db\<lparr>ic_verdicts := ic_verdicts db @ [v], ic_next := ic_next db + 1\<rparr>)"
    using assms(1) a by (auto simp: resolve_incoming_def Let_def ids'_def split: if_splits)
  have verdicts: "ic_verdicts db' = ic_verdicts db @ [v]" by (simp add: db' remove_incoming_def)
  have "incoming_verdicts n db' = incoming_verdicts n db @ [v]"
  proof -
    have "sort_key iv_id (xs @ [v]) = sort_key iv_id xs @ [v]" if "\<And>w. w \<in> set xs \<Longrightarrow> iv_id w \<le> iv_id v" for xs
      using that
    proof (induction xs)
      case (Cons x xs)
      have "insort_key iv_id x (ys @ [v]) = insort_key iv_id x ys @ [v]" for ys
        using Cons.prems by (induction ys) auto
      then show ?case using Cons by simp
    qed simp
    note snoc = this
    have "iv_id w \<le> iv_id v" if "w \<in> set (ic_verdicts db)" for w
      using assms(2)[OF that] by (simp add: v)
    then have "sort_key iv_id (filter (\<lambda>v. iv_node v = n) (ic_verdicts db) @ [v])
        = sort_key iv_id (filter (\<lambda>v. iv_node v = n) (ic_verdicts db)) @ [v]"
      by (intro snoc) simp
    moreover have "iv_node v = n" by (simp add: v)
    ultimately show ?thesis by (simp add: incoming_verdicts_def verdicts)
  qed
  then have latest: "latest_verdict n db' = Some v" by (simp add: latest_verdict_def)
  have "a \<in> set AFFECTS" using find_Some_in[OF a] by simp
  moreover have "set ids' = {i. (\<exists>e \<in> set (ic_queue db). ie_node e = n \<and> ie_action e = i) \<and> is_none_or (\<lambda>ids. i \<in> set ids) ids}"
    by (cases ids) (auto simp: ids'_def pending_incoming_def)
  moreover have "ic_queue db' = filter (\<lambda>e. \<not> (ie_node e = n \<and> ie_action e \<in> set ids')) (ic_queue db)"
    by (simp add: db' remove_queue)
  moreover have "ic_baselines db' = record_checked n ids' (ic_baselines db)"
    by (simp add: db' remove_incoming_def)
  ultimately show ?thesis
    using latest ne record_checked_at[where n = n and ids = ids' and bs = "ic_baselines db"] by (auto simp: v)
qed

definition sample_incoming :: incoming_db where
  "sample_incoming = \<lparr>ic_queue = [\<lparr>ie_node = 7, ie_action = 3, ie_via = Ancestor, ie_source = 1, ie_queued = 2\<rparr>],
     ic_verdicts = [], ic_next = 1, ic_baselines = (\<lambda>_. None)\<rparr>"

theorem resolve_exact_witness:
  "\<exists>v db'. resolve_incoming 9 7 ''plan'' ''renamed'' None None sample_incoming = Inr (v, db')
     \<and> latest_verdict 7 db' = Some v \<and> ic_queue db' = []"
proof -
  have "trim ''plan'' = ''plan''" "trim ''renamed'' = ''renamed''" by (simp_all add: trim_def is_space_def)
  moreover have "find (\<lambda>a. map ascii_lower a = map ascii_lower ''plan'') AFFECTS = Some AFFECTS_PLAN"
    by code_simp
  ultimately obtain v db' where r: "resolve_incoming 9 7 ''plan'' ''renamed'' None None sample_incoming = Inr (v, db')"
    by (simp add: resolve_incoming_def pending_incoming_def sample_incoming_def Let_def)
  then have "latest_verdict 7 db' = Some v \<and> iv_actions v \<noteq> []
     \<and> set (iv_actions v) = {3} \<and> ic_queue db' = filter (\<lambda>e. \<not> (ie_node e = 7 \<and> ie_action e \<in> set (iv_actions v))) (ic_queue sample_incoming)"
    using resolve_exact[OF r] by (simp add: sample_incoming_def)
  then show ?thesis using r by (simp add: sample_incoming_def)
qed

section \<open>The net change of each item\<close>

text \<open>What a list of pending entries on one item, oldest first, comes to.\<close>

definition whole_change :: "(incoming_entry \<times> recorded_action) list \<Rightarrow> pending_change" where
  "whole_change ers =
     \<lparr>pc_entity = ra_entity (snd (hd ers)), pc_entity_id = ra_entity_id (snd (hd ers)), pc_op = NetEdited,
      pc_before = ra_before (snd (hd ers)), pc_after = ra_after (snd (last ers)), pc_via = ie_via (fst (last ers)),
      pc_source = ie_source (fst (last ers)), pc_actions = map (ie_action \<circ> fst) ers\<rparr>"

definition firsts :: "'k list \<Rightarrow> 'k list" where
  "firsts ks = fold (\<lambda>k acc. if k \<in> set acc then acc else acc @ [k]) ks []"

lemma set_firsts [simp]: "set (firsts ks) = set ks" and distinct_firsts: "distinct (firsts ks)"
proof -
  have "set (fold (\<lambda>k acc. if k \<in> set acc then acc else acc @ [k]) ks acc) = set acc \<union> set ks
      \<and> (distinct acc \<longrightarrow> distinct (fold (\<lambda>k acc. if k \<in> set acc then acc else acc @ [k]) ks acc))" for acc
    by (induction ks arbitrary: acc) auto
  then show "set (firsts ks) = set ks" "distinct (firsts ks)" by (auto simp: firsts_def)
qed

lemma firsts_snoc [simp]: "firsts (ks @ [k]) = (if k \<in> set ks then firsts ks else firsts ks @ [k])"
proof -
  have "firsts (ks @ [k]) = (if k \<in> set (firsts ks) then firsts ks else firsts ks @ [k])"
    by (simp add: firsts_def)
  then show ?thesis by simp
qed

abbreviation of_key :: "string \<times> uuid \<Rightarrow> (incoming_entry \<times> recorded_action) list \<Rightarrow> (incoming_entry \<times> recorded_action) list" where
  "of_key k ers \<equiv> filter (\<lambda>er. action_key (snd er) = k) ers"

lemma whole_key: "of_key k ers \<noteq> [] \<Longrightarrow> change_key (whole_change (of_key k ers)) = k"
proof -
  assume "of_key k ers \<noteq> []"
  then have "hd (of_key k ers) \<in> set (of_key k ers)" by (rule hd_in_set)
  then show ?thesis by (auto simp: change_key_def whole_change_def action_key_def)
qed

lemma whole_snoc:
  "ers \<noteq> [] \<Longrightarrow> whole_change (ers @ [(e, r)]) = (whole_change ers)
     \<lparr>pc_after := ra_after r, pc_via := ie_via e, pc_source := ie_source e,
      pc_actions := pc_actions (whole_change ers) @ [ie_action e]\<rparr>"
  by (simp add: whole_change_def)

lemma net_step_hit:
  assumes "\<And>k. k \<in> set ks \<Longrightarrow> change_key (f k) = k" "action_key r \<in> set ks"
  shows "net_step (e, r) (map f ks) = map (\<lambda>k. if k = action_key r
     then (f k)\<lparr>pc_after := ra_after r, pc_via := ie_via e, pc_source := ie_source e,
                pc_actions := pc_actions (f k) @ [ie_action e]\<rparr> else f k) ks"
proof -
  have "list_ex (\<lambda>c. change_key c = action_key r) (map f ks)" using assms by (auto simp: list_ex_iff)
  then show ?thesis using assms(1) by (auto simp: net_step_def)
qed

lemma net_step_miss:
  assumes "\<And>k. k \<in> set ks \<Longrightarrow> change_key (f k) = k" "action_key r \<notin> set ks"
  shows "net_step (e, r) (map f ks) = map f ks @ [whole_change [(e, r)]]"
proof -
  have "\<not> list_ex (\<lambda>c. change_key c = action_key r) (map f ks)" using assms by (auto simp: list_ex_iff)
  then show ?thesis by (simp add: net_step_def whole_change_def)
qed

lemma net_groups: "fold net_step ers [] = map (\<lambda>k. whole_change (of_key k ers)) (firsts (map (action_key \<circ> snd) ers))"
proof (induction ers rule: rev_induct)
  case (snoc er ers)
  obtain e r where er: "er = (e, r)" by (cases er)
  let ?ks = "map (action_key \<circ> snd) ers"
  have ne: "of_key k ers \<noteq> []" if "k \<in> set (firsts ?ks)" for k using that by (auto simp: filter_empty_conv)
  have keys: "change_key (whole_change (of_key k ers)) = k" if "k \<in> set (firsts ?ks)" for k
    using whole_key[OF ne[OF that]] .
  have step: "fold net_step (ers @ [er]) [] = net_step (e, r) (map (\<lambda>k. whole_change (of_key k ers)) (firsts ?ks))"
    unfolding fold_append comp_def fold_simps id_apply snoc er ..
  show ?case
  proof (cases "action_key r \<in> set (firsts ?ks)")
    case True
    have ks: "firsts (map (action_key \<circ> snd) (ers @ [er])) = firsts ?ks" using True by (simp add: er)
    have "map (\<lambda>k. if k = action_key r then (whole_change (of_key k ers))\<lparr>pc_after := ra_after r, pc_via := ie_via e,
        pc_source := ie_source e, pc_actions := pc_actions (whole_change (of_key k ers)) @ [ie_action e]\<rparr>
        else whole_change (of_key k ers)) (firsts ?ks) = map (\<lambda>k. whole_change (of_key k (ers @ [er]))) (firsts ?ks)"
    proof (rule map_cong[OF refl])
      fix k assume "k \<in> set (firsts ?ks)"
      then have "of_key k ers \<noteq> []" by (rule ne)
      then show "(if k = action_key r then (whole_change (of_key k ers))\<lparr>pc_after := ra_after r, pc_via := ie_via e,
        pc_source := ie_source e, pc_actions := pc_actions (whole_change (of_key k ers)) @ [ie_action e]\<rparr>
        else whole_change (of_key k ers)) = whole_change (of_key k (ers @ [er]))"
        by (cases "k = action_key r") (simp_all add: er whole_snoc)
    qed
    then show ?thesis unfolding ks step using net_step_hit[OF keys True] by simp
  next
    case False
    have none: "of_key (action_key r) ers = []" using False by (force simp: filter_empty_conv)
    have ks: "firsts (map (action_key \<circ> snd) (ers @ [er])) = firsts ?ks @ [action_key r]" using False by (simp add: er)
    have "map (\<lambda>k. whole_change (of_key k ers)) (firsts ?ks) = map (\<lambda>k. whole_change (of_key k (ers @ [er]))) (firsts ?ks)"
      by (rule map_cong[OF refl]) (use False in \<open>auto simp: er simp del: set_firsts\<close>)
    then show ?thesis unfolding ks step using net_step_miss[OF keys False] by (simp add: er none)
  qed
qed (simp add: firsts_def)

lemma set_map_filter: "set (List.map_filter f xs) = {y. \<exists>x \<in> set xs. f x = Some y}"
  by (force simp: map_filter_def)

text \<open>C37: The pending changes a node is shown are their net effect: one change per item, from the
  state before its first pending action to the state after its last, covering all of them; an
  item that ends as it began, as far as it is inherited, is not shown.\<close>
theorem net_pending_exact:
  "(\<forall>c. c \<in> set (net_pending n action q) \<longleftrightarrow>
     (\<exists>k. of_key k (pending_actions n action q) \<noteq> []
        \<and> net_kept (whole_change (of_key k (pending_actions n action q))) = Some c))
   \<and> distinct (map change_key (net_pending n action q))"
proof (rule conjI[OF allI])
  let ?ers = "pending_actions n action q"
  let ?ks = "firsts (map (action_key \<circ> snd) ?ers)"
  have eq: "net_pending n action q = List.map_filter net_kept (map (\<lambda>k. whole_change (of_key k ?ers)) ?ks)"
    by (simp add: net_pending_def net_groups del: map_map)
  have ks: "k \<in> set ?ks \<longleftrightarrow> of_key k ?ers \<noteq> []" for k by (auto simp: filter_empty_conv)
  show "c \<in> set (net_pending n action q) \<longleftrightarrow> (\<exists>k. of_key k ?ers \<noteq> [] \<and> net_kept (whole_change (of_key k ?ers)) = Some c)" for c
    unfolding eq set_map_filter set_map using ks by (simp only: bex_simps mem_Collect_eq) blast
  have kept_key: "net_kept c = Some d \<Longrightarrow> change_key d = change_key c" for c d
    by (auto simp: net_kept_def change_key_def split: option.splits if_splits)
  have "map change_key (List.map_filter net_kept cs) = filter (\<lambda>k. True) (map change_key (filter (\<lambda>c. net_kept c \<noteq> None) cs))" for cs
    by (auto simp: map_filter_def comp_def kept_key)
  moreover have "distinct (map change_key (map (\<lambda>k. whole_change (of_key k ?ers)) ?ks))"
  proof -
    have "map change_key (map (\<lambda>k. whole_change (of_key k ?ers)) ?ks) = ?ks"
      unfolding map_map by (rule map_idI) (use ks whole_key in simp)
    then show ?thesis by (simp add: distinct_firsts)
  qed
  ultimately show "distinct (map change_key (net_pending n action q))"
    unfolding eq by (simp add: distinct_map_filter del: map_map)
qed

end
