(* ===== verification/Conversations.thy ===== *)
theory Conversations
  imports Outcomes Review "HOL-Library.Product_Lexorder"
begin

text \<open>
  Conversations, their turns and their reports
  (\<^verbatim>\<open>tod-store/src/conversation/repo.rs\<close>, \<^verbatim>\<open>conversation/types.rs\<close>), and what a review
  conversation's report says (\<^verbatim>\<open>tod-core/src/conversation/review.rs\<close>). Actions are in
  \<^verbatim>\<open>ActionLog\<close>.
\<close>

section \<open>Focus\<close>

datatype focus = FProject | FNode uuid | FObligation uuid uuid | FPlanStep uuid uuid
  \<comment> \<open>the node, then the item\<close>

primrec focus_kind_str :: "focus \<Rightarrow> string" where
  "focus_kind_str FProject = ''project''"
| "focus_kind_str (FNode i) = ''node''"
| "focus_kind_str (FObligation n i) = ''obligation''"
| "focus_kind_str (FPlanStep n i) = ''plan_step''"

primrec focus_id :: "focus \<Rightarrow> uuid option" where
  "focus_id FProject = None"
| "focus_id (FNode i) = Some i"
| "focus_id (FObligation n i) = Some i"
| "focus_id (FPlanStep n i) = Some i"

primrec focus_node :: "focus \<Rightarrow> uuid option" where
  "focus_node FProject = None"
| "focus_node (FNode i) = Some i"
| "focus_node (FObligation n i) = Some n"
| "focus_node (FPlanStep n i) = Some n"

primrec focus_node_column :: "focus \<Rightarrow> uuid option" where
  "focus_node_column FProject = None"
| "focus_node_column (FNode i) = None"
| "focus_node_column (FObligation n i) = Some n"
| "focus_node_column (FPlanStep n i) = Some n"

definition focus_need :: "string \<Rightarrow> string \<Rightarrow> uuid option \<Rightarrow> uuid fallible" where
  "focus_need kind what v =
     (case v of Some i \<Rightarrow> Inr i | None \<Rightarrow> Inl (kind @ '' focus is missing its '' @ what))"

definition focus_from_columns :: "string \<Rightarrow> uuid option \<Rightarrow> uuid option \<Rightarrow> focus fallible" where
  "focus_from_columns kind i n =
     (if kind = ''project'' then Inr FProject
      else if kind = ''node'' then (case focus_need kind ''id'' i of Inl e \<Rightarrow> Inl e | Inr i' \<Rightarrow> Inr (FNode i'))
      else if kind = ''obligation'' \<or> kind = ''plan_step'' then
        (case focus_need kind ''node'' n of
           Inl e \<Rightarrow> Inl e
         | Inr n' \<Rightarrow> (case focus_need kind ''id'' i of
             Inl e \<Rightarrow> Inl e
           | Inr i' \<Rightarrow> Inr (if kind = ''obligation'' then FObligation n' i' else FPlanStep n' i')))
      else Inl (''unknown focus kind `'' @ kind @ ''`''))"

text \<open>A focus survives being written to its columns and read back.\<close>

lemma focus_roundtrip: "focus_from_columns (focus_kind_str f) (focus_id f) (focus_node_column f) = Inr f"
  by (cases f) (simp_all add: focus_from_columns_def focus_need_def)

text \<open>The columns name the node an item lives on: \<^verbatim>\<open>focus_node_id = n\<close>, or a node focus whose
  id is \<open>n\<close>.\<close>

lemma focus_node_columns:
  "focus_node f = Some n \<longleftrightarrow>
     focus_node_column f = Some n \<or> focus_kind_str f = ''node'' \<and> focus_id f = Some n"
  by (cases f) simp_all

section \<open>Rows\<close>

text \<open>\<^verbatim>\<open>serde_json::Value\<close> (its numbers are only ever integers here).\<close>

datatype json =
  JNull | JBool bool | JNum int | JStr string | JArr "json list" | JObj "(string \<times> json) list"

definition json_get :: "string \<Rightarrow> json \<Rightarrow> json option" where
  "json_get k v = (case v of JObj kvs \<Rightarrow> map_of kvs k | _ \<Rightarrow> None)"

definition json_str :: "json \<Rightarrow> string option" where
  "json_str v = (case v of JStr s \<Rightarrow> Some s | _ \<Rightarrow> None)"

datatype turn_role = RoleUser | RoleAgent | RoleError | RoleRotation | RoleContinuation

record turn =
  tn_seq :: nat
  tn_role :: turn_role
  tn_body :: string
  tn_parts :: "json list"
  tn_sent :: "string option"
  tn_attachments :: "json list"
  tn_created :: ms

record conversation =
  c_id :: uuid
  c_focus :: focus
  c_protocol :: protocol_kind
  c_agent_run :: "string option"
  c_agent_session :: "string option"
  c_session_name :: "string option"
  c_platform :: "string option"
  c_model :: "string option"
  c_effort :: "string option"
  c_from_state :: "string option"
  c_to_state :: "string option"
  c_skill_group :: nat
  c_opening :: "string option"
  c_created :: ms
  c_updated :: ms

record conv_db =
  cv_rows :: "conversation list"
  cv_turns :: "(uuid \<times> turn) list"
  cv_reports :: "(uuid \<times> nat \<times> json) list"

definition get_conversation :: "uuid \<Rightarrow> conv_db \<Rightarrow> conversation option" where
  "get_conversation i db = find (\<lambda>c. c_id c = i) (cv_rows db)"

definition create_conversation ::
    "uuid \<Rightarrow> ms \<Rightarrow> focus \<Rightarrow> protocol_kind \<Rightarrow> string option \<Rightarrow> string option \<Rightarrow> string option \<Rightarrow> conv_db
     \<Rightarrow> (conversation \<times> conv_db) fallible" where
  "create_conversation i now f p platform model effort db =
     (if i \<in> c_id ` set (cv_rows db) then Inl ''UNIQUE constraint failed: conversations.id''
      else let c = \<lparr>c_id = i, c_focus = f, c_protocol = p, c_agent_run = None, c_agent_session = None,
                    c_session_name = None, c_platform = platform, c_model = model, c_effort = effort,
                    c_from_state = None, c_to_state = None, c_skill_group = 0, c_opening = None,
                    c_created = now, c_updated = now\<rparr>
           in Inr (c, db\<lparr>cv_rows := cv_rows db @ [c]\<rparr>))"

definition map_conversation :: "uuid \<Rightarrow> (conversation \<Rightarrow> conversation) \<Rightarrow> conv_db \<Rightarrow> conv_db" where
  "map_conversation i f db = db\<lparr>cv_rows := map (\<lambda>c. if c_id c = i then f c else c) (cv_rows db)\<rparr>"

definition ensure_conversation :: "uuid \<Rightarrow> conv_db \<Rightarrow> conv_db \<Rightarrow> conv_db fallible" where
  "ensure_conversation i before after =
     (if get_conversation i before = None then Inl (''conversation '' @ show_uuid i @ '' not found'') else Inr after)"

definition set_transition :: "uuid \<Rightarrow> string \<Rightarrow> string \<Rightarrow> conv_db \<Rightarrow> conv_db" where
  "set_transition i from to db = map_conversation i (\<lambda>c. c\<lparr>c_from_state := Some from, c_to_state := Some to\<rparr>) db"

definition set_agent_run :: "uuid \<Rightarrow> string option \<Rightarrow> ms \<Rightarrow> conv_db \<Rightarrow> conv_db" where
  "set_agent_run i run now db = map_conversation i (\<lambda>c. c\<lparr>c_agent_run := run, c_updated := now\<rparr>) db"

definition set_agent_session ::
    "uuid \<Rightarrow> string option \<Rightarrow> string option \<Rightarrow> ms \<Rightarrow> conv_db \<Rightarrow> conv_db fallible" where
  "set_agent_session i session name now db =
     ensure_conversation i db (map_conversation i (\<lambda>c. c\<lparr>c_agent_session := session,
       c_session_name := (case name of None \<Rightarrow> c_session_name c | Some s \<Rightarrow> Some s), c_updated := now\<rparr>) db)"

definition set_skill_group :: "uuid \<Rightarrow> nat \<Rightarrow> conv_db \<Rightarrow> conv_db fallible" where
  "set_skill_group i g db = ensure_conversation i db (map_conversation i (\<lambda>c. c\<lparr>c_skill_group := g\<rparr>) db)"

definition skill_group :: "uuid \<Rightarrow> conv_db \<Rightarrow> nat" where
  "skill_group i db = (case get_conversation i db of None \<Rightarrow> 0 | Some c \<Rightarrow> c_skill_group c)"

definition set_opening_context :: "uuid \<Rightarrow> string \<Rightarrow> conv_db \<Rightarrow> conv_db fallible" where
  "set_opening_context i context db =
     ensure_conversation i db (map_conversation i (\<lambda>c. c\<lparr>c_opening := Some context\<rparr>) db)"

definition opening_context :: "uuid \<Rightarrow> conv_db \<Rightarrow> string option" where
  "opening_context i db = (case get_conversation i db of None \<Rightarrow> None | Some c \<Rightarrow> c_opening c)"

text \<open>\<^verbatim>\<open>focus_kind = ?1 AND focus_id IS ?2\<close>, most recently updated first.\<close>

definition same_focus :: "focus \<Rightarrow> conversation \<Rightarrow> bool" where
  "same_focus f c = (focus_kind_str (c_focus c) = focus_kind_str f \<and> focus_id (c_focus c) = focus_id f)"

definition newest_first :: "conversation list \<Rightarrow> conversation list" where
  "newest_first cs = sort_key (\<lambda>c. (- c_updated c, - c_created c)) cs"

definition for_focus :: "focus \<Rightarrow> protocol_kind option \<Rightarrow> conv_db \<Rightarrow> conversation list" where
  "for_focus f p db =
     newest_first (filter (\<lambda>c. same_focus f c \<and> is_none_or (\<lambda>p'. c_protocol c = p') p) (cv_rows db))"

definition conversations_for_focus :: "focus \<Rightarrow> conv_db \<Rightarrow> conversation list" where
  "conversations_for_focus f db = for_focus f None db"

definition latest_for_focus :: "focus \<Rightarrow> conv_db \<Rightarrow> conversation option" where
  "latest_for_focus f db = (case for_focus f None db of [] \<Rightarrow> None | c # _ \<Rightarrow> Some c)"

definition latest_for_focus_with_protocol :: "focus \<Rightarrow> protocol_kind \<Rightarrow> conv_db \<Rightarrow> conversation option" where
  "latest_for_focus_with_protocol f p db =
     (case newest_first (filter (\<lambda>c. same_focus f c \<and> c_protocol c = p \<and> c_skill_group c = 0) (cv_rows db)) of
        [] \<Rightarrow> None | c # _ \<Rightarrow> Some c)"

section \<open>Turns\<close>

definition conv_turns :: "uuid \<Rightarrow> conv_db \<Rightarrow> turn list" where
  "conv_turns i db = sort_key tn_seq (map snd (filter (\<lambda>(j, _). j = i) (cv_turns db)))"

definition turns_range :: "uuid \<Rightarrow> nat \<Rightarrow> nat \<Rightarrow> conv_db \<Rightarrow> turn list" where
  "turns_range i from to db = filter (\<lambda>t. from \<le> tn_seq t \<and> tn_seq t \<le> to) (conv_turns i db)"

text \<open>\<^verbatim>\<open>SELECT COALESCE(MAX(seq), 0)\<close>.\<close>

definition max_seq :: "uuid \<Rightarrow> conv_db \<Rightarrow> nat" where
  "max_seq i db = fold max (map (\<lambda>(_, t). tn_seq t) (filter (\<lambda>(j, _). j = i) (cv_turns db))) 0"

definition max_user_seq :: "uuid \<Rightarrow> conv_db \<Rightarrow> nat" where
  "max_user_seq i db =
     fold max (map (\<lambda>(_, t). tn_seq t) (filter (\<lambda>(j, t). j = i \<and> tn_role t = RoleUser) (cv_turns db))) 0"

definition append_turn_with_parts_and_context ::
    "uuid \<Rightarrow> turn_role \<Rightarrow> string \<Rightarrow> json list \<Rightarrow> string option \<Rightarrow> json list \<Rightarrow> ms \<Rightarrow> conv_db
     \<Rightarrow> (turn \<times> conv_db) fallible" where
  "append_turn_with_parts_and_context i role body parts sent attachments now db =
     (let t = \<lparr>tn_seq = max_seq i db + 1, tn_role = role, tn_body = body, tn_parts = parts, tn_sent = sent,
               tn_attachments = attachments, tn_created = now\<rparr>
      in if get_conversation i db = None then Inl ''FOREIGN KEY constraint failed''
         else Inr (t, map_conversation i (\<lambda>c. c\<lparr>c_updated := now\<rparr>) (db\<lparr>cv_turns := cv_turns db @ [(i, t)]\<rparr>)))"

definition append_turn :: "uuid \<Rightarrow> turn_role \<Rightarrow> string \<Rightarrow> ms \<Rightarrow> conv_db \<Rightarrow> (turn \<times> conv_db) fallible" where
  "append_turn i role body now db = append_turn_with_parts_and_context i role body [] None [] now db"

definition interrupted :: "conv_db \<Rightarrow> uuid list" where
  "interrupted db = map fst (filter (\<lambda>(i, t). tn_role t \<in> {RoleUser, RoleContinuation} \<and> tn_seq t = max_seq i db) (cv_turns db))"

fun append_each :: "uuid list \<Rightarrow> string \<Rightarrow> ms \<Rightarrow> conv_db \<Rightarrow> conv_db fallible" where
  "append_each [] body now db = Inr db"
| "append_each (i # is) body now db =
     (case append_turn i RoleError body now db of Inl e \<Rightarrow> Inl e | Inr (_, db') \<Rightarrow> append_each is body now db')"

definition close_interrupted_turns :: "string \<Rightarrow> ms \<Rightarrow> conv_db \<Rightarrow> (uuid list \<times> conv_db) fallible" where
  "close_interrupted_turns body now db =
     (case append_each (interrupted db) body now db of Inl e \<Rightarrow> Inl e | Inr db' \<Rightarrow> Inr (interrupted db, db'))"

section \<open>Reports\<close>

definition record_report :: "uuid \<Rightarrow> json \<Rightarrow> conv_db \<Rightarrow> (nat \<times> conv_db) fallible" where
  "record_report i body db =
     (let seq = max_seq i db
      in if get_conversation i db = None then Inl ''FOREIGN KEY constraint failed''
         else Inr (seq, db\<lparr>cv_reports :=
           (if list_ex (\<lambda>(j, s, _). j = i \<and> s = seq) (cv_reports db)
            then map (\<lambda>(j, s, b). if j = i \<and> s = seq then (j, s, body) else (j, s, b)) (cv_reports db)
            else cv_reports db @ [(i, seq, body)])\<rparr>))"

definition report_since :: "uuid \<Rightarrow> nat \<Rightarrow> conv_db \<Rightarrow> json option" where
  "report_since i from db =
     map_option (\<lambda>(_, _, b). b)
       (max_by_key (\<lambda>(_, s, _). s) (filter (\<lambda>(j, s, _). j = i \<and> from \<le> s) (cv_reports db)))"

definition latest_report :: "uuid \<Rightarrow> conv_db \<Rightarrow> json option" where
  "latest_report i db =
     map_option (\<lambda>(_, _, b). b) (max_by_key (\<lambda>(_, s, _). s) (filter (\<lambda>(j, _, _). j = i) (cv_reports db)))"

section \<open>What a review reports\<close>

definition done_report :: json where
  "done_report = JObj [(''review'', JStr ''done'')]"

definition is_done_report :: "json \<Rightarrow> bool" where
  "is_done_report r = (Option.bind (json_get ''review'' r) json_str = Some ''done'')"

definition review_recorded_done :: "uuid \<Rightarrow> conv_db \<Rightarrow> bool" where
  "review_recorded_done n db =
     (case latest_for_focus_with_protocol (FNode n) PkReview db of
        None \<Rightarrow> False
      | Some c \<Rightarrow> is_some_and is_done_report (latest_report (c_id c) db))"

definition review_passed :: "uuid \<Rightarrow> conv_db \<Rightarrow> finding list \<Rightarrow> bool" where
  "review_passed n db fs =
     (case latest_for_focus_with_protocol (FNode n) PkReview db of
        None \<Rightarrow> False
      | Some c \<Rightarrow>
          is_some_and is_done_report (latest_report (c_id c) db)
          \<and> list_all (\<lambda>f. fi_status f \<in> {FINDING_OUT_OF_SCOPE, FINDING_DECLINED})
              (filter (\<lambda>f. fi_conversation f = Some (c_id c)) (findings_for_node n fs)))"

lemma passed_recorded: "review_passed n db fs \<Longrightarrow> review_recorded_done n db"
  by (auto simp: review_passed_def review_recorded_done_def split: option.splits)

section \<open>The tables\<close>

definition own_turns :: "uuid \<Rightarrow> conv_db \<Rightarrow> turn list" where
  "own_turns i db = map snd (filter (\<lambda>(j, _). j = i) (cv_turns db))"

definition wf_conv :: "conv_db \<Rightarrow> bool" where
  "wf_conv db \<longleftrightarrow> distinct (map c_id (cv_rows db))
     \<and> (\<forall>(i, t) \<in> set (cv_turns db). i \<in> c_id ` set (cv_rows db))
     \<and> (\<forall>i. map tn_seq (own_turns i db) = [1..<Suc (length (own_turns i db))])"

lemma get_conversation_None: "get_conversation i db = None \<longleftrightarrow> i \<notin> c_id ` set (cv_rows db)"
  by (auto simp: get_conversation_def find_None_iff)

lemma map_conversation_simps [simp]:
  "cv_turns (map_conversation i f db) = cv_turns db" "cv_reports (map_conversation i f db) = cv_reports db"
  "own_turns j (map_conversation i f db) = own_turns j db"
  by (simp_all add: map_conversation_def own_turns_def)

lemma map_conversation_ids:
  "(\<And>c. c_id (f c) = c_id c) \<Longrightarrow> map c_id (cv_rows (map_conversation i f db)) = map c_id (cv_rows db)"
  by (auto simp: map_conversation_def)

lemma wf_map_conversation: "(\<And>c. c_id (f c) = c_id c) \<Longrightarrow> wf_conv db \<Longrightarrow> wf_conv (map_conversation i f db)"
  using map_conversation_ids[of f i db] by (simp add: wf_conv_def) (metis list.set_map)

lemma seq_max: "map tn_seq ts = [1..<Suc (length ts)] \<Longrightarrow> fold max (map tn_seq ts) 0 = length ts"
proof (induction ts rule: rev_induct)
  case (snoc t ts)
  then have "map tn_seq ts @ [tn_seq t] = [1..<Suc (length ts)] @ [Suc (length ts)]" by simp
  then have "map tn_seq ts = [1..<Suc (length ts)]" "tn_seq t = Suc (length ts)" by simp_all
  then show ?case using snoc.IH by simp
qed simp

lemma max_seq_own: "max_seq i db = fold max (map tn_seq (own_turns i db)) 0"
proof -
  have "(\<lambda>(_, t). tn_seq t) = tn_seq \<circ> (snd :: uuid \<times> turn \<Rightarrow> turn)" by auto
  then show ?thesis by (simp add: max_seq_def own_turns_def)
qed

lemma max_seq_length: "wf_conv db \<Longrightarrow> max_seq i db = length (own_turns i db)"
  unfolding max_seq_own by (rule seq_max) (simp add: wf_conv_def)

lemma conv_turns_own: "wf_conv db \<Longrightarrow> conv_turns i db = own_turns i db"
proof -
  assume "wf_conv db"
  then have "sorted (map tn_seq (own_turns i db))" by (simp add: wf_conv_def del: upt_Suc)
  then show ?thesis by (simp add: conv_turns_def own_turns_def sort_key_id_if_sorted)
qed

definition error_turn :: "nat \<Rightarrow> string \<Rightarrow> ms \<Rightarrow> turn" where
  "error_turn seq body now = \<lparr>tn_seq = seq, tn_role = RoleError, tn_body = body, tn_parts = [], tn_sent = None,
     tn_attachments = [], tn_created = now\<rparr>"

text \<open>Appending a turn numbers it next and touches no other conversation.\<close>

lemma append_turn_own:
  assumes "append_turn_with_parts_and_context i role body parts sent atts now db = Inr (t, db')"
  shows "own_turns j db' = own_turns j db @ (if j = i then [t] else [])"
    and "tn_seq t = max_seq i db + 1" "tn_role t = role" "tn_body t = body"
    and "c_id ` set (cv_rows db') = c_id ` set (cv_rows db)"
proof -
  have c: "get_conversation i db \<noteq> None"
    and t: "t = \<lparr>tn_seq = max_seq i db + 1, tn_role = role, tn_body = body, tn_parts = parts, tn_sent = sent,
               tn_attachments = atts, tn_created = now\<rparr>"
    and db': "db' = map_conversation i (\<lambda>c. c\<lparr>c_updated := now\<rparr>) (db\<lparr>cv_turns := cv_turns db @ [(i, t)]\<rparr>)"
    using assms by (auto simp: append_turn_with_parts_and_context_def Let_def split: if_splits)
  show "own_turns j db' = own_turns j db @ (if j = i then [t] else [])"
    unfolding db' map_conversation_simps by (simp add: own_turns_def)
  show "tn_seq t = max_seq i db + 1" "tn_role t = role" "tn_body t = body" by (simp_all add: t)
  have "map c_id (cv_rows db') = map c_id (cv_rows db)" by (simp add: db' map_conversation_def)
  then show "c_id ` set (cv_rows db') = c_id ` set (cv_rows db)" by (metis list.set_map)
qed

lemma wf_append_turn:
  assumes "append_turn_with_parts_and_context i role body parts sent atts now db = Inr (t, db')" "wf_conv db"
  shows "wf_conv db'"
proof -
  have rows: "map c_id (cv_rows db') = map c_id (cv_rows db)"
    using assms(1) by (auto simp: append_turn_with_parts_and_context_def Let_def map_conversation_def split: if_splits)
  have turns: "cv_turns db' = cv_turns db @ [(i, t)]" and i: "i \<in> c_id ` set (cv_rows db)"
    using assms(1) by (auto simp: append_turn_with_parts_and_context_def Let_def get_conversation_None split: if_splits)
  have "map tn_seq (own_turns j db') = [1..<Suc (length (own_turns j db'))]" for j
    unfolding append_turn_own(1)[OF assms(1)]
    using assms(2) append_turn_own(2)[OF assms(1)] max_seq_length[OF assms(2), of i]
    by (auto simp: wf_conv_def)
  moreover have "c_id ` set (cv_rows db') = c_id ` set (cv_rows db)" using rows by (metis list.set_map)
  ultimately show ?thesis using assms(2) rows i by (auto simp: wf_conv_def turns simp del: upt_Suc)
qed

lemma append_turn_total: "i \<in> c_id ` set (cv_rows db) \<Longrightarrow> \<exists>t db'. append_turn i role body now db = Inr (t, db')"
  by (auto simp: append_turn_def append_turn_with_parts_and_context_def Let_def get_conversation_None)

lemma append_each_own:
  assumes "wf_conv db" "distinct is" "set is \<subseteq> c_id ` set (cv_rows db)"
  shows "\<exists>db'. append_each is body now db = Inr db' \<and> wf_conv db'
     \<and> (\<forall>j. own_turns j db' = own_turns j db @
            (if j \<in> set is then [error_turn (length (own_turns j db) + 1) body now] else []))"
  using assms
proof (induction "is" arbitrary: db)
  case (Cons i "is")
  obtain t db1 where ap: "append_turn i RoleError body now db = Inr (t, db1)"
    using append_turn_total[of i db RoleError body now] Cons.prems(3) by auto
  note own = append_turn_own[OF ap[unfolded append_turn_def]]
  have wf1: "wf_conv db1" by (rule wf_append_turn[OF ap[unfolded append_turn_def] Cons.prems(1)])
  obtain db' where rest: "append_each is body now db1 = Inr db'" "wf_conv db'"
    "\<And>j. own_turns j db' = own_turns j db1 @
            (if j \<in> set is then [error_turn (length (own_turns j db1) + 1) body now] else [])"
    using Cons.IH[OF wf1] Cons.prems(2,3) own(5) by auto
  have "t = error_turn (length (own_turns i db) + 1) body now"
    using ap max_seq_length[OF Cons.prems(1), of i]
    by (auto simp: append_turn_def append_turn_with_parts_and_context_def Let_def error_turn_def split: if_splits)
  then have "own_turns j db' = own_turns j db @
      (if j \<in> set (i # is) then [error_turn (length (own_turns j db) + 1) body now] else [])" for j
    using rest(3)[of j] own(1)[of j] Cons.prems(2) by (auto split: if_splits)
  then show ?case using rest(1,2) by (simp add: ap)
qed simp

text \<open>The turn a conversation waits on: its last one.\<close>

definition awaiting :: "uuid \<Rightarrow> conv_db \<Rightarrow> bool" where
  "awaiting i db = is_some_and (\<lambda>t. tn_role t \<in> {RoleUser, RoleContinuation}) (last_opt (own_turns i db))"

lemma seq_last:
  assumes "map tn_seq ts = [1..<Suc (length ts)]" "t \<in> set ts"
  shows "tn_seq t = length ts \<longleftrightarrow> last_opt ts = Some t"
proof -
  obtain k where k: "k < length ts" "ts ! k = t" using assms(2) by (auto simp: in_set_conv_nth)
  have "map tn_seq ts ! k = Suc k" using k by (simp add: assms(1) del: upt_Suc)
  then have s: "tn_seq t = Suc k" using k by simp
  have l: "last_opt ts = Some (ts ! (length ts - 1))" using k by (auto simp: last_opt_def last_conv_nth)
  have "tn_seq (ts ! (length ts - 1)) = length ts"
  proof -
    have "map tn_seq ts ! (length ts - 1) = length ts" using k by (simp add: assms(1) nth_append)
    then show ?thesis using k by simp
  qed
  moreover have "Suc k = length ts \<Longrightarrow> length ts - 1 = k" by simp
  ultimately show ?thesis using s k l by (metis option.inject)
qed

lemma own_turn_in: "t \<in> set (own_turns i db) \<longleftrightarrow> (i, t) \<in> set (cv_turns db)"
  by (force simp: own_turns_def image_iff)

lemma set_interrupted: "wf_conv db \<Longrightarrow> i \<in> set (interrupted db) \<longleftrightarrow> awaiting i db"
proof -
  assume wf: "wf_conv db"
  have seq: "map tn_seq (own_turns i db) = [1..<Suc (length (own_turns i db))]" for i using wf by (simp add: wf_conv_def del: upt_Suc)
  have "i \<in> set (interrupted db) \<longleftrightarrow>
      (\<exists>t \<in> set (own_turns i db). tn_role t \<in> {RoleUser, RoleContinuation} \<and> tn_seq t = length (own_turns i db))"
    by (force simp: interrupted_def max_seq_length[OF wf] own_turn_in)
  also have "\<dots> \<longleftrightarrow> (\<exists>t \<in> set (own_turns i db). tn_role t \<in> {RoleUser, RoleContinuation} \<and> last_opt (own_turns i db) = Some t)"
    using seq_last[OF seq] by blast
  also have "\<dots> \<longleftrightarrow> awaiting i db"
    by (auto simp: awaiting_def is_some_and_iff last_opt_def split: if_splits)
  finally show ?thesis .
qed

lemma distinct_turn_keys:
  assumes "wf_conv db"
  shows "distinct (map (\<lambda>(i, t). (i, tn_seq t)) (cv_turns db))"
proof -
  have "distinct (map (\<lambda>(i, t). (i, tn_seq t)) ts)"
    if "\<forall>i. distinct (map tn_seq (map snd (filter (\<lambda>(j, _). j = i) ts)))" for ts :: "(uuid \<times> turn) list"
    using that
  proof (induction ts)
    case (Cons p ts)
    obtain i t where p: "p = (i, t)" by (cases p)
    have "\<forall>j. distinct (map tn_seq (map snd (filter (\<lambda>(k, _). k = j) ts)))"
      using Cons.prems by (auto simp: p split: if_splits)
    moreover have "tn_seq t \<notin> tn_seq ` snd ` set (filter (\<lambda>(k, _). k = i) ts)"
      using Cons.prems[rule_format, of i] by (simp add: p image_image)
    then have "(i, tn_seq t) \<notin> (\<lambda>(i, t). (i, tn_seq t)) ` set ts" by force
    ultimately show ?case using Cons.IH by (simp add: p)
  qed simp
  moreover have "distinct (map tn_seq (map snd (filter (\<lambda>(j, _). j = i) (cv_turns db))))" for i
  proof -
    have "map tn_seq (own_turns i db) = [1..<Suc (length (own_turns i db))]" using assms by (simp add: wf_conv_def del: upt_Suc)
    then show ?thesis by (simp add: own_turns_def del: upt_Suc)
  qed
  ultimately show ?thesis by blast
qed

lemma distinct_interrupted:
  assumes "wf_conv db"
  shows "distinct (interrupted db)"
proof -
  let ?key = "\<lambda>(i, t). (i, tn_seq t)"
  let ?xs = "filter (\<lambda>(i, t). tn_role t \<in> {RoleUser, RoleContinuation} \<and> tn_seq t = max_seq i db) (cv_turns db)"
  have "distinct (cv_turns db)" "inj_on ?key (set (cv_turns db))"
    using distinct_turn_keys[OF assms] by (simp_all add: distinct_map)
  then have "distinct ?xs" by simp
  moreover have "inj_on fst (set ?xs)"
  proof (rule inj_onI)
    fix x y
    assume "x \<in> set ?xs" "y \<in> set ?xs" "fst x = fst y"
    then have "x \<in> set (cv_turns db)" "y \<in> set (cv_turns db)" "?key x = ?key y"
      by (auto simp: split_beta)
    then show "x = y" using \<open>inj_on ?key (set (cv_turns db))\<close> by (simp add: inj_on_def)
  qed
  ultimately show ?thesis by (simp add: interrupted_def distinct_map)
qed

section \<open>Every write\<close>

inductive conv_write :: "conv_db \<Rightarrow> conv_db \<Rightarrow> bool" where
  "create_conversation i now f p platform model effort db = Inr (c, db') \<Longrightarrow> conv_write db db'"
| "conv_write db (set_transition i from to db)"
| "conv_write db (set_agent_run i run now db)"
| "set_agent_session i session name now db = Inr db' \<Longrightarrow> conv_write db db'"
| "set_skill_group i g db = Inr db' \<Longrightarrow> conv_write db db'"
| "set_opening_context i context db = Inr db' \<Longrightarrow> conv_write db db'"
| "append_turn_with_parts_and_context i role body parts sent atts now db = Inr (t, db') \<Longrightarrow> conv_write db db'"
| "record_report i report db = Inr (seq, db') \<Longrightarrow> conv_write db db'"
| "close_interrupted_turns body now db = Inr (is, db') \<Longrightarrow> conv_write db db'"

lemma close_interrupted_own:
  assumes "wf_conv db"
  shows "\<exists>db'. close_interrupted_turns body now db = Inr (interrupted db, db') \<and> wf_conv db'
     \<and> (\<forall>j. own_turns j db' = own_turns j db @
            (if awaiting j db then [error_turn (length (own_turns j db) + 1) body now] else []))"
proof -
  have "set (interrupted db) \<subseteq> c_id ` set (cv_rows db)"
    using assms by (fastforce simp: interrupted_def wf_conv_def)
  from append_each_own[OF assms distinct_interrupted[OF assms] this, of body now]
  show ?thesis by (auto simp: close_interrupted_turns_def set_interrupted[OF assms])
qed

lemma conv_write_wf: "conv_write db db' \<Longrightarrow> wf_conv db \<Longrightarrow> wf_conv db'"
proof (induction rule: conv_write.induct)
  case (1 i now f p platform model effort db c db')
  then show ?case
    by (auto simp: create_conversation_def Let_def wf_conv_def own_turns_def image_iff simp del: upt_Suc split: if_splits)
next
  case (7 i role body parts sent atts now db t db')
  then show ?case by (blast intro: wf_append_turn)
next
  case (8 i report db seq db')
  then show ?case
    by (auto simp: record_report_def Let_def wf_conv_def own_turns_def simp del: upt_Suc split: if_splits)
next
  case (9 body now db "is" db')
  then show ?case using close_interrupted_own[of db body now] by auto
qed (auto simp: set_transition_def set_agent_run_def set_agent_session_def set_skill_group_def
    set_opening_context_def ensure_conversation_def split: if_splits intro!: wf_map_conversation)

definition empty_conv :: conv_db where
  "empty_conv = \<lparr>cv_rows = [], cv_turns = [], cv_reports = []\<rparr>"

lemma reachable_conv_wf: "conv_write\<^sup>*\<^sup>* empty_conv db \<Longrightarrow> wf_conv db"
proof (induction rule: rtranclp_induct)
  case base
  show ?case by (simp add: empty_conv_def wf_conv_def own_turns_def)
next
  case (step y z)
  then show ?case by (blast intro: conv_write_wf)
qed

section \<open>Properties\<close>



end
