(* ===== verification/Lifecycle.thy ===== *)
theory Lifecycle
  imports Conversations Incoming Waits
begin

text \<open>
  The lifecycle: its states and their order (\<^verbatim>\<open>tod-core/src/task/model.rs\<close>), what moving a node
  does to everything recorded about it (\<^verbatim>\<open>NodeRepo::set_lifecycle\<close> in
  \<^verbatim>\<open>tod-store/src/outline/repos/node.rs\<close>, \<^verbatim>\<open>tod-store/src/lifecycle_reset.rs\<close>), the gate
  evaluations (\<^verbatim>\<open>tod-store/src/outline/repos/gate.rs\<close>) and the moves themselves
  (\<^verbatim>\<open>tod-core/src/lifecycle/mod.rs\<close>).
\<close>

section \<open>The states in order\<close>

definition lifecycle_rank :: "string \<Rightarrow> nat" where
  "lifecycle_rank s =
     (if s = ''proposed'' then 0 else if s = ''design'' then 1 else if s = ''planning'' then 2
      else if s = ''ready'' then 3 else if s = ''active'' then 4 else if s = ''verifying'' then 5
      else if s = ''review'' then 6 else if s = ''pr'' then 7 else if s = ''pr_draft'' then 8
      else if s = ''pr_review'' then 9 else if s = ''approved'' then 10 else if s = ''merged'' then 11
      else if s = ''released'' then 12 else if s = ''learn'' then 13 else if s = ''done'' then 14 else 99)"

definition LIFECYCLE_STATES :: "string list" where
  "LIFECYCLE_STATES =
     [''proposed'', ''design'', ''planning'', ''ready'', ''active'', ''verifying'', ''review'', ''pr'', ''pr_draft'',
      ''pr_review'', ''approved'', ''merged'', ''released'', ''learn'', ''done'']"

definition state_at :: "nat \<Rightarrow> string option" where
  "state_at i = (if i < length LIFECYCLE_STATES then Some (LIFECYCLE_STATES ! i) else None)"

definition next_lifecycle :: "string \<Rightarrow> string option" where
  "next_lifecycle s = state_at (lifecycle_rank s + 1)"

definition previous_lifecycle :: "string \<Rightarrow> string option" where
  "previous_lifecycle s =
     (let rank = lifecycle_rank s
      in if rank = 0 \<or> length LIFECYCLE_STATES \<le> rank then None else state_at (rank - 1))"

definition state_has_agent :: "string \<Rightarrow> bool" where
  "state_has_agent s = (s \<notin> {''ready'', ''done'', ''approved''})"

lemma same_states: "VALID_LIFECYCLE_STATES = LIFECYCLE_STATES"
  by (simp add: VALID_LIFECYCLE_STATES_def LIFECYCLE_STATES_def)

lemma length_states [simp]: "length LIFECYCLE_STATES = 15"
  by (simp add: LIFECYCLE_STATES_def)

lemma rank_state_at: "i < 15 \<Longrightarrow> lifecycle_rank (LIFECYCLE_STATES ! i) = i"
proof -
  have "list_all (\<lambda>i. lifecycle_rank (LIFECYCLE_STATES ! i) = i) [0..<15]" by code_simp
  then show "i < 15 \<Longrightarrow> ?thesis" by (simp add: list_all_iff)
qed

lemma rank_values:
  "lifecycle_rank ''proposed'' = 0" "lifecycle_rank ''design'' = 1" "lifecycle_rank ''planning'' = 2"
  "lifecycle_rank ''ready'' = 3" "lifecycle_rank ''active'' = 4" "lifecycle_rank ''verifying'' = 5"
  "lifecycle_rank ''review'' = 6" "lifecycle_rank ''pr'' = 7" "lifecycle_rank ''pr_draft'' = 8"
  "lifecycle_rank ''pr_review'' = 9" "lifecycle_rank ''approved'' = 10" "lifecycle_rank ''merged'' = 11"
  "lifecycle_rank ''released'' = 12" "lifecycle_rank ''learn'' = 13" "lifecycle_rank ''done'' = 14"
  by (simp_all add: lifecycle_rank_def)

lemma rank_cases: "lifecycle_rank s < 15 \<and> LIFECYCLE_STATES ! lifecycle_rank s = s \<or> lifecycle_rank s = 99 \<and> s \<notin> set LIFECYCLE_STATES"
  by (auto simp: lifecycle_rank_def LIFECYCLE_STATES_def)

text \<open>The two modules' ranks are one: \<^verbatim>\<open>lifecycle_rank\<close> and the position in
  \<^verbatim>\<open>VALID_LIFECYCLE_STATES\<close>.\<close>

lemma position_rank:
  "position_of s VALID_LIFECYCLE_STATES = (if s \<in> set LIFECYCLE_STATES then Some (lifecycle_rank s) else None)"
  by (auto simp: VALID_LIFECYCLE_STATES_def LIFECYCLE_STATES_def lifecycle_rank_def)

section \<open>The store a move touches\<close>

record gate_criterion =
  gc_id :: uuid
  gc_from :: string
  gc_to :: string
  gc_slug :: string
  gc_label :: string
  gc_sort :: int
  gc_active :: bool

record gate_evaluation =
  ge_node :: uuid
  ge_criterion :: uuid
  ge_outcome :: string
  ge_detail :: "string option"
  ge_source :: string
  ge_at :: ms
  ge_action :: string

record tod_db =
  td_outline :: outline_db
  td_stays :: "uuid \<Rightarrow> (string \<times> ms) option"   \<comment> \<open>\<^verbatim>\<open>node_lifecycle\<close>: state, entered\<close>
  td_waits :: waits
  td_incoming :: incoming_db
  td_conv :: conv_db
  td_criteria :: "gate_criterion list"
  td_evaluations :: "gate_evaluation list"

definition get_lifecycle :: "uuid \<Rightarrow> 'a tod_db_scheme \<Rightarrow> string option" where
  "get_lifecycle n db = map_option fst (td_stays db n)"

text \<open>\<^verbatim>\<open>current_state\<close>: a node without a lifecycle row reads as \<^verbatim>\<open>proposed\<close> (\<^verbatim>\<open>COALESCE\<close>).\<close>

definition current_state :: "uuid \<Rightarrow> 'a tod_db_scheme \<Rightarrow> string" where
  "current_state n db = unwrap_or ''proposed'' (get_lifecycle n db)"

abbreviation verdicts_of :: "'a tod_db_scheme \<Rightarrow> verdict_db" where
  "verdicts_of db \<equiv> pl_verdicts (ol_plan (td_outline db))"

definition set_verdicts :: "verdict_db \<Rightarrow> 'a tod_db_scheme \<Rightarrow> 'a tod_db_scheme" where
  "set_verdicts v db = db\<lparr>td_outline := (td_outline db)\<lparr>ol_plan := (ol_plan (td_outline db))\<lparr>pl_verdicts := v\<rparr>\<rparr>\<rparr>"

section \<open>What a move back throws away\<close>

definition reset_rank :: "string \<Rightarrow> nat option" where
  "reset_rank state = position_of state VALID_LIFECYCLE_STATES"

definition protocol_state :: "string \<Rightarrow> string option" where
  "protocol_state p =
     (if p = ''implementation'' then Some ''active''
      else if p = ''verification'' then Some ''verifying''
      else if p = ''review'' \<or> p = ''fix'' then Some ''review''
      else if p = ''pr'' then Some ''pr'' else None)"

definition is_move_back :: "string \<Rightarrow> string \<Rightarrow> bool" where
  "is_move_back from to = (case (reset_rank from, reset_rank to) of (Some f, Some t) \<Rightarrow> t < f | _ \<Rightarrow> False)"

definition delete_evaluations :: "uuid \<Rightarrow> string \<Rightarrow> 'a tod_db_scheme \<Rightarrow> 'a tod_db_scheme" where
  "delete_evaluations n state db =
     db\<lparr>td_evaluations := filter (\<lambda>e. \<not> (ge_node e = n \<and>
          ge_criterion e \<in> set (map gc_id (filter (\<lambda>c. gc_from c = state) (td_criteria db))))) (td_evaluations db)\<rparr>"

definition delete_reports :: "uuid \<Rightarrow> string \<Rightarrow> 'a tod_db_scheme \<Rightarrow> 'a tod_db_scheme" where
  "delete_reports n protocol db =
     (let mine = map c_id (filter (\<lambda>c. (focus_node_column (c_focus c) = Some n
                    \<or> focus_kind_str (c_focus c) = ''node'' \<and> focus_id (c_focus c) = Some n)
                  \<and> protocol_str (c_protocol c) = protocol) (cv_rows (td_conv db)))
      in db\<lparr>td_conv := (td_conv db)\<lparr>cv_reports :=
            filter (\<lambda>(i, _, _). i \<notin> set mine) (cv_reports (td_conv db))\<rparr>\<rparr>)"

definition clear_certifications :: "ms \<Rightarrow> uuid \<Rightarrow> string \<Rightarrow> string \<Rightarrow> 'a tod_db_scheme \<Rightarrow> 'a tod_db_scheme" where
  "clear_certifications now n from to db =
     (if \<not> is_move_back from to then db
      else case (reset_rank from, reset_rank to) of
        (Some from_rank, Some to_rank) \<Rightarrow>
          let redone = drop to_rank (take (from_rank + 1) VALID_LIFECYCLE_STATES);
              db1 = fold (delete_evaluations n) redone db;
              db2 = fold (\<lambda>p d. case protocol_state p of
                          None \<Rightarrow> d
                        | Some state \<Rightarrow> if state \<notin> set redone then d else delete_reports n p d)
                      [''implementation'', ''verification'', ''review'', ''fix'', ''pr''] db1
          in if to_rank \<le> unwrap_or USIZE_MAX (reset_rank ''verifying'')
             then set_verdicts (snd (reopen_verified now n
                    (''The node moved back from '' @ from @ '' to '' @ to @ '': verify again.'') (verdicts_of db2))) db2
             else db2
      | _ \<Rightarrow> db)"

section \<open>Moving\<close>

text \<open>The two statements that write the row: \<^verbatim>\<open>INSERT \<dots> ON CONFLICT DO UPDATE\<close>, keeping when the
  node entered a state it is already in; the column's \<^verbatim>\<open>CHECK\<close> refuses a state that is none of
  the fifteen. \<^verbatim>\<open>TaskRepo::update_lifecycle\<close> is this statement alone.\<close>

definition write_stay :: "ms \<Rightarrow> uuid \<Rightarrow> string \<Rightarrow> 'a tod_db_scheme \<Rightarrow> 'a tod_db_scheme fallible" where
  "write_stay now n state db =
     (if state \<notin> set VALID_LIFECYCLE_STATES then Inl ''CHECK constraint failed: state''
      else Inr (db\<lparr>td_stays := (td_stays db)(n \<mapsto> (state, case td_stays db n of
          None \<Rightarrow> now | Some (old, entered) \<Rightarrow> if old = state then entered else now))\<rparr>))"

definition update_lifecycle :: "ms \<Rightarrow> uuid \<Rightarrow> string \<Rightarrow> 'a tod_db_scheme \<Rightarrow> 'a tod_db_scheme fallible" where
  "update_lifecycle now n state db = write_stay now n state db"

definition leave_stay :: "ms \<Rightarrow> uuid \<Rightarrow> string \<Rightarrow> string \<Rightarrow> 'a tod_db_scheme \<Rightarrow> 'a tod_db_scheme" where
  "leave_stay now n previous state db =
     (let db1 = clear_certifications now n previous state db
      in if previous = state then db1
         else db1\<lparr>td_waits := cancel_for_node now n (''the node left '' @ previous) (td_waits db1)\<rparr>)"

definition settle_baseline :: "uuid \<Rightarrow> string \<Rightarrow> 'a tod_db_scheme \<Rightarrow> 'a tod_db_scheme" where
  "settle_baseline n state db =
     (if state = ''ready'' then db\<lparr>td_incoming := take_baseline n (td_outline db) (td_incoming db)\<rparr>
      else if state \<in> {''proposed'', ''design'', ''planning''}
      then db\<lparr>td_incoming := (td_incoming db)\<lparr>ic_baselines := clear_baseline n (ic_baselines (td_incoming db))\<rparr>\<rparr>
      else db)"

definition set_lifecycle :: "ms \<Rightarrow> uuid \<Rightarrow> string \<Rightarrow> 'a tod_db_scheme \<Rightarrow> 'a tod_db_scheme fallible" where
  "set_lifecycle now n state db =
     (case write_stay now n state db of
        Inl e \<Rightarrow> Inl e
      | Inr db1 \<Rightarrow>
          Inr (settle_baseline n state
            (case get_lifecycle n db of None \<Rightarrow> db1 | Some previous \<Rightarrow> leave_stay now n previous state db1)))"

section \<open>Gate evaluations\<close>

abbreviation OUTCOME_PASS :: string where "OUTCOME_PASS \<equiv> ''pass''"
abbreviation OUTCOME_FAIL :: string where "OUTCOME_FAIL \<equiv> ''fail''"
abbreviation OUTCOME_PENDING :: string where "OUTCOME_PENDING \<equiv> ''pending''"
abbreviation OUTCOME_WAIVED :: string where "OUTCOME_WAIVED \<equiv> ''waived''"
abbreviation SOURCE_HUMAN :: string where "SOURCE_HUMAN \<equiv> ''human''"
abbreviation SOURCE_DERIVED :: string where "SOURCE_DERIVED \<equiv> ''derived''"
abbreviation ACTION_NONE :: string where "ACTION_NONE \<equiv> ''none''"

definition list_for_transition :: "string \<Rightarrow> string \<Rightarrow> 'a tod_db_scheme \<Rightarrow> gate_criterion list" where
  "list_for_transition from to db =
     sort_key gc_sort (filter (\<lambda>c. gc_from c = from \<and> gc_to c = to \<and> gc_active c) (td_criteria db))"

definition list_evaluations_for_node :: "uuid \<Rightarrow> 'a tod_db_scheme \<Rightarrow> gate_evaluation list" where
  "list_evaluations_for_node n db = filter (\<lambda>e. ge_node e = n) (td_evaluations db)"

definition list_evaluations_for_transition ::
    "uuid \<Rightarrow> string \<Rightarrow> string \<Rightarrow> 'a tod_db_scheme \<Rightarrow> (gate_criterion \<times> gate_evaluation option) list" where
  "list_evaluations_for_transition n from to db =
     map (\<lambda>c. (c, find (\<lambda>e. ge_criterion e = gc_id c) (list_evaluations_for_node n db))) (list_for_transition from to db)"

definition open_interview_failures ::
    "uuid \<Rightarrow> string \<Rightarrow> 'a tod_db_scheme \<Rightarrow> (gate_criterion \<times> gate_evaluation) list" where
  "open_interview_failures n from db =
     concat (map (\<lambda>e. map (\<lambda>c. (c, e)) (filter (\<lambda>c. gc_id c = ge_criterion e \<and> gc_from c = from) (td_criteria db)))
       (filter (\<lambda>e. ge_node e = n \<and> ge_outcome e = OUTCOME_FAIL \<and> ge_action e = ''interview'') (td_evaluations db)))"

definition upsert_evaluation :: "gate_evaluation \<Rightarrow> 'a tod_db_scheme \<Rightarrow> 'a tod_db_scheme fallible" where
  "upsert_evaluation row db =
     (if ge_criterion row \<notin> gc_id ` set (td_criteria db) then Inl ''FOREIGN KEY constraint failed''
      else if ge_outcome row \<notin> {OUTCOME_PASS, OUTCOME_FAIL, OUTCOME_PENDING, OUTCOME_WAIVED}
      then Inl ''CHECK constraint failed: outcome''
      else Inr (db\<lparr>td_evaluations :=
        (if list_ex (\<lambda>e. ge_node e = ge_node row \<and> ge_criterion e = ge_criterion row) (td_evaluations db)
         then map (\<lambda>e. if ge_node e = ge_node row \<and> ge_criterion e = ge_criterion row then row else e) (td_evaluations db)
         else td_evaluations db @ [row])\<rparr>))"

type_synonym gate_result = "uuid \<times> string \<times> string option \<times> string"

fun apply_gate_results ::
    "ms \<Rightarrow> uuid \<Rightarrow> gate_result list \<Rightarrow> string \<Rightarrow> 'a tod_db_scheme \<Rightarrow> 'a tod_db_scheme fallible" where
  "apply_gate_results now n [] source db = Inr db"
| "apply_gate_results now n ((c, outcome, detail, action) # results) source db =
     (case upsert_evaluation \<lparr>ge_node = n, ge_criterion = c, ge_outcome = outcome, ge_detail = detail,
             ge_source = source, ge_at = now, ge_action = action\<rparr> db of
        Inl e \<Rightarrow> Inl e
      | Inr db' \<Rightarrow> apply_gate_results now n results source db')"

text \<open>\<^verbatim>\<open>OutlineMutation::ApplyGateResults\<close>: one transaction, so an error leaves the store as it was.\<close>

definition apply_gate_mutation ::
    "ms \<Rightarrow> uuid \<Rightarrow> gate_result list \<Rightarrow> string option \<Rightarrow> string \<Rightarrow> 'a tod_db_scheme \<Rightarrow> 'a tod_db_scheme fallible" where
  "apply_gate_mutation now n results forward source db =
     (case apply_gate_results now n results source db of
        Inl e \<Rightarrow> Inl e
      | Inr db' \<Rightarrow> (case forward of None \<Rightarrow> Inr db' | Some state \<Rightarrow> set_lifecycle now n state db'))"

definition recorded_clear :: "gate_criterion \<times> gate_evaluation option \<Rightarrow> bool" where
  "recorded_clear r = is_some_and (\<lambda>e. ge_outcome e = OUTCOME_PASS \<or> ge_outcome e = OUTCOME_WAIVED) (snd r)"

definition recorded_criteria :: "uuid \<Rightarrow> 'a tod_db_scheme \<Rightarrow> (gate_criterion \<times> gate_evaluation option) list" where
  "recorded_criteria n db =
     (let lifecycle = current_state n db
      in case next_lifecycle lifecycle of
           None \<Rightarrow> [] | Some to \<Rightarrow> list_evaluations_for_transition n lifecycle to db)"

definition all_clear :: "(gate_criterion \<times> gate_evaluation option) list \<Rightarrow> bool" where
  "all_clear rows =
     (let recorded = filter (\<lambda>r. snd r \<noteq> None) rows in recorded \<noteq> [] \<and> list_all recorded_clear recorded)"

definition move_to :: "ms \<Rightarrow> uuid \<Rightarrow> string option \<Rightarrow> 'a tod_db_scheme \<Rightarrow> (string option \<times> 'a tod_db_scheme) fallible" where
  "move_to now n to db =
     (case to of
        None \<Rightarrow> Inr (None, db)
      | Some state \<Rightarrow> (case set_lifecycle now n state db of Inl e \<Rightarrow> Inl e | Inr db' \<Rightarrow> Inr (Some state, db')))"

definition force_advance :: "ms \<Rightarrow> uuid \<Rightarrow> 'a tod_db_scheme \<Rightarrow> (string option \<times> 'a tod_db_scheme) fallible" where
  "force_advance now n db = move_to now n (next_lifecycle (current_state n db)) db"

definition revert_lifecycle :: "ms \<Rightarrow> uuid \<Rightarrow> 'a tod_db_scheme \<Rightarrow> (string option \<times> 'a tod_db_scheme) fallible" where
  "revert_lifecycle now n db = move_to now n (previous_lifecycle (current_state n db)) db"

definition revert_to :: "ms \<Rightarrow> uuid \<Rightarrow> string \<Rightarrow> 'a tod_db_scheme \<Rightarrow> 'a tod_db_scheme fallible" where
  "revert_to now n target db = set_lifecycle now n target db"

definition advance :: "ms \<Rightarrow> uuid \<Rightarrow> 'a tod_db_scheme \<Rightarrow> (string option \<times> 'a tod_db_scheme) fallible" where
  "advance now n db =
     (case next_lifecycle (current_state n db) of
        None \<Rightarrow> Inr (None, db)
      | Some to \<Rightarrow> (case apply_gate_mutation now n [] (Some to) SOURCE_HUMAN db of
            Inl e \<Rightarrow> Inl e | Inr db' \<Rightarrow> Inr (Some to, db')))"

definition advance_after_criteria :: "ms \<Rightarrow> uuid \<Rightarrow> 'a tod_db_scheme \<Rightarrow> (string option \<times> 'a tod_db_scheme) fallible" where
  "advance_after_criteria now n db =
     (if \<not> all_clear (recorded_criteria n db) then Inr (None, db) else advance now n db)"

section \<open>Facts\<close>

lemma next_previous: "next_lifecycle s = Some t \<Longrightarrow> previous_lifecycle t = Some s"
  using rank_cases[of s] rank_state_at[of "lifecycle_rank s + 1"]
  by (auto simp: next_lifecycle_def previous_lifecycle_def state_at_def Let_def split: if_splits)

lemma previous_next: "previous_lifecycle s = Some t \<Longrightarrow> next_lifecycle t = Some s"
  using rank_cases[of s] rank_state_at[of "lifecycle_rank s - 1"]
  by (auto simp: next_lifecycle_def previous_lifecycle_def state_at_def Let_def split: if_splits)

lemma next_valid: "next_lifecycle s = Some t \<Longrightarrow> t \<in> set LIFECYCLE_STATES"
  by (auto simp: next_lifecycle_def state_at_def split: if_splits)

lemma previous_valid: "previous_lifecycle s = Some t \<Longrightarrow> t \<in> set LIFECYCLE_STATES"
  by (auto simp: previous_lifecycle_def state_at_def Let_def split: if_splits)

lemma move_back_iff:
  "is_move_back from to \<longleftrightarrow>
     from \<in> set LIFECYCLE_STATES \<and> to \<in> set LIFECYCLE_STATES \<and> lifecycle_rank to < lifecycle_rank from"
  by (auto simp: is_move_back_def reset_rank_def position_rank)

text \<open>The states redone, from the one moved to through the one left.\<close>

lemma redone_iff:
  assumes "is_move_back from to"
  shows "s \<in> set (drop (lifecycle_rank to) (take (lifecycle_rank from + 1) VALID_LIFECYCLE_STATES)) \<longleftrightarrow>
     s \<in> set LIFECYCLE_STATES \<and> lifecycle_rank to \<le> lifecycle_rank s \<and> lifecycle_rank s \<le> lifecycle_rank from"
    (is "s \<in> set ?xs \<longleftrightarrow> ?R")
proof
  have f: "lifecycle_rank from < 15" using assms rank_cases[of "from"] by (auto simp: move_back_iff)
  assume "s \<in> set ?xs"
  then obtain i where i: "i < length ?xs" "?xs ! i = s" by (auto simp: in_set_conv_nth)
  then have "LIFECYCLE_STATES ! (lifecycle_rank to + i) = s" "lifecycle_rank to + i \<le> lifecycle_rank from"
    using f by (auto simp: same_states)
  then show ?R using rank_state_at[of "lifecycle_rank to + i"] f by auto
next
  have f: "lifecycle_rank from < 15" using assms rank_cases[of "from"] by (auto simp: move_back_iff)
  assume R: ?R
  then have "LIFECYCLE_STATES ! lifecycle_rank s = s" using rank_cases[of s] by auto
  then have "?xs ! (lifecycle_rank s - lifecycle_rank to) = s" "lifecycle_rank s - lifecycle_rank to < length ?xs"
    using R f by (auto simp: same_states)
  then show "s \<in> set ?xs" by (metis nth_mem)
qed

text \<open>The folds of \<^verbatim>\<open>clear_certifications\<close> in one step each.\<close>

lemma delete_evaluations_simps:
  "delete_evaluations n s db = db\<lparr>td_evaluations := filter (\<lambda>e. \<not> (ge_node e = n \<and>
     (\<exists>c \<in> set (td_criteria db). gc_id c = ge_criterion e \<and> gc_from c = s))) (td_evaluations db)\<rparr>"
proof -
  have "i \<in> set (map gc_id (filter (\<lambda>c. gc_from c = s) cs)) \<longleftrightarrow> (\<exists>c \<in> set cs. gc_id c = i \<and> gc_from c = s)" for i cs
    by auto
  note mem = this
  show ?thesis unfolding delete_evaluations_def mem ..
qed

lemma delete_evaluations_fold:
  "fold (delete_evaluations n) states db =
     db\<lparr>td_evaluations := filter (\<lambda>e. \<not> (ge_node e = n \<and>
        (\<exists>c \<in> set (td_criteria db). gc_id c = ge_criterion e \<and> gc_from c \<in> set states))) (td_evaluations db)\<rparr>"
proof (induction states arbitrary: db)
  case (Cons s states)
  show ?case
    unfolding fold_simps Cons.IH unfolding delete_evaluations_simps
    by (simp, intro arg_cong[where f = "\<lambda>x. db\<lparr>td_evaluations := x\<rparr>"] filter_cong) auto
qed simp

text \<open>The conversations of a node whose reports certify one of \<open>states\<close>.\<close>

definition certifies :: "uuid \<Rightarrow> (string \<Rightarrow> bool) \<Rightarrow> 'a tod_db_scheme \<Rightarrow> uuid \<Rightarrow> bool" where
  "certifies n states db i \<longleftrightarrow> (\<exists>c \<in> set (cv_rows (td_conv db)). c_id c = i \<and> focus_node (c_focus c) = Some n
     \<and> is_some_and states (protocol_state (protocol_str (c_protocol c))))"

lemma delete_reports_simps:
  "delete_reports n p db = db\<lparr>td_conv := (td_conv db)\<lparr>cv_reports := filter (\<lambda>(i, _, _). \<not>
      (\<exists>c \<in> set (cv_rows (td_conv db)). c_id c = i \<and> focus_node (c_focus c) = Some n \<and> protocol_str (c_protocol c) = p))
      (cv_reports (td_conv db))\<rparr>\<rparr>"
proof -
  have "i \<in> set (map c_id (filter (\<lambda>c. (focus_node_column (c_focus c) = Some n
                    \<or> focus_kind_str (c_focus c) = ''node'' \<and> focus_id (c_focus c) = Some n)
                  \<and> protocol_str (c_protocol c) = p) cs))
      \<longleftrightarrow> (\<exists>c \<in> set cs. c_id c = i \<and> focus_node (c_focus c) = Some n \<and> protocol_str (c_protocol c) = p)" for i cs
    unfolding focus_node_columns by auto
  note mem = this
  show ?thesis unfolding delete_reports_def Let_def mem ..
qed

lemma delete_reports_fold:
  "fold (\<lambda>p d. case protocol_state p of None \<Rightarrow> d | Some state \<Rightarrow> if state \<notin> S then d else delete_reports n p d) ps db =
     db\<lparr>td_conv := (td_conv db)\<lparr>cv_reports := filter (\<lambda>(i, _, _). \<not>
        (\<exists>c \<in> set (cv_rows (td_conv db)). c_id c = i \<and> focus_node (c_focus c) = Some n
           \<and> protocol_str (c_protocol c) \<in> set ps \<and> is_some_and (\<lambda>s. s \<in> S) (protocol_state (protocol_str (c_protocol c)))))
      (cv_reports (td_conv db))\<rparr>\<rparr>"
proof (induction ps arbitrary: db)
  case (Cons p ps)
  let ?step = "\<lambda>p d. case protocol_state p of None \<Rightarrow> d | Some state \<Rightarrow> if state \<notin> S then d else delete_reports n p d"
  have step: "?step p db = (if is_some_and (\<lambda>s. s \<in> S) (protocol_state p) then delete_reports n p db else db)"
    by (cases "protocol_state p") auto
  show ?case
  proof (cases "is_some_and (\<lambda>s. s \<in> S) (protocol_state p)")
    case True
    then show ?thesis
      unfolding fold_simps Cons.IH step
      by (simp add: delete_reports_simps,
          intro arg_cong[where f = "\<lambda>x. db\<lparr>td_conv := (td_conv db)\<lparr>cv_reports := x\<rparr>\<rparr>"] filter_cong) auto
  next
    case False
    then show ?thesis
      unfolding fold_simps Cons.IH step
      by (simp, intro arg_cong[where f = "\<lambda>x. db\<lparr>td_conv := (td_conv db)\<lparr>cv_reports := x\<rparr>\<rparr>"] filter_cong) auto
  qed
qed simp

definition redone :: "string \<Rightarrow> string \<Rightarrow> string \<Rightarrow> bool" where
  "redone before after s \<longleftrightarrow> is_move_back before after \<and> s \<in> set LIFECYCLE_STATES
     \<and> lifecycle_rank after \<le> lifecycle_rank s \<and> lifecycle_rank s \<le> lifecycle_rank before"

lemma all_protocol_states:
  "protocol_state p \<noteq> None \<Longrightarrow> p \<in> set [''implementation'', ''verification'', ''review'', ''fix'', ''pr'']"
  by (auto simp: protocol_state_def split: if_splits)

lemma verdicts_of_set [simp]: "verdicts_of (set_verdicts v db) = v"
  by (simp add: set_verdicts_def)

lemma set_verdicts_same [simp]: "set_verdicts (verdicts_of db) db = db"
  by (simp add: set_verdicts_def)

lemma clear_certifications_closed:
  "clear_certifications now n before after db =
     set_verdicts (if is_move_back before after \<and> lifecycle_rank after \<le> lifecycle_rank ''verifying''
        then snd (reopen_verified now n
               (''The node moved back from '' @ before @ '' to '' @ after @ '': verify again.'') (verdicts_of db))
        else verdicts_of db)
     (db\<lparr>td_evaluations := filter (\<lambda>e. \<not> (ge_node e = n \<and>
             (\<exists>c \<in> set (td_criteria db). gc_id c = ge_criterion e \<and> redone before after (gc_from c)))) (td_evaluations db),
         td_conv := (td_conv db)\<lparr>cv_reports := filter (\<lambda>(i, _, _). \<not> certifies n (redone before after) db i)
             (cv_reports (td_conv db))\<rparr>\<rparr>)"
proof (cases "is_move_back before after")
  case False
  then have "redone before after = (\<lambda>_. False)" by (auto simp: redone_def)
  then show ?thesis using False by (simp add: clear_certifications_def certifies_def is_some_and_iff)
next
  case True
  let ?S = "set (drop (lifecycle_rank after) (take (lifecycle_rank before + 1) VALID_LIFECYCLE_STATES))"
  have S: "s \<in> ?S \<longleftrightarrow> redone before after s" for s
    unfolding redone_iff[OF True] using True by (simp add: redone_def)
  have ranks: "reset_rank before = Some (lifecycle_rank before)" "reset_rank after = Some (lifecycle_rank after)"
    "reset_rank ''verifying'' = Some (lifecycle_rank ''verifying'')"
    using True by (auto simp: reset_rank_def position_rank move_back_iff LIFECYCLE_STATES_def)
  let ?db1 = "fold (delete_evaluations n) (drop (lifecycle_rank after) (take (lifecycle_rank before + 1) VALID_LIFECYCLE_STATES)) db"
  let ?step = "\<lambda>p d. case protocol_state p of None \<Rightarrow> d | Some state \<Rightarrow> if state \<notin> ?S then d else delete_reports n p d"
  let ?protocols = "[''implementation'', ''verification'', ''review'', ''fix'', ''pr'']"
  have db1: "?db1 = db\<lparr>td_evaluations := filter (\<lambda>e. \<not> (ge_node e = n \<and>
        (\<exists>c \<in> set (td_criteria db). gc_id c = ge_criterion e \<and> redone before after (gc_from c)))) (td_evaluations db)\<rparr>"
    unfolding delete_evaluations_fold S ..
  have cert: "(\<exists>c \<in> set (cv_rows (td_conv ?db1)). c_id c = i \<and> focus_node (c_focus c) = Some n
           \<and> protocol_str (c_protocol c) \<in> set ?protocols
           \<and> is_some_and (\<lambda>s. s \<in> ?S) (protocol_state (protocol_str (c_protocol c))))
      \<longleftrightarrow> certifies n (redone before after) db i" for i
  proof -
    have conv: "td_conv ?db1 = td_conv db" unfolding db1 by simp
    have p: "is_some_and P (protocol_state p) \<Longrightarrow> p \<in> set ?protocols" for P p
      by (rule all_protocol_states) (auto simp: is_some_and_iff)
    have "(p \<in> set ?protocols \<and> is_some_and (redone before after) (protocol_state p))
        = is_some_and (redone before after) (protocol_state p)" for p using p by blast
    then show ?thesis unfolding certifies_def S conv by simp
  qed
  have db2: "fold ?step ?protocols ?db1 = ?db1\<lparr>td_conv := (td_conv ?db1)\<lparr>cv_reports :=
      filter (\<lambda>(i, _, _). \<not> certifies n (redone before after) db i) (cv_reports (td_conv ?db1))\<rparr>\<rparr>"
    unfolding delete_reports_fold cert ..
  have "clear_certifications now n before after db =
     (if lifecycle_rank after \<le> lifecycle_rank ''verifying''
      then set_verdicts (snd (reopen_verified now n
          (''The node moved back from '' @ before @ '' to '' @ after @ '': verify again.'')
          (verdicts_of (fold ?step ?protocols ?db1)))) (fold ?step ?protocols ?db1)
      else fold ?step ?protocols ?db1)"
    unfolding clear_certifications_def ranks Let_def using True by simp
  then show ?thesis unfolding db2 unfolding db1 using True by (simp add: set_verdicts_def)
qed

lemma certifies_stays [simp]: "certifies n P (db\<lparr>td_stays := f\<rparr>) = certifies n P db"
  unfolding certifies_def by simp

lemma settle_baseline_fields [simp]:
  "td_outline (settle_baseline n s db) = td_outline db" "td_stays (settle_baseline n s db) = td_stays db"
  "td_waits (settle_baseline n s db) = td_waits db" "td_conv (settle_baseline n s db) = td_conv db"
  "td_criteria (settle_baseline n s db) = td_criteria db"
  "td_evaluations (settle_baseline n s db) = td_evaluations db"
  by (simp_all add: settle_baseline_def)

definition settled_incoming :: "uuid \<Rightarrow> string \<Rightarrow> outline_db \<Rightarrow> incoming_db \<Rightarrow> incoming_db" where
  "settled_incoming n state ol ic =
     (if state = ''ready'' then take_baseline n ol ic
      else if state \<in> {''proposed'', ''design'', ''planning''} then ic\<lparr>ic_baselines := clear_baseline n (ic_baselines ic)\<rparr>
      else ic)"

lemma settle_baseline_incoming:
  "td_incoming (settle_baseline n state db) = settled_incoming n state (td_outline db) (td_incoming db)"
  by (simp add: settle_baseline_def settled_incoming_def)

lemma set_verdicts_fields [simp]:
  "td_stays (set_verdicts v db) = td_stays db" "td_waits (set_verdicts v db) = td_waits db"
  "td_incoming (set_verdicts v db) = td_incoming db" "td_conv (set_verdicts v db) = td_conv db"
  "td_criteria (set_verdicts v db) = td_criteria db" "td_evaluations (set_verdicts v db) = td_evaluations db"
  "ol_obligations (td_outline (set_verdicts v db)) = ol_obligations (td_outline db)"
  "pl_steps (ol_plan (td_outline (set_verdicts v db))) = pl_steps (ol_plan (td_outline db))"
  "pl_links (ol_plan (td_outline (set_verdicts v db))) = pl_links (ol_plan (td_outline db))"
  by (simp_all add: set_verdicts_def)

text \<open>A move in one step: the fields of the store after it, for a node that was in \<open>previous\<close>.\<close>

lemma set_lifecycle_fields:
  assumes "set_lifecycle now n state db = Inr db'" "td_stays db n = Some (previous, entered)"
  shows "state \<in> set LIFECYCLE_STATES"
    and "td_stays db' = (td_stays db)(n \<mapsto> (state, if previous = state then entered else now))"
    and "td_evaluations db' = filter (\<lambda>e. \<not> (ge_node e = n \<and>
           (\<exists>c \<in> set (td_criteria db). gc_id c = ge_criterion e \<and> redone previous state (gc_from c)))) (td_evaluations db)"
    and "td_criteria db' = td_criteria db"
    and "td_conv db' = (td_conv db)\<lparr>cv_reports := filter (\<lambda>(i, _, _). \<not> certifies n (redone previous state) db i)
             (cv_reports (td_conv db))\<rparr>"
    and "verdicts_of db' = (if is_move_back previous state \<and> lifecycle_rank state \<le> lifecycle_rank ''verifying''
           then snd (reopen_verified now n (''The node moved back from '' @ previous @ '' to '' @ state @ '': verify again.'')
                  (verdicts_of db))
           else verdicts_of db)"
    and "ol_obligations (td_outline db') = ol_obligations (td_outline db)"
    and "pl_steps (ol_plan (td_outline db')) = pl_steps (ol_plan (td_outline db))"
    and "pl_links (ol_plan (td_outline db')) = pl_links (ol_plan (td_outline db))"
    and "td_waits db' = (if previous = state then td_waits db
           else cancel_for_node now n (''the node left '' @ previous) (td_waits db))"
    and "td_incoming db' = settled_incoming n state (td_outline db') (td_incoming db)"
proof -
  let ?db1 = "db\<lparr>td_stays := (td_stays db)(n \<mapsto> (state, if previous = state then entered else now))\<rparr>"
  have valid: "state \<in> set LIFECYCLE_STATES"
    and db': "db' = settle_baseline n state (leave_stay now n previous state ?db1)"
    using assms by (auto simp: set_lifecycle_def write_stay_def same_states get_lifecycle_def split: if_splits)
  have left: "leave_stay now n previous state ?db1 = (let db2 = clear_certifications now n previous state ?db1 in
      db2\<lparr>td_waits := (if previous = state then td_waits db2
         else cancel_for_node now n (''the node left '' @ previous) (td_waits db2))\<rparr>)"
    by (simp add: leave_stay_def Let_def)
  note new = db'[unfolded left Let_def clear_certifications_closed]
  show "state \<in> set LIFECYCLE_STATES" by (rule valid)
  show "td_stays db' = (td_stays db)(n \<mapsto> (state, if previous = state then entered else now))" unfolding new by simp
  show "td_evaluations db' = filter (\<lambda>e. \<not> (ge_node e = n \<and>
           (\<exists>c \<in> set (td_criteria db). gc_id c = ge_criterion e \<and> redone previous state (gc_from c)))) (td_evaluations db)"
    unfolding new by simp
  show "td_criteria db' = td_criteria db" unfolding new by simp
  show "td_conv db' = (td_conv db)\<lparr>cv_reports := filter (\<lambda>(i, _, _). \<not> certifies n (redone previous state) db i)
             (cv_reports (td_conv db))\<rparr>"
    unfolding new by simp
  show "verdicts_of db' = (if is_move_back previous state \<and> lifecycle_rank state \<le> lifecycle_rank ''verifying''
           then snd (reopen_verified now n (''The node moved back from '' @ previous @ '' to '' @ state @ '': verify again.'')
                  (verdicts_of db))
           else verdicts_of db)"
    unfolding new by (simp add: set_verdicts_def)
  show "ol_obligations (td_outline db') = ol_obligations (td_outline db)" unfolding new by simp
  show "pl_steps (ol_plan (td_outline db')) = pl_steps (ol_plan (td_outline db))" unfolding new by simp
  show "pl_links (ol_plan (td_outline db')) = pl_links (ol_plan (td_outline db))" unfolding new by simp
  show "td_waits db' = (if previous = state then td_waits db
           else cancel_for_node now n (''the node left '' @ previous) (td_waits db))"
    unfolding new by simp
  show "td_incoming db' = settled_incoming n state (td_outline db') (td_incoming db)"
    unfolding new settle_baseline_incoming settle_baseline_fields by simp
qed

lemma set_lifecycle_verdicts:
  assumes "set_lifecycle now n state db = Inr db'" "td_stays db n = Some (previous, entered)"
    and wf: "wf_verdicts (verdicts_of db)"
  shows "wf_verdicts (verdicts_of db')"
    and "current_verdict m ob (verdicts_of db') = current_verdict m ob (verdicts_of db)
       \<or> is_some_and (\<lambda>v. ve_status v = VERDICT_REOPENED) (current_verdict m ob (verdicts_of db'))"
proof -
  obtain why where v: "verdicts_of db' = snd (reopen_verified now n why (verdicts_of db)) \<or> verdicts_of db' = verdicts_of db"
    using set_lifecycle_fields(6)[OF assms(1,2)] by metis
  then show "wf_verdicts (verdicts_of db')" using wf reopen_verified_rows(2)[OF wf] by metis
  show "current_verdict m ob (verdicts_of db') = current_verdict m ob (verdicts_of db)
       \<or> is_some_and (\<lambda>v. ve_status v = VERDICT_REOPENED) (current_verdict m ob (verdicts_of db'))"
    using v reopen_verified_current[OF wf, of m n ob now why] by (auto simp: is_some_and_iff split: if_splits)
qed

text \<open>A node's first state: nothing but its row and its baseline is written.\<close>

lemma set_lifecycle_first:
  assumes "set_lifecycle now n state db = Inr db'" "td_stays db n = None"
  shows "state \<in> set LIFECYCLE_STATES"
    and "db' = settle_baseline n state (db\<lparr>td_stays := (td_stays db)(n \<mapsto> (state, now))\<rparr>)"
  using assms by (auto simp: set_lifecycle_def write_stay_def same_states get_lifecycle_def split: if_splits)

lemma set_lifecycle_rows:
  assumes "set_lifecycle now n state db = Inr db'"
  shows "get_lifecycle n db' = Some state"
    and "ol_obligations (td_outline db') = ol_obligations (td_outline db)"
    and "pl_steps (ol_plan (td_outline db')) = pl_steps (ol_plan (td_outline db))"
    and "td_incoming db' = settled_incoming n state (td_outline db') (td_incoming db)"
proof -
  have "get_lifecycle n db' = Some state \<and> ol_obligations (td_outline db') = ol_obligations (td_outline db)
     \<and> pl_steps (ol_plan (td_outline db')) = pl_steps (ol_plan (td_outline db))
     \<and> td_incoming db' = settled_incoming n state (td_outline db') (td_incoming db)"
  proof (cases "td_stays db n")
    case None
    show ?thesis
      unfolding set_lifecycle_first(2)[OF assms None] by (simp add: get_lifecycle_def settle_baseline_incoming)
  next
    case (Some stay)
    obtain previous entered where "stay = (previous, entered)" by (cases stay)
    with Some have "td_stays db n = Some (previous, entered)" by simp
    note f = set_lifecycle_fields[OF assms this]
    show ?thesis using f(2,7,8,11) by (simp add: get_lifecycle_def)
  qed
  then show "get_lifecycle n db' = Some state"
    and "ol_obligations (td_outline db') = ol_obligations (td_outline db)"
    and "pl_steps (ol_plan (td_outline db')) = pl_steps (ol_plan (td_outline db))"
    and "td_incoming db' = settled_incoming n state (td_outline db') (td_incoming db)" by blast+
qed

lemma set_lifecycle_total: "state \<in> set LIFECYCLE_STATES \<Longrightarrow> \<exists>db'. set_lifecycle now n state db = Inr db'"
  by (simp add: set_lifecycle_def write_stay_def same_states)

section \<open>Properties\<close>

text \<open>C4: Moving a node back restarts from there, and nothing else does: after \<^verbatim>\<open>set_lifecycle\<close> the
  node is in the new state, having entered it now (or when it did, if it was already there); its
  gate outcomes and its conversations' reports that certified a state from the one it returned to
  through the one it left are gone and all others stay; moved back to \<^verbatim>\<open>verifying\<close> or before, its
  confirmed requirements are reopened; and the waits of the stay it left are cancelled. No other
  node's state, outcomes or verdicts change.\<close>
theorem move_exact:
  assumes "set_lifecycle now n state db = Inr db'" "td_stays db n = Some (previous, entered)"
    and "wf_verdicts (verdicts_of db)"
  shows "td_stays db' = (td_stays db)(n \<mapsto> (state, if previous = state then entered else now))
    \<and> set (td_evaluations db') = {e \<in> set (td_evaluations db). ge_node e = n \<longrightarrow>
         (\<forall>c \<in> set (td_criteria db). gc_id c = ge_criterion e \<longrightarrow> \<not> redone previous state (gc_from c))}
    \<and> set (cv_reports (td_conv db')) = {(i, seq, b) \<in> set (cv_reports (td_conv db)).
         \<forall>c \<in> set (cv_rows (td_conv db)). c_id c = i \<and> focus_node (c_focus c) = Some n \<longrightarrow>
           \<not> is_some_and (redone previous state) (protocol_state (protocol_str (c_protocol c)))}
    \<and> (\<forall>m ob. if m = n \<and> is_move_back previous state \<and> lifecycle_rank state \<le> lifecycle_rank ''verifying''
                \<and> is_some_and is_verified (current_verdict n ob (verdicts_of db))
              then \<exists>v. current_verdict m ob (verdicts_of db') = Some v \<and> ve_status v = VERDICT_REOPENED
              else current_verdict m ob (verdicts_of db') = current_verdict m ob (verdicts_of db))
    \<and> td_waits db' = (if previous = state then td_waits db
         else cancel_for_node now n (''the node left '' @ previous) (td_waits db))"
proof -
  note f = set_lifecycle_fields[OF assms(1,2)]
  have evals: "set (td_evaluations db') = {e \<in> set (td_evaluations db). ge_node e = n \<longrightarrow>
         (\<forall>c \<in> set (td_criteria db). gc_id c = ge_criterion e \<longrightarrow> \<not> redone previous state (gc_from c))}"
    unfolding f(3) by auto
  have reports: "set (cv_reports (td_conv db')) = {(i, seq, b) \<in> set (cv_reports (td_conv db)).
         \<forall>c \<in> set (cv_rows (td_conv db)). c_id c = i \<and> focus_node (c_focus c) = Some n \<longrightarrow>
           \<not> is_some_and (redone previous state) (protocol_state (protocol_str (c_protocol c)))}"
    unfolding f(5) certifies_def by auto
  have verdicts: "if m = n \<and> is_move_back previous state \<and> lifecycle_rank state \<le> lifecycle_rank ''verifying''
                \<and> is_some_and is_verified (current_verdict n ob (verdicts_of db))
              then \<exists>v. current_verdict m ob (verdicts_of db') = Some v \<and> ve_status v = VERDICT_REOPENED
              else current_verdict m ob (verdicts_of db') = current_verdict m ob (verdicts_of db)" for m ob
    unfolding f(6) using reopen_verified_current[OF assms(3), of m n ob] by (auto split: if_splits)
  show ?thesis using f(2) evals reports verdicts f(10) by blast
qed

definition sample_db :: tod_db where
  "sample_db = \<lparr>td_outline = \<lparr>ol_obligations = [], ol_plan = \<lparr>pl_steps = [], pl_deps = [], pl_links = [], pl_notes = [],
      pl_verdicts = sample_verdicts\<rparr>\<rparr>, td_stays = (\<lambda>_. None)(7 \<mapsto> (''review'', 3)), td_waits = [],
     td_incoming = \<lparr>ic_queue = [], ic_verdicts = [], ic_next = 1, ic_baselines = (\<lambda>_. None)\<rparr>,
     td_conv = \<lparr>cv_rows = [], cv_turns = [], cv_reports = []\<rparr>,
     td_criteria = [\<lparr>gc_id = 1, gc_from = ''active'', gc_to = ''verifying'', gc_slug = ''s'', gc_label = ''l'', gc_sort = 0, gc_active = True\<rparr>],
     td_evaluations = [\<lparr>ge_node = 7, ge_criterion = 1, ge_outcome = OUTCOME_PASS, ge_detail = None,
        ge_source = SOURCE_DERIVED, ge_at = 2, ge_action = ACTION_NONE\<rparr>]\<rparr>"

lemma sample_redone: "redone ''review'' ''active'' ''active''"
  by (simp add: redone_def move_back_iff LIFECYCLE_STATES_def lifecycle_rank_def)

theorem move_exact_witness:
  "\<exists>db'. set_lifecycle 9 7 ''active'' sample_db = Inr db' \<and> td_stays db' 7 = Some (''active'', 9) \<and> td_evaluations db' = []"
proof -
  obtain db' where m: "set_lifecycle 9 7 ''active'' sample_db = Inr db'"
    using set_lifecycle_total[of "''active''" 9 7 sample_db] by (auto simp: LIFECYCLE_STATES_def)
  have s: "td_stays sample_db 7 = Some (''review'', 3)" "wf_verdicts (verdicts_of sample_db)"
    using sample_verdicts_wf by (simp_all add: sample_db_def)
  note moved = move_exact[OF m s]
  have stay: "td_stays db' 7 = Some (''active'', 9)" using moved by simp
  have evals: "e \<in> set (td_evaluations db') \<Longrightarrow> e \<in> set (td_evaluations sample_db) \<and> (ge_node e = 7 \<longrightarrow>
         (\<forall>c \<in> set (td_criteria sample_db). gc_id c = ge_criterion e \<longrightarrow> \<not> redone ''review'' ''active'' (gc_from c)))" for e
    using moved by blast
  have old: "e \<in> set (td_evaluations sample_db) \<Longrightarrow> ge_node e = 7 \<and>
      (\<exists>c \<in> set (td_criteria sample_db). gc_id c = ge_criterion e \<and> gc_from c = ''active'')" for e
    by (simp add: sample_db_def)
  have "e \<notin> set (td_evaluations db')" for e
  proof
    assume e: "e \<in> set (td_evaluations db')"
    then obtain c where "c \<in> set (td_criteria sample_db)" "gc_id c = ge_criterion e" "gc_from c = ''active''" "ge_node e = 7"
      using old evals by blast
    then have "\<not> redone ''review'' ''active'' (gc_from c)" using evals[OF e] by blast
    then show False using sample_redone \<open>gc_from c = ''active''\<close> by simp
  qed
  then have "set (td_evaluations db') = {}" by (metis ex_in_conv)
  then show ?thesis using m stay by simp
qed

text \<open>The store's own constraints: every stay is in one of the fifteen states, every outcome is
  one of four, belongs to a criterion there is, and is the only one of its node and criterion.\<close>

definition stays_ok :: "(uuid \<Rightarrow> (string \<times> ms) option) \<Rightarrow> bool" where
  "stays_ok f \<longleftrightarrow> (\<forall>n. is_none_or (\<lambda>(s, _). s \<in> set LIFECYCLE_STATES) (f n))"

lemma stays_ok_upd: "stays_ok f \<Longrightarrow> s \<in> set LIFECYCLE_STATES \<Longrightarrow> stays_ok (f(n \<mapsto> (s, e)))"
  by (simp add: stays_ok_def)

definition lc_typed :: "'a tod_db_scheme \<Rightarrow> bool" where
  "lc_typed db \<longleftrightarrow> stays_ok (td_stays db)
     \<and> distinct (map (\<lambda>e. (ge_node e, ge_criterion e)) (td_evaluations db))
     \<and> (\<forall>e \<in> set (td_evaluations db). ge_criterion e \<in> gc_id ` set (td_criteria db)
          \<and> ge_outcome e \<in> {OUTCOME_PASS, OUTCOME_FAIL, OUTCOME_PENDING, OUTCOME_WAIVED})"

inductive lc_write :: "tod_db \<Rightarrow> tod_db \<Rightarrow> bool" where
  "set_lifecycle now n state db = Inr db' \<Longrightarrow> lc_write db db'"
| "update_lifecycle now n state db = Inr db' \<Longrightarrow> lc_write db db'"
| "apply_gate_mutation now n results forward source db = Inr db' \<Longrightarrow> lc_write db db'"
| "force_advance now n db = Inr (to, db') \<Longrightarrow> lc_write db db'"
| "revert_lifecycle now n db = Inr (to, db') \<Longrightarrow> lc_write db db'"
| "advance now n db = Inr (to, db') \<Longrightarrow> lc_write db db'"
| "advance_after_criteria now n db = Inr (to, db') \<Longrightarrow> lc_write db db'"

lemma typed_set_lifecycle:
  assumes "set_lifecycle now n state db = Inr db'" "lc_typed db"
  shows "lc_typed db'"
proof (cases "td_stays db n")
  case None
  note f = set_lifecycle_first[OF assms(1) None]
  show ?thesis using assms(2) f(1) unfolding f(2) lc_typed_def by (simp add: stays_ok_upd)
next
  case (Some stay)
  obtain previous entered where "stay = (previous, entered)" by (cases stay)
  with Some have "td_stays db n = Some (previous, entered)" by simp
  note f = set_lifecycle_fields[OF assms(1) this]
  show ?thesis
    using assms(2) f(1) unfolding lc_typed_def f(2) f(3) f(4) by (auto simp: distinct_map_filter stays_ok_upd)
qed

lemma typed_upsert:
  assumes "upsert_evaluation row db = Inr db'" "lc_typed db"
  shows "lc_typed db'"
proof -
  let ?key = "\<lambda>e. (ge_node e, ge_criterion e)"
  have row: "ge_criterion row \<in> gc_id ` set (td_criteria db)"
    "ge_outcome row \<in> {OUTCOME_PASS, OUTCOME_FAIL, OUTCOME_PENDING, OUTCOME_WAIVED}"
    and db': "db' = db\<lparr>td_evaluations := (if list_ex (\<lambda>e. ?key e = ?key row) (td_evaluations db)
         then map (\<lambda>e. if ?key e = ?key row then row else e) (td_evaluations db)
         else td_evaluations db @ [row])\<rparr>"
    using assms(1) by (auto simp: upsert_evaluation_def split: if_splits)
  have same: "map ?key (map (\<lambda>e. if ?key e = ?key row then row else e) es) = map ?key es" for es by simp
  show ?thesis
  proof (cases "list_ex (\<lambda>e. ?key e = ?key row) (td_evaluations db)")
    case True
    then have new: "td_evaluations db' = map (\<lambda>e. if ?key e = ?key row then row else e) (td_evaluations db)"
      and rest: "td_stays db' = td_stays db" "td_criteria db' = td_criteria db" by (simp_all add: db')
    show ?thesis using assms(2) row unfolding lc_typed_def new same rest by auto
  next
    case False
    then show ?thesis using assms(2) row unfolding db' lc_typed_def by (auto simp: list_ex_iff)
  qed
qed

lemma typed_results: "apply_gate_results now n results source db = Inr db' \<Longrightarrow> lc_typed db \<Longrightarrow> lc_typed db'"
proof (induction results arbitrary: db)
  case (Cons r results)
  obtain c outcome detail action where r: "r = (c, outcome, detail, action)" by (cases r)
  from Cons.prems(1) show ?case
    by (auto simp: r split: sum.splits intro: Cons.IH typed_upsert[OF _ Cons.prems(2)])
qed simp

lemma typed_gate_mutation:
  "apply_gate_mutation now n results forward source db = Inr db' \<Longrightarrow> lc_typed db \<Longrightarrow> lc_typed db'"
  unfolding apply_gate_mutation_def
  by (auto split: sum.splits option.splits dest: typed_results typed_set_lifecycle)

lemma typed_write: "lc_write db db' \<Longrightarrow> lc_typed db \<Longrightarrow> lc_typed db'"
proof (induction rule: lc_write.induct)
  case (2 now n state db db')
  then show ?case
    by (auto simp: update_lifecycle_def write_stay_def same_states lc_typed_def stays_ok_upd split: if_splits)
qed (auto simp: force_advance_def revert_lifecycle_def move_to_def advance_def advance_after_criteria_def
    split: option.splits sum.splits if_splits intro: typed_set_lifecycle typed_gate_mutation)



end
