(* ===== verification/Validity.thy ===== *)
theory Validity
  imports Lifecycle
begin

text \<open>
  Whether a node's state still holds (\<^verbatim>\<open>tod-core/src/lifecycle_validity.rs\<close>): what changed
  since the snapshot taken at \<^verbatim>\<open>ready\<close>, what verification found, and what the last verdict on
  incoming changes says, each sending the node back to the state that produces what no longer
  holds. \<^verbatim>\<open>verdict_changes\<close> is in \<^verbatim>\<open>tod-core/src/incoming.rs\<close>.
\<close>

section \<open>What a verdict resolved\<close>

definition snapshot_kind :: "entity_snapshot \<Rightarrow> string" where
  "snapshot_kind s = (case s of SnObligation _ kind _ _ _ _ _ _ \<Rightarrow> kind | SnPlanStep _ _ _ _ _ _ _ _ _ \<Rightarrow> ''plan step''
     | SnNode _ _ _ _ \<Rightarrow> ''node'' | SnCapabilities _ _ _ \<Rightarrow> ''capabilities'')"

definition snapshot_text :: "entity_snapshot \<Rightarrow> string" where
  "snapshot_text s = (case s of SnObligation _ kind _ body _ _ _ _ \<Rightarrow> ''['' @ kind @ ''] '' @ body
     | SnPlanStep _ _ body _ _ _ _ _ _ \<Rightarrow> body | SnNode title _ _ _ \<Rightarrow> title
     | SnCapabilities _ enabled _ \<Rightarrow> join '', '' (map capability_label enabled))"

text \<open>\<^verbatim>\<open>spans\<close> with \<^verbatim>\<open>order\<close>: per item, the first state before and the last after.\<close>

type_synonym span = "uuid \<times> entity_snapshot option \<times> entity_snapshot option"

definition span_step :: "recorded_action \<Rightarrow> span list \<Rightarrow> span list" where
  "span_step a spans =
     (if list_ex (\<lambda>(i, _, _). i = ra_entity_id a) spans
      then map (\<lambda>(i, before, after). if i = ra_entity_id a then (i, before, ra_after a) else (i, before, after)) spans
      else spans @ [(ra_entity_id a, ra_before a, ra_after a)])"

definition span_line :: "span \<Rightarrow> string option" where
  "span_line sp =
     (let (i, before, after) = sp;
          said = (case (before, after) of
            (None, Some a) \<Rightarrow> Some (''was added'', a)
          | (Some b, None) \<Rightarrow> Some (''was deleted'', b)
          | (Some _, Some a) \<Rightarrow> Some (''was changed'', a)
          | (None, None) \<Rightarrow> None)
      in map_option (\<lambda>(op, shown).
           ''Ancestor '' @ snapshot_kind shown @ '' ['' @ short_id i @ ''] '' @ op @ '': ''
           @ (case shown of SnObligation _ _ _ body _ _ _ _ \<Rightarrow> body | _ \<Rightarrow> snapshot_text shown)) said)"

definition verdict_changes :: "(int \<Rightarrow> recorded_action option) \<Rightarrow> incoming_verdict \<Rightarrow> string list" where
  "verdict_changes action v =
     List.map_filter span_line (fold span_step (List.map_filter action (iv_actions v)) [])"

section \<open>Findings\<close>

record regression =
  rg_target :: string
  rg_reasons :: "string list"
  rg_incoming :: "string option"
  rg_own :: bool

definition explanation :: "regression \<Rightarrow> string" where
  "explanation r =
     (case (rg_incoming r, rg_own r) of
        (Some affects, False) \<Rightarrow>
          ''A change it inherits affects its '' @ affects @ ''. Move it back and take it forward again''
      | (Some affects, True) \<Rightarrow>
          ''A change it inherits affects its '' @ affects @ '', and its own obligations, plan, or verification ''
          @ ''changed since it got here. Move it back and take it forward again''
      | (None, _) \<Rightarrow>
          ''Its obligations, plan, or verification changed since it got here. ''
          @ ''Reverse those changes, or move it back and take it forward again'')"

definition capitalized :: "string \<Rightarrow> string" where
  "capitalized s = (case s of [] \<Rightarrow> [] | c # cs \<Rightarrow> ascii_upper c # cs)"

definition acted_on :: "baseline option \<Rightarrow> incoming_verdict \<Rightarrow> bool" where
  "acted_on b v = is_some_and (\<lambda>b. iv_id v \<le> bl_verdicts_through b) b"

definition incoming_finding ::
    "(incoming_verdict \<Rightarrow> string list) \<Rightarrow> baseline option \<Rightarrow> incoming_verdict \<Rightarrow> (string \<times> string) option" where
  "incoming_finding changes b v =
     (case (verdict_target v, acted_on b v) of
        (Some target, False) \<Rightarrow>
          Some (target, (if changes v = [] then ''Incoming changes'' else join ''; '' (changes v))
            @ '' (affects '' @ iv_affects v @ ''). Note: '' @ trim (iv_note v))
      | _ \<Rightarrow> None)"

definition obligation_changed :: "obligation list \<Rightarrow> baseline_obligation \<Rightarrow> (string \<times> string) option" where
  "obligation_changed obs before =
     (case find (\<lambda>o'. ob_id o' = bo_id before) (rev obs) of
        None \<Rightarrow> Some (''design'', capitalized (bo_kind before) @ '' ['' @ short_id (bo_id before) @ ''] was deleted: ''
                 @ bo_body before)
      | Some o' \<Rightarrow>
          if ob_body o' \<noteq> bo_body before \<or> ob_kind o' \<noteq> bo_kind before
          then Some (''design'', capitalized (ob_kind o') @ '' ['' @ short_id (ob_id o') @ ''] was reworded: '' @ ob_body o')
          else if ob_acts_in o' \<noteq> bo_acts_in before
          then Some (''planning'', capitalized (ob_kind o') @ '' ['' @ short_id (ob_id o') @ ''] moved from acting in ''
                 @ bo_acts_in before @ '' to '' @ ob_acts_in o' @ '': '' @ ob_body o')
          else None)"

definition obligation_added :: "baseline_obligation list \<Rightarrow> obligation \<Rightarrow> (string \<times> string) option" where
  "obligation_added before o' =
     (if list_ex (\<lambda>b. bo_id b = ob_id o') before then None
      else Some (''design'', capitalized (ob_kind o') @ '' ['' @ short_id (ob_id o') @ ''] was added: '' @ ob_body o'))"

definition step_changed :: "plan_step list \<Rightarrow> baseline_step \<Rightarrow> (string \<times> string) option" where
  "step_changed steps before =
     (case find (\<lambda>s. ps_id s = bs_id before) (rev steps) of
        None \<Rightarrow> Some (''planning'', ''Plan step ['' @ short_id (bs_id before) @ ''] was deleted: '' @ bs_body before)
      | Some s \<Rightarrow>
          if ps_body s \<noteq> bs_body before
          then Some (''planning'', ''Plan step ['' @ short_id (ps_id s) @ ''] was reworded: '' @ ps_body s)
          else if ps_phase s \<noteq> bs_phase before
          then Some (''planning'', ''Plan step ['' @ short_id (ps_id s) @ ''] moved from the '' @ bs_phase before
                 @ '' phase to '' @ ps_phase s @ '': '' @ ps_body s)
          else None)"

definition baseline_findings :: "baseline \<Rightarrow> obligation list \<Rightarrow> plan_step list \<Rightarrow> (string \<times> string) list" where
  "baseline_findings b obs steps =
     List.map_filter (obligation_changed obs) (bl_obligations b)
     @ List.map_filter (obligation_added (bl_obligations b)) obs
     @ List.map_filter (step_changed steps) (bl_steps b)"

definition step_finding :: "bool \<Rightarrow> plan_step \<Rightarrow> (string \<times> string) option" where
  "step_finding reviewing s =
     (if ps_status s = STATUS_VERIFIED then None
      else if ps_status s = STATUS_IMPLEMENTED
      then if reviewing
           then Some (''verifying'', ''Plan step ['' @ short_id (ps_id s) @ ''] is not verified: '' @ ps_body s)
           else None
      else Some (''active'', ''Plan step ['' @ short_id (ps_id s) @ ''] is '' @ ps_status s @ '': '' @ ps_body s))"

definition standing_finding :: "bool \<Rightarrow> ob_standing \<Rightarrow> (string \<times> string) option" where
  "standing_finding reviewing st =
     (let o' = os_obligation st; what = capitalized (ob_kind o') @ '' ['' @ short_id (ob_id o') @ '']''
      in if standing_failed st then Some (''active'', what @ '' failed verification: '' @ ob_body o')
         else if reviewing \<and> standing_unchecked st then Some (''verifying'', what @ '' is not verified: '' @ ob_body o')
         else None)"

definition verification_findings :: "nat \<Rightarrow> plan_step list \<Rightarrow> ob_standing list \<Rightarrow> (string \<times> string) list" where
  "verification_findings rank steps sts =
     (if lifecycle_rank ''verifying'' \<le> rank
      then let reviewing = lifecycle_rank ''review'' \<le> rank
           in List.map_filter (step_finding reviewing) (filter (\<lambda>s. step_due_by s ''verifying'') steps)
              @ List.map_filter (standing_finding reviewing) (filter (\<lambda>s. standing_due_by s ''verifying'') sts)
      else [])"

definition finish_regression :: "(string \<times> string) list \<Rightarrow> string option \<Rightarrow> regression option" where
  "finish_regression findings incoming =
     (let own = (if incoming \<noteq> None then 1 else 0) < length findings
      in case min_by_key lifecycle_rank (map fst findings) of
           None \<Rightarrow> None
         | Some target \<Rightarrow>
             Some \<lparr>rg_target = target, rg_reasons = map snd (sort_key (\<lambda>(t, _). lifecycle_rank t) findings),
                   rg_incoming = incoming, rg_own = own\<rparr>)"

definition regression_of ::
    "(incoming_verdict \<Rightarrow> string list) \<Rightarrow> uuid \<Rightarrow> 'a tod_db_scheme \<Rightarrow> regression option" where
  "regression_of changes n db =
     (case get_lifecycle n db of
        None \<Rightarrow> None
      | Some state \<Rightarrow>
          let rank = lifecycle_rank state
          in if rank < lifecycle_rank ''ready'' \<or> lifecycle_rank ''done'' < rank then None
             else
               let b = ic_baselines (td_incoming db) n;
                   found = Option.bind (latest_verdict n (td_incoming db))
                             (\<lambda>v. map_option (\<lambda>f. (iv_affects v, f)) (incoming_finding changes b v));
                   incoming = map_option fst found;
                   first = (case found of None \<Rightarrow> [] | Some (_, f) \<Rightarrow> [f])
               in if lifecycle_rank ''approved'' < rank then finish_regression first incoming
                  else
                    let obs = obligations_for_node n (td_outline db);
                        steps = steps_for_node n (ol_plan (td_outline db))
                    in finish_regression
                         (first @ (case b of None \<Rightarrow> [] | Some b \<Rightarrow> baseline_findings b obs steps)
                          @ verification_findings rank steps (standings n (td_outline db)))
                         incoming)"

section \<open>Facts\<close>

lemma map_filter_Nil: "List.map_filter f xs = [] \<longleftrightarrow> (\<forall>x \<in> set xs. f x = None)"
  by (induction xs) (auto simp: List.map_filter_def split: option.splits)

lemma in_map_filter: "y \<in> set (List.map_filter f xs) \<longleftrightarrow> (\<exists>x \<in> set xs. f x = Some y)"
  by (induction xs) (auto simp: List.map_filter_def split: option.splits)

lemma finish_None: "finish_regression fs inc = None \<longleftrightarrow> fs = []"
  by (auto simp: finish_regression_def Let_def split: option.splits)

lemma finish_target:
  assumes "finish_regression fs inc = Some r"
  shows "rg_target r \<in> fst ` set fs" and "f \<in> set fs \<Longrightarrow> lifecycle_rank (rg_target r) \<le> lifecycle_rank (fst f)"
proof -
  have m: "min_by_key lifecycle_rank (map fst fs) = Some (rg_target r)"
    using assms by (auto simp: finish_regression_def Let_def split: option.splits)
  show "rg_target r \<in> fst ` set fs" using min_by_key_in[OF m] by simp
  show "f \<in> set fs \<Longrightarrow> lifecycle_rank (rg_target r) \<le> lifecycle_rank (fst f)" using min_by_key_le[OF m, of "fst f"] by simp
qed

text \<open>Where each finding sends a node.\<close>

lemma incoming_target: "incoming_finding changes b v = Some f \<Longrightarrow> fst f \<in> {''design'', ''planning''}"
  by (auto simp: incoming_finding_def verdict_target_def affects_target_def split: option.splits bool.splits if_splits)

lemma baseline_target: "f \<in> set (baseline_findings b obs steps) \<Longrightarrow> fst f \<in> {''design'', ''planning''}"
  by (auto simp: baseline_findings_def in_map_filter obligation_changed_def obligation_added_def step_changed_def
      split: option.splits if_splits)

lemma step_finding_target: "step_finding reviewing s = Some f \<Longrightarrow> fst f = ''active'' \<or> fst f = ''verifying'' \<and> reviewing"
  by (auto simp: step_finding_def split: if_splits)

lemma standing_finding_target:
  "standing_finding reviewing st = Some f \<Longrightarrow> fst f = ''active'' \<or> fst f = ''verifying'' \<and> reviewing"
  by (auto simp: standing_finding_def Let_def split: if_splits)

lemma verification_target:
  "f \<in> set (verification_findings rank steps sts) \<Longrightarrow>
     lifecycle_rank ''verifying'' \<le> rank \<and>
     (fst f = ''active'' \<or> fst f = ''verifying'' \<and> lifecycle_rank ''review'' \<le> rank)"
  by (auto simp: verification_findings_def Let_def in_map_filter split: if_splits
      dest!: step_finding_target standing_finding_target)

text \<open>The findings of a node, before they are summed up.\<close>

definition first_findings :: "(incoming_verdict \<Rightarrow> string list) \<Rightarrow> uuid \<Rightarrow> incoming_db \<Rightarrow> (string \<times> string) list" where
  "first_findings changes n ic =
     (case latest_verdict n ic of
        None \<Rightarrow> []
      | Some v \<Rightarrow> (case incoming_finding changes (ic_baselines ic n) v of None \<Rightarrow> [] | Some f \<Rightarrow> [f]))"

definition findings_of :: "(incoming_verdict \<Rightarrow> string list) \<Rightarrow> uuid \<Rightarrow> string \<Rightarrow> 'a tod_db_scheme \<Rightarrow> (string \<times> string) list" where
  "findings_of changes n state db =
     (if lifecycle_rank state < lifecycle_rank ''ready'' \<or> lifecycle_rank ''done'' < lifecycle_rank state then []
      else first_findings changes n (td_incoming db) @
        (if lifecycle_rank ''approved'' < lifecycle_rank state then []
         else (case ic_baselines (td_incoming db) n of
                 None \<Rightarrow> []
               | Some b \<Rightarrow> baseline_findings b (obligations_for_node n (td_outline db))
                             (steps_for_node n (ol_plan (td_outline db))))
              @ verification_findings (lifecycle_rank state) (steps_for_node n (ol_plan (td_outline db)))
                  (standings n (td_outline db))))"

lemma regression_of_findings:
  assumes "get_lifecycle n db = Some state"
  shows "\<exists>inc. regression_of changes n db = finish_regression (findings_of changes n state db) inc"
proof (cases "lifecycle_rank state < lifecycle_rank ''ready'' \<or> lifecycle_rank ''done'' < lifecycle_rank state")
  case True
  then show ?thesis using assms by (auto simp: regression_of_def findings_of_def finish_regression_def Let_def)
next
  case False
  define found where "found = Option.bind (latest_verdict n (td_incoming db))
     (\<lambda>v. map_option (\<lambda>f. (iv_affects v, f)) (incoming_finding changes (ic_baselines (td_incoming db) n) v))"
  have first: "(case found of None \<Rightarrow> [] | Some (_, f) \<Rightarrow> [f]) = first_findings changes n (td_incoming db)"
    by (auto simp: found_def first_findings_def split: option.splits)
  have "regression_of changes n db = finish_regression (findings_of changes n state db) (map_option fst found)"
    using False assms unfolding regression_of_def findings_of_def found_def[symmetric] first[symmetric]
    by (simp add: Let_def found_def[symmetric])
  then show ?thesis by blast
qed

lemma regression_None_iff:
  "get_lifecycle n db = Some state \<Longrightarrow> regression_of changes n db = None \<longleftrightarrow> findings_of changes n state db = []"
  using regression_of_findings[of n db state changes] finish_None by metis

lemma finding_target:
  assumes "f \<in> set (findings_of changes n state db)"
  shows "fst f \<in> {''design'', ''planning'', ''active'', ''verifying''}"
    and "lifecycle_rank (fst f) < lifecycle_rank state"
proof -
  have r: "lifecycle_rank ''ready'' \<le> lifecycle_rank state"
    using assms by (auto simp: findings_of_def split: if_splits)
  from assms consider "f \<in> set (first_findings changes n (td_incoming db))"
    | b where "f \<in> set (baseline_findings b (obligations_for_node n (td_outline db)) (steps_for_node n (ol_plan (td_outline db))))"
    | "f \<in> set (verification_findings (lifecycle_rank state) (steps_for_node n (ol_plan (td_outline db))) (standings n (td_outline db)))"
    by (auto simp: findings_of_def split: if_splits option.splits)
  then have "fst f \<in> {''design'', ''planning'', ''active'', ''verifying''} \<and> lifecycle_rank (fst f) < lifecycle_rank state"
  proof cases
    case 1
    then obtain v where "incoming_finding changes (ic_baselines (td_incoming db) n) v = Some f"
      by (auto simp: first_findings_def split: option.splits)
    then have "fst f \<in> {''design'', ''planning''}" by (rule incoming_target)
    then show ?thesis using r by (auto simp: rank_values)
  next
    case (2 b)
    then show ?thesis using r baseline_target[OF 2] by (auto simp: rank_values)
  next
    case 3
    from verification_target[OF this] show ?thesis by (auto simp: rank_values)
  qed
  then show "fst f \<in> {''design'', ''planning'', ''active'', ''verifying''}" "lifecycle_rank (fst f) < lifecycle_rank state"
    by simp_all
qed

text \<open>What of the store a finding depends on.\<close>

lemma obligations_same: "ol_obligations ol' = ol_obligations ol \<Longrightarrow> obligations_for_node n ol' = obligations_for_node n ol"
  by (simp add: obligations_for_node_def)

lemma steps_same: "pl_steps p' = pl_steps p \<Longrightarrow> steps_for_node n p' = steps_for_node n p"
  by (simp add: steps_for_node_def)

lemma phases_same:
  "pl_steps p' = pl_steps p \<Longrightarrow> pl_links p' = pl_links p \<Longrightarrow> obligation_phases n p' = obligation_phases n p"
  by (simp add: obligation_phases_def linked_phases_def get_step_def)

lemma latest_verdict_same: "ic_verdicts ic' = ic_verdicts ic \<Longrightarrow> latest_verdict n ic' = latest_verdict n ic"
  by (simp add: latest_verdict_def incoming_verdicts_def)

text \<open>After confirmed requirements were reopened, one stands failed only if it did before.\<close>

lemma standings_after_reopen:
  assumes wf: "wf_verdicts (pl_verdicts (ol_plan ol))" and wf': "wf_verdicts (pl_verdicts (ol_plan ol'))"
    and same: "ol_obligations ol' = ol_obligations ol" "pl_steps (ol_plan ol') = pl_steps (ol_plan ol)"
      "pl_links (ol_plan ol') = pl_links (ol_plan ol)"
    and cur: "\<And>ob. current_verdict n ob (pl_verdicts (ol_plan ol')) = current_verdict n ob (pl_verdicts (ol_plan ol))
        \<or> is_some_and (\<lambda>v. ve_status v = VERDICT_REOPENED) (current_verdict n ob (pl_verdicts (ol_plan ol')))"
    and st: "st' \<in> set (standings n ol')"
  shows "\<exists>st \<in> set (standings n ol). os_obligation st = os_obligation st' \<and> os_phase st = os_phase st'
      \<and> (standing_failed st' \<longrightarrow> standing_failed st)"
proof -
  obtain o' where o': "o' \<in> set (obligations_for_node n ol')"
    and s': "st' = \<lparr>os_obligation = o', os_verdict = latest_for_node n (pl_verdicts (ol_plan ol')) (ob_id o'),
        os_phase = later_phase (ob_acts_in o') (unwrap_or PHASE_ACTIVE (obligation_phases n (ol_plan ol') (ob_id o')))\<rparr>"
    using st by (auto simp: standings_def Let_def)
  let ?st = "\<lparr>os_obligation = o', os_verdict = latest_for_node n (pl_verdicts (ol_plan ol)) (ob_id o'),
        os_phase = later_phase (ob_acts_in o') (unwrap_or PHASE_ACTIVE (obligation_phases n (ol_plan ol) (ob_id o')))\<rparr>"
  have "?st \<in> set (standings n ol)"
    using o' obligations_same[OF same(1), of n] by (auto simp: standings_def Let_def)
  moreover have "standing_failed st' \<longrightarrow> standing_failed ?st"
    using cur[of "ob_id o'"]
    by (auto simp: s' standing_failed_def latest_current[OF wf] latest_current[OF wf'] is_failed_def is_some_and_iff)
  moreover have "os_obligation ?st = os_obligation st'" "os_phase ?st = os_phase st'"
    using phases_same[OF same(2,3), of n] by (simp_all add: s')
  ultimately show ?thesis by blast
qed

section \<open>Properties\<close>

text \<open>C15: A node is only ever sent back, never on: the state named is one of \<^verbatim>\<open>design\<close>,
  \<^verbatim>\<open>planning\<close>, \<^verbatim>\<open>active\<close> and \<^verbatim>\<open>verifying\<close>, strictly before the one the node is in, which is
  \<^verbatim>\<open>ready\<close> or later; and there is a reason for it.\<close>
theorem regression_goes_back:
  assumes "regression_of changes n db = Some r"
  shows "\<exists>state. get_lifecycle n db = Some state
     \<and> lifecycle_rank ''ready'' \<le> lifecycle_rank state \<and> lifecycle_rank state \<le> lifecycle_rank ''done''
     \<and> lifecycle_rank (rg_target r) < lifecycle_rank state
     \<and> rg_target r \<in> {''design'', ''planning'', ''active'', ''verifying''} \<and> rg_reasons r \<noteq> []"
proof -
  obtain state where st: "get_lifecycle n db = Some state"
    using assms by (cases "get_lifecycle n db") (auto simp: regression_of_def)
  obtain inc where r: "finish_regression (findings_of changes n state db) inc = Some r"
    using regression_of_findings[OF st, of changes] assms by auto
  obtain f where f: "f \<in> set (findings_of changes n state db)" "fst f = rg_target r"
    using finish_target(1)[OF r] by auto
  have "lifecycle_rank ''ready'' \<le> lifecycle_rank state \<and> lifecycle_rank state \<le> lifecycle_rank ''done''"
    using f(1) by (auto simp: findings_of_def split: if_splits)
  moreover have "rg_reasons r \<noteq> []"
    using r f(1) by (auto simp: finish_regression_def Let_def split: option.splits) (metis length_0_conv length_sort list.size(3) empty_iff set_empty)
  ultimately show ?thesis using finding_target[OF f(1)] st f(2) by auto
qed

text \<open>A node whose findings all send it to \<open>active\<close> or later has none from its baseline or from an
  incoming verdict.\<close>

definition baseline_part :: "uuid \<Rightarrow> 'a tod_db_scheme \<Rightarrow> (string \<times> string) list" where
  "baseline_part n db = (case ic_baselines (td_incoming db) n of None \<Rightarrow> []
     | Some b \<Rightarrow> baseline_findings b (obligations_for_node n (td_outline db)) (steps_for_node n (ol_plan (td_outline db))))"

lemma late_findings:
  assumes f: "f \<in> set (findings_of changes n state db)"
    and late: "\<And>g. g \<in> set (findings_of changes n state db) \<Longrightarrow> fst g \<notin> {''design'', ''planning''}"
  shows "first_findings changes n (td_incoming db) = []"
    and "baseline_part n db = []"
    and "findings_of changes n state db = verification_findings (lifecycle_rank state)
       (steps_for_node n (ol_plan (td_outline db))) (standings n (td_outline db))"
proof -
  show first: "first_findings changes n (td_incoming db) = []"
  proof (rule ccontr)
    assume "first_findings changes n (td_incoming db) \<noteq> []"
    then obtain g where g: "g \<in> set (first_findings changes n (td_incoming db))" by (meson list.set_sel(1))
    then obtain v where "incoming_finding changes (ic_baselines (td_incoming db) n) v = Some g"
      by (auto simp: first_findings_def split: option.splits)
    moreover have "g \<in> set (findings_of changes n state db)"
      using f g by (auto simp: findings_of_def split: if_splits)
    ultimately show False using late incoming_target by blast
  qed
  then have "\<not> lifecycle_rank ''approved'' < lifecycle_rank state"
    using f by (auto simp: findings_of_def split: if_splits)
  with f first have parts: "findings_of changes n state db = baseline_part n db @ verification_findings (lifecycle_rank state)
       (steps_for_node n (ol_plan (td_outline db))) (standings n (td_outline db))"
    by (auto simp: findings_of_def baseline_part_def split: if_splits)
  show base: "baseline_part n db = []"
  proof (cases "ic_baselines (td_incoming db) n")
    case (Some b)
    have "g \<notin> set (baseline_part n db)" for g
      using late[of g] baseline_target[of g b] by (auto simp: parts baseline_part_def Some)
    then show ?thesis by (metis ex_in_conv set_empty2)
  qed (simp add: baseline_part_def)
  show "findings_of changes n state db = verification_findings (lifecycle_rank state)
       (steps_for_node n (ol_plan (td_outline db))) (standings n (td_outline db))"
    using parts base by simp
qed

text \<open>Moved back to the earliest state it was found wanting for, its verification finds nothing.\<close>

lemma verification_settles:
  assumes m: "set_lifecycle now n t db = Inr db'" "td_stays db n = Some (state, entered)"
    and wf: "wf_verdicts (verdicts_of db)" and t: "t \<in> {''active'', ''verifying''}" "lifecycle_rank t < lifecycle_rank state"
    and least: "\<And>g. g \<in> set (verification_findings (lifecycle_rank state) (steps_for_node n (ol_plan (td_outline db)))
       (standings n (td_outline db))) \<Longrightarrow> lifecycle_rank t \<le> lifecycle_rank (fst g)"
  shows "verification_findings (lifecycle_rank t) (steps_for_node n (ol_plan (td_outline db))) (standings n (td_outline db')) = []"
proof (cases "t = ''active''")
  case True
  then show ?thesis by (simp add: verification_findings_def rank_values)
next
  case False
  then have tv: "t = ''verifying''" using t by blast
  then have rank: "lifecycle_rank ''verifying'' \<le> lifecycle_rank state" using t(2) by (simp add: rank_values)
  let ?rv = "lifecycle_rank ''review'' \<le> lifecycle_rank state"
  let ?vf = "verification_findings (lifecycle_rank state) (steps_for_node n (ol_plan (td_outline db))) (standings n (td_outline db))"
  have no_active: "g \<notin> set ?vf" if "fst g = ''active''" for g
    using least[of g] that by (auto simp: tv rank_values)
  have steps_ok: "step_finding False s = None"
    if s: "s \<in> set (steps_for_node n (ol_plan (td_outline db)))" "step_due_by s ''verifying''" for s
  proof (rule ccontr)
    assume "step_finding False s \<noteq> None"
    then obtain g where g: "step_finding ?rv s = Some g" "fst g = ''active''"
      by (auto simp: step_finding_def split: if_splits)
    then have "g \<in> set ?vf" using s rank by (auto simp: verification_findings_def Let_def in_map_filter)
    then show False using no_active g(2) by blast
  qed
  have standings_ok: "standing_finding False st' = None"
    if st': "st' \<in> set (standings n (td_outline db'))" "standing_due_by st' ''verifying''" for st'
  proof (rule ccontr)
    assume "standing_finding False st' \<noteq> None"
    then have failed: "standing_failed st'" by (auto simp: standing_finding_def Let_def split: if_splits)
    note m' = set_lifecycle_fields[OF m] and v = set_lifecycle_verdicts[OF m wf]
    obtain st where st: "st \<in> set (standings n (td_outline db))" "os_obligation st = os_obligation st'"
        "os_phase st = os_phase st'" "standing_failed st"
      using standings_after_reopen[OF wf v(1) m'(7,8,9) v(2) st'(1)] failed by blast
    then obtain g where g: "standing_finding ?rv st = Some g" "fst g = ''active''"
      by (auto simp: standing_finding_def Let_def)
    have "standing_due_by st ''verifying''" using st'(2) st(2,3) by (simp add: standing_due_by_def)
    then have "g \<in> set ?vf" using st(1) g(1) rank by (auto simp: verification_findings_def Let_def in_map_filter)
    then show False using no_active g(2) by blast
  qed
  show ?thesis using steps_ok standings_ok by (auto simp: verification_findings_def tv rank_values map_filter_Nil)
qed

text \<open>C16: Following the advice settles it: once the node is moved to the state its regression
  names, nothing is found against it there.\<close>
theorem regression_settles:
  assumes "regression_of changes n db = Some r" "set_lifecycle now n (rg_target r) db = Inr db'"
    and "wf_verdicts (verdicts_of db)"
  shows "regression_of changes n db' = None"
proof -
  obtain state where st: "get_lifecycle n db = Some state"
    using assms(1) by (cases "get_lifecycle n db") (auto simp: regression_of_def)
  then obtain entered where stay: "td_stays db n = Some (state, entered)" by (auto simp: get_lifecycle_def)
  obtain inc where r: "finish_regression (findings_of changes n state db) inc = Some r"
    using regression_of_findings[OF st, of changes] assms(1) by auto
  let ?t = "rg_target r"
  obtain f where f: "f \<in> set (findings_of changes n state db)" "fst f = ?t"
    using finish_target(1)[OF r] by auto
  have t: "?t \<in> {''design'', ''planning'', ''active'', ''verifying''}" and earlier: "lifecycle_rank ?t < lifecycle_rank state"
    using finding_target[OF f(1)] f(2) by auto
  note m = set_lifecycle_fields[OF assms(2) stay]
  have st': "get_lifecycle n db' = Some ?t" using m(2) by (simp add: get_lifecycle_def)
  have "findings_of changes n ?t db' = []"
  proof (cases "?t \<in> {''design'', ''planning''}")
    case True
    then show ?thesis by (auto simp: findings_of_def lifecycle_rank_def)
  next
    case False
    then have late: "?t \<in> {''active'', ''verifying''}" using t by blast
    have "fst g \<notin> {''design'', ''planning''}" if "g \<in> set (findings_of changes n state db)" for g
      using finish_target(2)[OF r that] late by (auto simp: rank_values)
    note parts = late_findings[OF f(1) this]
    have verification: "verification_findings (lifecycle_rank ?t) (steps_for_node n (ol_plan (td_outline db)))
        (standings n (td_outline db')) = []"
      using verification_settles[OF assms(2) stay assms(3) late earlier] finish_target(2)[OF r] parts(3) by simp
    have ic: "td_incoming db' = td_incoming db" using m(11) late by (auto simp: settled_incoming_def)
    note same = ic obligations_same[OF m(7), of n] steps_same[OF m(8), of n]
    show ?thesis
      using parts(1,2) unfolding findings_of_def same baseline_part_def verification by simp
  qed
  then show ?thesis using regression_None_iff[OF st'] by blast
qed

text \<open>Entering \<^verbatim>\<open>ready\<close>: the snapshot matches the rows it was just taken of, and covers every
  verdict there is.\<close>

lemma fold_max_ge: "x \<in> set xs \<Longrightarrow> x \<le> fold max xs (a :: nat)"
  by (metis List.finite_set Max.set_eq_fold Max_ge insert_iff list.set(2))

lemma latest_verdict_in: "latest_verdict n ic = Some v \<Longrightarrow> v \<in> set (ic_verdicts ic) \<and> iv_node v = n"
  by (auto simp: latest_verdict_def last_opt_def incoming_verdicts_def split: if_splits
      dest!: last_in_set)

lemma find_distinct:
  assumes "distinct (map f xs)" "x \<in> set xs"
  shows "find (\<lambda>y. f y = f x) (rev xs) = Some x"
proof -
  obtain y where y: "find (\<lambda>y. f y = f x) (rev xs) = Some y"
    using assms(2) by (metis (mono_tags) find_None_iff set_rev not_None_eq)
  then have "y \<in> set xs" "f y = f x" by (auto dest: find_Some_in)
  then show ?thesis using y assms by (auto simp: distinct_map inj_on_def)
qed

lemma distinct_ids_for_node:
  "distinct (map ob_id (ol_obligations ol)) \<Longrightarrow> distinct (map ob_id (obligations_for_node n ol))"
  "distinct (map ps_id (pl_steps p)) \<Longrightarrow> distinct (map ps_id (steps_for_node n p))"
  by (simp_all add: obligations_for_node_def steps_for_node_def distinct_map_sort_key distinct_map_filter)

text \<open>A node that has just entered \<^verbatim>\<open>ready\<close> stands: nothing is found against it, whatever was
  before, since the snapshot is taken of what is there and covers every verdict recorded.\<close>
theorem ready_holds:
  assumes "set_lifecycle now n ''ready'' db = Inr db'"
    and "distinct (map ob_id (ol_obligations (td_outline db)))" "distinct (map ps_id (pl_steps (ol_plan (td_outline db))))"
  shows "regression_of changes n db' = None"
proof -
  note m = set_lifecycle_rows[OF assms(1)]
  let ?obs = "obligations_for_node n (td_outline db')" and ?steps = "steps_for_node n (ol_plan (td_outline db'))"
  have ic: "ic_verdicts (td_incoming db') = ic_verdicts (td_incoming db)"
    and b: "ic_baselines (td_incoming db') n = Some
      \<lparr>bl_obligations = map (\<lambda>o'. \<lparr>bo_id = ob_id o', bo_kind = ob_kind o', bo_body = ob_body o',
                                     bo_acts_in = ob_acts_in o'\<rparr>) ?obs,
         bl_steps = map (\<lambda>s. \<lparr>bs_id = ps_id s, bs_body = ps_body s, bs_phase = ps_phase s\<rparr>) ?steps,
         bl_checked = [],
         bl_verdicts_through = fold max (map iv_id (filter (\<lambda>v. iv_node v = n) (ic_verdicts (td_incoming db)))) 0\<rparr>"
      (is "_ = Some ?b")
    unfolding m(4) settled_incoming_def take_baseline_def by simp_all
  have first: "first_findings changes n (td_incoming db') = []"
  proof (cases "latest_verdict n (td_incoming db')")
    case (Some v)
    then have "iv_id v \<in> set (map iv_id (filter (\<lambda>v. iv_node v = n) (ic_verdicts (td_incoming db))))"
      using latest_verdict_in ic by fastforce
    then have "acted_on (Some ?b) v" unfolding acted_on_def using fold_max_ge by simp
    then show ?thesis using Some b by (simp add: first_findings_def incoming_finding_def split: option.split)
  qed (simp add: first_findings_def)
  have obs: "distinct (map ob_id ?obs)" and steps: "distinct (map ps_id ?steps)"
    using assms(2,3) m(2,3) distinct_ids_for_node by metis+
  have "baseline_findings ?b ?obs ?steps = []"
    unfolding baseline_findings_def
    using find_distinct[OF obs] find_distinct[OF steps]
    by (auto simp: map_filter_Nil obligation_changed_def obligation_added_def step_changed_def list_ex_iff)
  then have "findings_of changes n ''ready'' db' = []"
    unfolding findings_of_def first b by (simp add: rank_values verification_findings_def)
  then show ?thesis using regression_None_iff[OF m(1)] by blast
qed

definition obligation_facts :: "obligation \<Rightarrow> baseline_obligation" where
  "obligation_facts o' = \<lparr>bo_id = ob_id o', bo_kind = ob_kind o', bo_body = ob_body o', bo_acts_in = ob_acts_in o'\<rparr>"

definition step_facts :: "plan_step \<Rightarrow> baseline_step" where
  "step_facts s = \<lparr>bs_id = ps_id s, bs_body = ps_body s, bs_phase = ps_phase s\<rparr>"

lemma obligation_changed_None:
  assumes "distinct (map ob_id obs)"
  shows "obligation_changed obs b = None \<longleftrightarrow> b \<in> obligation_facts ` set obs"
proof
  assume n: "obligation_changed obs b = None"
  then obtain o' where o': "find (\<lambda>o'. ob_id o' = bo_id b) (rev obs) = Some o'"
    by (auto simp: obligation_changed_def split: option.splits)
  then have "o' \<in> set obs" "ob_id o' = bo_id b" by (auto dest: find_Some_in)
  moreover have "ob_body o' = bo_body b" "ob_kind o' = bo_kind b" "ob_acts_in o' = bo_acts_in b"
    using n o' by (auto simp: obligation_changed_def split: if_splits)
  ultimately have "o' \<in> set obs" "b = obligation_facts o'" by (simp_all add: obligation_facts_def)
  then show "b \<in> obligation_facts ` set obs" by blast
next
  assume "b \<in> obligation_facts ` set obs"
  then obtain o' where "o' \<in> set obs" "b = obligation_facts o'" by blast
  then show "obligation_changed obs b = None"
    using find_distinct[OF assms, of o'] by (simp add: obligation_changed_def obligation_facts_def)
qed

lemma step_changed_None:
  assumes "distinct (map ps_id steps)"
  shows "step_changed steps b = None \<longleftrightarrow> b \<in> step_facts ` set steps"
proof
  assume n: "step_changed steps b = None"
  then obtain s where s: "find (\<lambda>s. ps_id s = bs_id b) (rev steps) = Some s"
    by (auto simp: step_changed_def split: option.splits)
  then have "s \<in> set steps" "ps_id s = bs_id b" by (auto dest: find_Some_in)
  moreover have "ps_body s = bs_body b" "ps_phase s = bs_phase b"
    using n s by (auto simp: step_changed_def split: if_splits)
  ultimately have "s \<in> set steps" "b = step_facts s" by (simp_all add: step_facts_def)
  then show "b \<in> step_facts ` set steps" by blast
next
  assume "b \<in> step_facts ` set steps"
  then obtain s where "s \<in> set steps" "b = step_facts s" by blast
  then show "step_changed steps b = None"
    using find_distinct[OF assms, of s] by (simp add: step_changed_def step_facts_def)
qed

lemma baseline_matches:
  assumes "distinct (map ob_id obs)" "distinct (map ps_id steps)"
  shows "baseline_findings b obs steps = [] \<longleftrightarrow>
     set (bl_obligations b) = obligation_facts ` set obs \<and> set (bl_steps b) \<subseteq> step_facts ` set steps"
proof -
  have added: "(\<forall>o' \<in> set obs. obligation_added (bl_obligations b) o' = None) \<longleftrightarrow>
      ob_id ` set obs \<subseteq> bo_id ` set (bl_obligations b)"
  proof -
    have "(obligation_added (bl_obligations b) o' = None) = (ob_id o' \<in> bo_id ` set (bl_obligations b))" for o'
      by (force simp: obligation_added_def list_ex_iff)
    then show ?thesis by auto
  qed
  have "set (bl_obligations b) \<subseteq> obligation_facts ` set obs \<Longrightarrow>
      ob_id ` set obs \<subseteq> bo_id ` set (bl_obligations b) \<longleftrightarrow> obligation_facts ` set obs \<subseteq> set (bl_obligations b)"
  proof -
    assume sub: "set (bl_obligations b) \<subseteq> obligation_facts ` set obs"
    have "obligation_facts o' \<in> set (bl_obligations b)"
      if "ob_id ` set obs \<subseteq> bo_id ` set (bl_obligations b)" "o' \<in> set obs" for o'
    proof -
      have "ob_id o' \<in> bo_id ` set (bl_obligations b)" using that by blast
      then obtain c where c: "c \<in> set (bl_obligations b)" "bo_id c = ob_id o'" by (metis imageE)
      then obtain p where p: "p \<in> set obs" "c = obligation_facts p" using sub by blast
      then have "p = o'" using c(2) that(2) assms(1) by (auto simp: obligation_facts_def distinct_map inj_on_def)
      then show ?thesis using c p by simp
    qed
    moreover have "ob_id ` set obs \<subseteq> bo_id ` set (bl_obligations b)"
      if "obligation_facts ` set obs \<subseteq> set (bl_obligations b)"
    proof -
      have "ob_id ` set obs = bo_id ` obligation_facts ` set obs" by (simp add: image_image obligation_facts_def)
      then show ?thesis using that by (simp add: image_mono)
    qed
    ultimately show ?thesis by (meson image_subsetI)
  qed
  then have eq: "set (bl_obligations b) \<subseteq> obligation_facts ` set obs \<and> ob_id ` set obs \<subseteq> bo_id ` set (bl_obligations b)
      \<longleftrightarrow> set (bl_obligations b) = obligation_facts ` set obs"
    by (metis subset_antisym order_refl)
  have "baseline_findings b obs steps = [] \<longleftrightarrow>
      (set (bl_obligations b) \<subseteq> obligation_facts ` set obs \<and> ob_id ` set obs \<subseteq> bo_id ` set (bl_obligations b))
      \<and> set (bl_steps b) \<subseteq> step_facts ` set steps"
    unfolding baseline_findings_def append_is_Nil_conv map_filter_Nil added obligation_changed_None[OF assms(1)]
      step_changed_None[OF assms(2)] by (simp add: subset_iff Ball_def)
  then show ?thesis unfolding eq .
qed

text \<open>C17: From \<^verbatim>\<open>ready\<close> to \<^verbatim>\<open>approved\<close> a state holds exactly when nothing it rests on changed: the
  latest incoming verdict asks for nothing or was acted on; the node's obligations are those of
  the snapshot, word for word, and every step of the snapshot is still there, worded and phased as
  it was; and from \<^verbatim>\<open>verifying\<close> on every step due is done and no obligation due has failed, from
  \<^verbatim>\<open>review\<close> on all of them verified. So undoing a change takes its finding back.\<close>
theorem state_holds_exact:
  assumes "get_lifecycle n db = Some state"
    and "lifecycle_rank ''ready'' \<le> lifecycle_rank state" "lifecycle_rank state \<le> lifecycle_rank ''approved''"
    and "distinct (map ob_id (ol_obligations (td_outline db)))" "distinct (map ps_id (pl_steps (ol_plan (td_outline db))))"
  shows "regression_of changes n db = None \<longleftrightarrow>
     is_none_or (\<lambda>v. verdict_target v = None \<or> acted_on (ic_baselines (td_incoming db) n) v) (latest_verdict n (td_incoming db))
   \<and> is_none_or (\<lambda>b. set (bl_obligations b) = obligation_facts ` set (obligations_for_node n (td_outline db))
         \<and> set (bl_steps b) \<subseteq> step_facts ` set (steps_for_node n (ol_plan (td_outline db))))
       (ic_baselines (td_incoming db) n)
   \<and> (lifecycle_rank ''verifying'' \<le> lifecycle_rank state \<longrightarrow>
       (\<forall>s \<in> set (steps_for_node n (ol_plan (td_outline db))). step_due_by s ''verifying'' \<longrightarrow>
          ps_status s = STATUS_VERIFIED \<or> ps_status s = STATUS_IMPLEMENTED \<and> lifecycle_rank state < lifecycle_rank ''review'')
     \<and> (\<forall>st \<in> set (standings n (td_outline db)). standing_due_by st ''verifying'' \<longrightarrow>
          \<not> standing_failed st \<and> (standing_verified st \<or> lifecycle_rank state < lifecycle_rank ''review'')))"
proof -
  have ids: "distinct (map ob_id (obligations_for_node n (td_outline db)))"
    "distinct (map ps_id (steps_for_node n (ol_plan (td_outline db))))"
    using distinct_ids_for_node assms(4,5) by blast+
  have first: "first_findings changes n (td_incoming db) = [] \<longleftrightarrow>
     is_none_or (\<lambda>v. verdict_target v = None \<or> acted_on (ic_baselines (td_incoming db) n) v) (latest_verdict n (td_incoming db))"
    by (auto simp: first_findings_def incoming_finding_def split: option.split bool.split)
  have base: "(case ic_baselines (td_incoming db) n of None \<Rightarrow> []
         | Some b \<Rightarrow> baseline_findings b (obligations_for_node n (td_outline db)) (steps_for_node n (ol_plan (td_outline db)))) = []
     \<longleftrightarrow> is_none_or (\<lambda>b. set (bl_obligations b) = obligation_facts ` set (obligations_for_node n (td_outline db))
         \<and> set (bl_steps b) \<subseteq> step_facts ` set (steps_for_node n (ol_plan (td_outline db)))) (ic_baselines (td_incoming db) n)"
    by (cases "ic_baselines (td_incoming db) n") (simp_all add: baseline_matches[OF ids])
  have step: "step_finding rv s = None \<longleftrightarrow> ps_status s = STATUS_VERIFIED \<or> ps_status s = STATUS_IMPLEMENTED \<and> \<not> rv" for rv s
    by (auto simp: step_finding_def)
  have standing: "standing_finding rv st = None \<longleftrightarrow> \<not> standing_failed st \<and> (standing_verified st \<or> \<not> rv)" for rv st
    by (auto simp: standing_finding_def standing_unchecked_def Let_def)
  have verification: "verification_findings (lifecycle_rank state) steps sts = [] \<longleftrightarrow>
     (lifecycle_rank ''verifying'' \<le> lifecycle_rank state \<longrightarrow>
       (\<forall>s \<in> set steps. step_due_by s ''verifying'' \<longrightarrow>
          ps_status s = STATUS_VERIFIED \<or> ps_status s = STATUS_IMPLEMENTED \<and> lifecycle_rank state < lifecycle_rank ''review'')
     \<and> (\<forall>st \<in> set sts. standing_due_by st ''verifying'' \<longrightarrow>
          \<not> standing_failed st \<and> (standing_verified st \<or> lifecycle_rank state < lifecycle_rank ''review'')))" for steps sts
    by (auto simp: verification_findings_def Let_def map_filter_Nil step standing not_le)
  have "findings_of changes n state db = first_findings changes n (td_incoming db)
      @ (case ic_baselines (td_incoming db) n of None \<Rightarrow> []
         | Some b \<Rightarrow> baseline_findings b (obligations_for_node n (td_outline db)) (steps_for_node n (ol_plan (td_outline db))))
      @ verification_findings (lifecycle_rank state) (steps_for_node n (ol_plan (td_outline db))) (standings n (td_outline db))"
    using assms(2,3) by (simp add: findings_of_def rank_values)
  then show ?thesis
    unfolding regression_None_iff[OF assms(1)] first[symmetric] base[symmetric] verification[symmetric]
    by (simp only: append_is_Nil_conv)
qed

section \<open>A node that lost an obligation\<close>

definition lost_obligation_db :: tod_db where
  "lost_obligation_db = sample_db\<lparr>td_stays := (\<lambda>_. None)(7 \<mapsto> (''active'', 3)),
     td_incoming := (td_incoming sample_db)\<lparr>ic_baselines := (\<lambda>_. None)(7 \<mapsto>
       \<lparr>bl_obligations = [\<lparr>bo_id = 1, bo_kind = KIND_REQUIREMENT, bo_body = ''fast'', bo_acts_in = ACTS_IN_ACTIVE\<rparr>],
        bl_steps = [], bl_checked = [], bl_verdicts_through = 0\<rparr>)\<rparr>\<rparr>"

lemma lost_obligation_facts:
  "get_lifecycle 7 lost_obligation_db = Some ''active''" "wf_verdicts (verdicts_of lost_obligation_db)"
  "latest_verdict 7 (td_incoming lost_obligation_db) = None"
  "obligations_for_node 7 (td_outline lost_obligation_db) = []"
  "steps_for_node 7 (ol_plan (td_outline lost_obligation_db)) = []"
  using sample_verdicts_wf
  by (simp_all add: lost_obligation_db_def sample_db_def get_lifecycle_def latest_verdict_def incoming_verdicts_def
      obligations_for_node_def steps_for_node_def)

lemma lost_obligation_regression:
  "\<exists>r. regression_of changes 7 lost_obligation_db = Some r \<and> rg_target r = ''design''"
proof -
  have "\<exists>why. findings_of changes 7 ''active'' lost_obligation_db = [(''design'', why)]"
    unfolding findings_of_def lost_obligation_facts first_findings_def
    by (simp add: rank_values lost_obligation_db_def baseline_findings_def obligation_changed_def
        verification_findings_def List.map_filter_def)
  then show ?thesis
    using regression_of_findings[OF lost_obligation_facts(1), of changes]
    by (auto simp: finish_regression_def Let_def)
qed

theorem regression_goes_back_witness:
  "\<exists>r. regression_of (\<lambda>_. []) 7 lost_obligation_db = Some r
     \<and> lifecycle_rank (rg_target r) < lifecycle_rank ''active'' \<and> rg_reasons r \<noteq> []"
proof -
  obtain r where r: "regression_of (\<lambda>_. []) 7 lost_obligation_db = Some r"
    using lost_obligation_regression by blast
  show ?thesis using regression_goes_back[OF r] r lost_obligation_facts(1) by auto
qed

theorem regression_settles_witness:
  "\<exists>db'. set_lifecycle 9 7 ''design'' lost_obligation_db = Inr db' \<and> regression_of (\<lambda>_. []) 7 db' = None"
proof -
  obtain r where r: "regression_of (\<lambda>_. []) 7 lost_obligation_db = Some r" "rg_target r = ''design''"
    using lost_obligation_regression by blast
  obtain db' where m: "set_lifecycle 9 7 (rg_target r) lost_obligation_db = Inr db'"
    using set_lifecycle_total[of "rg_target r" 9 7 lost_obligation_db] r(2) by (auto simp: LIFECYCLE_STATES_def)
  show ?thesis using regression_settles[OF r(1) m lost_obligation_facts(2)] m r(2) by auto
qed

theorem ready_holds_witness:
  "\<exists>db'. set_lifecycle 9 7 ''ready'' lost_obligation_db = Inr db' \<and> regression_of (\<lambda>_. []) 7 db' = None"
proof -
  obtain db' where m: "set_lifecycle 9 7 ''ready'' lost_obligation_db = Inr db'"
    using set_lifecycle_total[of "''ready''" 9 7 lost_obligation_db] by (auto simp: LIFECYCLE_STATES_def)
  show ?thesis using ready_holds[OF m, of "\<lambda>_. []"] m by (simp add: lost_obligation_db_def sample_db_def)
qed

theorem state_holds_exact_witness: "regression_of (\<lambda>_. []) 7 lost_obligation_db \<noteq> None"
proof -
  have b: "ic_baselines (td_incoming lost_obligation_db) 7 = Some
       \<lparr>bl_obligations = [\<lparr>bo_id = 1, bo_kind = KIND_REQUIREMENT, bo_body = ''fast'', bo_acts_in = ACTS_IN_ACTIVE\<rparr>],
        bl_steps = [], bl_checked = [], bl_verdicts_through = 0\<rparr>"
    by (simp add: lost_obligation_db_def)
  have ids: "distinct (map ob_id (ol_obligations (td_outline lost_obligation_db)))"
    "distinct (map ps_id (pl_steps (ol_plan (td_outline lost_obligation_db))))"
    by (simp_all add: lost_obligation_db_def sample_db_def)
  show ?thesis
    using state_holds_exact[OF lost_obligation_facts(1) _ _ ids, of "\<lambda>_. []"]
    by (simp add: rank_values b lost_obligation_facts)
qed

end
