(* ===== verification/Phases.thy ===== *)
theory Phases
  imports Lifecycle
begin

text \<open>
  Phase certifications (\<^verbatim>\<open>tod-store/src/phase.rs\<close>): the inputs a state's certificate covers,
  the append-only log of events over them, and whether a certificate still holds.

  The SHA-256 of the canonical JSON is a parameter \<open>digest\<close>: what the code relies on is that two
  inputs with one digest are the same inputs, which the properties state as \<open>inj_on digest\<close> over
  the inputs they compare. The hash of a mockup file is a parameter too (\<open>None\<close>: no such file).
\<close>

section \<open>The rows the inputs are read from\<close>

record in_obligation =
  io_id :: uuid
  io_kind :: string
  io_body :: string
  io_acts :: string

record in_content =
  ic_id :: uuid
  ic_type :: string
  ic_body :: string

record in_mockup =
  im_obligation :: uuid
  im_path :: string
  im_sha :: "string option"

record in_media =
  ia_media :: uuid
  ia_role :: string
  ia_sha :: string

record in_step =
  is_id :: uuid
  is_body :: string
  is_phase :: string

record in_link =
  il_step :: uuid
  il_obligation :: uuid

record phase_inputs =
  pi_obligations :: "in_obligation list option"
  pi_content :: "in_content list option"
  pi_mockups :: "in_mockup list option"
  pi_media :: "in_media list option"
  pi_steps :: "in_step list option"
  pi_links :: "in_link list option"

record event =
  pe_id :: uuid
  pe_node :: uuid
  pe_state :: string
  pe_kind :: string
  pe_digest :: string
  pe_snapshot :: phase_inputs
  pe_conversation :: "uuid option"
  pe_certifier :: string
  pe_body :: string
  pe_created :: ms

record content_row =
  cr_id :: uuid
  cr_node :: uuid
  cr_type :: string
  cr_body :: string

record phase_db = tod_db +
  pd_content :: "content_row list"
  pd_media_links :: "(uuid \<times> uuid \<times> string) list"   \<comment> \<open>node, media, role\<close>
  pd_media_sha :: "uuid \<Rightarrow> string option"            \<comment> \<open>\<^verbatim>\<open>media_assets\<close>\<close>
  pd_events :: "event list"

section \<open>Inputs\<close>

abbreviation PHASE_READY :: string where "PHASE_READY \<equiv> ''ready''"
abbreviation PHASE_CERTIFY :: string where "PHASE_CERTIFY \<equiv> ''certify''"
abbreviation PHASE_REJECT :: string where "PHASE_REJECT \<equiv> ''reject''"
abbreviation CERTIFIER_SELF :: string where "CERTIFIER_SELF \<equiv> ''self''"
abbreviation CERTIFIER_INDEPENDENT :: string where "CERTIFIER_INDEPENDENT \<equiv> ''independent''"
abbreviation CERTIFIER_USER :: string where "CERTIFIER_USER \<equiv> ''user''"

definition CERTIFIABLE_STATES :: "string list" where
  "CERTIFIABLE_STATES = [''proposed'', ''design'', ''planning'', ''pr'', ''merged'', ''released'']"

definition is_certifiable :: "string \<Rightarrow> bool" where
  "is_certifiable s = (s \<in> set CERTIFIABLE_STATES)"

definition no_inputs :: phase_inputs where
  "no_inputs = \<lparr>pi_obligations = None, pi_content = None, pi_mockups = None, pi_media = None, pi_steps = None,
     pi_links = None\<rparr>"

text \<open>SQLite's \<^verbatim>\<open>trim\<close> takes off spaces only.\<close>

definition sql_blank :: "string \<Rightarrow> bool" where
  "sql_blank s = list_all (\<lambda>c. c = CHR '' '') s"

definition phase_obligations :: "uuid \<Rightarrow> 'a phase_db_scheme \<Rightarrow> in_obligation list" where
  "phase_obligations n db =
     sort_key io_id (map (\<lambda>o'. \<lparr>io_id = ob_id o', io_kind = ob_kind o', io_body = ob_body o', io_acts = ob_acts_in o'\<rparr>)
       (filter (\<lambda>o'. ob_node o' = n) (ol_obligations (td_outline db))))"

definition phase_content :: "uuid \<Rightarrow> 'a phase_db_scheme \<Rightarrow> in_content list" where
  "phase_content n db =
     sort_key ic_id (map (\<lambda>c. \<lparr>ic_id = cr_id c, ic_type = cr_type c, ic_body = cr_body c\<rparr>)
       (filter (\<lambda>c. cr_node c = n \<and> cr_type c \<notin> {''summary'', ''metadata''} \<and> \<not> sql_blank (cr_body c)) (pd_content db)))"

definition phase_mockups :: "(string \<Rightarrow> string option) \<Rightarrow> uuid \<Rightarrow> 'a phase_db_scheme \<Rightarrow> in_mockup list" where
  "phase_mockups file_sha n db =
     sort_key im_obligation (List.map_filter (\<lambda>o'. case ob_visual o' of
           Some path \<Rightarrow> if path \<noteq> [] then Some \<lparr>im_obligation = ob_id o', im_path = path, im_sha = file_sha path\<rparr> else None
         | None \<Rightarrow> None)
       (filter (\<lambda>o'. ob_node o' = n) (ol_obligations (td_outline db))))"

definition phase_media :: "uuid \<Rightarrow> 'a phase_db_scheme \<Rightarrow> in_media list" where
  "phase_media n db =
     sort_key (\<lambda>m. (ia_media m, ia_role m)) (List.map_filter (\<lambda>(k, media, role). case pd_media_sha db media of
           Some sha \<Rightarrow> if k = n then Some \<lparr>ia_media = media, ia_role = role, ia_sha = sha\<rparr> else None
         | None \<Rightarrow> None) (pd_media_links db))"

definition phase_steps :: "uuid \<Rightarrow> 'a phase_db_scheme \<Rightarrow> in_step list" where
  "phase_steps n db =
     sort_key is_id (map (\<lambda>s. \<lparr>is_id = ps_id s, is_body = ps_body s, is_phase = ps_phase s\<rparr>)
       (filter (\<lambda>s. ps_node s = n) (pl_steps (ol_plan (td_outline db)))))"

definition phase_links :: "uuid \<Rightarrow> 'a phase_db_scheme \<Rightarrow> in_link list" where
  "phase_links n db =
     sort_key (\<lambda>l. (il_step l, il_obligation l)) (map (\<lambda>(s, ob). \<lparr>il_step = s, il_obligation = ob\<rparr>)
       (filter (\<lambda>(s, ob). is_some_and (\<lambda>st. ps_node st = n) (get_step s (ol_plan (td_outline db))))
         (pl_links (ol_plan (td_outline db)))))"

definition phase_inputs_of :: "(string \<Rightarrow> string option) \<Rightarrow> uuid \<Rightarrow> string \<Rightarrow> 'a phase_db_scheme \<Rightarrow> phase_inputs option" where
  "phase_inputs_of file_sha n state db =
     (if state = ''proposed'' then Some (no_inputs\<lparr>pi_obligations := Some (phase_obligations n db)\<rparr>)
      else if state = ''design'' then
        Some (no_inputs\<lparr>pi_obligations := Some (phase_obligations n db), pi_content := Some (phase_content n db),
                pi_mockups := Some (phase_mockups file_sha n db), pi_media := Some (phase_media n db)\<rparr>)
      else if state = ''planning'' then
        Some (no_inputs\<lparr>pi_obligations := Some (phase_obligations n db), pi_steps := Some (phase_steps n db),
                pi_links := Some (phase_links n db)\<rparr>)
      else if state \<in> {''pr'', ''merged'', ''released''} then Some no_inputs
      else None)"

section \<open>What changed\<close>

text \<open>A \<^verbatim>\<open>BTreeMap\<close> collected from pairs: ascending keys, the last row of each.\<close>

definition btree :: "('a \<Rightarrow> uuid) \<Rightarrow> 'a list \<Rightarrow> 'a list" where
  "btree key xs = map (\<lambda>k. last (filter (\<lambda>x. key x = k) xs)) (remdups (sort (map key xs)))"

definition diff_keyed ::
    "('a \<Rightarrow> uuid) \<Rightarrow> ('a \<Rightarrow> string) \<Rightarrow> (string \<Rightarrow> string) \<Rightarrow> ('a \<Rightarrow> 'a \<Rightarrow> string) \<Rightarrow> 'a list \<Rightarrow> 'a list \<Rightarrow> string list" where
  "diff_keyed key label noun changed before after =
     (let b = btree key before; a = btree key after
      in List.map_filter (\<lambda>row. case find (\<lambda>old. key old = key row) b of
             None \<Rightarrow> Some (noun (label row) @ '' added'')
           | Some old \<Rightarrow> if old \<noteq> row then Some (noun (label row) @ '' '' @ changed old row) else None) a
         @ List.map_filter (\<lambda>row. if list_ex (\<lambda>r. key r = key row) a then None
             else Some (noun (label row) @ '' removed'')) b)"

definition link_line :: "string \<Rightarrow> in_link \<Rightarrow> string" where
  "link_line verb l = ''plan step '' @ short_id (il_step l) @ verb @ short_id (il_obligation l)"

definition describe_changes :: "phase_inputs \<Rightarrow> phase_inputs \<Rightarrow> string list" where
  "describe_changes before after =
     diff_keyed io_id (\<lambda>o'. short_id (io_id o')) (\<lambda>i. ''obligation '' @ i)
       (\<lambda>a b. if io_kind a \<noteq> io_kind b then ''changed kind''
              else if io_acts a \<noteq> io_acts b then ''changed where it is acted on'' else ''reworded'')
       (unwrap_or [] (pi_obligations before)) (unwrap_or [] (pi_obligations after))
     @ diff_keyed ic_id ic_type (\<lambda>ty. ty @ '' content'') (\<lambda>_ _. ''edited'')
       (unwrap_or [] (pi_content before)) (unwrap_or [] (pi_content after))
     @ diff_keyed im_obligation (\<lambda>m. short_id (im_obligation m)) (\<lambda>i. ''mockup of obligation '' @ i) (\<lambda>_ _. ''changed'')
       (unwrap_or [] (pi_mockups before)) (unwrap_or [] (pi_mockups after))
     @ diff_keyed ia_media (\<lambda>m. short_id (ia_media m) @ '' ('' @ ia_role m @ '')'') (\<lambda>i. ''attachment '' @ i)
       (\<lambda>_ _. ''changed'') (unwrap_or [] (pi_media before)) (unwrap_or [] (pi_media after))
     @ diff_keyed is_id (\<lambda>s. short_id (is_id s)) (\<lambda>i. ''plan step '' @ i)
       (\<lambda>a b. if is_phase a \<noteq> is_phase b then ''moved to another phase'' else ''reworded'')
       (unwrap_or [] (pi_steps before)) (unwrap_or [] (pi_steps after))
     @ map (link_line '' now satisfies obligation '')
         (filter (\<lambda>l. l \<notin> set (unwrap_or [] (pi_links before))) (unwrap_or [] (pi_links after)))
     @ map (link_line '' no longer satisfies obligation '')
         (filter (\<lambda>l. l \<notin> set (unwrap_or [] (pi_links after))) (unwrap_or [] (pi_links before)))"

section \<open>The log\<close>

definition event_fixes :: "(string \<Rightarrow> string list option) \<Rightarrow> event \<Rightarrow> string list" where
  "event_fixes parse e = (if pe_kind e \<noteq> PHASE_REJECT then [] else unwrap_or [] (parse (pe_body e)))"

definition stay_started_at :: "uuid \<Rightarrow> 'a phase_db_scheme \<Rightarrow> ms option" where
  "stay_started_at n db = map_option snd (td_stays db n)"

definition record_event ::
    "(string \<Rightarrow> string option) \<Rightarrow> (phase_inputs \<Rightarrow> string) \<Rightarrow> uuid \<Rightarrow> ms \<Rightarrow> uuid \<Rightarrow> string \<Rightarrow> string \<Rightarrow> uuid option
     \<Rightarrow> string \<Rightarrow> string \<Rightarrow> 'a phase_db_scheme \<Rightarrow> (event \<times> 'a phase_db_scheme) fallible" where
  "record_event file_sha digest i now n state kind conv certifier body db =
     (if kind \<notin> {PHASE_READY, PHASE_CERTIFY, PHASE_REJECT} then Inl (''unknown phase event `'' @ kind @ ''`'')
      else if certifier \<notin> {CERTIFIER_SELF, CERTIFIER_INDEPENDENT, CERTIFIER_USER}
      then Inl (''unknown certifier `'' @ certifier @ ''`'')
      else case phase_inputs_of file_sha n state db of
        None \<Rightarrow> Inl (''`'' @ state @ ''` has no phase to certify'')
      | Some snapshot \<Rightarrow>
          if get_lifecycle n db \<noteq> Some state
          then Inl (''the node is in `'' @ unwrap_or ''no lifecycle state'' (get_lifecycle n db) @ ''`, not `'' @ state @ ''`'')
          else if i \<in> pe_id ` set (pd_events db) then Inl ''UNIQUE constraint failed: phase_events.id''
          else let e = \<lparr>pe_id = i, pe_node = n, pe_state = state, pe_kind = kind, pe_digest = digest snapshot,
                        pe_snapshot = snapshot, pe_conversation = conv, pe_certifier = certifier, pe_body = body,
                        pe_created = now\<rparr>
               in Inr (e, db\<lparr>pd_events := pd_events db @ [e]\<rparr>))"

definition in_order :: "event list \<Rightarrow> event list" where
  "in_order es = sort_key (\<lambda>e. (pe_created e, pe_id e)) es"

definition events_in_stay :: "uuid \<Rightarrow> string \<Rightarrow> 'a phase_db_scheme \<Rightarrow> event list" where
  "events_in_stay n state db =
     (if get_lifecycle n db \<noteq> Some state then []
      else case stay_started_at n db of
        None \<Rightarrow> []
      | Some since \<Rightarrow>
          in_order (filter (\<lambda>e. pe_node e = n \<and> pe_state e = state \<and> since \<le> pe_created e) (pd_events db)))"

definition events_for_node :: "uuid \<Rightarrow> 'a phase_db_scheme \<Rightarrow> event list" where
  "events_for_node n db = in_order (filter (\<lambda>e. pe_node e = n) (pd_events db))"

definition current_digest ::
    "(string \<Rightarrow> string option) \<Rightarrow> (phase_inputs \<Rightarrow> string) \<Rightarrow> uuid \<Rightarrow> string \<Rightarrow> 'a phase_db_scheme \<Rightarrow> string option" where
  "current_digest file_sha digest n state db = map_option digest (phase_inputs_of file_sha n state db)"

definition current_certificate ::
    "(string \<Rightarrow> string option) \<Rightarrow> (phase_inputs \<Rightarrow> string) \<Rightarrow> uuid \<Rightarrow> string \<Rightarrow> 'a phase_db_scheme \<Rightarrow> event option" where
  "current_certificate file_sha digest n state db =
     (case current_digest file_sha digest n state db of
        None \<Rightarrow> None
      | Some now \<Rightarrow> find (\<lambda>e. pe_kind e = PHASE_CERTIFY \<and> pe_digest e = now) (rev (events_in_stay n state db)))"

datatype certificate_status = CertNone | CertCurrent event | CertStale event "string list"

definition certificate_status_of ::
    "(string \<Rightarrow> string option) \<Rightarrow> (phase_inputs \<Rightarrow> string) \<Rightarrow> uuid \<Rightarrow> string \<Rightarrow> 'a phase_db_scheme \<Rightarrow> certificate_status" where
  "certificate_status_of file_sha digest n state db =
     (case phase_inputs_of file_sha n state db of
        None \<Rightarrow> CertNone
      | Some inputs \<Rightarrow>
          let now = digest inputs;
              certificates = filter (\<lambda>e. pe_kind e = PHASE_CERTIFY) (events_in_stay n state db)
          in case find (\<lambda>e. pe_digest e = now) (rev certificates) of
               Some e \<Rightarrow> CertCurrent e
             | None \<Rightarrow> (case last_opt certificates of
                   None \<Rightarrow> CertNone
                 | Some e \<Rightarrow> CertStale e (describe_changes (pe_snapshot e) inputs)))"

definition latest_ready_in_stay :: "uuid \<Rightarrow> string \<Rightarrow> 'a phase_db_scheme \<Rightarrow> event option" where
  "latest_ready_in_stay n state db = find (\<lambda>e. pe_kind e = PHASE_READY) (rev (events_in_stay n state db))"

definition rejections_in_stay :: "uuid \<Rightarrow> string \<Rightarrow> 'a phase_db_scheme \<Rightarrow> event list" where
  "rejections_in_stay n state db = filter (\<lambda>e. pe_kind e = PHASE_REJECT) (events_in_stay n state db)"

definition is_stuck :: "uuid \<Rightarrow> string \<Rightarrow> 'a phase_db_scheme \<Rightarrow> bool" where
  "is_stuck n state db =
     (let rs = rejections_in_stay n state db
      in rs \<noteq> [] \<and> list_ex (\<lambda>e. pe_digest e = pe_digest (last rs)) (butlast rs))"

text \<open>Who an event is from; \<open>parse_id\<close> is \<^verbatim>\<open>Uuid::parse_str\<close>.\<close>

definition actor_conversation :: "(string \<Rightarrow> uuid option) \<Rightarrow> string \<Rightarrow> uuid option" where
  "actor_conversation parse_id actor = Option.bind (strip_prefix ''conversation:'' actor) parse_id"

definition certifier_for_actor :: "(string \<Rightarrow> uuid option) \<Rightarrow> string \<Rightarrow> 'a phase_db_scheme \<Rightarrow> uuid option \<times> string" where
  "certifier_for_actor parse_id actor db =
     (if actor = ''user'' then (None, CERTIFIER_USER)
      else case actor_conversation parse_id actor of
        None \<Rightarrow> (None, CERTIFIER_SELF)
      | Some c \<Rightarrow>
          (Some c, if is_some_and (\<lambda>r. protocol_str (c_protocol r) = protocol_str PkEvaluate) (get_conversation c (td_conv db))
                   then CERTIFIER_INDEPENDENT else CERTIFIER_SELF))"


section \<open>Facts: inputs in canonical order\<close>

definition strict_by :: "('a \<Rightarrow> 'k::linorder) \<Rightarrow> 'a list \<Rightarrow> bool" where
  "strict_by key xs \<longleftrightarrow> sorted (map key xs) \<and> distinct (map key xs)"

lemma strict_by_simps [simp]:
  "strict_by key []" "strict_by key [x]"
  by (simp_all add: strict_by_def)

lemma strict_sort_key: "distinct (map key xs) \<Longrightarrow> strict_by key (sort_key key xs)"
  by (simp add: strict_by_def distinct_map)

lemma strict_same_set:
  assumes "strict_by key xs" "strict_by key ys" "set xs = set ys"
  shows "xs = ys"
proof -
  have "map key xs = map key ys"
    using assms by (intro sorted_distinct_set_unique) (simp_all add: strict_by_def)
  then show ?thesis
    using assms(1,3) by (auto simp: strict_by_def distinct_map inj_on_map_eq_map)
qed

lemma strict_inj: "strict_by key xs \<Longrightarrow> x \<in> set xs \<Longrightarrow> y \<in> set xs \<Longrightarrow> key x = key y \<Longrightarrow> x = y"
  by (auto simp: strict_by_def distinct_map inj_on_def)

lemma filter_key_single: "distinct (map key xs) \<Longrightarrow> x \<in> set xs \<Longrightarrow> filter (\<lambda>y. key y = key x) xs = [x]"
proof (induction xs)
  case (Cons y xs)
  then show ?case
  proof (cases "x = y")
    case True
    then show ?thesis using Cons.prems by (auto simp: filter_empty_conv image_iff)
  next
    case False
    then show ?thesis using Cons by (auto simp: image_iff)
  qed
qed simp

lemma btree_strict: "strict_by key xs \<Longrightarrow> btree key xs = xs"
  by (auto simp: btree_def strict_by_def sorted_sort_id distinct_remdups_id filter_key_single intro!: map_idI)

lemma map_filter_nil: "List.map_filter f xs = [] \<longleftrightarrow> (\<forall>x \<in> set xs. f x = None)"
  by (induction xs) (auto simp: List.map_filter_def)

lemma diff_keyed_nil:
  assumes "strict_by key before" "strict_by key after"
  shows "diff_keyed key label noun changed before after = [] \<longleftrightarrow> before = after"
proof
  assume nil: "diff_keyed key label noun changed before after = []"
  have sub: "x \<in> set before" if "x \<in> set after" for x
    using nil that assms
    by (fastforce simp: diff_keyed_def Let_def btree_strict map_filter_nil split: option.splits if_splits dest: find_Some_in)
  have "x \<in> set after" if "x \<in> set before" for x
  proof -
    have "list_ex (\<lambda>r. key r = key x) after"
      using nil that assms by (fastforce simp: diff_keyed_def Let_def btree_strict map_filter_nil split: if_splits)
    then obtain r where "r \<in> set after" "key r = key x" by (auto simp: list_ex_iff)
    then show ?thesis using strict_inj[OF assms(1) _ that] sub by metis
  qed
  with sub have "set before = set after" by blast
  then show "before = after" by (rule strict_same_set[OF assms])
next
  assume "before = after"
  moreover have "find (\<lambda>old. key old = key x) after = Some x" if "x \<in> set after" for x
  proof -
    have "find (\<lambda>old. key old = key x) after \<noteq> None" using that by (auto simp: find_None_iff)
    then obtain y where "find (\<lambda>old. key old = key x) after = Some y" by blast
    moreover from this have "y \<in> set after" "key y = key x" by (auto dest: find_Some_in)
    ultimately show ?thesis using strict_inj[OF assms(2) _ that] by simp
  qed
  ultimately show "diff_keyed key label noun changed before after = []"
    using assms(2) by (auto simp: diff_keyed_def Let_def btree_strict map_filter_nil list_ex_iff)
qed

text \<open>Inputs as the queries give them: each kind in the order of its ids, once each. A media file
  may be linked in several roles, so its part is separate.\<close>

definition canonical :: "phase_inputs \<Rightarrow> bool" where
  "canonical p \<longleftrightarrow> strict_by io_id (unwrap_or [] (pi_obligations p)) \<and> strict_by ic_id (unwrap_or [] (pi_content p))
     \<and> strict_by im_obligation (unwrap_or [] (pi_mockups p)) \<and> sorted (map ia_media (unwrap_or [] (pi_media p)))
     \<and> strict_by is_id (unwrap_or [] (pi_steps p))
     \<and> strict_by (\<lambda>l. (il_step l, il_obligation l)) (unwrap_or [] (pi_links p))"

definition one_role_each :: "phase_inputs \<Rightarrow> bool" where
  "one_role_each p \<longleftrightarrow> distinct (map ia_media (unwrap_or [] (pi_media p)))"

definition shape :: "phase_inputs \<Rightarrow> bool list" where
  "shape p = [pi_obligations p = None, pi_content p = None, pi_mockups p = None, pi_media p = None, pi_steps p = None,
     pi_links p = None]"

lemma unwrap_or_same: "(x = None) = (y = None) \<Longrightarrow> (unwrap_or d x = unwrap_or d y) = (x = y)" for d :: "'a list"
  by (cases x; cases y) auto

lemma inputs_eq_iff:
  assumes "shape a = shape b"
  shows "a = b \<longleftrightarrow> unwrap_or [] (pi_obligations a) = unwrap_or [] (pi_obligations b)
      \<and> unwrap_or [] (pi_content a) = unwrap_or [] (pi_content b)
      \<and> unwrap_or [] (pi_mockups a) = unwrap_or [] (pi_mockups b) \<and> unwrap_or [] (pi_media a) = unwrap_or [] (pi_media b)
      \<and> unwrap_or [] (pi_steps a) = unwrap_or [] (pi_steps b) \<and> unwrap_or [] (pi_links a) = unwrap_or [] (pi_links b)"
proof -
  have "a = b \<longleftrightarrow> pi_obligations a = pi_obligations b \<and> pi_content a = pi_content b \<and> pi_mockups a = pi_mockups b
      \<and> pi_media a = pi_media b \<and> pi_steps a = pi_steps b \<and> pi_links a = pi_links b"
    by (cases a; cases b) simp
  with assms show ?thesis by (simp add: shape_def unwrap_or_same)
qed

lemma describe_changes_nil:
  assumes "canonical a" "canonical b" "one_role_each a" "one_role_each b" "shape a = shape b"
  shows "describe_changes a b = [] \<longleftrightarrow> a = b"
proof -
  let ?u = "\<lambda>f p. unwrap_or [] (f p)"
  have links: "filter (\<lambda>l. l \<notin> set (?u pi_links a)) (?u pi_links b) = []
      \<and> filter (\<lambda>l. l \<notin> set (?u pi_links b)) (?u pi_links a) = [] \<longleftrightarrow> ?u pi_links a = ?u pi_links b"
    using assms(1,2) strict_same_set[of _ "?u pi_links a" "?u pi_links b"]
    by (auto simp: canonical_def filter_empty_conv)
  have "describe_changes a b = [] \<longleftrightarrow> ?u pi_obligations a = ?u pi_obligations b \<and> ?u pi_content a = ?u pi_content b
      \<and> ?u pi_mockups a = ?u pi_mockups b \<and> ?u pi_media a = ?u pi_media b \<and> ?u pi_steps a = ?u pi_steps b
      \<and> ?u pi_links a = ?u pi_links b"
    using assms(1-4) links
    by (simp add: describe_changes_def diff_keyed_nil canonical_def one_role_each_def strict_by_def)
  then show ?thesis unfolding inputs_eq_iff[OF assms(5)] .
qed

text \<open>Two roles of one file: the map keeps one row of it, so a change to the other is not told.\<close>

lemma two_roles_hide_a_change:
  fixes rest :: phase_inputs
  defines "before \<equiv> no_inputs\<lparr>pi_media := Some [\<lparr>ia_media = 1, ia_role = ''cover'', ia_sha = ''s''\<rparr>, \<lparr>ia_media = 1, ia_role = ''icon'', ia_sha = ''s''\<rparr>]\<rparr>"
    and "after \<equiv> no_inputs\<lparr>pi_media := Some [\<lparr>ia_media = 1, ia_role = ''icon'', ia_sha = ''s''\<rparr>]\<rparr>"
  shows "before \<noteq> after" "describe_changes before after = []"
  by (simp_all add: before_def after_def no_inputs_def describe_changes_def diff_keyed_def btree_def List.map_filter_def)

text \<open>The keys the tables enforce.\<close>

definition keyed :: "'a phase_db_scheme \<Rightarrow> bool" where
  "keyed db \<longleftrightarrow> distinct (map ob_id (ol_obligations (td_outline db))) \<and> distinct (map cr_id (pd_content db))
     \<and> distinct (map ps_id (pl_steps (ol_plan (td_outline db)))) \<and> distinct (pl_links (ol_plan (td_outline db)))"

lemma distinct_map_filter_key: "distinct (map k xs) \<Longrightarrow> distinct (map k (filter p xs))"
  by (rule distinct_map_filter)

lemma map_map_filter: "(\<And>x y. f x = Some y \<Longrightarrow> g y = h x) \<Longrightarrow>
    map g (List.map_filter f xs) = map h (filter (\<lambda>x. f x \<noteq> None) xs)"
  by (induction xs) (auto simp: List.map_filter_def split: option.splits)

lemma sorted_fst: "sorted (map (\<lambda>m. (f m, g m)) xs) \<Longrightarrow> sorted (map f xs)"
  by (induction xs) (auto simp: less_eq_prod_def)

lemma inputs_cases:
  assumes "phase_inputs_of fs n state db = Some p"
  obtains "state = ''proposed''" "p = no_inputs\<lparr>pi_obligations := Some (phase_obligations n db)\<rparr>"
  | "state = ''design''" "p = no_inputs\<lparr>pi_obligations := Some (phase_obligations n db),
       pi_content := Some (phase_content n db), pi_mockups := Some (phase_mockups fs n db),
       pi_media := Some (phase_media n db)\<rparr>"
  | "state = ''planning''" "p = no_inputs\<lparr>pi_obligations := Some (phase_obligations n db),
       pi_steps := Some (phase_steps n db), pi_links := Some (phase_links n db)\<rparr>"
  | "state \<in> {''pr'', ''merged'', ''released''}" "p = no_inputs"
  using assms that unfolding phase_inputs_of_def by (simp split: if_splits)

lemma canonical_inputs:
  assumes "phase_inputs_of fs n state db = Some p" "keyed db"
  shows "canonical p"
proof -
  have o: "strict_by io_id (phase_obligations n db)"
    unfolding phase_obligations_def
    by (rule strict_sort_key) (use assms(2) in \<open>simp add: keyed_def comp_def distinct_map_filter\<close>)
  have c: "strict_by ic_id (phase_content n db)"
    unfolding phase_content_def
    by (rule strict_sort_key) (use assms(2) in \<open>simp add: keyed_def comp_def distinct_map_filter\<close>)
  have "distinct (map im_obligation (List.map_filter (\<lambda>o'. case ob_visual o' of
           Some path \<Rightarrow> if path \<noteq> [] then Some \<lparr>im_obligation = ob_id o', im_path = path, im_sha = fs path\<rparr> else None
         | None \<Rightarrow> None) (filter (\<lambda>o'. ob_node o' = n) (ol_obligations (td_outline db)))))"
    by (subst map_map_filter[where h = ob_id])
      (use assms(2) in \<open>auto simp: keyed_def distinct_map_filter split: option.splits if_splits\<close>)
  then have m: "strict_by im_obligation (phase_mockups fs n db)"
    unfolding phase_mockups_def by (rule strict_sort_key)
  have s: "strict_by is_id (phase_steps n db)"
    unfolding phase_steps_def
    by (rule strict_sort_key) (use assms(2) in \<open>simp add: keyed_def comp_def distinct_map_filter\<close>)
  have l: "strict_by (\<lambda>l. (il_step l, il_obligation l)) (phase_links n db)"
    unfolding phase_links_def
    by (rule strict_sort_key) (use assms(2) in \<open>simp add: keyed_def comp_def case_prod_beta\<close>)
  have a: "sorted (map ia_media (phase_media n db))"
    unfolding phase_media_def by (rule sorted_fst[where g = ia_role]) simp
  from assms(1) show ?thesis
    by (rule inputs_cases) (simp_all add: canonical_def no_inputs_def o c m s l a)
qed

definition shape_of :: "string \<Rightarrow> bool list" where
  "shape_of state = [state \<in> {''pr'', ''merged'', ''released''}, state \<noteq> ''design'', state \<noteq> ''design'', state \<noteq> ''design'',
     state \<noteq> ''planning'', state \<noteq> ''planning'']"

lemma shape_inputs: "phase_inputs_of fs n state db = Some p \<Longrightarrow> shape p = shape_of state"
  by (erule inputs_cases) (auto simp: shape_def shape_of_def no_inputs_def)


section \<open>The log is append-only and sealed\<close>

text \<open>Every write: an event recorded, a move, or an edit of the other tables (which keep their keys).\<close>

inductive phase_write :: "(phase_inputs \<Rightarrow> string) \<Rightarrow> phase_db \<Rightarrow> phase_db \<Rightarrow> bool" for digest where
  recorded: "record_event fs digest i now n state kind conv certifier body db = Inr (e, db') \<Longrightarrow> phase_write digest db db'"
| moved: "set_lifecycle now n state db = Inr db' \<Longrightarrow> phase_write digest db db'"
| edited: "pd_events db' = pd_events db \<Longrightarrow> keyed db' \<Longrightarrow> phase_write digest db db'"

definition sealed :: "(phase_inputs \<Rightarrow> string) \<Rightarrow> event \<Rightarrow> bool" where
  "sealed digest e \<longleftrightarrow> pe_digest e = digest (pe_snapshot e) \<and> canonical (pe_snapshot e)
     \<and> shape (pe_snapshot e) = shape_of (pe_state e) \<and> is_certifiable (pe_state e)
     \<and> pe_kind e \<in> {PHASE_READY, PHASE_CERTIFY, PHASE_REJECT}
     \<and> pe_certifier e \<in> {CERTIFIER_SELF, CERTIFIER_INDEPENDENT, CERTIFIER_USER}"

lemma clear_keeps:
  "tod_db.more (clear_certifications now n before after db) = tod_db.more db"
  "pl_links (ol_plan (td_outline (clear_certifications now n before after db))) = pl_links (ol_plan (td_outline db))"
  unfolding clear_certifications_closed set_verdicts_def by simp_all

lemma leave_keeps:
  "tod_db.more (leave_stay now n before after db) = tod_db.more db"
  "pl_links (ol_plan (td_outline (leave_stay now n before after db))) = pl_links (ol_plan (td_outline db))"
  by (simp_all add: leave_stay_def Let_def clear_keeps)

lemma settle_keeps:
  "tod_db.more (settle_baseline n state db) = tod_db.more db"
  "td_outline (settle_baseline n state db) = td_outline db"
  and settle_stays: "td_stays (settle_baseline n state db) = td_stays db"
  by (simp_all add: settle_baseline_def)

lemma write_stay_keeps:
  "write_stay now n state db = Inr db' \<Longrightarrow> tod_db.more db' = tod_db.more db \<and> td_outline db' = td_outline db"
  by (auto simp: write_stay_def split: if_splits)

lemma more_keeps:
  fixes db db' :: "'a phase_db_scheme"
  assumes "tod_db.more db' = tod_db.more db"
  shows "pd_events db' = pd_events db" "pd_content db' = pd_content db"
    "pd_media_links db' = pd_media_links db" "pd_media_sha db' = pd_media_sha db"
  using assms by (cases db; cases db'; simp)+

lemma set_lifecycle_keeps:
  fixes db :: "'a phase_db_scheme"
  assumes "set_lifecycle now n state db = Inr db'"
  shows "pd_events db' = pd_events db" "pd_content db' = pd_content db"
    "pd_media_links db' = pd_media_links db" "pd_media_sha db' = pd_media_sha db"
    "pl_links (ol_plan (td_outline db')) = pl_links (ol_plan (td_outline db))"
proof -
  obtain db1 where db1: "write_stay now n state db = Inr db1"
    and db': "db' = settle_baseline n state
        (case get_lifecycle n db of None \<Rightarrow> db1 | Some previous \<Rightarrow> leave_stay now n previous state db1)"
    using assms by (auto simp: set_lifecycle_def split: sum.splits)
  have k: "tod_db.more db' = tod_db.more db" "pl_links (ol_plan (td_outline db')) = pl_links (ol_plan (td_outline db))"
    using write_stay_keeps[OF db1] by (simp_all add: db' settle_keeps leave_keeps split: option.splits)
  show "pd_events db' = pd_events db" "pd_content db' = pd_content db"
    "pd_media_links db' = pd_media_links db" "pd_media_sha db' = pd_media_sha db"
    "pl_links (ol_plan (td_outline db')) = pl_links (ol_plan (td_outline db))"
    using more_keeps[OF k(1)] k(2) by simp_all
qed

lemma keyed_set_lifecycle: "set_lifecycle now n state db = Inr db' \<Longrightarrow> keyed db' = keyed db"
  using set_lifecycle_rows(2,3)[of now n state db db'] set_lifecycle_keeps[of now n state db db']
  by (simp add: keyed_def)

lemma certifiable_inputs: "phase_inputs_of fs n state db = Some p \<Longrightarrow> is_certifiable state"
  by (erule inputs_cases) (auto simp: is_certifiable_def CERTIFIABLE_STATES_def)

lemma record_event_cases:
  assumes "record_event fs digest i now n state kind conv certifier body db = Inr (e, db')"
  obtains snapshot where "phase_inputs_of fs n state db = Some snapshot" "get_lifecycle n db = Some state"
    "kind \<in> {PHASE_READY, PHASE_CERTIFY, PHASE_REJECT}"
    "certifier \<in> {CERTIFIER_SELF, CERTIFIER_INDEPENDENT, CERTIFIER_USER}"
    "e = \<lparr>pe_id = i, pe_node = n, pe_state = state, pe_kind = kind, pe_digest = digest snapshot,
          pe_snapshot = snapshot, pe_conversation = conv, pe_certifier = certifier, pe_body = body, pe_created = now\<rparr>"
    "db' = db\<lparr>pd_events := pd_events db @ [e]\<rparr>" "i \<notin> pe_id ` set (pd_events db)"
  using assms that
  by (simp add: record_event_def Let_def split: if_splits option.splits) (elim conjE, hypsubst, simp)

definition log_ok :: "(phase_inputs \<Rightarrow> string) \<Rightarrow> phase_db \<Rightarrow> bool" where
  "log_ok digest db \<longleftrightarrow> keyed db \<and> distinct (map pe_id (pd_events db)) \<and> (\<forall>e \<in> set (pd_events db). sealed digest e)"

lemma log_ok_write: "phase_write digest db db' \<Longrightarrow> log_ok digest db \<Longrightarrow> log_ok digest db'"
proof (induction rule: phase_write.induct)
  case (recorded fs i now n state kind conv certifier body db e db')
  from recorded(1) obtain snapshot where r: "phase_inputs_of fs n state db = Some snapshot"
    "kind \<in> {PHASE_READY, PHASE_CERTIFY, PHASE_REJECT}"
    "certifier \<in> {CERTIFIER_SELF, CERTIFIER_INDEPENDENT, CERTIFIER_USER}"
    "e = \<lparr>pe_id = i, pe_node = n, pe_state = state, pe_kind = kind, pe_digest = digest snapshot,
          pe_snapshot = snapshot, pe_conversation = conv, pe_certifier = certifier, pe_body = body, pe_created = now\<rparr>"
    and db': "db' = db\<lparr>pd_events := pd_events db @ [e]\<rparr>" "i \<notin> pe_id ` set (pd_events db)"
    by (rule record_event_cases)
  have "keyed db" using recorded(2) by (simp add: log_ok_def)
  then have "sealed digest e"
    using r(2,3) canonical_inputs[OF r(1)] shape_inputs[OF r(1)] certifiable_inputs[OF r(1)]
    by (simp add: sealed_def r(4))
  then show ?case
    using recorded(2) db'(2) by (auto simp: log_ok_def db'(1) keyed_def r(4))
next
  case (moved now n state db db')
  then show ?case
    using keyed_set_lifecycle[OF moved(1)] set_lifecycle_keeps(1)[OF moved(1)] by (simp add: log_ok_def)
next
  case (edited db' db)
  then show ?case by (simp add: log_ok_def)
qed

lemma log_ok_reachable: "(phase_write digest)\<^sup>*\<^sup>* db0 db \<Longrightarrow> log_ok digest db0 \<Longrightarrow> log_ok digest db"
  by (induction rule: rtranclp_induct) (auto intro: log_ok_write)

lemma log_ok_from_empty:
  "(phase_write digest)\<^sup>*\<^sup>* db0 db \<Longrightarrow> keyed db0 \<Longrightarrow> pd_events db0 = [] \<Longrightarrow> log_ok digest db"
  using log_ok_reachable[of digest db0 db] by (simp add: log_ok_def)

lemma log_appends: "phase_write digest db db' \<Longrightarrow> \<exists>es. pd_events db' = pd_events db @ es"
proof (induction rule: phase_write.induct)
  case (recorded fs i now n state kind conv certifier body db e db')
  then show ?case by (rule record_event_cases) simp
qed (simp_all add: set_lifecycle_keeps(1))

lemma events_in_stay_iff:
  "e \<in> set (events_in_stay n state db) \<longleftrightarrow> (\<exists>since. td_stays db n = Some (state, since) \<and> e \<in> set (pd_events db)
     \<and> pe_node e = n \<and> pe_state e = state \<and> since \<le> pe_created e)"
  by (cases "td_stays db n")
    (auto simp: events_in_stay_def get_lifecycle_def stay_started_at_def in_order_def)

lemma current_iff:
  "(\<exists>e. certificate_status_of fs digest n state db = CertCurrent e) \<longleftrightarrow>
     (\<exists>inputs. phase_inputs_of fs n state db = Some inputs \<and>
        (\<exists>e \<in> set (events_in_stay n state db). pe_kind e = PHASE_CERTIFY \<and> pe_digest e = digest inputs))"
proof (cases "phase_inputs_of fs n state db")
  case (Some inputs)
  let ?cs = "filter (\<lambda>e. pe_kind e = PHASE_CERTIFY) (events_in_stay n state db)"
  have "(\<exists>e. find (\<lambda>e. pe_digest e = digest inputs) (rev ?cs) = Some e) \<longleftrightarrow> (\<exists>e \<in> set ?cs. pe_digest e = digest inputs)"
    by (simp add: find_isSome_iff list_ex_iff)
  with Some show ?thesis
    by (auto simp: certificate_status_of_def Let_def split: option.splits)
qed (simp add: certificate_status_of_def)


section \<open>Properties\<close>

text \<open>C14: A phase is certified exactly when the log holds a certificate of this stay taken over the
  inputs the phase has now: what is recorded elsewhere, before the node entered the state, over
  other inputs or as an\<close>
theorem certificate_exact:
  fixes db :: phase_db
  assumes "(phase_write digest)\<^sup>*\<^sup>* db0 db" "keyed db0" "pd_events db0 = []"
    and "phase_inputs_of fs n state db = Some inputs"
    and "inj_on digest (insert inputs (pe_snapshot ` set (pd_events db)))"
  shows "((\<exists>e. certificate_status_of fs digest n state db = CertCurrent e) \<longleftrightarrow>
      (\<exists>e \<in> set (pd_events db). \<exists>since. td_stays db n = Some (state, since) \<and> pe_node e = n \<and> pe_state e = state
         \<and> pe_kind e = PHASE_CERTIFY \<and> since \<le> pe_created e \<and> pe_snapshot e = inputs))
    \<and> ((current_certificate fs digest n state db \<noteq> None) \<longleftrightarrow>
         (\<exists>e. certificate_status_of fs digest n state db = CertCurrent e))"
proof -
  have ok: "log_ok digest db" by (rule log_ok_from_empty[OF assms(1-3)])
  have same: "pe_digest e = digest inputs \<longleftrightarrow> pe_snapshot e = inputs" if "e \<in> set (pd_events db)" for e
    using ok that assms(5) by (auto simp: log_ok_def sealed_def inj_on_def)
  have "current_certificate fs digest n state db \<noteq> None \<longleftrightarrow>
      (\<exists>e \<in> set (events_in_stay n state db). pe_kind e = PHASE_CERTIFY \<and> pe_digest e = digest inputs)"
    using assms(4) by (auto simp: current_certificate_def current_digest_def find_None_iff)
  moreover have "(\<exists>e \<in> set (events_in_stay n state db). pe_kind e = PHASE_CERTIFY \<and> pe_digest e = digest inputs) \<longleftrightarrow>
      (\<exists>e \<in> set (pd_events db). \<exists>since. td_stays db n = Some (state, since) \<and> pe_node e = n \<and> pe_state e = state
         \<and> pe_kind e = PHASE_CERTIFY \<and> since \<le> pe_created e \<and> pe_snapshot e = inputs)"
    using same unfolding Bex_def events_in_stay_iff by metis
  ultimately show ?thesis
    unfolding current_iff using assms(4) by simp
qed

definition no_content :: phase_db where
  "no_content = \<lparr>td_outline = \<lparr>ol_obligations = [], ol_plan = \<lparr>pl_steps = [], pl_deps = [], pl_links = [], pl_notes = [],
      pl_verdicts = sample_verdicts\<rparr>\<rparr>, td_stays = (\<lambda>_. None)(7 \<mapsto> (''pr'', 3)), td_waits = [],
     td_incoming = \<lparr>ic_queue = [], ic_verdicts = [], ic_next = 1, ic_baselines = (\<lambda>_. None)\<rparr>,
     td_conv = \<lparr>cv_rows = [], cv_turns = [], cv_reports = []\<rparr>, td_criteria = [], td_evaluations = [],
     pd_content = [], pd_media_links = [], pd_media_sha = (\<lambda>_. None), pd_events = []\<rparr>"


definition certified :: phase_db where
  "certified = no_content\<lparr>pd_events := [\<lparr>pe_id = 1, pe_node = 7, pe_state = ''pr'', pe_kind = PHASE_CERTIFY,
     pe_digest = ''d'', pe_snapshot = no_inputs, pe_conversation = None, pe_certifier = CERTIFIER_USER, pe_body = ''note'',
     pe_created = 5\<rparr>]\<rparr>"

lemma sample_certified: "(phase_write (\<lambda>_. ''d''))\<^sup>*\<^sup>* no_content certified" "keyed no_content" "pd_events no_content = []"
proof -
  have "record_event (\<lambda>_. None) (\<lambda>_. ''d'') 1 5 7 ''pr'' PHASE_CERTIFY None CERTIFIER_USER ''note'' no_content
      = Inr (hd (pd_events certified), certified)"
    by (simp add: record_event_def phase_inputs_of_def get_lifecycle_def certified_def no_content_def no_inputs_def Let_def)
  then show "(phase_write (\<lambda>_. ''d''))\<^sup>*\<^sup>* no_content certified" by (blast intro: phase_write.recorded)
qed (simp_all add: keyed_def no_content_def)

lemma sample_inputs: "phase_inputs_of (\<lambda>_. None) 7 ''pr'' certified = Some no_inputs"
  by (simp add: phase_inputs_of_def)

theorem certificate_exact_witness:
  "\<exists>e. certificate_status_of (\<lambda>_. None) (\<lambda>_. ''d'') 7 ''pr'' certified = CertCurrent e"
proof -
  have "inj_on (\<lambda>_ :: phase_inputs. ''d'') (insert no_inputs (pe_snapshot ` set (pd_events certified)))"
    by (simp add: certified_def)
  note certificate_exact[OF sample_certified sample_inputs this]
  then show ?thesis by (simp add: certified_def no_content_def)
qed

text \<open>A stale certificate says why: when a phase was certified in this stay but not over what it
  has now, the answer names at least one difference, and the inputs do differ. (A file linked in
  two roles is left out: the differences keep one row of each file.)\<close>
theorem stale_says_why:
  fixes db :: phase_db
  assumes "(phase_write digest)\<^sup>*\<^sup>* db0 db" "keyed db0" "pd_events db0 = []"
    and "certificate_status_of fs digest n state db = CertStale e changed"
    and "phase_inputs_of fs n state db = Some inputs" "one_role_each inputs" "one_role_each (pe_snapshot e)"
  shows "e \<in> set (pd_events db) \<and> pe_kind e = PHASE_CERTIFY \<and> pe_node e = n \<and> pe_snapshot e \<noteq> inputs \<and> changed \<noteq> []"
proof -
  have ok: "log_ok digest db" by (rule log_ok_from_empty[OF assms(1-3)])
  let ?cs = "filter (\<lambda>e. pe_kind e = PHASE_CERTIFY) (events_in_stay n state db)"
  have found: "find (\<lambda>e. pe_digest e = digest inputs) (rev ?cs) = None" and last: "last_opt ?cs = Some e"
    and changed: "changed = describe_changes (pe_snapshot e) inputs"
    using assms(4,5) by (auto simp: certificate_status_of_def Let_def split: option.splits)
  from last have "e \<in> set ?cs" by (metis last_opt_def last_in_set option.distinct(1) option.inject)
  then have e: "e \<in> set (events_in_stay n state db)" "pe_kind e = PHASE_CERTIFY"
    and d: "pe_digest e \<noteq> digest inputs"
    using found by (auto simp: find_None_iff)
  then have row: "e \<in> set (pd_events db)" "pe_node e = n" "pe_state e = state" by (auto simp: events_in_stay_iff)
  with ok have s: "sealed digest e" "keyed db" by (auto simp: log_ok_def)
  then have "pe_snapshot e \<noteq> inputs" using d by (auto simp: sealed_def)
  moreover have "changed \<noteq> []"
    unfolding changed
    using describe_changes_nil[of "pe_snapshot e" inputs] s calculation row(3) assms(6,7)
      canonical_inputs[OF assms(5)] shape_inputs[OF assms(5)]
    by (simp add: sealed_def)
  ultimately show ?thesis using row e by blast
qed


definition was_empty :: phase_db where
  "was_empty = no_content\<lparr>td_stays := (\<lambda>_. None)(7 \<mapsto> (''proposed'', 3)),
     pd_events := [\<lparr>pe_id = 1, pe_node = 7, pe_state = ''proposed'', pe_kind = PHASE_CERTIFY,
     pe_digest = ''d'', pe_snapshot = no_inputs\<lparr>pi_obligations := Some []\<rparr>, pe_conversation = None,
     pe_certifier = CERTIFIER_USER, pe_body = ''note'', pe_created = 5\<rparr>]\<rparr>"

definition one_added :: phase_db where
  "one_added = was_empty\<lparr>td_outline := (td_outline was_empty)\<lparr>ol_obligations :=
     [\<lparr>ob_id = 4, ob_node = 7, ob_kind = ''requirement'', ob_ordinal = 0, ob_section = None, ob_body = ''new'',
       ob_phase = ''design'', ob_acts_in = ''active'', ob_visual = None, ob_updated = 6\<rparr>]\<rparr>\<rparr>"

definition sample_digest :: "phase_inputs \<Rightarrow> string" where
  "sample_digest p = (if unwrap_or [] (pi_obligations p) = [] then ''d'' else ''other'')"

lemma sample_added: "(phase_write sample_digest)\<^sup>*\<^sup>* (no_content\<lparr>td_stays := td_stays was_empty\<rparr>) one_added"
proof -
  have "record_event (\<lambda>_. None) sample_digest 1 5 7 ''proposed'' PHASE_CERTIFY None CERTIFIER_USER ''note''
        (no_content\<lparr>td_stays := td_stays was_empty\<rparr>) = Inr (hd (pd_events was_empty), was_empty)"
    by (simp add: record_event_def phase_inputs_of_def get_lifecycle_def was_empty_def no_content_def no_inputs_def
        phase_obligations_def sample_digest_def Let_def)
  then have "phase_write sample_digest (no_content\<lparr>td_stays := td_stays was_empty\<rparr>) was_empty" by (rule phase_write.recorded)
  moreover have "phase_write sample_digest was_empty one_added"
    by (rule phase_write.edited) (simp_all add: one_added_def was_empty_def keyed_def no_content_def)
  ultimately show ?thesis by (blast intro: converse_rtranclp_into_rtranclp)
qed

theorem stale_says_why_witness:
  "\<exists>e changed. certificate_status_of (\<lambda>_. None) sample_digest 7 ''proposed'' one_added = CertStale e changed \<and> changed \<noteq> []"
proof -
  let ?inputs = "no_inputs\<lparr>pi_obligations := Some [\<lparr>io_id = 4, io_kind = ''requirement'', io_body = ''new'', io_acts = ''active''\<rparr>]\<rparr>"
  let ?e = "hd (pd_events was_empty)"
  have i: "phase_inputs_of (\<lambda>_. None) 7 ''proposed'' one_added = Some ?inputs"
    by (simp add: phase_inputs_of_def phase_obligations_def one_added_def was_empty_def)
  have "events_in_stay 7 ''proposed'' one_added = [?e]"
    by (simp add: events_in_stay_def get_lifecycle_def stay_started_at_def in_order_def one_added_def was_empty_def)
  then have st: "certificate_status_of (\<lambda>_. None) sample_digest 7 ''proposed'' one_added
      = CertStale ?e (describe_changes (pe_snapshot ?e) ?inputs)"
    using i by (simp add: certificate_status_of_def Let_def was_empty_def sample_digest_def last_opt_def)
  moreover have "describe_changes (pe_snapshot ?e) ?inputs \<noteq> []"
    using stale_says_why[OF sample_added _ _ st i]
    by (simp add: keyed_def no_content_def one_role_each_def was_empty_def no_inputs_def)
  ultimately show ?thesis by blast
qed

text \<open>C19: A new stay forgets: when a node moves to another state, nothing recorded before that move
  counts for any phase any more - no certificate, no request for an evaluator, no rejection, and
  the loop guard starts over - while the whole log is kept.\<close>
theorem new_stay_forgets:
  fixes db :: phase_db
  assumes "set_lifecycle now n state db = Inr db'" "get_lifecycle n db \<noteq> Some state"
    and "list_all (\<lambda>e. pe_created e < now) (events_for_node n db)"
  shows "certificate_status_of fs digest n s db' = CertNone \<and> latest_ready_in_stay n s db' = None
    \<and> rejections_in_stay n s db' = [] \<and> \<not> is_stuck n s db' \<and> events_for_node n db' = events_for_node n db"
proof -
  have log: "pd_events db' = pd_events db" by (rule set_lifecycle_keeps(1)[OF assms(1)])
  have stay: "td_stays db' n = Some (state, now)"
  proof (cases "td_stays db n")
    case None
    then show ?thesis using set_lifecycle_first(2)[OF assms(1) None] settle_stays by simp
  next
    case (Some stay)
    obtain previous entered where "stay = (previous, entered)" by (cases stay)
    with Some have "td_stays db n = Some (previous, entered)" by simp
    from set_lifecycle_fields(2)[OF assms(1) this] show ?thesis
      using assms(2) \<open>td_stays db n = Some (previous, entered)\<close> by (simp add: get_lifecycle_def)
  qed
  have old: "pe_created e < now" if "e \<in> set (pd_events db)" "pe_node e = n" for e
    using assms(3) that by (simp add: events_for_node_def in_order_def list_all_iff)
  have "e \<notin> set (events_in_stay n s db')" for e
    using old log stay by (fastforce simp: events_in_stay_iff)
  then have none: "events_in_stay n s db' = []" by (metis ex_in_conv set_empty2)
  then show ?thesis
    by (auto simp: certificate_status_of_def latest_ready_in_stay_def rejections_in_stay_def is_stuck_def log
        events_for_node_def Let_def split: option.splits)
qed

theorem new_stay_forgets_witness:
  "\<exists>db'. set_lifecycle 9 7 ''design'' was_empty = Inr db' \<and> rejections_in_stay 7 ''design'' db' = []
     \<and> events_for_node 7 db' = pd_events was_empty"
proof -
  obtain db' where m: "set_lifecycle 9 7 ''design'' was_empty = Inr db'"
    using set_lifecycle_total[of "''design''" 9 7 was_empty] by (auto simp: LIFECYCLE_STATES_def)
  have "get_lifecycle 7 was_empty \<noteq> Some ''design''" by (simp add: was_empty_def get_lifecycle_def)
  moreover have "list_all (\<lambda>e. pe_created e < 9) (events_for_node 7 was_empty)"
    by (simp add: was_empty_def events_for_node_def in_order_def)
  moreover have "events_for_node 7 was_empty = pd_events was_empty"
    by (simp add: was_empty_def events_for_node_def in_order_def)
  ultimately show ?thesis using new_stay_forgets[OF m] m by simp
qed

end
