(* ===== verification/PrReadiness.thy ===== *)
theory PrReadiness
  imports Prelude "HOL-Library.AList" "HOL-Library.Option_ord"
begin

text \<open>
  What makes a pull request ready (\<^verbatim>\<open>tod-core/src/pr_readiness.rs\<close>): a snapshot of what GitHub says,
  assessed against the settings, and what the babysitter has to do or wait for.

  An instant is an \<open>int\<close> of nanoseconds. \<^verbatim>\<open>DateTime::parse_from_rfc3339\<close> is the parameter \<open>rfc\<close>.
\<close>

section \<open>What GitHub says (\<^verbatim>\<open>tod-store/src/github.rs\<close>)\<close>

type_synonym instant = int

record pr_status =
  st_mergeable :: "bool option"
  st_mergeable_state :: "string option"
  st_behind_by :: "nat option"
  st_merged :: bool
  st_checks :: "string option"
  st_head_sha :: "string option"
  st_head_committed_at :: "string option"
  st_draft :: bool
  st_open :: bool
  st_reviewers :: "string list"
  st_base_ref :: "string option"
  st_body :: "string option"

record thread_comment =
  tc_id :: int
  tc_author :: "string option"
  tc_body :: string
  tc_created_at :: string
  tc_diff_hunk :: "string option"

record review_thread =
  rt_id :: string
  rt_resolved :: bool
  rt_outdated :: bool
  rt_path :: "string option"
  rt_line :: "int option"
  rt_comments :: "thread_comment list"

record issue_comment =
  ico_id :: int
  ico_author :: "string option"
  ico_body :: string
  ico_created_at :: string
  ico_updated_at :: string

record pr_review =
  rv_author :: "string option"
  rv_submitted_at :: string
  rv_state :: string
  rv_body :: string

record pr_snapshot =
  sn_status :: pr_status
  sn_threads :: "review_thread list"
  sn_comments :: "issue_comment list"
  sn_reviews :: "pr_review list"

text \<open>The settings (\<^verbatim>\<open>tod-store/src/settings.rs\<close>).\<close>

record bot_settings =
  bs_name :: string
  bs_min_score :: nat
  bs_rerun_after_minutes :: nat

record readiness_settings =
  rs_bots :: "bot_settings list"
  rs_max_thread_rounds :: nat
  rs_max_rounds :: nat

section \<open>Review bots\<close>

text \<open>\<^verbatim>\<open>str::find\<close>: the rest of the text from the first occurrence on.\<close>

fun find_from :: "string \<Rightarrow> string \<Rightarrow> string option" where
  "find_from p [] = (if p = [] then Some [] else None)"
| "find_from p (c # s) = (if starts_with p (c # s) then Some (c # s) else find_from p s)"

definition find_str :: "string \<Rightarrow> string \<Rightarrow> nat option" where
  "find_str p s = map_option (\<lambda>rest. length s - length rest) (find_from p s)"

definition trim_start :: "string \<Rightarrow> string" where
  "trim_start s = dropWhile is_space s"

text \<open>\<^verbatim>\<open>str::trim_end_matches\<close> with a text: off as often as it is there.\<close>

function trim_end_matches :: "string \<Rightarrow> string \<Rightarrow> string" where
  "trim_end_matches p s =
     (if p \<noteq> [] \<and> ends_with p s then trim_end_matches p (take (length s - length p) s) else s)"
  by pat_completeness auto
termination
proof (relation "measure (\<lambda>(p, s). length s)", goal_cases)
  case (2 p s)
  then have "s \<noteq> []" by (auto simp: ends_with_def starts_with_def)
  then show ?case using 2 by simp
qed simp

declare trim_end_matches.simps [simp del]

record review_bot =
  bot_name :: string
  bot_author :: string
  bot_score_label :: string

definition GREPTILE :: review_bot where
  "GREPTILE = \<lparr>bot_name = ''greptile'', bot_author = ''greptile-apps'', bot_score_label = ''Confidence Score:''\<rparr>"

definition builtin_bot :: "string \<Rightarrow> review_bot option" where
  "builtin_bot name = find (\<lambda>rb. eq_ignore_case (bot_name rb) (trim name)) [GREPTILE]"

definition is_author :: "review_bot \<Rightarrow> string \<Rightarrow> bool" where
  "is_author rb login = eq_ignore_case (trim_end_matches ''[bot]'' login) (bot_author rb)"

fun strip_markup_from :: "bool \<Rightarrow> string \<Rightarrow> string" where
  "strip_markup_from in_tag [] = []"
| "strip_markup_from in_tag (c # s) =
     (if c = CHR ''<'' then strip_markup_from True s
      else if c = CHR ''>'' \<and> in_tag then strip_markup_from False s
      else if in_tag then strip_markup_from in_tag s
      else if c \<in> {CHR ''*'', CHR ''_'', CHR 0x60} then strip_markup_from in_tag s
      else c # strip_markup_from in_tag s)"

definition strip_markup :: "string \<Rightarrow> string" where
  "strip_markup line = strip_markup_from False line"

fun score_in_lines :: "review_bot \<Rightarrow> string list \<Rightarrow> nat option" where
  "score_in_lines rb [] = None"
| "score_in_lines rb (line # lines) =
     (let plain = strip_markup line
      in case find_str (lower (bot_score_label rb)) (lower plain) of
           None \<Rightarrow> score_in_lines rb lines
         | Some at \<Rightarrow>
             let rest = trim_start (drop (at + length (bot_score_label rb)) plain);
                 digits = takeWhile is_digit rest;
                 after = trim_start (drop (length digits) rest)
             in case strip_prefix ''/'' after of
                  None \<Rightarrow> None
                | Some out_of \<Rightarrow>
                    if \<not> starts_with ''5'' (trim_start out_of) then None
                    else if digits \<noteq> [] \<and> 1 \<le> digits_value digits \<and> digits_value digits \<le> 5
                    then Some (digits_value digits) else None)"

text \<open>\<^verbatim>\<open>str::lines\<close>: cut at line feeds, a carriage return before one dropped, no empty last line.\<close>

definition str_lines :: "string \<Rightarrow> string list" where
  "str_lines s =
     (let ls = split_on (\<lambda>c. c = CHR 0x0A) s
      in map (\<lambda>l. if ends_with [CHR 0x0D] l then butlast l else l) (butlast ls) @ (if last ls = [] then [] else [last ls]))"

definition parse_score :: "review_bot \<Rightarrow> string \<Rightarrow> nat option" where
  "parse_score rb body =
     score_in_lines rb (take 12 (filter (\<lambda>l. l \<noteq> []) (map trim (str_lines body))))"

datatype bot_standing = BotCurrent nat | BotStale "nat option" | BotMissing

fun is_current :: "bot_standing \<Rightarrow> bool" where
  "is_current (BotCurrent _) = True"
| "is_current (BotStale _) = False"
| "is_current BotMissing = False"

definition mentions_commit :: "string \<Rightarrow> bool" where
  "mentions_commit body = contains_str ''last reviewed commit'' (lower body)"

definition by_bot :: "review_bot \<Rightarrow> string option \<Rightarrow> bool" where
  "by_bot rb author = is_some_and (is_author rb) author"

definition candidate_standing ::
    "(string \<Rightarrow> instant option) \<Rightarrow> string option \<Rightarrow> instant option \<Rightarrow> string \<times> string \<times> nat \<Rightarrow> bot_standing" where
  "candidate_standing rfc sha head_at c =
     (case c of (text, updated_at, score) \<Rightarrow>
        let names_head = is_some_and (\<lambda>sha. 7 \<le> length sha \<and> contains_str (take 7 sha) text) sha;
            names_other = \<not> names_head \<and> mentions_commit text;
            after_head = (case (rfc updated_at, head_at) of (Some updated, Some head) \<Rightarrow> head \<le> updated | _ \<Rightarrow> False)
        in if names_head \<or> (after_head \<and> \<not> names_other) then BotCurrent score else BotStale (Some score))"

definition bot_candidates :: "(string \<Rightarrow> instant option) \<Rightarrow> review_bot \<Rightarrow> pr_snapshot \<Rightarrow> (string \<times> string \<times> nat) list" where
  "bot_candidates rfc rb sn =
     (let from_comments = List.map_filter
            (\<lambda>c. map_option (\<lambda>score. (ico_body c, ico_updated_at c, score)) (parse_score rb (ico_body c)))
            (filter (\<lambda>c. by_bot rb (ico_author c)) (sn_comments sn));
          from_description = (case st_body (sn_status sn) of
              None \<Rightarrow> []
            | Some body \<Rightarrow>
                let section = unwrap_or body (find_from ''<!-- greptile_comment -->'' body)
                in (case parse_score rb section of None \<Rightarrow> [] | Some score \<Rightarrow> [(section, [], score)]))
      in sort_key (\<lambda>(_, updated, _). rfc updated) (from_comments @ from_description))"

definition bot_standing_of ::
    "(string \<Rightarrow> instant option) \<Rightarrow> review_bot \<Rightarrow> pr_snapshot \<Rightarrow> string option \<Rightarrow> instant option \<Rightarrow> bot_standing" where
  "bot_standing_of rfc rb sn sha head_at =
     (let candidates = bot_candidates rfc rb sn; standing = candidate_standing rfc sha head_at
      in unwrap_or BotMissing
           (or_else (find is_current (map standing (rev candidates))) (map_option standing (last_opt candidates))))"

section \<open>People\<close>

definition is_person :: "string \<Rightarrow> bool" where
  "is_person login = (\<not> ends_with ''[bot]'' login \<and> \<not> is_author GREPTILE login)"

datatype human_review = HrPending | HrApproved | HrChangesRequested (hr_unaddressed: bool)

text \<open>A person's decisive reviews with a readable time: who, when, what.\<close>

definition decisive :: "(string \<Rightarrow> instant option) \<Rightarrow> pr_review \<Rightarrow> (string \<times> instant \<times> string) option" where
  "decisive rfc r =
     (case opt_filter is_person (rv_author r) of
        None \<Rightarrow> None
      | Some author \<Rightarrow>
          if rv_state r \<notin> {''APPROVED'', ''CHANGES_REQUESTED'', ''DISMISSED''} then None
          else map_option (\<lambda>at. (author, at, rv_state r)) (rfc (rv_submitted_at r)))"

definition keep_latest ::
    "string \<times> instant \<times> string \<Rightarrow> (string \<times> instant \<times> string) list \<Rightarrow> (string \<times> instant \<times> string) list" where
  "keep_latest r latest =
     (case r of (author, at, state) \<Rightarrow>
        if is_none_or (\<lambda>(prev, _). prev \<le> at) (map_of latest author) then AList.update author (at, state) latest else latest)"

definition latest_decisive :: "(string \<Rightarrow> instant option) \<Rightarrow> pr_review list \<Rightarrow> (string \<times> instant \<times> string) list" where
  "latest_decisive rfc reviews = fold keep_latest (List.map_filter (decisive rfc) reviews) []"

definition human_review_of :: "(string \<Rightarrow> instant option) \<Rightarrow> pr_snapshot \<Rightarrow> instant option \<Rightarrow> human_review" where
  "human_review_of rfc sn head_at =
     (let latest = map snd (latest_decisive rfc (sn_reviews sn));
          requested = map fst (filter (\<lambda>(_, s). s = ''CHANGES_REQUESTED'') latest)
      in if requested \<noteq> [] then HrChangesRequested (is_some_and (\<lambda>h. h < Max (set requested)) head_at)
         else if list_ex (\<lambda>(_, s). s = ''APPROVED'') latest then HrApproved
         else HrPending)"

record review_comment =
  rc_kind :: string
  rc_author :: string
  rc_at :: instant
  rc_body :: string

text \<open>What a person said since the head commit.\<close>

definition said :: "(string \<Rightarrow> instant option) \<Rightarrow> instant option \<Rightarrow> string \<Rightarrow> string option \<Rightarrow> string \<Rightarrow> string \<Rightarrow> review_comment option" where
  "said rfc head_at kind author at body =
     (case opt_filter is_person author of
        None \<Rightarrow> None
      | Some who \<Rightarrow> (case rfc at of
            None \<Rightarrow> None
          | Some t \<Rightarrow>
              if is_none_or (\<lambda>h. h < t) head_at
              then Some \<lparr>rc_kind = kind, rc_author = who, rc_at = t, rc_body = trim body\<rparr> else None))"

definition review_comments_of :: "(string \<Rightarrow> instant option) \<Rightarrow> pr_snapshot \<Rightarrow> instant option \<Rightarrow> review_comment list" where
  "review_comments_of rfc sn head_at =
     sort_key rc_at
       (List.map_filter (\<lambda>r. said rfc head_at ''review'' (rv_author r) (rv_submitted_at r) (rv_body r))
          (filter (\<lambda>r. rv_state r = ''COMMENTED'' \<and> trim (rv_body r) \<noteq> []) (sn_reviews sn))
        @ List.map_filter (\<lambda>c. said rfc head_at ''comment'' (ico_author c) (ico_created_at c) (ico_body c))
          (filter (\<lambda>c. trim (ico_body c) \<noteq> []) (sn_comments sn)))"

section \<open>Threads\<close>

record open_thread =
  ot_id :: string
  ot_path :: "string option"
  ot_line :: "int option"
  ot_rounds :: nat
  ot_reviewer :: "string option"

definition wants_answer :: "review_thread \<Rightarrow> bool" where
  "wants_answer t = (\<not> rt_resolved t \<and> \<not> rt_outdated t)"

definition thread_rounds :: "review_thread \<Rightarrow> nat" where
  "thread_rounds t = length (rt_comments t) div 2"

definition open_thread_of :: "review_thread \<Rightarrow> open_thread" where
  "open_thread_of t = \<lparr>ot_id = rt_id t, ot_path = rt_path t, ot_line = rt_line t, ot_rounds = thread_rounds t,
     ot_reviewer = (case rt_comments t of [] \<Rightarrow> None | c # _ \<Rightarrow> tc_author c)\<rparr>"

section \<open>The assessment\<close>

record bot_report =
  br_settings :: bot_settings
  br_bot :: review_bot
  br_standing :: bot_standing
  br_reviewed_at :: "instant option"
  br_overdue :: bool

record assessment =
  as_merged :: bool
  as_draft :: bool
  as_mergeable_state :: "string option"
  as_behind_by :: "nat option"
  as_checks :: "string option"
  as_open_threads :: "open_thread list"
  as_bots :: "bot_report list"
  as_human_review :: human_review
  as_requested_reviewers :: "string list"
  as_review_comments :: "review_comment list"
  as_read_at :: instant
  as_answered_at :: "instant option"

definition minutes :: "nat \<Rightarrow> instant" where
  "minutes m = int m * 60 * 1000000000"

definition max_opt :: "instant list \<Rightarrow> instant option" where
  "max_opt ts = (if ts = [] then None else Some (Max (set ts)))"

definition bot_report_of ::
    "(string \<Rightarrow> instant option) \<Rightarrow> pr_snapshot \<Rightarrow> instant \<Rightarrow> instant option \<Rightarrow> bot_settings \<Rightarrow> bot_report option" where
  "bot_report_of rfc sn now head_at configured =
     map_option (\<lambda>rb.
        \<lparr>br_settings = configured, br_bot = rb,
         br_standing = bot_standing_of rfc rb sn (st_head_sha (sn_status sn)) head_at,
         br_reviewed_at = max_opt (List.map_filter rfc
            (map rv_submitted_at (filter (\<lambda>r. by_bot rb (rv_author r)) (sn_reviews sn))
             @ map ico_updated_at (filter (\<lambda>c. by_bot rb (ico_author c) \<and> parse_score rb (ico_body c) \<noteq> None) (sn_comments sn)))),
         br_overdue = is_none_or (\<lambda>h. minutes (bs_rerun_after_minutes configured) \<le> now - h) head_at\<rparr>)
       (builtin_bot (bs_name configured))"

definition assessment_of :: "(string \<Rightarrow> instant option) \<Rightarrow> pr_snapshot \<Rightarrow> readiness_settings \<Rightarrow> instant \<Rightarrow> assessment" where
  "assessment_of rfc sn settings now =
     (let head_at = Option.bind (st_head_committed_at (sn_status sn)) rfc
      in \<lparr>as_merged = st_merged (sn_status sn), as_draft = st_draft (sn_status sn),
          as_mergeable_state = st_mergeable_state (sn_status sn), as_behind_by = st_behind_by (sn_status sn),
          as_checks = st_checks (sn_status sn),
          as_open_threads = map open_thread_of (filter wants_answer (sn_threads sn)),
          as_bots = List.map_filter (bot_report_of rfc sn now head_at) (rs_bots settings),
          as_human_review = human_review_of rfc sn head_at,
          as_requested_reviewers = st_reviewers (sn_status sn),
          as_review_comments = review_comments_of rfc sn head_at,
          as_read_at = now, as_answered_at = None\<rparr>)"

definition answered_through :: "instant option \<Rightarrow> assessment \<Rightarrow> assessment" where
  "answered_through at a = a\<lparr>as_answered_at := at\<rparr>"

definition unanswered_review_comments :: "assessment \<Rightarrow> review_comment list" where
  "unanswered_review_comments a =
     filter (\<lambda>r. is_none_or (\<lambda>at. at < rc_at r) (as_answered_at a)) (as_review_comments a)"

definition behind :: "assessment \<Rightarrow> bool" where
  "behind a = is_some_and (\<lambda>n. 0 < n) (as_behind_by a)"

definition conflicted :: "assessment \<Rightarrow> bool" where
  "conflicted a = (as_mergeable_state a = Some ''dirty'')"

datatype pr_work =
  WkThreads nat | WkFailingChecks | WkBehind | WkConflict
| WkLowScore string nat nat
| WkBotReviewMissing string nat "(nat \<times> nat) option"
| WkChangesRequested
| WkReviewComments nat

datatype pr_wait = WtBotReview string | WtChecksRunning | WtGitHub | WtHumanReview

datatype pr_next = NxMerged | NxWork "pr_work list" | NxWait "pr_wait list" | NxClear

definition bot_work :: "assessment \<Rightarrow> bot_report \<Rightarrow> pr_work option" where
  "bot_work a r =
     (let min = bs_min_score (br_settings r); name = bs_name (br_settings r)
      in case br_standing r of
           BotCurrent score \<Rightarrow>
             if score < min \<and> is_none_or (\<lambda>at. is_none_or (\<lambda>t. at < t) (br_reviewed_at r)) (as_answered_at a)
             then Some (WkLowScore name score min) else None
         | _ \<Rightarrow>
             let quiet = minutes (bs_rerun_after_minutes (br_settings r))
             in if br_overdue r \<and> is_none_or (\<lambda>at. quiet \<le> as_read_at a - at) (as_answered_at a)
                then Some (WkBotReviewMissing name (bs_rerun_after_minutes (br_settings r))
                       (case br_standing r of
                          BotStale (Some score) \<Rightarrow> if score < min then Some (score, min) else None
                        | _ \<Rightarrow> None))
                else None)"

definition pr_work_of :: "assessment \<Rightarrow> pr_work list" where
  "pr_work_of a =
     (if as_merged a then []
      else (if conflicted a then [WkConflict] else [])
         @ (if behind a then [WkBehind] else [])
         @ (if as_open_threads a \<noteq> [] then [WkThreads (length (as_open_threads a))] else [])
         @ (if as_checks a = Some ''failure'' then [WkFailingChecks] else [])
         @ (if as_human_review a = HrChangesRequested True \<and> as_open_threads a = [] then [WkChangesRequested] else [])
         @ (if 0 < length (unanswered_review_comments a) then [WkReviewComments (length (unanswered_review_comments a))] else [])
         @ List.map_filter (bot_work a) (as_bots a))"

definition pr_waits_of :: "assessment \<Rightarrow> pr_wait list" where
  "pr_waits_of a =
     (if as_merged a then []
      else
        let waits = map (\<lambda>r. WtBotReview (bs_name (br_settings r))) (filter (\<lambda>r. \<not> is_current (br_standing r)) (as_bots a))
              @ (if as_checks a = Some ''pending'' then [WtChecksRunning] else [])
              @ (if as_mergeable_state a = None then [WtGitHub] else [])
        in waits @ (if waits = [] \<and> as_mergeable_state a = Some ''blocked'' \<and> as_human_review a \<noteq> HrApproved
                    then [WtHumanReview] else []))"

definition pr_next_of :: "assessment \<Rightarrow> pr_next" where
  "pr_next_of a =
     (if as_merged a then NxMerged
      else if pr_work_of a \<noteq> [] then NxWork (pr_work_of a)
      else if pr_waits_of a \<noteq> [] then NxWait (pr_waits_of a)
      else NxClear)"

definition stuck_thread :: "nat \<Rightarrow> assessment \<Rightarrow> open_thread option" where
  "stuck_thread max_thread_rounds a = find (\<lambda>t. max_thread_rounds \<le> ot_rounds t) (as_open_threads a)"


section \<open>Facts\<close>

lemma max_by_key_snoc:
  "max_by_key f (xs @ [x]) = (case max_by_key f xs of None \<Rightarrow> Some x | Some y \<Rightarrow> if f y \<le> f x then Some x else Some y)"
  by (induction xs) (auto split: option.splits)

text \<open>A person's word: the last of their decisive reviews of the latest time.\<close>

definition word_of :: "(string \<Rightarrow> instant option) \<Rightarrow> pr_review list \<Rightarrow> string \<Rightarrow> (instant \<times> string) option" where
  "word_of rfc reviews p = max_by_key fst (map snd (filter (\<lambda>r. fst r = p) (List.map_filter (decisive rfc) reviews)))"

lemma keep_latest_keys: "distinct (map fst latest) \<Longrightarrow> distinct (map fst (keep_latest r latest))"
  by (auto simp: keep_latest_def split: prod.splits intro: distinct_update)

lemma latest_folds:
  "distinct (map fst (fold keep_latest rs [])) \<and>
   map_of (fold keep_latest rs []) p = max_by_key fst (map snd (filter (\<lambda>r. fst r = p) rs))"
proof (induction rs rule: rev_induct)
  case (snoc r rs)
  obtain author at state where r: "r = (author, at, state)" by (cases r)
  have keys: "distinct (map fst (fold keep_latest (rs @ [r]) []))" using snoc keep_latest_keys by simp
  have "map_of (keep_latest r (fold keep_latest rs [])) p =
      (if p = author \<and> is_none_or (\<lambda>(prev, _). prev \<le> at) (map_of (fold keep_latest rs []) author) then Some (at, state)
       else map_of (fold keep_latest rs []) p)"
    by (simp add: keep_latest_def r update_conv')
  then show ?case
    using snoc keys by (auto simp: r max_by_key_snoc split: option.splits)
qed simp

lemma latest_words:
  "v \<in> set (map snd (latest_decisive rfc reviews)) \<longleftrightarrow> (\<exists>p. word_of rfc reviews p = Some v)"
proof -
  let ?l = "latest_decisive rfc reviews"
  have d: "distinct (map fst ?l)" and m: "map_of ?l p = word_of rfc reviews p" for p
    using latest_folds by (auto simp: latest_decisive_def word_of_def)
  have "(p, v) \<in> set ?l \<longleftrightarrow> map_of ?l p = Some v" for p using map_of_eq_Some_iff[OF d] by auto
  then have "v \<in> set (map snd ?l) \<longleftrightarrow> (\<exists>p. map_of ?l p = Some v)" by force
  then show ?thesis unfolding m .
qed

lemma with_state: "t \<in> set (map fst (filter (\<lambda>(_, s). s = w) l)) \<longleftrightarrow> (t, w) \<in> set l"
  by force

lemma some_state: "list_ex (\<lambda>(_, s). s = w) l \<longleftrightarrow> (\<exists>t. (t, w) \<in> set l)"
  by (force simp: list_ex_iff)

text \<open>C26: A pull request has changes requested exactly when some person's last word asks for them -
  earlier reviews they replaced or that were dismissed, comments and bots do not count - and
  they are unaddressed exactly when some such request is newer than the head commit; it is approved
  exactly when some person's last word approves and nobody's asks for changes.\<close>
theorem human_review_exact:
  "(human_review_of rfc sn head_at = HrChangesRequested u) =
     ((\<exists>p t. word_of rfc (sn_reviews sn) p = Some (t, ''CHANGES_REQUESTED'')) \<and>
      u = (\<exists>h p t. head_at = Some h \<and> word_of rfc (sn_reviews sn) p = Some (t, ''CHANGES_REQUESTED'') \<and> h < t))
   \<and> (human_review_of rfc sn head_at = HrApproved) =
     ((\<exists>p t. word_of rfc (sn_reviews sn) p = Some (t, ''APPROVED'')) \<and>
      (\<nexists>p t. word_of rfc (sn_reviews sn) p = Some (t, ''CHANGES_REQUESTED'')))"
proof -
  let ?l = "map snd (latest_decisive rfc (sn_reviews sn))"
  let ?ts = "map fst (filter (\<lambda>(_, s). s = ''CHANGES_REQUESTED'') ?l)"
  have ts: "t \<in> set ?ts \<longleftrightarrow> (\<exists>p. word_of rfc (sn_reviews sn) p = Some (t, ''CHANGES_REQUESTED''))" for t
    unfolding latest_words[symmetric] by (rule with_state)
  have "list_ex (\<lambda>(_, s). s = ''APPROVED'') ?l \<longleftrightarrow> (\<exists>t. (t, ''APPROVED'') \<in> set ?l)" by (rule some_state)
  then have ap: "list_ex (\<lambda>(_, s). s = ''APPROVED'') ?l \<longleftrightarrow> (\<exists>p t. word_of rfc (sn_reviews sn) p = Some (t, ''APPROVED''))"
    unfolding latest_words by blast
  show ?thesis
  proof (cases "?ts = []")
    case True
    then have "\<nexists>p t. word_of rfc (sn_reviews sn) p = Some (t, ''CHANGES_REQUESTED'')" using ts by (metis empty_iff list.set(1))
    then show ?thesis using True ap by (simp add: human_review_of_def)
  next
    case False
    then have some: "\<exists>p t. word_of rfc (sn_reviews sn) p = Some (t, ''CHANGES_REQUESTED'')"
      using ts by (metis list.set_sel(1))
    have "h < Max (set ?ts) \<longleftrightarrow> (\<exists>t \<in> set ?ts. h < t)" for h
      by (rule Max_gr_iff) (simp, simp only: set_empty False, simp)
    then have "is_some_and (\<lambda>h. h < Max (set ?ts)) head_at \<longleftrightarrow>
        (\<exists>h p t. head_at = Some h \<and> word_of rfc (sn_reviews sn) p = Some (t, ''CHANGES_REQUESTED'') \<and> h < t)"
      unfolding Bex_def ts by (auto simp: is_some_and_iff)
    then show ?thesis using False some by (auto simp: human_review_of_def Let_def)
  qed
qed

definition bot_content :: "assessment \<Rightarrow> bot_report \<Rightarrow> bool" where
  "bot_content a r \<longleftrightarrow> (\<exists>score. br_standing r = BotCurrent score \<and> (bs_min_score (br_settings r) \<le> score
     \<or> (\<exists>at t. as_answered_at a = Some at \<and> br_reviewed_at r = Some t \<and> t \<le> at)))"

lemma map_filter_none: "List.map_filter f xs = [] \<longleftrightarrow> list_all (\<lambda>x. f x = None) xs"
  by (induction xs) (auto simp: List.map_filter_def)

lemma bot_content_iff: "is_current (br_standing r) \<and> bot_work a r = None \<longleftrightarrow> bot_content a r"
  by (cases "br_standing r"; cases "as_answered_at a"; cases "br_reviewed_at r")
    (auto simp: bot_work_def bot_content_def Let_def)

text \<open>C27: The babysitter is done with an open pull request exactly when it merges cleanly with its base
  and is not behind it, no thread or comment waits for an answer, no check failed or runs, GitHub has
  said whether it merges and does not hold it for an approval, nobody's request for changes is
  unaddressed, and each configured bot reviewed the current head with a passing score or one the
  agent has had a turn on.\<close>
theorem pr_clear_exact:
  "(pr_next_of a = NxClear) =
     (as_merged a = False \<and> conflicted a = False \<and> behind a = False \<and> as_open_threads a = []
      \<and> unanswered_review_comments a = [] \<and> as_checks a \<notin> {Some ''failure'', Some ''pending''}
      \<and> as_mergeable_state a \<noteq> None \<and> \<not> (as_mergeable_state a = Some ''blocked'' \<and> as_human_review a \<noteq> HrApproved)
      \<and> as_human_review a \<noteq> HrChangesRequested True \<and> list_all (bot_content a) (as_bots a))"
proof -
  have bots: "list_all (bot_content a) (as_bots a) \<longleftrightarrow>
      List.map_filter (bot_work a) (as_bots a) = [] \<and> filter (\<lambda>r. \<not> is_current (br_standing r)) (as_bots a) = []"
    using bot_content_iff by (auto simp: map_filter_none filter_empty_conv list_all_iff)
  show ?thesis
    unfolding bots by (auto simp: pr_next_of_def pr_work_of_def pr_waits_of_def Let_def)
qed

text \<open>A turn on everything read so far leaves no review to answer.\<close>

lemma answered_leaves_no_review:
  assumes "as_read_at a \<le> at" "list_all (\<lambda>r. rc_at r \<le> as_read_at a) (as_review_comments a)"
  shows "WkReviewComments k \<notin> set (pr_work_of (answered_through (Some at) a))"
proof -
  have "unanswered_review_comments (answered_through (Some at) a) = []"
    using assms by (fastforce simp: unanswered_review_comments_def answered_through_def filter_empty_conv list_all_iff)
  then show ?thesis
    by (auto simp: pr_work_of_def bot_work_def Let_def List.map_filter_def split: bot_standing.splits if_splits)
qed

end
