(* ===== verification/DraftReview.thy ===== *)
theory DraftReview
  imports Phases PrReadiness
begin

text \<open>
  tod's own code review of a draft pull request (\<^verbatim>\<open>tod-core/src/pr_draft_review.rs\<close>): whose findings
  count, what the review owes the pull request, what the gate checks, where each finding is put and
  how posting records it.

  \<open>enabled\<close> (\<^verbatim>\<open>lifecycle_config::resolve_pr_draft_review\<close>) is a parameter, as are the calls to GitHub that
  \<^verbatim>\<open>post\<close> makes (\<^verbatim>\<open>PrFeed\<close>). A \<^verbatim>\<open>BTreeMap\<close> of heads is its list of pairs in ascending order of key.
\<close>

section \<open>The store and the pull requests\<close>

record review_db = phase_db +
  rd_findings :: findings

record node_pr =
  np_owner :: string
  np_repo :: string
  np_number :: int
  np_url :: string

record live_pr =
  lp_pr :: node_pr
  lp_draft :: bool
  lp_assessment :: assessment
  lp_fingerprint :: string
  lp_head_sha :: "string option"
  lp_threads :: "review_thread list"

definition pr_label :: "node_pr \<Rightarrow> string" where
  "pr_label pr = np_owner pr @ ''/'' @ np_repo pr @ ''#'' @ show_int (np_number pr)"

definition btree_map :: "(string \<times> 'v) list \<Rightarrow> (string \<times> 'v) list" where
  "btree_map kvs = map (\<lambda>k. (k, the (map_of (rev kvs) k))) (remdups (sort (map fst kvs)))"

section \<open>Whose findings count\<close>

definition is_own :: "conversation \<Rightarrow> ms option \<Rightarrow> bool" where
  "is_own c since = (c_protocol c = PkReview \<and> c_from_state c = Some ''pr_draft'' \<and> is_none_or (\<lambda>t. t \<le> c_created c) since)"

definition latest_review :: "uuid \<Rightarrow> 'a review_db_scheme \<Rightarrow> conversation option" where
  "latest_review n db =
     opt_filter (\<lambda>c. is_own c (stay_started_at n db)) (latest_for_focus_with_protocol (FNode n) PkReview (td_conv db))"

definition reviews_this_stay :: "uuid \<Rightarrow> 'a review_db_scheme \<Rightarrow> nat" where
  "reviews_this_stay n db =
     length (filter (\<lambda>c. c_skill_group c = 0 \<and> is_own c (stay_started_at n db)) (conversations_for_focus (FNode n) (td_conv db)))"

definition own_findings :: "uuid \<Rightarrow> 'a review_db_scheme \<Rightarrow> findings" where
  "own_findings n db =
     filter (\<lambda>f. case fi_conversation f of
         None \<Rightarrow> False
       | Some i \<Rightarrow> is_some_and (\<lambda>c. is_own c (stay_started_at n db)) (get_conversation i (td_conv db)))
       (findings_for_node n (rd_findings db))"

definition current_heads :: "live_pr list \<Rightarrow> (string \<times> string) list" where
  "current_heads live =
     btree_map (List.map_filter (\<lambda>p. map_option (\<lambda>sha. (pr_label (lp_pr p), sha)) (lp_head_sha p)) live)"

definition heads_report :: "(string \<times> string) list \<Rightarrow> json" where
  "heads_report heads =
     JObj [(''review'', JStr ''done''), (''pr_heads'', JObj (map (\<lambda>(k, v). (k, JStr v)) heads))]"

definition heads_of_json :: "json \<Rightarrow> (string \<times> string) list option" where
  "heads_of_json v = (case v of
     JObj kvs \<Rightarrow> (if list_all (\<lambda>(_, v). json_str v \<noteq> None) kvs
                  then Some (btree_map (map (\<lambda>(k, v). (k, unwrap_or [] (json_str v))) kvs)) else None)
   | _ \<Rightarrow> None)"

definition reviewed_heads :: "uuid \<Rightarrow> 'a review_db_scheme \<Rightarrow> (string \<times> string) list option" where
  "reviewed_heads c db =
     Option.bind (Option.bind (opt_filter is_done_report (latest_report c (td_conv db))) (json_get ''pr_heads'')) heads_of_json"

definition round_clean :: "findings \<Rightarrow> conversation \<Rightarrow> bool" where
  "round_clean fs latest =
     list_all (\<lambda>f. fi_status f \<in> {FINDING_OUT_OF_SCOPE, FINDING_DECLINED}) (filter (\<lambda>f. c_created latest \<le> fi_created f) fs)"

section \<open>What the review owes, and the gate\<close>

datatype owed = OwClear | OwPost findings | OwAnswer findings | OwReview

definition open_thread_ids :: "live_pr list \<Rightarrow> string list" where
  "open_thread_ids live = concat (map (\<lambda>p. map rt_id (filter (\<lambda>t. \<not> rt_resolved t \<and> \<not> rt_outdated t) (lp_threads p))) live)"

definition owed_of :: "(uuid \<Rightarrow> bool) \<Rightarrow> uuid \<Rightarrow> live_pr list \<Rightarrow> 'a review_db_scheme \<Rightarrow> owed" where
  "owed_of enabled n live db =
     (if \<not> enabled n then OwClear
      else
        let fs = own_findings n db;
            unposted = filter (\<lambda>f. finding_open f \<and> fi_pr_posted f = None) fs
        in if unposted \<noteq> [] then OwPost unposted
           else
             let unasked = filter (\<lambda>f. finding_open f \<and>
                    is_none_or (\<lambda>t. t \<notin> set (open_thread_ids live)) (fi_pr_thread f)) fs
             in if unasked \<noteq> [] then OwAnswer unasked
                else case latest_review n db of
                  None \<Rightarrow> OwReview
                | Some latest \<Rightarrow>
                    if is_none_or (\<lambda>heads. heads \<noteq> current_heads live) (reviewed_heads (c_id latest) db) then OwReview
                    else if round_clean fs latest then OwClear else OwReview)"

definition draft_gate ::
    "(uuid \<Rightarrow> bool) \<Rightarrow> uuid \<Rightarrow> (string \<times> string) list \<Rightarrow> 'a review_db_scheme \<Rightarrow> string fallible" where
  "draft_gate enabled n heads db =
     (if \<not> enabled n then Inr ''The lifecycle config does not include the review steps in `pr_draft`.''
      else
        let fs = own_findings n db; open' = map (\<lambda>f. short_id (fi_id f)) (filter finding_open fs)
        in if open' \<noteq> [] then Inl (''tod's code review has open findings: '' @ join '', '' open' @ ''.'')
           else case latest_review n db of
             None \<Rightarrow> Inl ''tod's code review has not reviewed the pull request in this stay.''
           | Some latest \<Rightarrow>
               if is_none_or (\<lambda>reviewed. reviewed \<noteq> heads) (reviewed_heads (c_id latest) db)
               then Inl ''tod's code review has not reviewed the pull request's current head.''
               else if \<not> round_clean fs latest
               then Inl ''tod's latest code review recorded findings; only another review of the fixed head clears them.''
               else Inr ''tod's code review of the current head recorded nothing that stands.'')"

text \<open>\<^verbatim>\<open>sync_resolved\<close>: open findings whose thread a person resolved are declined, in order; an error stops.\<close>

fun respond_each :: "ms \<Rightarrow> finding list \<Rightarrow> findings \<Rightarrow> findings fallible" where
  "respond_each now [] fs = Inr fs"
| "respond_each now (f # rest) fs =
     (case respond_finding now (fi_id f) FINDING_DECLINED
             (Some ''Its review thread was resolved on GitHub without an answer.'') fs of
        Inl e \<Rightarrow> Inl e
      | Inr fs' \<Rightarrow> respond_each now rest fs')"

definition resolved_ids :: "live_pr list \<Rightarrow> string list" where
  "resolved_ids live = concat (map (\<lambda>p. map rt_id (filter rt_resolved (lp_threads p))) live)"

definition sync_resolved :: "ms \<Rightarrow> uuid \<Rightarrow> live_pr list \<Rightarrow> 'a review_db_scheme \<Rightarrow> (nat \<times> 'a review_db_scheme) fallible" where
  "sync_resolved now n live db =
     (let dismissed = filter (\<lambda>f. finding_open f \<and> is_some_and (\<lambda>t. t \<in> set (resolved_ids live)) (fi_pr_thread f))
            (own_findings n db)
      in case respond_each now dismissed (rd_findings db) of
           Inl e \<Rightarrow> Inl e
         | Inr fs \<Rightarrow> Inr (length dismissed, db\<lparr>rd_findings := fs\<rparr>))"

section \<open>Where a finding goes\<close>

record pr_file =
  pf_filename :: string
  pf_patch :: "string option"

text \<open>\<^verbatim>\<open>str::parse::<i64>\<close>: an optional sign, digits, within the width.\<close>

definition parse_i64 :: "string \<Rightarrow> int option" where
  "parse_i64 s =
     (let neg = starts_with ''-'' s; ds = (if neg \<or> starts_with ''+'' s then tl s else s);
          v = (if neg then - int (digits_value ds) else int (digits_value ds))
      in if ds = [] \<or> \<not> list_all is_digit ds \<or> v < - (2 ^ 63) \<or> 2 ^ 63 \<le> v then None else Some v)"

definition hunk_start :: "string \<Rightarrow> int option" where
  "hunk_start header =
     (case List.map_filter (strip_prefix ''+'') (split_whitespace header) of
        [] \<Rightarrow> None
      | rng # _ \<Rightarrow> parse_i64 (hd (split_on (\<lambda>c. c = CHR 0x2C) rng)))"

fun patch_lines :: "int option \<Rightarrow> string list \<Rightarrow> int list" where
  "patch_lines next [] = []"
| "patch_lines next (text # rest) =
     (case strip_prefix ''@@'' text of
        Some header \<Rightarrow> patch_lines (hunk_start header) rest
      | None \<Rightarrow> (case next of
          None \<Rightarrow> patch_lines next rest
        | Some line \<Rightarrow>
            if starts_with ''-'' text \<or> starts_with [CHR 0x5C] text then patch_lines next rest
            else line # patch_lines (Some (line + 1)) rest))"

text \<open>The entry of a path in \<^verbatim>\<open>commentable_lines\<close>: the lines of every changed file of that name.\<close>

definition commentable_lines :: "pr_file list \<Rightarrow> string \<Rightarrow> int list option" where
  "commentable_lines files path =
     (let mine = filter (\<lambda>f. pf_filename f = path) files
      in if mine = [] then None
         else Some (concat (map (\<lambda>f. case pf_patch f of None \<Rightarrow> [] | Some patch \<Rightarrow> patch_lines None (str_lines patch)) mine)))"

datatype place = PlLine string int | PlFile string | PlText

definition place_of :: "finding \<Rightarrow> (string \<Rightarrow> int list option) \<Rightarrow> place" where
  "place_of f lines =
     (case fi_file f of
        None \<Rightarrow> PlText
      | Some path \<Rightarrow> (case lines path of
          None \<Rightarrow> PlText
        | Some file_lines \<Rightarrow> (case fi_line f of
            Some line \<Rightarrow> if line \<in> set file_lines then PlLine path line else PlFile path
          | None \<Rightarrow> PlFile path)))"

definition marker :: "finding \<Rightarrow> string" where
  "marker f = ''<!-- tod-finding:'' @ show_uuid (fi_id f) @ '' -->''"

definition comment_body :: "finding \<Rightarrow> place \<Rightarrow> string" where
  "comment_body f p =
     (let head = ''**['' @ fi_severity f @ '']** '';
          out = (case (p, fi_line f) of
               (PlFile _, Some line) \<Rightarrow> head @ ''(line '' @ show_int line @ '') '' @ trim (fi_summary f)
             | _ \<Rightarrow> head @ trim (fi_summary f));
          detail = (case opt_filter (\<lambda>d. trim d \<noteq> []) (fi_detail f) of
               None \<Rightarrow> [] | Some d \<Rightarrow> [CHR 0x0A, CHR 0x0A] @ trim d)
      in out @ detail @ [CHR 0x0A, CHR 0x0A] @ ''<sub>tod code review, finding `'' @ short_id (fi_id f) @ ''`</sub>''
         @ [CHR 0x0A] @ marker f)"

definition text_item :: "finding \<Rightarrow> string" where
  "text_item f =
     (let location = (case finding_location f of None \<Rightarrow> [] | Some l \<Rightarrow> '' `'' @ l @ ''`'');
          indent = concat \<circ> map (\<lambda>c. if c = CHR 0x0A then [c] @ ''  '' else [c]);
          detail = (case opt_filter (\<lambda>d. trim d \<noteq> []) (fi_detail f) of
               None \<Rightarrow> [] | Some d \<Rightarrow> [CHR 0x0A, CHR 0x0A] @ ''  '' @ indent (trim d))
      in ''- **['' @ fi_severity f @ '']**'' @ location @ '' '' @ trim (fi_summary f)
         @ '' (finding `'' @ short_id (fi_id f) @ ''`)'' @ detail)"

section \<open>Posting\<close>

record line_comment =
  lc_path :: string
  lc_line :: int
  lc_body :: string

record review_post =
  rp_commit :: string
  rp_body :: string
  rp_lines :: "line_comment list"
  rp_files :: "(string \<times> string) list"

record pr_feed =
  fe_changed_files :: "node_pr \<Rightarrow> pr_file list fallible"
  fe_post_review :: "node_pr \<Rightarrow> review_post \<Rightarrow> unit fallible"
  fe_threads :: "node_pr \<Rightarrow> review_thread list fallible"

definition pr_for :: "finding \<Rightarrow> (string \<Rightarrow> int list option) list \<Rightarrow> nat" where
  "pr_for f lines =
     (case fi_file f of
        None \<Rightarrow> 0
      | Some path \<Rightarrow> unwrap_or 0 (find (\<lambda>i. (lines ! i) path \<noteq> None) [0..<length lines]))"

definition post_of :: "string \<Rightarrow> (finding \<times> place) list \<Rightarrow> review_post" where
  "post_of commit placed =
     (let text = map (text_item \<circ> fst) (filter (\<lambda>(_, p). p = PlText) placed)
      in \<lparr>rp_commit = commit,
          rp_body = (if text = [] then []
             else ''tod's code review found these where no line of the change can hold them. ''
                @ ''Each is answered with the finding's id:'' @ [CHR 0x0A, CHR 0x0A] @ join [CHR 0x0A] text),
          rp_lines = List.map_filter (\<lambda>(f, p). case p of
              PlLine path line \<Rightarrow> Some \<lparr>lc_path = path, lc_line = line, lc_body = comment_body f p\<rparr> | _ \<Rightarrow> None) placed,
          rp_files = List.map_filter (\<lambda>(f, p). case p of PlFile path \<Rightarrow> Some (path, comment_body f p) | _ \<Rightarrow> None) placed\<rparr>)"

definition thread_of :: "finding \<Rightarrow> place \<Rightarrow> review_thread list \<Rightarrow> string option" where
  "thread_of f p threads =
     (if p = PlText then None
      else map_option rt_id (find (\<lambda>t. case rt_comments t of [] \<Rightarrow> False | c # _ \<Rightarrow> contains_str (marker f) (tc_body c)) threads))"

text \<open>What is recorded stays recorded when a later step fails, so posting gives both an error, if
  any, and the findings as they are.\<close>

fun record_posted ::
    "ms \<Rightarrow> review_thread list \<Rightarrow> (finding \<times> place) list \<Rightarrow> findings \<Rightarrow> string option \<times> string list \<times> findings" where
  "record_posted now threads [] fs = (None, [], fs)"
| "record_posted now threads ((f, p) # rest) fs =
     (case set_pr_posted now (fi_id f) (thread_of f p threads) fs of
        Inl e \<Rightarrow> (Some (''recording finding '' @ show_uuid (fi_id f) @ '' as posted: '' @ e), [], fs)
      | Inr fs' \<Rightarrow>
          (case record_posted now threads rest fs' of (err, missing, fs'') \<Rightarrow>
             (err, if p \<noteq> PlText \<and> thread_of f p threads = None then short_id (fi_id f) # missing else missing, fs'')))"

definition post_one ::
    "ms \<Rightarrow> pr_feed \<Rightarrow> live_pr \<Rightarrow> (finding \<times> place) list \<Rightarrow> findings \<Rightarrow> string option \<times> findings" where
  "post_one now feed p placed fs =
     (if placed = [] then (None, fs)
      else let url = np_url (lp_pr p) in
        case lp_head_sha p of
          None \<Rightarrow> (Some (url @ '': GitHub did not say which commit is its head''), fs)
        | Some commit \<Rightarrow> (case fe_post_review feed (lp_pr p) (post_of commit placed) of
            Inl e \<Rightarrow> (Some (url @ '': '' @ e), fs)
          | Inr _ \<Rightarrow> (case fe_threads feed (lp_pr p) of
              Inl e \<Rightarrow> (Some (url @ '': '' @ e), fs)
            | Inr threads \<Rightarrow> (case record_posted now threads placed fs of
                (Some e, _, fs') \<Rightarrow> (Some e, fs')
              | (None, missing, fs') \<Rightarrow>
                  (if missing = [] then None
                   else Some (url @ '': posted the review, but GitHub shows no thread for finding(s) '' @ join '', '' missing), fs')))))"

fun post_each :: "ms \<Rightarrow> pr_feed \<Rightarrow> (live_pr \<times> (finding \<times> place) list) list \<Rightarrow> findings \<Rightarrow> string option \<times> findings" where
  "post_each now feed [] fs = (None, fs)"
| "post_each now feed ((p, placed) # rest) fs =
     (case post_one now feed p placed fs of
        (Some e, fs') \<Rightarrow> (Some e, fs')
      | (None, fs') \<Rightarrow> post_each now feed rest fs')"

fun read_lines :: "pr_feed \<Rightarrow> live_pr list \<Rightarrow> (string \<Rightarrow> int list option) list fallible" where
  "read_lines feed [] = Inr []"
| "read_lines feed (p # rest) =
     (case fe_changed_files feed (lp_pr p) of
        Inl e \<Rightarrow> Inl (np_url (lp_pr p) @ '': '' @ e)
      | Inr files \<Rightarrow> (case read_lines feed rest of Inl e \<Rightarrow> Inl e | Inr ls \<Rightarrow> Inr (commentable_lines files # ls)))"

definition placed_on :: "finding list \<Rightarrow> (string \<Rightarrow> int list option) list \<Rightarrow> nat \<Rightarrow> (finding \<times> place) list" where
  "placed_on todo lines i = map (\<lambda>f. (f, place_of f (lines ! i))) (filter (\<lambda>f. pr_for f lines = i) todo)"

definition post_findings ::
    "ms \<Rightarrow> pr_feed \<Rightarrow> live_pr list \<Rightarrow> finding list \<Rightarrow> 'a review_db_scheme \<Rightarrow> string option \<times> 'a review_db_scheme" where
  "post_findings now feed live todo db =
     (if live = [] then (Some ''no pull request is linked to post the review on'', db)
      else case read_lines feed live of
        Inl e \<Rightarrow> (Some e, db)
      | Inr lines \<Rightarrow>
          (case post_each now feed (map (\<lambda>i. (live ! i, placed_on todo lines i)) [0..<length live]) (rd_findings db) of
             (err, fs) \<Rightarrow> (err, db\<lparr>rd_findings := fs\<rparr>)))"


section \<open>Facts\<close>

lemma own_findings_iff:
  "f \<in> set (own_findings n db) \<longleftrightarrow> f \<in> set (rd_findings db) \<and> fi_node f = n \<and>
     (\<exists>i c. fi_conversation f = Some i \<and> get_conversation i (td_conv db) = Some c \<and> is_own c (stay_started_at n db))"
  by (auto simp: own_findings_def findings_for_node_def is_some_and_iff split: option.splits)

lemma draft_gate_iff:
  "enabled n \<Longrightarrow> (\<exists>why. draft_gate enabled n heads db = Inr why) \<longleftrightarrow>
     filter finding_open (own_findings n db) = [] \<and>
     (\<exists>c. latest_review n db = Some c \<and> reviewed_heads (c_id c) db = Some heads \<and> round_clean (own_findings n db) c)"
  by (auto simp: draft_gate_def Let_def is_none_or_iff split: option.splits)

lemma owed_clear_iff:
  "enabled n \<Longrightarrow> owed_of enabled n live db = OwClear \<longleftrightarrow>
     filter (\<lambda>f. finding_open f \<and> fi_pr_posted f = None) (own_findings n db) = [] \<and>
     filter (\<lambda>f. finding_open f \<and> is_none_or (\<lambda>t. t \<notin> set (open_thread_ids live)) (fi_pr_thread f)) (own_findings n db) = [] \<and>
     (\<exists>c. latest_review n db = Some c \<and> reviewed_heads (c_id c) db = Some (current_heads live) \<and>
        round_clean (own_findings n db) c)"
  by (auto simp: owed_of_def Let_def is_none_or_iff split: option.splits)

text \<open>What posting does to the table: the same findings in the same order, those of \<open>S\<close> marked as
  posted, and none unmarked.\<close>

definition same_finding :: "finding \<Rightarrow> finding \<Rightarrow> bool" where
  "same_finding f g \<longleftrightarrow> (\<exists>t p u. g = f\<lparr>fi_pr_thread := t, fi_pr_posted := p, fi_updated := u\<rparr>)"

definition marked :: "uuid set \<Rightarrow> findings \<Rightarrow> findings \<Rightarrow> bool" where
  "marked S fs gs \<longleftrightarrow> list_all2 (\<lambda>f g. same_finding f g \<and>
     (fi_id f \<in> S \<or> fi_pr_posted f \<noteq> None \<longrightarrow> fi_pr_posted g \<noteq> None)) fs gs"

lemma same_finding_refl: "same_finding f f"
  unfolding same_finding_def by (rule exI[of _ "fi_pr_thread f"], rule exI[of _ "fi_pr_posted f"],
    rule exI[of _ "fi_updated f"]) simp

lemma same_finding_trans: "same_finding f g \<Longrightarrow> same_finding g h \<Longrightarrow> same_finding f h"
  unfolding same_finding_def by (elim exE, hypsubst) (simp, blast)

lemma same_finding_fields:
  "same_finding f g \<Longrightarrow> fi_id g = fi_id f \<and> fi_node g = fi_node f \<and> fi_conversation g = fi_conversation f
     \<and> fi_status g = fi_status f"
  by (auto simp: same_finding_def)

lemma marked_refl: "marked {} fs fs"
  by (simp add: marked_def list_all2_same same_finding_refl)

lemma marked_trans: "marked S fs gs \<Longrightarrow> marked T gs hs \<Longrightarrow> marked (S \<union> T) fs hs"
  unfolding marked_def
  by (rule list_all2_trans[of _ _ _ fs gs hs]) (auto dest: same_finding_trans same_finding_fields)

lemma marked_set_pr_posted:
  "set_pr_posted now i thread fs = Inr gs \<Longrightarrow> marked {i} fs gs"
  by (auto simp: set_pr_posted_def marked_def list_all2_conv_all_nth same_finding_refl split: if_splits)
    (auto simp: same_finding_def)

lemma marked_record:
  "record_posted now threads placed fs = (None, missing, gs) \<Longrightarrow> marked (fi_id ` fst ` set placed) fs gs"
proof (induction placed arbitrary: fs missing)
  case Nil
  then show ?case by (simp add: marked_refl)
next
  case (Cons fp placed)
  obtain f p where fp: "fp = (f, p)" by (cases fp)
  from Cons.prems obtain mid where mid: "set_pr_posted now (fi_id f) (thread_of f p threads) fs = Inr mid"
    by (auto simp: fp split: sum.splits)
  then obtain missing' where "record_posted now threads placed mid = (None, missing', gs)"
    using Cons.prems by (auto simp: fp split: prod.splits)
  from marked_trans[OF marked_set_pr_posted[OF mid] Cons.IH[OF this]] show ?case by (simp add: fp)
qed

lemma marked_post_one:
  "post_one now feed p placed fs = (None, gs) \<Longrightarrow> marked (fi_id ` fst ` set placed) fs gs"
  by (auto simp: post_one_def Let_def marked_refl split: if_splits option.splits sum.splits prod.splits dest!: marked_record)

lemma marked_post_each:
  "post_each now feed ps fs = (None, gs) \<Longrightarrow> marked (\<Union>(_, placed) \<in> set ps. fi_id ` fst ` set placed) fs gs"
proof (induction ps arbitrary: fs)
  case Nil
  then show ?case by (simp add: marked_refl)
next
  case (Cons pp ps)
  obtain p placed where pp: "pp = (p, placed)" by (cases pp)
  from Cons.prems obtain mid where mid: "post_one now feed p placed fs = (None, mid)" "post_each now feed ps mid = (None, gs)"
    by (auto simp: pp split: prod.splits option.splits)
  from marked_trans[OF marked_post_one[OF mid(1)] Cons.IH[OF mid(2)]] show ?case by (simp add: pp)
qed

lemma read_lines_length: "read_lines feed live = Inr ls \<Longrightarrow> length ls = length live"
  by (induction live arbitrary: ls) (auto split: sum.splits)

lemma pr_for_less: "lines \<noteq> [] \<Longrightarrow> pr_for f lines < length lines"
  by (auto simp: pr_for_def unwrap_or_def split: option.splits dest: find_Some_in)

text \<open>Every finding goes on exactly one of the pull requests.\<close>

lemma placed_all:
  assumes "read_lines feed live = Inr lines" "live \<noteq> []"
  shows "(\<Union>(_, placed) \<in> set (map (\<lambda>i. (live ! i, placed_on todo lines i)) [0..<length live]). fi_id ` fst ` set placed)
     = fi_id ` set todo"
proof -
  have "lines \<noteq> []" "length lines = length live" using read_lines_length[OF assms(1)] assms(2) by auto
  then have "pr_for f lines < length live" for f using pr_for_less by metis
  then show ?thesis by (force simp: placed_on_def)
qed

lemma marked_post_findings:
  assumes "post_findings now feed live todo db = (None, db')"
  shows "marked (fi_id ` set todo) (rd_findings db) (rd_findings db')" "db' = db\<lparr>rd_findings := rd_findings db'\<rparr>"
proof -
  have live: "live \<noteq> []" using assms by (auto simp: post_findings_def)
  with assms obtain lines where lines: "read_lines feed live = Inr lines"
    by (auto simp: post_findings_def split: sum.splits)
  with live assms obtain fs where fs:
    "post_each now feed (map (\<lambda>i. (live ! i, placed_on todo lines i)) [0..<length live]) (rd_findings db) = (None, fs)"
    "db' = db\<lparr>rd_findings := fs\<rparr>"
    by (auto simp: post_findings_def split: prod.splits)
  show "marked (fi_id ` set todo) (rd_findings db) (rd_findings db')"
    using marked_post_each[OF fs(1)] unfolding placed_all[OF lines live] fs(2) by simp
  show "db' = db\<lparr>rd_findings := rd_findings db'\<rparr>" by (simp add: fs(2))
qed

section \<open>Properties\<close>

text \<open>C28: The gate out of \<^verbatim>\<open>pr_draft\<close> and the babysitter agree about tod's own review: the gate passes
  exactly when the review owes the pull request nothing and (where reviews are on) none of its
  findings is open - an open finding whose thread is still open is the thread's to carry for the
  babysitter, but holds the gate.\<close>
theorem draft_gate_agrees:
  "(\<exists>why. draft_gate enabled n (current_heads live) db = Inr why) =
     (owed_of enabled n live db = OwClear \<and> (enabled n = False \<or> filter finding_open (own_findings n db) = []))"
proof (cases "enabled n")
  case True
  have "filter finding_open (own_findings n db) = [] \<Longrightarrow> filter (\<lambda>f. finding_open f \<and> P f) (own_findings n db) = []" for P
    by (auto simp: filter_empty_conv)
  then show ?thesis using True by (auto simp: draft_gate_iff owed_clear_iff)
next
  case False
  then show ?thesis by (simp add: draft_gate_def owed_of_def)
qed



definition sample_review :: conversation where
  "sample_review = \<lparr>c_id = 5, c_focus = FNode 7, c_protocol = PkReview, c_agent_run = None, c_agent_session = None,
     c_session_name = None, c_platform = None, c_model = None, c_effort = None, c_from_state = Some ''pr_draft'',
     c_to_state = Some ''pr_review'', c_skill_group = 0, c_opening = None, c_created = 4, c_updated = 4\<rparr>"

definition sample_finding :: finding where
  "sample_finding = \<lparr>fi_id = 9, fi_node = 7, fi_conversation = Some 5, fi_seq = 1, fi_severity = ''high'', fi_file = None,
     fi_line = None, fi_summary = ''wrong'', fi_detail = None, fi_status = FINDING_OPEN, fi_response = None,
     fi_created = 5, fi_updated = 5, fi_pr_thread = Some ''t'', fi_pr_posted = None\<rparr>"

definition in_draft :: review_db where
  "in_draft = \<lparr>td_outline = \<lparr>ol_obligations = [], ol_plan = \<lparr>pl_steps = [], pl_deps = [], pl_links = [], pl_notes = [],
      pl_verdicts = sample_verdicts\<rparr>\<rparr>, td_stays = (\<lambda>_. None)(7 \<mapsto> (''pr_draft'', 3)), td_waits = [],
     td_incoming = \<lparr>ic_queue = [], ic_verdicts = [], ic_next = 1, ic_baselines = (\<lambda>_. None)\<rparr>,
     td_conv = \<lparr>cv_rows = [sample_review], cv_turns = [], cv_reports = []\<rparr>, td_criteria = [], td_evaluations = [],
     pd_content = [], pd_media_links = [], pd_media_sha = (\<lambda>_. None), pd_events = [], rd_findings = [sample_finding]\<rparr>"

definition sample_thread :: review_thread where
  "sample_thread = \<lparr>rt_id = ''t'', rt_resolved = True, rt_outdated = False, rt_path = None, rt_line = None, rt_comments = []\<rparr>"

definition sample_live :: live_pr where
  "sample_live = \<lparr>lp_pr = \<lparr>np_owner = ''o'', np_repo = ''r'', np_number = 1, np_url = ''u''\<rparr>, lp_draft = True,
     lp_assessment = \<lparr>as_merged = False, as_draft = True, as_mergeable_state = None, as_behind_by = None, as_checks = None,
       as_open_threads = [], as_bots = [], as_human_review = HrPending, as_requested_reviewers = [],
       as_review_comments = [], as_read_at = 0, as_answered_at = None\<rparr>,
     lp_fingerprint = [], lp_head_sha = Some ''abc'', lp_threads = [sample_thread]\<rparr>"

definition quiet_feed :: pr_feed where
  "quiet_feed = \<lparr>fe_changed_files = (\<lambda>_. Inr []), fe_post_review = (\<lambda>_ _. Inr ()), fe_threads = (\<lambda>_. Inr [])\<rparr>"

lemma sample_own: "own_findings 7 in_draft = [sample_finding]"
  by (simp add: own_findings_def in_draft_def findings_for_node_def sample_finding_def get_conversation_def sample_review_def
      is_own_def stay_started_at_def)


section \<open>Threads a person resolved\<close>

lemma declined_word: "normalize_word FINDING_DECLINED FINDING_STATUSES what = Inr FINDING_DECLINED"
proof -
  have "find (\<lambda>s. s = wanted_form FINDING_DECLINED) FINDING_STATUSES = Some FINDING_DECLINED" by code_simp
  then show ?thesis by (simp add: normalize_word_def)
qed

definition dismissed :: "ms \<Rightarrow> finding \<Rightarrow> finding" where
  "dismissed now f = f\<lparr>fi_status := FINDING_DECLINED,
     fi_response := Some ''Its review thread was resolved on GitHub without an answer.'', fi_updated := now\<rparr>"

lemma respond_dismissed:
  assumes "i \<in> fi_id ` set fs"
  shows "respond_finding now i FINDING_DECLINED (Some ''Its review thread was resolved on GitHub without an answer.'') fs
     = Inr (map (\<lambda>f. if fi_id f = i then dismissed now f else f) fs)"
proof -
  have "trim ''Its review thread was resolved on GitHub without an answer.'' =
      ''Its review thread was resolved on GitHub without an answer.''" by code_simp
  then show ?thesis
    using assms by (auto simp: respond_finding_def declined_word dismissed_def Let_def list_all_iff)
qed

lemma dismissed_id [simp]: "fi_id (dismissed now f) = fi_id f" "dismissed now (dismissed now f) = dismissed now f"
  by (simp_all add: dismissed_def)

lemma respond_each_closed:
  "fi_id ` set ds \<subseteq> fi_id ` set fs \<Longrightarrow>
     respond_each now ds fs = Inr (map (\<lambda>f. if fi_id f \<in> fi_id ` set ds then dismissed now f else f) fs)"
proof (induction ds arbitrary: fs)
  case (Cons d ds)
  let ?fs' = "map (\<lambda>f. if fi_id f = fi_id d then dismissed now f else f) fs"
  have "map fi_id ?fs' = map fi_id fs" by simp
  then have "fi_id ` set ?fs' = fi_id ` set fs" by (metis list.set_map)
  then have "respond_each now ds ?fs' = Inr (map (\<lambda>f. if fi_id f \<in> fi_id ` set ds then dismissed now f else f) ?fs')"
    using Cons by simp
  moreover have "respond_each now (d # ds) fs = respond_each now ds ?fs'"
    using Cons.prems by (simp add: respond_dismissed)
  ultimately show ?case by (auto simp: comp_def)
qed simp

text \<open>A thread a person resolves on GitHub without an answer declines its finding: exactly the open
  findings of this stay's reviews whose thread is resolved become declined, saying so; every other
  finding, and everything else, is as it was, and the sync never fails.\<close>
theorem resolved_are_declined:
  assumes "distinct (map fi_id (rd_findings db))"
  shows "\<exists>k. sync_resolved now n live db = Inr (k, db\<lparr>rd_findings := map (\<lambda>f.
       if f \<in> set (own_findings n db) \<and> finding_open f \<and> is_some_and (\<lambda>t. t \<in> set (resolved_ids live)) (fi_pr_thread f)
       then dismissed now f else f) (rd_findings db)\<rparr>)"
proof -
  let ?ds = "filter (\<lambda>f. finding_open f \<and> is_some_and (\<lambda>t. t \<in> set (resolved_ids live)) (fi_pr_thread f)) (own_findings n db)"
  have sub: "set ?ds \<subseteq> set (rd_findings db)" by (auto simp: own_findings_iff)
  have same: "fi_id f \<in> fi_id ` set ?ds \<longleftrightarrow> f \<in> set ?ds" if "f \<in> set (rd_findings db)" for f
    using assms sub that by (auto simp: distinct_map inj_on_def image_iff)
  have "respond_each now ?ds (rd_findings db) =
      Inr (map (\<lambda>f. if fi_id f \<in> fi_id ` set ?ds then dismissed now f else f) (rd_findings db))"
    using sub by (intro respond_each_closed) blast
  also have "map (\<lambda>f. if fi_id f \<in> fi_id ` set ?ds then dismissed now f else f) (rd_findings db) =
      map (\<lambda>f. if f \<in> set ?ds then dismissed now f else f) (rd_findings db)"
    by (rule map_cong) (simp_all only: same)
  finally show ?thesis by (auto simp: sync_resolved_def Let_def)
qed

theorem resolved_are_declined_witness:
  "\<exists>k db'. sync_resolved 8 7 [sample_live] in_draft = Inr (k, db') \<and> rd_findings db' = [dismissed 8 sample_finding]"
proof -
  have "distinct (map fi_id (rd_findings in_draft))" by (simp add: in_draft_def)
  note resolved_are_declined[OF this, of 8 7 "[sample_live]"]
  moreover have "finding_open sample_finding" "fi_pr_thread sample_finding = Some ''t''" "resolved_ids [sample_live] = [''t'']"
    by (simp_all add: sample_finding_def finding_open_def resolved_ids_def sample_live_def sample_thread_def)
  moreover have "rd_findings in_draft = [sample_finding]" by (simp add: in_draft_def)
  ultimately show ?thesis by (auto simp: sample_own)
qed

section \<open>Lines of the change\<close>

text \<open>A hunk whose header names \<open>c\<close> as its first new line gives the lines from \<open>c\<close> on, one for each of
  its lines that is not a removal or a note.\<close>

definition on_new_side :: "string \<Rightarrow> bool" where
  "on_new_side t \<longleftrightarrow> \<not> starts_with ''-'' t \<and> \<not> starts_with [CHR 0x5C] t"

lemma patch_lines_body:
  "list_all (\<lambda>t. \<not> starts_with ''@@'' t) body \<Longrightarrow>
     patch_lines (Some c) (body @ rest) = map (\<lambda>k. c + int k) [0..<length (filter on_new_side body)]
       @ patch_lines (Some (c + int (length (filter on_new_side body)))) rest"
proof (induction body arbitrary: c)
  case (Cons t body)
  have "strip_prefix ''@@'' t = None" using Cons.prems by (simp add: strip_prefix_None_iff)
  moreover have "[0..<Suc m] = 0 # map Suc [0..<m]" for m by (simp add: map_Suc_upt upt_conv_Cons)
  ultimately show ?case
    using Cons by (auto simp: on_new_side_def comp_def add.assoc)
qed simp

lemma patch_lines_hunk:
  assumes "hunk_start header = Some c" "list_all (\<lambda>t. \<not> starts_with ''@@'' t) body"
  shows "patch_lines next ((''@@'' @ header) # body @ rest) =
     map (\<lambda>k. c + int k) [0..<length (filter on_new_side body)]
       @ patch_lines (Some (c + int (length (filter on_new_side body)))) rest"
  using patch_lines_body[OF assms(2), of c rest] assms(1) strip_prefix_append[of "''@@''" header] by simp

end
