(* ===== verification/Gates.thy ===== *)
theory Gates
  imports DraftReview
begin

text \<open>
  The gates between the lifecycle's states: the links to pull requests
  (\<^verbatim>\<open>tod-store/src/github.rs\<close>), the app's own answer to every criterion
  (\<^verbatim>\<open>tod-core/src/gate/derived.rs\<close>), checking and settling a gate (\<^verbatim>\<open>tod-core/src/phase.rs\<close>) and
  what a phase's runner does next.

  What the gates read from outside the store is the record \<open>hub\<close>: GitHub's answers, the project's
  settings, the resolved Agent and Files capabilities, the digest and the mockup files.
\<close>

section \<open>Links to pull requests\<close>

record gate_db = review_db +
  gd_linked :: "uuid \<Rightarrow> string list"        \<comment> \<open>\<^verbatim>\<open>node_fields.linked_prs\<close>\<close>
  gd_learn :: "(uuid \<times> ms) list"           \<comment> \<open>\<^verbatim>\<open>learn_drafts\<close>: node, at\<close>

definition node_pr_new :: "string \<Rightarrow> string \<Rightarrow> int \<Rightarrow> node_pr" where
  "node_pr_new owner repo number =
     \<lparr>np_owner = owner, np_repo = repo, np_number = number,
      np_url = ''https://github.com/'' @ owner @ ''/'' @ repo @ ''/pull/'' @ show_int number\<rparr>"

definition same_pr :: "node_pr \<Rightarrow> node_pr \<Rightarrow> bool" where
  "same_pr p q \<longleftrightarrow> np_number p = np_number q \<and> eq_ignore_case (np_owner p) (np_owner q) \<and> eq_ignore_case (np_repo p) (np_repo q)"

text \<open>The part of a link after \<^verbatim>\<open>github.com/\<close>, with one of the schemes, for each in turn.\<close>

definition github_path :: "string \<Rightarrow> string option" where
  "github_path link =
     (case List.map_filter (\<lambda>scheme.
          Option.bind (strip_prefix scheme (lower link)) (\<lambda>rest.
            let rest' = unwrap_or rest (strip_prefix ''www.'' rest)
            in if starts_with ''github.com/'' rest'
               then Some (drop (length link - length rest' + length ''github.com/'') link) else None))
        [''https://'', ''http://'', []] of
        [] \<Rightarrow> None
      | path # _ \<Rightarrow> Some path)"

definition ascii_alnum :: "char \<Rightarrow> bool" where
  "ascii_alnum c = (is_digit c \<or> (let k = of_char (ascii_lower c) :: nat in 97 \<le> k \<and> k \<le> 122))"

definition repo_name :: "string \<Rightarrow> bool" where
  "repo_name s = (s \<noteq> [] \<and> list_all (\<lambda>c. ascii_alnum c \<or> c \<in> {CHR ''-'', CHR ''_'', CHR ''.''}) s)"

definition parse_pr_link :: "string \<Rightarrow> node_pr option" where
  "parse_pr_link link0 =
     (let link = trim link0 in
      case github_path link of
        Some path \<Rightarrow>
          (case split_on (\<lambda>c. c = CHR ''/'') path of
             owner # repo # pull # number # _ \<Rightarrow>
               if owner = [] \<or> repo = [] \<or> pull \<notin> {''pull'', ''pulls''} then None
               else map_option (node_pr_new owner repo) (parse_i64 (hd (split_on (\<lambda>c. c \<in> {CHR 0x23, CHR ''?''}) number)))
           | _ \<Rightarrow> None)
      | None \<Rightarrow>
          (case split_once [CHR 0x23] link of
             None \<Rightarrow> None
           | Some (name, number) \<Rightarrow>
               (case split_once ''/'' name of
                  None \<Rightarrow> None
                | Some (owner, repo) \<Rightarrow>
                    if \<not> repo_name owner \<or> \<not> repo_name repo then None
                    else map_option (node_pr_new owner repo) (opt_filter (\<lambda>k. 0 < k) (parse_i64 number)))))"

definition pr_links :: "uuid \<Rightarrow> 'a gate_db_scheme \<Rightarrow> string list" where
  "pr_links n db = filter (\<lambda>l. l \<noteq> []) (map trim (gd_linked db n))"

text \<open>The links read: the pull requests, each once, and the links that name none.\<close>

definition read_link :: "string \<Rightarrow> node_pr list \<times> string list \<Rightarrow> node_pr list \<times> string list" where
  "read_link link out =
     (case out of (prs, unrecognized) \<Rightarrow>
        (case parse_pr_link link of
           Some pr \<Rightarrow> if list_ex (\<lambda>p. same_pr p pr) prs then (prs, unrecognized) else (prs @ [pr], unrecognized)
         | None \<Rightarrow> (prs, unrecognized @ [link])))"

definition read_links :: "uuid \<Rightarrow> 'a gate_db_scheme \<Rightarrow> node_pr list \<times> string list" where
  "read_links n db = fold read_link (pr_links n db) ([], [])"

section \<open>The world around the store\<close>

datatype files_directory = FdReady string | FdNotMade | FdMissing string

record files_source =
  fs_title :: string
  fs_branch :: "string option"
  fs_directory :: files_directory
  fs_recipe :: string

record hub =
  hb_client :: bool
  hb_status :: "node_pr \<Rightarrow> pr_status fallible"
  hb_snapshot :: "node_pr \<Rightarrow> pr_snapshot fallible"
  hb_reviews :: "node_pr \<Rightarrow> pr_review list fallible"
  hb_rfc :: "string \<Rightarrow> instant option"
  hb_settings :: readiness_settings
  hb_now :: instant
  hb_review_steps :: "uuid \<Rightarrow> bool"
  hb_agent :: "uuid \<Rightarrow> string option"            \<comment> \<open>title of the node the Agent is from\<close>
  hb_files :: "uuid \<Rightarrow> files_source option"
  hb_file_sha :: "string \<Rightarrow> string option"
  hb_digest :: "phase_inputs \<Rightarrow> string"
  hb_fixes :: "string \<Rightarrow> string list option"

section \<open>Derived outcomes\<close>

record derived_outcome =
  do_outcome :: string
  do_detail :: string

definition gate_pass :: "string \<Rightarrow> derived_outcome" where
  "gate_pass detail = \<lparr>do_outcome = OUTCOME_PASS, do_detail = detail\<rparr>"

definition gate_fail :: "string \<Rightarrow> derived_outcome" where
  "gate_fail detail = \<lparr>do_outcome = OUTCOME_FAIL, do_detail = detail\<rparr>"

definition passes :: "derived_outcome \<Rightarrow> bool" where
  "passes d = (do_outcome d = OUTCOME_PASS)"

abbreviation EM_DASH :: string where "EM_DASH \<equiv> [CHR 0xE2, CHR 0x80, CHR 0x94]"

definition has_requirements_outcome :: "uuid \<Rightarrow> 'a gate_db_scheme \<Rightarrow> derived_outcome" where
  "has_requirements_outcome n db =
     (let count = length (filter (\<lambda>o'. ob_kind o' = ''requirement'') (obligations_for_node n (td_outline db)))
      in if count = 0 then gate_fail ''The node has no requirements of its own.''
         else if count = 1 then gate_pass ''1 requirement.''
         else gate_pass (show_nat count @ '' requirements.''))"

definition stale_certificate_detail :: "string list \<Rightarrow> string" where
  "stale_certificate_detail changed =
     (if changed = [] then ''certificate is stale: what it covers changed since it was recorded''
      else ''certificate is stale: '' @ join ''; '' changed)"

definition phase_certified_outcome :: "hub \<Rightarrow> string \<Rightarrow> uuid \<Rightarrow> 'a gate_db_scheme \<Rightarrow> derived_outcome" where
  "phase_certified_outcome h state n db =
     (case certificate_status_of (hb_file_sha h) (hb_digest h) n state db of
        CertCurrent e \<Rightarrow> gate_pass (''Certified ('' @ pe_certifier e @ ''): ''
           @ (case str_lines (pe_body e) of [] \<Rightarrow> [] | l # _ \<Rightarrow> l))
      | CertNone \<Rightarrow> gate_fail ''not certified''
      | CertStale e changed \<Rightarrow> gate_fail (stale_certificate_detail changed))"

definition learn_recorded_outcome :: "uuid \<Rightarrow> 'a gate_db_scheme \<Rightarrow> derived_outcome" where
  "learn_recorded_outcome n db =
     (let since = unwrap_or 0 (stay_started_at n db)
      in if list_ex (\<lambda>(m, at). m = n \<and> since \<le> at) (gd_learn db) then gate_pass ''Retrospective recorded.''
         else gate_fail (''No retrospective recorded for this pass '' @ EM_DASH @ '' `tod-cli learn record`.''))"

definition implementation_setup_outcome :: "hub \<Rightarrow> uuid \<Rightarrow> 'a gate_db_scheme \<Rightarrow> derived_outcome" where
  "implementation_setup_outcome h n db =
     (case hb_agent h n of
        None \<Rightarrow> gate_fail (''No Agent capability on this node or an ancestor '' @ EM_DASH
          @ '' enable it (E in the task list) before starting implementation.'')
      | Some agent \<Rightarrow> (case hb_files h n of
          None \<Rightarrow> gate_fail (''No Files capability on this node or an ancestor '' @ EM_DASH
            @ '' enable it and set a workspace directory before starting implementation.'')
        | Some files \<Rightarrow>
            (let q = [CHR 0x22]; on = ''Files on '' @ q @ fs_title files @ q;
                 from_both = ''Agent from '' @ q @ agent @ q @ ''; Files from '' @ q @ fs_title files @ q
             in if fs_branch files = None
                then gate_fail (on @ '' has no branch '' @ EM_DASH @ '' set one before starting implementation.'')
                else (case fs_directory files of
                    FdReady path \<Rightarrow> gate_pass (from_both @ '' in '' @ path)
                  | FdNotMade \<Rightarrow> gate_pass (from_both @ '' ('' @ fs_recipe files @ ''), made when implementation starts'')
                  | FdMissing reason \<Rightarrow> gate_fail (on @ '': '' @ reason)))))"

definition item_line :: "uuid \<Rightarrow> string \<Rightarrow> string" where
  "item_line i body = ''['' @ short_id i @ ''] '' @ body"

definition requirements_traceable_outcome :: "uuid \<Rightarrow> 'a gate_db_scheme \<Rightarrow> derived_outcome" where
  "requirements_traceable_outcome n db =
     (let requirements = filter (\<lambda>o'. ob_kind o' = ''requirement'' \<and> needs_plan_step o') (obligations_for_node n (td_outline db));
          unplanned = filter (\<lambda>o'. steps_for_obligation (ob_id o') (ol_plan (td_outline db)) = []) requirements
      in if unplanned = []
         then gate_pass (if requirements = [] then ''This node has no requirements of its own to plan for.''
                    else ''All '' @ show_nat (length requirements) @ '' requirements are satisfied by a plan step.'')
         else gate_fail (show_nat (length unplanned) @ '' of '' @ show_nat (length requirements)
                @ '' requirements have no plan step satisfying them: ''
                @ join ''; '' (map (\<lambda>o'. item_line (ob_id o') (ob_body o')) unplanned)
                @ ''. Add or extend plan steps to cover them.''))"

definition plan_implemented_outcome :: "uuid \<Rightarrow> 'a gate_db_scheme \<Rightarrow> derived_outcome" where
  "plan_implemented_outcome n db =
     (let steps = filter (\<lambda>s. step_due_by s ''active'') (steps_for_node n (ol_plan (td_outline db)));
          open' = filter (\<lambda>s. ps_status s \<noteq> STATUS_IMPLEMENTED \<and> ps_status s \<noteq> STATUS_VERIFIED) steps
      in if steps = [] then gate_fail ''This node has no plan steps to implement.''
         else if open' = [] then gate_pass (''All '' @ show_nat (length steps) @ '' plan steps implemented.'')
         else gate_fail (show_nat (length open') @ '' of '' @ show_nat (length steps) @ '' plan steps not implemented yet: ''
                @ join ''; '' (map (\<lambda>s. item_line (ps_id s) (ps_body s) @ '' ('' @ ps_status s @ '')'') open')
                @ ''. Run Implement to finish them.''))"

definition plan_verified_outcome :: "string \<Rightarrow> uuid \<Rightarrow> 'a gate_db_scheme \<Rightarrow> derived_outcome" where
  "plan_verified_outcome state n db =
     (let steps = filter (\<lambda>s. step_due_by s state) (steps_for_node n (ol_plan (td_outline db)));
          owed = (if state = ''verifying'' then []
             else filter (\<lambda>s. os_phase s = state \<and> \<not> standing_verified s) (standings n (td_outline db)));
          failed = filter (\<lambda>s. ps_status s = STATUS_FAILED) steps;
          unchecked = filter (\<lambda>s. ps_status s \<noteq> STATUS_FAILED \<and> ps_status s \<noteq> STATUS_VERIFIED) steps;
          step_lines = (\<lambda>ss. join ''; '' (map (\<lambda>s. item_line (ps_id s) (ps_body s)) ss))
      in if state \<noteq> ''verifying'' \<and> owed = [] \<and> \<not> list_ex (\<lambda>s. ps_phase s = state) steps
         then gate_pass (''Nothing belongs to the '' @ state @ '' phase.'')
         else if state = ''verifying'' \<and> steps = []
         then gate_fail ''This node has no plan steps, so nothing traces to a verified step.''
         else if failed = [] \<and> unchecked = [] \<and> owed = []
         then gate_pass (''All '' @ show_nat (length steps) @ '' plan steps verified.'')
         else gate_fail (join '' ''
           ((if failed = [] then [] else [show_nat (length failed) @ '' failed verification: '' @ step_lines failed @ ''. ''
               @ (if state = ''verifying'' then ''Move the node back to active and implement again''
                  else ''Run the '' @ state @ '' phase again'')
               @ '' '' @ EM_DASH @ '' each failed step's note says what to fix.''])
            @ (if unchecked = [] then [] else [show_nat (length unchecked) @ '' not verified yet: '' @ step_lines unchecked @ ''.''])
            @ (if owed = [] then [] else [show_nat (length owed) @ '' obligation(s) the '' @ state
               @ '' phase delivers not verified yet: ''
               @ join ''; '' (map (\<lambda>s. item_line (ob_id (os_obligation s)) (ob_body (os_obligation s))) owed) @ ''.'']))))"

definition obligations_verified_outcome :: "uuid \<Rightarrow> 'a gate_db_scheme \<Rightarrow> derived_outcome" where
  "obligations_verified_outcome n db =
     (let due = filter (\<lambda>s. standing_due_by s ''verifying'') (standings n (td_outline db));
          failed = filter standing_failed due; unchecked = filter standing_unchecked due;
          lines = (\<lambda>ss. join ''; '' (map (\<lambda>s. item_line (ob_id (os_obligation s)) (ob_body (os_obligation s))) ss))
      in if failed = [] \<and> unchecked = []
         then gate_pass (if due = [] then ''This node has no obligations of its own to verify.''
                    else ''All '' @ show_nat (length due) @ '' obligations verified.'')
         else gate_fail (join '' ''
           ((if failed = [] then [] else [show_nat (length failed) @ '' failed verification: '' @ lines failed
               @ ''. Move the node back to active and implement again '' @ EM_DASH @ '' each verdict's evidence says what was seen.''])
            @ (if unchecked = [] then [] else [show_nat (length unchecked) @ '' not verified yet: '' @ lines unchecked
               @ ''. Run Verify.'']))))"

definition review_done_outcome :: "uuid \<Rightarrow> 'a gate_db_scheme \<Rightarrow> derived_outcome" where
  "review_done_outcome n db =
     (if review_passed n (td_conv db) (rd_findings db)
      then gate_pass ''The latest review recorded itself finished and found nothing standing.''
      else if review_recorded_done n (td_conv db)
      then gate_fail (''The latest review recorded findings, so it has not cleared the change: run Review ''
             @ ''again. The node moves on only when a review of the current change finds nothing.'')
      else gate_fail (''No finished code review '' @ EM_DASH
             @ '' run Review from this panel and let it record the review finished.''))"

definition findings_answered_outcome :: "uuid \<Rightarrow> 'a gate_db_scheme \<Rightarrow> derived_outcome" where
  "findings_answered_outcome n db =
     (let fs = findings_for_node n (rd_findings db); open' = filter finding_open fs
      in if open' = []
         then gate_pass (if fs = [] then ''No review findings.''
                    else if length fs = 1 then ''The one review finding is answered.''
                    else ''All '' @ show_nat (length fs) @ '' review findings answered.'')
         else gate_fail (show_nat (length open') @ '' of '' @ show_nat (length fs) @ '' review findings still open: ''
                @ join ''; '' (map (\<lambda>f. item_line (fi_id f) (fi_summary f)) open')
                @ ''. Resolve them with Fix, or answer each from its status in the findings pane '' @ EM_DASH
                @ '' fixed, out of scope, declined, or rejected.''))"


section \<open>Pull request criteria\<close>

definition linked_prs :: "hub \<Rightarrow> uuid \<Rightarrow> 'a gate_db_scheme \<Rightarrow> derived_outcome + node_pr list" where
  "linked_prs h n db =
     (case read_links n db of (prs, unrecognized) \<Rightarrow>
        (case unrecognized of
           link # _ \<Rightarrow> Inl (gate_fail (''The pull request link `'' @ link @ ''` does not say which pull request it is ''
             @ EM_DASH @ ''              give its URL (https://github.com/<owner>/<repo>/pull/<number>) or ''
             @ ''             <owner>/<repo>#<number>.''))
         | [] \<Rightarrow>
             if prs = [] then Inl (gate_fail (''No pull request is linked to this node '' @ EM_DASH
               @ '' link one in its Ticket settings,              or open one with `tod-cli pr open` from the `pr` state.''))
             else if \<not> hb_client h then Inl (gate_fail (''No GitHub token configured '' @ EM_DASH
               @ '' see `tod-cli secrets` '' @ EM_DASH @ '' cannot check PR status.''))
             else Inr prs))"

text \<open>The loop all of these share: each pull request read and judged in order, the first failure ends it.\<close>

fun judge_each :: "('p \<Rightarrow> 'v fallible) \<Rightarrow> ('p \<Rightarrow> 'v \<Rightarrow> string fallible) \<Rightarrow> 'p list \<Rightarrow> string list \<Rightarrow> derived_outcome" where
  "judge_each read judge [] passed = gate_pass (join '' '' passed)"
| "judge_each read judge (p # ps) passed =
     (case read p of
        Inl why \<Rightarrow> gate_fail why
      | Inr v \<Rightarrow> (case judge p v of Inl why \<Rightarrow> gate_fail why | Inr line \<Rightarrow> judge_each read judge ps (passed @ [line])))"

definition could_not_read :: "string \<Rightarrow> node_pr \<Rightarrow> 'v fallible \<Rightarrow> 'v fallible" where
  "could_not_read what p r = (case r of Inl e \<Rightarrow> Inl (''Could not read '' @ what @ np_url p @ '': '' @ e) | Inr v \<Rightarrow> Inr v)"

definition over_prs ::
    "hub \<Rightarrow> (node_pr \<Rightarrow> 'v fallible) \<Rightarrow> (node_pr \<Rightarrow> 'v \<Rightarrow> string fallible) \<Rightarrow> uuid \<Rightarrow> 'a gate_db_scheme \<Rightarrow> derived_outcome" where
  "over_prs h read judge n db =
     (case linked_prs h n db of Inl outcome \<Rightarrow> outcome | Inr prs \<Rightarrow> judge_each read judge prs [])"

definition pr_open :: "string \<Rightarrow> pr_status \<Rightarrow> string fallible" where
  "pr_open url st =
     (if st_merged st then Inr (url @ '' is already merged.'')
      else if \<not> st_open st then Inl (url @ '' is closed: reopen it, or open another with `tod-cli pr open`.'')
      else if st_draft st then Inr (url @ '' is open as a draft.'')
      else Inr (url @ '' is open.''))"

definition ready_for_review :: "string \<Rightarrow> pr_status \<Rightarrow> string fallible" where
  "ready_for_review url st =
     (if st_merged st then Inr (url @ '' is already merged.'')
      else if \<not> st_open st then Inl (url @ '' is closed.'')
      else if st_draft st then Inl (url @ '' is still a draft: mark it ready for review.'')
      else Inr (url @ '' is open for review.''))"

definition has_reviewer :: "string \<Rightarrow> pr_status \<Rightarrow> pr_review list \<Rightarrow> string fallible" where
  "has_reviewer url st reviews =
     (if st_merged st then Inr (url @ '' is already merged.'')
      else
        let requested = filter (\<lambda>login. \<not> ends_with ''[bot]'' login) (st_reviewers st)
        in if requested \<noteq> [] then Inr (url @ '': review requested from '' @ join '', '' requested @ ''.'')
           else (case find (\<lambda>author. \<not> ends_with ''[bot]'' author) (List.map_filter rv_author reviews) of
               Some author \<Rightarrow> Inr (url @ '' has been reviewed by '' @ author @ ''.'')
             | None \<Rightarrow> Inl (url @ '' has no reviewer: request one.'')))"

definition own_review_outcome :: "hub \<Rightarrow> uuid \<Rightarrow> 'a gate_db_scheme \<Rightarrow> derived_outcome" where
  "own_review_outcome h n db =
     (if \<not> hb_review_steps h n then gate_pass ''The lifecycle config does not include the review steps in `pr_draft`.''
      else (case linked_prs h n db of
          Inl outcome \<Rightarrow> outcome
        | Inr prs \<Rightarrow>
            (case find (\<lambda>p. isl (hb_snapshot h p)) prs of
               Some p \<Rightarrow> gate_fail (''Could not read '' @ np_url p @ '': '' @ projl (hb_snapshot h p))
             | None \<Rightarrow>
                 let heads = btree_map (List.map_filter (\<lambda>p. map_option (\<lambda>sha. (pr_label p, sha))
                        (st_head_sha (sn_status (projr (hb_snapshot h p))))) prs)
                 in (case draft_gate (hb_review_steps h) n heads db of
                       Inr detail \<Rightarrow> gate_pass detail
                     | Inl why \<Rightarrow> gate_fail why))))"

definition pr_open_outcome :: "hub \<Rightarrow> uuid \<Rightarrow> 'a gate_db_scheme \<Rightarrow> derived_outcome" where
  "pr_open_outcome h = over_prs h (\<lambda>p. could_not_read [] p (hb_status h p)) (\<lambda>p st. pr_open (np_url p) st)"

definition pr_ready_for_review_outcome :: "hub \<Rightarrow> uuid \<Rightarrow> 'a gate_db_scheme \<Rightarrow> derived_outcome" where
  "pr_ready_for_review_outcome h =
     over_prs h (\<lambda>p. could_not_read [] p (hb_status h p)) (\<lambda>p st. ready_for_review (np_url p) st)"

definition pr_reviewer_outcome :: "hub \<Rightarrow> uuid \<Rightarrow> 'a gate_db_scheme \<Rightarrow> derived_outcome" where
  "pr_reviewer_outcome h =
     over_prs h
       (\<lambda>p. case could_not_read [] p (hb_status h p) of
           Inl why \<Rightarrow> Inl why
         | Inr st \<Rightarrow>
             if st_merged st \<or> st_reviewers st \<noteq> [] then Inr (st, [])
             else (case could_not_read ''the reviews of '' p (hb_reviews h p) of Inl why \<Rightarrow> Inl why | Inr rs \<Rightarrow> Inr (st, rs)))
       (\<lambda>p (st, rs). has_reviewer (np_url p) st rs)"

definition pr_mergeable_outcome :: "hub \<Rightarrow> uuid \<Rightarrow> 'a gate_db_scheme \<Rightarrow> derived_outcome" where
  "pr_mergeable_outcome h =
     over_prs h (\<lambda>p. could_not_read [] p (hb_status h p))
       (\<lambda>p st. if st_merged st then Inr (np_url p @ '' is already merged.'')
          else if st_mergeable_state st = Some ''clean'' then Inr (np_url p @ '' is mergeable.'')
          else Inl (np_url p @ '' is not mergeable yet (state: '' @ unwrap_or ''unknown'' (st_mergeable_state st) @ '').''))"

definition pr_merged_outcome :: "hub \<Rightarrow> uuid \<Rightarrow> 'a gate_db_scheme \<Rightarrow> derived_outcome" where
  "pr_merged_outcome h =
     over_prs h (\<lambda>p. could_not_read [] p (hb_status h p))
       (\<lambda>p st. if \<not> st_merged st then Inl (np_url p @ '' is not merged yet.'') else Inr (np_url p @ '' is merged.''))"

datatype readiness = UpToDate | ThreadsResolved | ReviewCurrent | ReviewScore

text \<open>One criterion on one pull request's assessment; the bots in order, the first that fails ends it.\<close>

definition readiness_of :: "readiness \<Rightarrow> string \<Rightarrow> assessment \<Rightarrow> string fallible" where
  "readiness_of which url a =
     (if as_merged a then Inr (url @ '' is already merged.'')
      else case which of
        UpToDate \<Rightarrow>
          if conflicted a then Inl (url @ '' conflicts with its base branch.'')
          else if behind a then Inl (url @ '' is behind its base branch.'')
          else Inr (url @ '' is up to date with its base.'')
      | ThreadsResolved \<Rightarrow>
          if as_open_threads a \<noteq> []
          then Inl (url @ '' has '' @ show_nat (length (as_open_threads a)) @ '' unresolved review thread''
                    @ (if length (as_open_threads a) = 1 then [] else ''s'') @ ''.'')
          else Inr (url @ '' has no unresolved review threads.'')
      | ReviewCurrent \<Rightarrow>
          (case find (\<lambda>r. \<not> is_current (br_standing r)) (as_bots a) of
             Some r \<Rightarrow> Inl (bs_name (br_settings r) @ '' has not reviewed the current head of '' @ url @ ''.'')
           | None \<Rightarrow> Inr (url @ '': every review bot has reviewed the current head.''))
      | ReviewScore \<Rightarrow>
          (case find (\<lambda>r. case br_standing r of BotCurrent score \<Rightarrow> score < bs_min_score (br_settings r) | _ \<Rightarrow> True) (as_bots a) of
             Some r \<Rightarrow> (case br_standing r of
                 BotCurrent score \<Rightarrow> Inl (bs_name (br_settings r) @ '' scored '' @ url @ '' '' @ show_nat score
                     @ ''/5, under the '' @ show_nat (bs_min_score (br_settings r)) @ ''/5 needed.'')
               | _ \<Rightarrow> Inl (bs_name (br_settings r) @ '' has not reviewed the current head of '' @ url @ ''.''))
           | None \<Rightarrow> Inr (url @ '': review scores meet the threshold.'')))"

definition readiness_outcome :: "readiness \<Rightarrow> (string \<times> assessment) list \<Rightarrow> derived_outcome" where
  "readiness_outcome which assessed = judge_each Inr (\<lambda>_ (url, a). readiness_of which url a) assessed []"

definition pr_readiness_outcome :: "hub \<Rightarrow> readiness \<Rightarrow> uuid \<Rightarrow> 'a gate_db_scheme \<Rightarrow> derived_outcome" where
  "pr_readiness_outcome h which n db =
     (case linked_prs h n db of
        Inl outcome \<Rightarrow> outcome
      | Inr prs \<Rightarrow>
          (case find (\<lambda>p. isl (hb_snapshot h p)) prs of
             Some p \<Rightarrow> gate_fail (''Could not read '' @ np_url p @ '': '' @ projl (hb_snapshot h p))
           | None \<Rightarrow> readiness_outcome which
               (map (\<lambda>p. (np_url p, assessment_of (hb_rfc h) (projr (hb_snapshot h p)) (hb_settings h) (hb_now h))) prs)))"

section \<open>The criteria\<close>

text \<open>\<^verbatim>\<open>evaluate_derived_criterion\<close>: the slugs in the order of its match, each with its check.\<close>

definition derived_checks :: "hub \<Rightarrow> (string \<times> (uuid \<Rightarrow> 'a gate_db_scheme \<Rightarrow> derived_outcome)) list" where
  "derived_checks h =
     [(''planning-ready.requirements-traceable'', requirements_traceable_outcome),
      (''ready-active.action-config-configured'', implementation_setup_outcome h),
      (''active-verifying.plan-steps-implemented'', plan_implemented_outcome),
      (''verifying-review.plan-steps-verified'', plan_verified_outcome ''verifying''),
      (''merged-released.plan-steps-verified'', plan_verified_outcome ''merged''),
      (''released-learn.plan-steps-verified'', plan_verified_outcome ''released''),
      (''verifying-review.obligations-verified'', obligations_verified_outcome),
      (''review-approved.review-done'', review_done_outcome),
      (''review-approved.findings-answered'', findings_answered_outcome),
      (''pr-pr_draft.pr-open'', pr_open_outcome h),
      (''pr-pr_draft.phase-certified'', phase_certified_outcome h ''pr''),
      (''pr-pr_review.ready-for-review'', pr_ready_for_review_outcome h),
      (''pr-pr_review.reviewer-assigned'', pr_reviewer_outcome h),
      (''pr-pr_review.own-review'', own_review_outcome h),
      (''pr-approved.mergeable'', pr_mergeable_outcome h),
      (''approved-merged.pr-merged'', pr_merged_outcome h),
      (''pr-approved.up-to-date'', pr_readiness_outcome h UpToDate),
      (''pr-approved.threads-resolved'', pr_readiness_outcome h ThreadsResolved),
      (''pr-approved.review-current'', pr_readiness_outcome h ReviewCurrent),
      (''pr-approved.review-score'', pr_readiness_outcome h ReviewScore),
      (''proposed-design.has-requirements'', has_requirements_outcome),
      (''proposed-design.phase-certified'', phase_certified_outcome h ''proposed''),
      (''design-planning.phase-certified'', phase_certified_outcome h ''design''),
      (''planning-ready.phase-certified'', phase_certified_outcome h ''planning''),
      (''merged-released.phase-certified'', phase_certified_outcome h ''merged''),
      (''released-learn.phase-certified'', phase_certified_outcome h ''released''),
      (''learn-done.learn-recorded'', learn_recorded_outcome)]"

definition evaluate_derived :: "hub \<Rightarrow> uuid \<Rightarrow> gate_criterion \<Rightarrow> 'a gate_db_scheme \<Rightarrow> derived_outcome option" where
  "evaluate_derived h n c db = map_option (\<lambda>check. check n db) (map_of (derived_checks h) (gc_slug c))"

definition DERIVED_CRITERION_SLUGS :: "string list" where
  "DERIVED_CRITERION_SLUGS =
     [''proposed-design.has-requirements'', ''proposed-design.phase-certified'', ''design-planning.phase-certified'',
      ''planning-ready.requirements-traceable'', ''planning-ready.phase-certified'',
      ''ready-active.action-config-configured'', ''active-verifying.plan-steps-implemented'',
      ''verifying-review.obligations-verified'', ''verifying-review.plan-steps-verified'',
      ''review-approved.review-done'', ''review-approved.findings-answered'', ''pr-pr_draft.pr-open'',
      ''pr-pr_draft.phase-certified'', ''pr-pr_review.ready-for-review'', ''pr-pr_review.reviewer-assigned'',
      ''pr-pr_review.own-review'', ''pr-approved.mergeable'', ''pr-approved.up-to-date'', ''pr-approved.threads-resolved'',
      ''pr-approved.review-current'', ''pr-approved.review-score'', ''approved-merged.pr-merged'',
      ''merged-released.phase-certified'', ''merged-released.plan-steps-verified'', ''released-learn.phase-certified'',
      ''released-learn.plan-steps-verified'', ''learn-done.learn-recorded'']"

definition is_derived_slug :: "string \<Rightarrow> bool" where
  "is_derived_slug slug = (slug \<in> set DERIVED_CRITERION_SLUGS)"

definition phase_certified_slug :: "string \<Rightarrow> string option" where
  "phase_certified_slug from_state =
     map_of [(''proposed'', ''proposed-design.phase-certified''), (''design'', ''design-planning.phase-certified''),
       (''planning'', ''planning-ready.phase-certified''), (''pr'', ''pr-pr_draft.phase-certified''),
       (''merged'', ''merged-released.phase-certified''), (''released'', ''released-learn.phase-certified'')] from_state"

section \<open>Checking and settling a gate\<close>

definition PHASE_AGENT_STATES :: "string list" where
  "PHASE_AGENT_STATES = [''proposed'', ''design'', ''planning'', ''merged'', ''released'', ''learn'']"

definition has_phase_agent :: "string \<Rightarrow> bool" where
  "has_phase_agent s = (s \<in> set PHASE_AGENT_STATES)"

definition evaluation_is_independent :: "bool \<Rightarrow> nat \<Rightarrow> string \<Rightarrow> bool" where
  "evaluation_is_independent setting extra_groups state = (setting \<or> has_phase_agent state \<and> 0 < extra_groups)"

record criterion_check =
  cc_criterion :: gate_criterion
  cc_outcome :: string
  cc_detail :: string

definition check_clear :: "criterion_check \<Rightarrow> bool" where
  "check_clear c = (cc_outcome c = OUTCOME_PASS \<or> cc_outcome c = OUTCOME_WAIVED)"

record gate_check =
  gk_from :: string
  gk_to :: "string option"
  gk_criteria :: "criterion_check list"

definition gate_clear :: "gate_check \<Rightarrow> bool" where
  "gate_clear g = (gk_to g \<noteq> None \<and> list_all check_clear (gk_criteria g))"

definition gate_failing :: "gate_check \<Rightarrow> criterion_check list" where
  "gate_failing g = filter (\<lambda>c. \<not> check_clear c) (gk_criteria g)"

definition check_criterion :: "hub \<Rightarrow> uuid \<Rightarrow> 'a gate_db_scheme \<Rightarrow> gate_criterion \<times> gate_evaluation option \<Rightarrow> criterion_check" where
  "check_criterion h n db row =
     (case row of (c, stored) \<Rightarrow>
        if is_some_and (\<lambda>e. ge_outcome e = OUTCOME_WAIVED) stored
        then \<lparr>cc_criterion = c, cc_outcome = OUTCOME_WAIVED, cc_detail = unwrap_or [] (Option.bind stored ge_detail)\<rparr>
        else (case evaluate_derived h n c db of
            Some d \<Rightarrow> \<lparr>cc_criterion = c, cc_outcome = do_outcome d, cc_detail = do_detail d\<rparr>
          | None \<Rightarrow> \<lparr>cc_criterion = c, cc_outcome = OUTCOME_FAIL, cc_detail = ''the app has no check for this criterion''\<rparr>))"

definition check_gate :: "hub \<Rightarrow> uuid \<Rightarrow> string \<Rightarrow> 'a gate_db_scheme \<Rightarrow> gate_check" where
  "check_gate h n from db =
     (case next_lifecycle from of
        None \<Rightarrow> \<lparr>gk_from = from, gk_to = None, gk_criteria = []\<rparr>
      | Some to \<Rightarrow> \<lparr>gk_from = from, gk_to = Some to,
          gk_criteria = map (check_criterion h n db) (list_evaluations_for_transition n from to db)\<rparr>)"

text \<open>\<^verbatim>\<open>settle_gate_unleased\<close>, once the Files have their branch.\<close>

definition settle_rows :: "gate_check \<Rightarrow> gate_result list" where
  "settle_rows g = map (\<lambda>c. (gc_id (cc_criterion c), cc_outcome c, if cc_detail c = [] then None else Some (cc_detail c), ACTION_NONE))
     (filter (\<lambda>c. cc_outcome c \<noteq> OUTCOME_WAIVED) (gk_criteria g))"

definition settle_gate :: "hub \<Rightarrow> ms \<Rightarrow> uuid \<Rightarrow> 'a gate_db_scheme \<Rightarrow> (gate_check \<times> 'a gate_db_scheme) fallible" where
  "settle_gate h now n db =
     (let g = check_gate h n (current_state n db) db
      in if gk_to g = None \<or> settle_rows g = [] then Inr (g, db)
         else (case apply_gate_mutation now n (settle_rows g) None SOURCE_DERIVED db of
             Inl e \<Rightarrow> Inl e | Inr db' \<Rightarrow> Inr (g, db')))"

section \<open>Where a phase stands\<close>

datatype phase_step = StepGate | StepWork | StepEvaluate

record phase_standing =
  ph_gate :: gate_check
  ph_certificate :: certificate_status
  ph_evaluation_requested :: bool
  ph_fixes :: "string list"
  ph_stuck :: bool
  ph_marker :: string

definition phase_standing_of :: "hub \<Rightarrow> uuid \<Rightarrow> string \<Rightarrow> 'a gate_db_scheme \<Rightarrow> phase_standing" where
  "phase_standing_of h n state db =
     (let events = events_in_stay n state db;
          digest = current_digest (hb_file_sha h) (hb_digest h) n state db;
          last' = last_opt events
      in \<lparr>ph_gate = check_gate h n state db,
          ph_certificate = certificate_status_of (hb_file_sha h) (hb_digest h) n state db,
          ph_evaluation_requested = is_some_and (\<lambda>e. pe_kind e = PHASE_READY \<and> digest = Some (pe_digest e)) last',
          ph_fixes = (case last' of
              Some e \<Rightarrow> if pe_kind e = PHASE_REJECT then event_fixes (hb_fixes h) e else []
            | None \<Rightarrow> []),
          ph_stuck = is_stuck n state db,
          ph_marker = unwrap_or [] digest @ '':''
            @ (case find (\<lambda>e. pe_kind e \<noteq> PHASE_READY) (rev events) of None \<Rightarrow> [] | Some e \<Rightarrow> show_uuid (pe_id e))\<rparr>)"

definition phase_step_of :: "phase_standing \<Rightarrow> phase_step" where
  "phase_step_of p =
     (if gate_clear (ph_gate p) then StepGate else if ph_evaluation_requested p then StepEvaluate else StepWork)"

section \<open>The next step (\<^verbatim>\<open>tod-core/src/lifecycle_next.rs\<close>)\<close>

record standing =
  sg_lifecycle :: string
  sg_plan_steps :: nat
  sg_steps_open :: nat
  sg_steps_need_user :: nat
  sg_steps_unchecked :: nat
  sg_steps_failed :: nat
  sg_obligations_unchecked :: nat
  sg_obligations_failed :: nat
  sg_review_done :: bool
  sg_review_clean :: bool
  sg_open_findings :: nat
  sg_phase :: "phase_step option"
  sg_phase_marker :: string

datatype next_step = NsImplement | NsVerify | NsFixFailed | NsReview | NsFix | NsGateCheck | NsPhase | NsEvaluate

definition standing_of :: "hub \<Rightarrow> uuid \<Rightarrow> string \<Rightarrow> 'a gate_db_scheme \<Rightarrow> standing" where
  "standing_of h n lifecycle db =
     (let steps = filter (\<lambda>s. ps_phase s = PHASE_ACTIVE \<or> step_due_by s lifecycle) (steps_for_node n (ol_plan (td_outline db)));
          sts = filter (\<lambda>s. os_phase s = PHASE_ACTIVE \<or> standing_due_by s lifecycle) (standings n (td_outline db));
          reviewing = (lifecycle = ''review'');
          phase = (if has_phase_agent lifecycle then Some (phase_standing_of h n lifecycle db) else None)
      in \<lparr>sg_lifecycle = lifecycle, sg_plan_steps = length steps,
          sg_steps_open = length (filter (\<lambda>s. ps_status s \<notin> {STATUS_IMPLEMENTED, STATUS_VERIFIED} \<and> \<not> needs_user (ps_status s)) steps),
          sg_steps_need_user = length (filter (\<lambda>s. needs_user (ps_status s)) steps),
          sg_steps_unchecked = length (filter (\<lambda>s. ps_status s \<noteq> STATUS_VERIFIED \<and> ps_status s \<noteq> STATUS_FAILED) steps),
          sg_steps_failed = length (filter (\<lambda>s. ps_status s = STATUS_FAILED) steps),
          sg_obligations_unchecked = length (filter standing_unchecked sts),
          sg_obligations_failed = length (filter standing_failed sts),
          sg_review_done = (reviewing \<and> review_recorded_done n (td_conv db)),
          sg_review_clean = (reviewing \<and> review_passed n (td_conv db) (rd_findings db)),
          sg_open_findings = (if reviewing then length (filter finding_open (findings_for_node n (rd_findings db))) else 0),
          sg_phase = map_option phase_step_of phase,
          sg_phase_marker = (case phase of None \<Rightarrow> [] | Some p \<Rightarrow> ph_marker p)\<rparr>)"

definition unverified :: "standing \<Rightarrow> nat" where
  "unverified s = sg_steps_unchecked s + sg_obligations_unchecked s"

definition verification_due :: "standing \<Rightarrow> bool" where
  "verification_due s = (sg_lifecycle s = ''verifying'' \<and>
     (0 < unverified s \<or> 0 < sg_obligations_failed s \<and> sg_steps_failed s = 0))"

definition next_step_of :: "standing \<Rightarrow> next_step option" where
  "next_step_of s =
     (let lc = sg_lifecycle s in
      if lc = ''active'' \<and> sg_plan_steps s = 0 then None
      else if lc = ''active'' \<and> 0 < sg_steps_open s then Some NsImplement
      else if lc = ''active'' \<and> 0 < sg_steps_need_user s then None
      else if lc = ''verifying'' \<and> sg_plan_steps s = 0 \<and> sg_obligations_unchecked s = 0 then Some NsGateCheck
      else if lc = ''verifying'' \<and> verification_due s then Some NsVerify
      else if lc = ''verifying'' \<and> 0 < sg_steps_failed s then Some NsFixFailed
      else if lc = ''review'' \<and> \<not> sg_review_done s then Some NsReview
      else if lc = ''review'' \<and> 0 < sg_open_findings s then Some NsFix
      else if lc = ''review'' \<and> \<not> sg_review_clean s then Some NsReview
      else (case sg_phase s of
          Some StepWork \<Rightarrow> Some NsPhase
        | Some StepEvaluate \<Rightarrow> Some NsEvaluate
        | _ \<Rightarrow> Some NsGateCheck))"


section \<open>Facts\<close>

lemma outcome_simps [simp]:
  "do_outcome (gate_pass d) = OUTCOME_PASS" "do_outcome (gate_fail d) = OUTCOME_FAIL" "passes (gate_pass d)" "\<not> passes (gate_fail d)"
  by (simp_all add: gate_pass_def gate_fail_def passes_def)

text \<open>Every check answers pass or fail.\<close>

definition answers :: "derived_outcome \<Rightarrow> bool" where
  "answers d \<longleftrightarrow> do_outcome d \<in> {OUTCOME_PASS, OUTCOME_FAIL}"

lemma answers_simps [simp]:
  "answers (gate_pass d)" "answers (gate_fail d)" "answers (if b then x else y) \<longleftrightarrow> (if b then answers x else answers y)"
  by (simp_all add: answers_def)

lemma answers_judge [simp]: "answers (judge_each read judge ps passed)"
  by (induction ps arbitrary: passed) (simp_all split: sum.splits)

lemma answers_linked: "linked_prs h n db = Inl d \<Longrightarrow> answers d \<and> \<not> passes d"
  by (auto simp: linked_prs_def split: prod.splits list.splits if_splits)

lemma answers_over_prs [simp]: "answers (over_prs h read judge n db)"
  by (auto simp: over_prs_def dest: answers_linked split: sum.splits)

lemma answers_plan:
  "answers (has_requirements_outcome n db)" "answers (requirements_traceable_outcome n db)"
  "answers (plan_implemented_outcome n db)" "answers (plan_verified_outcome state n db)"
  "answers (obligations_verified_outcome n db)" "answers (review_done_outcome n db)"
  "answers (findings_answered_outcome n db)" "answers (learn_recorded_outcome n db)"
  by (simp_all add: has_requirements_outcome_def requirements_traceable_outcome_def plan_implemented_outcome_def
      plan_verified_outcome_def obligations_verified_outcome_def review_done_outcome_def findings_answered_outcome_def
      learn_recorded_outcome_def Let_def)

lemma answers_hub:
  "answers (implementation_setup_outcome h n db)" "answers (phase_certified_outcome h state n db)"
  "answers (own_review_outcome h n db)" "answers (pr_readiness_outcome h which n db)"
  by (auto simp: implementation_setup_outcome_def phase_certified_outcome_def own_review_outcome_def Let_def
      pr_readiness_outcome_def readiness_outcome_def dest: answers_linked
      split: option.splits files_directory.splits certificate_status.splits sum.splits)

lemma answers_prs:
  "answers (pr_open_outcome h n db)" "answers (pr_ready_for_review_outcome h n db)" "answers (pr_reviewer_outcome h n db)"
  "answers (pr_mergeable_outcome h n db)" "answers (pr_merged_outcome h n db)"
  by (simp_all add: pr_open_outcome_def pr_ready_for_review_outcome_def pr_reviewer_outcome_def pr_mergeable_outcome_def
      pr_merged_outcome_def)

lemma derived_answers: "evaluate_derived h n c db = Some d \<Longrightarrow> answers d"
proof -
  have "list_all (\<lambda>(_, check). answers (check n db)) (derived_checks h)"
    by (simp add: derived_checks_def answers_plan answers_hub answers_prs)
  then show "evaluate_derived h n c db = Some d \<Longrightarrow> answers d"
    by (auto simp: evaluate_derived_def list_all_iff dest!: map_of_SomeD)
qed

lemma derived_slugs: "set (map fst (derived_checks h)) = set DERIVED_CRITERION_SLUGS"
  unfolding derived_checks_def DERIVED_CRITERION_SLUGS_def list.map fst_conv list.set
  by (intro equalityI insert_subsetI empty_subsetI) (rule insertI1 | rule insertI2)+

section \<open>What settling records\<close>

abbreviation recorded :: "uuid \<Rightarrow> uuid \<Rightarrow> 'a tod_db_scheme \<Rightarrow> gate_evaluation option" where
  "recorded n c db \<equiv> find (\<lambda>e. ge_criterion e = c) (list_evaluations_for_node n db)"

abbreviation result_row :: "ms \<Rightarrow> uuid \<Rightarrow> string \<Rightarrow> gate_result \<Rightarrow> gate_evaluation" where
  "result_row now n source r \<equiv> (case r of (c, outcome, detail, action) \<Rightarrow>
     \<lparr>ge_node = n, ge_criterion = c, ge_outcome = outcome, ge_detail = detail, ge_source = source, ge_at = now, ge_action = action\<rparr>)"

lemma find_replaced:
  fixes row :: gate_evaluation
  defines "swap \<equiv> \<lambda>e. if ge_node e = ge_node row \<and> ge_criterion e = ge_criterion row then row else e"
  assumes "list_ex (\<lambda>e. ge_node e = ge_node row \<and> ge_criterion e = ge_criterion row) es"
  shows "find (\<lambda>e. ge_criterion e = c) (filter (\<lambda>e. ge_node e = n) (map swap es))
    = (if n = ge_node row \<and> c = ge_criterion row then Some row
       else find (\<lambda>e. ge_criterion e = c) (filter (\<lambda>e. ge_node e = n) es))"
proof (cases "n = ge_node row \<and> c = ge_criterion row")
  case True
  then show ?thesis using assms(2) unfolding swap_def by (induction es) auto
next
  case False
  then show ?thesis unfolding swap_def by (induction es) auto
qed

lemma find_appended:
  assumes "\<not> list_ex (\<lambda>e. ge_node e = ge_node row \<and> ge_criterion e = ge_criterion row) es"
  shows "find (\<lambda>e. ge_criterion e = c) (filter (\<lambda>e. ge_node e = n) (es @ [row]))
    = (if n = ge_node row \<and> c = ge_criterion row then Some row
       else find (\<lambda>e. ge_criterion e = c) (filter (\<lambda>e. ge_node e = n) es))"
  using assms by (induction es) auto

lemma upsert_recorded:
  assumes "upsert_evaluation row db = Inr db'"
  shows "recorded n c db' = (if n = ge_node row \<and> c = ge_criterion row then Some row else recorded n c db)"
    and "db' = db\<lparr>td_evaluations := td_evaluations db'\<rparr>"
  using assms find_replaced[of row "td_evaluations db" c n] find_appended[of row "td_evaluations db" c n]
  by (auto simp: upsert_evaluation_def list_evaluations_for_node_def split: if_splits)

lemma results_recorded:
  assumes "list_all (\<lambda>(c, outcome, _). c \<in> gc_id ` set (td_criteria db) \<and> outcome \<in> {OUTCOME_PASS, OUTCOME_FAIL}) results"
    and "distinct (map fst results)"
  shows "\<exists>es. apply_gate_results now n results source db = Inr (db\<lparr>td_evaluations := es\<rparr>)
    \<and> (\<forall>m c. recorded m c (db\<lparr>td_evaluations := es\<rparr>)
        = (if m = n \<and> c \<in> fst ` set results then find (\<lambda>e. ge_criterion e = c) (map (result_row now n source) results)
           else recorded m c db))"
  using assms
proof (induction results arbitrary: db)
  case Nil
  show ?case by (rule exI[of _ "td_evaluations db"]) simp
next
  case (Cons r results)
  obtain c outcome detail action where r: "r = (c, outcome, detail, action)" by (cases r)
  let ?row = "result_row now n source r"
  from Cons.prems(1) have "\<exists>db1. upsert_evaluation ?row db = Inr db1" by (auto simp: r upsert_evaluation_def)
  then obtain db1 where u: "upsert_evaluation ?row db = Inr db1" by blast
  note up = upsert_recorded[OF u]
  have "td_criteria db1 = td_criteria db" by (subst up(2)) simp
  with Cons.prems have "list_all (\<lambda>(c, outcome, _). c \<in> gc_id ` set (td_criteria db1) \<and> outcome \<in> {OUTCOME_PASS, OUTCOME_FAIL}) results"
    "distinct (map fst results)" by simp_all
  from Cons.IH[OF this] obtain es where es: "apply_gate_results now n results source db1 = Inr (db1\<lparr>td_evaluations := es\<rparr>)"
    and rec: "\<And>m c. recorded m c (db1\<lparr>td_evaluations := es\<rparr>) = (if m = n \<and> c \<in> fst ` set results
           then find (\<lambda>e. ge_criterion e = c) (map (result_row now n source) results) else recorded m c db1)" by blast
  have same: "db1\<lparr>td_evaluations := es\<rparr> = db\<lparr>td_evaluations := es\<rparr>" by (subst up(2)) simp
  have "apply_gate_results now n (r # results) source db = Inr (db\<lparr>td_evaluations := es\<rparr>)"
    using u es same by (simp add: r)
  moreover have "recorded m c' (db\<lparr>td_evaluations := es\<rparr>)
        = (if m = n \<and> c' \<in> fst ` set (r # results) then find (\<lambda>e. ge_criterion e = c') (map (result_row now n source) (r # results))
           else recorded m c' db)" for m c'
    using rec[of c' m] up(1)[of c' m] Cons.prems(2) unfolding same by (auto simp: r)
  ultimately show ?case by blast
qed

lemma find_False [simp]: "find (\<lambda>_. False) xs = None"
  by (induction xs) simp_all

lemma find_the:
  assumes "y \<in> set xs" "P y" "\<And>x. x \<in> set xs \<Longrightarrow> P x \<Longrightarrow> x = y"
  shows "find P xs = Some y"
proof (cases "find P xs")
  case None
  with assms(1,2) show ?thesis unfolding find_None_iff by blast
next
  case (Some z)
  with assms(3) show ?thesis by (metis find_Some_in)
qed

abbreviation settled_row :: "ms \<Rightarrow> uuid \<Rightarrow> criterion_check \<Rightarrow> gate_evaluation" where
  "settled_row now n k \<equiv> \<lparr>ge_node = n, ge_criterion = gc_id (cc_criterion k), ge_outcome = cc_outcome k,
     ge_detail = (if cc_detail k = [] then None else Some (cc_detail k)), ge_source = SOURCE_DERIVED, ge_at = now, ge_action = ACTION_NONE\<rparr>"

lemma check_answers: "cc_outcome (check_criterion h n db row) \<in> {OUTCOME_PASS, OUTCOME_FAIL, OUTCOME_WAIVED}"
  using derived_answers[of h n "fst row" db]
  by (auto simp: check_criterion_def answers_def split: prod.splits option.splits)

lemma check_waived: "cc_outcome (check_criterion h n db (c, stored)) = OUTCOME_WAIVED
    \<longleftrightarrow> is_some_and (\<lambda>e. ge_outcome e = OUTCOME_WAIVED) stored"
  using derived_answers[of h n c db]
  by (auto simp: check_criterion_def answers_def split: option.splits)

lemma check_subject [simp]: "cc_criterion (check_criterion h n db (c, stored)) = c"
  by (simp add: check_criterion_def split: option.splits)

lemma gate_criteria:
  assumes "next_lifecycle from = Some to"
  shows "gk_criteria (check_gate h n from db)
    = map (\<lambda>c. check_criterion h n db (c, recorded n (gc_id c) db)) (list_for_transition from to db)"
  by (simp add: check_gate_def assms list_evaluations_for_transition_def comp_def)

lemma distinct_for_transition: "distinct (map gc_id (td_criteria db)) \<Longrightarrow> distinct (map gc_id (list_for_transition from to db))"
  unfolding list_for_transition_def distinct_map by (auto intro: inj_on_subset)

lemma gate_distinct:
  "distinct (map gc_id (td_criteria db)) \<Longrightarrow> distinct (map (gc_id \<circ> cc_criterion) (gk_criteria (check_gate h n from db)))"
  using distinct_for_transition[of db "from"]
  by (cases "next_lifecycle from") (simp add: check_gate_def, simp add: gate_criteria comp_def)

lemma gate_criteria_known: "k \<in> set (gk_criteria (check_gate h n from db)) \<Longrightarrow> gc_id (cc_criterion k) \<in> gc_id ` set (td_criteria db)
    \<and> cc_outcome k \<in> {OUTCOME_PASS, OUTCOME_FAIL, OUTCOME_WAIVED}"
proof (cases "next_lifecycle from")
  case (Some to)
  assume "k \<in> set (gk_criteria (check_gate h n from db))"
  then obtain c where c: "c \<in> set (list_for_transition from to db)" and k: "k = check_criterion h n db (c, recorded n (gc_id c) db)"
    by (auto simp: gate_criteria[OF Some])
  show ?thesis using c check_answers[of h n db "(c, recorded n (gc_id c) db)"] by (auto simp: k list_for_transition_def)
qed (simp add: check_gate_def)

lemma settled_lookup:
  fixes g :: gate_check
  shows "find (\<lambda>e. ge_criterion e = c) (map (result_row now n SOURCE_DERIVED) (settle_rows g))
      = map_option (settled_row now n) (find (\<lambda>k. gc_id (cc_criterion k) = c \<and> cc_outcome k \<noteq> OUTCOME_WAIVED) (gk_criteria g))"
    and "c \<in> fst ` set (settle_rows g) \<longleftrightarrow> find (\<lambda>k. gc_id (cc_criterion k) = c \<and> cc_outcome k \<noteq> OUTCOME_WAIVED) (gk_criteria g) \<noteq> None"
proof -
  have "find (\<lambda>e. ge_criterion e = c) (map (result_row now n SOURCE_DERIVED)
        (map (\<lambda>c. (gc_id (cc_criterion c), cc_outcome c, if cc_detail c = [] then None else Some (cc_detail c), ACTION_NONE))
          (filter (\<lambda>c. cc_outcome c \<noteq> OUTCOME_WAIVED) ks)))
      = map_option (settled_row now n) (find (\<lambda>k. gc_id (cc_criterion k) = c \<and> cc_outcome k \<noteq> OUTCOME_WAIVED) ks)" for ks
    by (induction ks) auto
  then show "find (\<lambda>e. ge_criterion e = c) (map (result_row now n SOURCE_DERIVED) (settle_rows g))
      = map_option (settled_row now n) (find (\<lambda>k. gc_id (cc_criterion k) = c \<and> cc_outcome k \<noteq> OUTCOME_WAIVED) (gk_criteria g))"
    by (simp add: settle_rows_def)
  show "c \<in> fst ` set (settle_rows g) \<longleftrightarrow> find (\<lambda>k. gc_id (cc_criterion k) = c \<and> cc_outcome k \<noteq> OUTCOME_WAIVED) (gk_criteria g) \<noteq> None"
    by (force simp: settle_rows_def find_None_iff image_image)
qed

lemma settle_recorded:
  assumes "distinct (map gc_id (td_criteria db))"
    and g: "g = check_gate h n (current_state n db) db"
  shows "\<exists>es. settle_gate h now n db = Inr (g, db\<lparr>td_evaluations := es\<rparr>)
    \<and> (\<forall>m c. recorded m c (db\<lparr>td_evaluations := es\<rparr>)
        = (case find (\<lambda>k. m = n \<and> gc_id (cc_criterion k) = c \<and> cc_outcome k \<noteq> OUTCOME_WAIVED) (gk_criteria g) of
             Some k \<Rightarrow> Some (settled_row now n k) | None \<Rightarrow> recorded m c db))"
proof (cases "gk_to g = None \<or> settle_rows g = []")
  case True
  have "gk_to g = None \<Longrightarrow> gk_criteria g = []" by (auto simp: g check_gate_def split: option.splits)
  with True have "settle_rows g = []" by (auto simp: settle_rows_def)
  then have none: "find (\<lambda>k. gc_id (cc_criterion k) = c \<and> cc_outcome k \<noteq> OUTCOME_WAIVED) (gk_criteria g) = None" for c
    using settled_lookup(2)[of c g] by simp
  have "settle_gate h now n db = Inr (g, db)" using True by (simp add: settle_gate_def Let_def flip: g)
  moreover have "find (\<lambda>k. m = n \<and> gc_id (cc_criterion k) = c \<and> cc_outcome k \<noteq> OUTCOME_WAIVED) (gk_criteria g) = None" for m c
    using none[of c] by (auto simp: find_None_iff)
  ultimately show ?thesis by (intro exI[of _ "td_evaluations db"]) simp
next
  case False
  let ?rows = "settle_rows g"
  have ok: "list_all (\<lambda>(c, outcome, _). c \<in> gc_id ` set (td_criteria db) \<and> outcome \<in> {OUTCOME_PASS, OUTCOME_FAIL}) ?rows"
    using gate_criteria_known[of _ h n "current_state n db" db] by (fastforce simp: settle_rows_def list_all_iff g)
  have "distinct (map fst ?rows)"
    using gate_distinct[OF assms(1), of h n "current_state n db"] distinct_map_filter[of "gc_id \<circ> cc_criterion"]
    by (simp add: settle_rows_def comp_def g)
  from results_recorded[OF ok this, of now n SOURCE_DERIVED] obtain es where
    es: "apply_gate_results now n ?rows SOURCE_DERIVED db = Inr (db\<lparr>td_evaluations := es\<rparr>)"
    and rec: "\<And>m c. recorded m c (db\<lparr>td_evaluations := es\<rparr>) = (if m = n \<and> c \<in> fst ` set ?rows
           then find (\<lambda>e. ge_criterion e = c) (map (result_row now n SOURCE_DERIVED) ?rows) else recorded m c db)" by blast
  have "settle_gate h now n db = Inr (g, db\<lparr>td_evaluations := es\<rparr>)"
    using False es unfolding settle_gate_def Let_def apply_gate_mutation_def g[symmetric] by auto
  moreover have "recorded m c (db\<lparr>td_evaluations := es\<rparr>)
        = (case find (\<lambda>k. m = n \<and> gc_id (cc_criterion k) = c \<and> cc_outcome k \<noteq> OUTCOME_WAIVED) (gk_criteria g) of
             Some k \<Rightarrow> Some (settled_row now n k) | None \<Rightarrow> recorded m c db)" for m c
    using settled_lookup(1)[of c n now g] settled_lookup(2)[of c g] rec[of c m] by (cases "m = n") (auto split: option.splits)
  ultimately show ?thesis by blast
qed

text \<open>What is recorded after settling reads as the gate does.\<close>

lemma settled_criterion:
  assumes g: "g = check_gate h n from db" and d: "distinct (map gc_id (td_criteria db))" and to: "next_lifecycle from = Some to"
    and c: "c \<in> set (list_for_transition from to db)" and k: "k = check_criterion h n db (c, recorded n (gc_id c) db)"
    and rec: "e' = (case find (\<lambda>k. gc_id (cc_criterion k) = gc_id c \<and> cc_outcome k \<noteq> OUTCOME_WAIVED) (gk_criteria g) of
             Some k \<Rightarrow> Some (settled_row now n k) | None \<Rightarrow> recorded n (gc_id c) db)"
  shows "e' \<noteq> None \<and> recorded_clear (c, e') = check_clear k"
proof -
  have mem: "k \<in> set (gk_criteria g)" and kc: "cc_criterion k = c" using c by (simp_all add: g gate_criteria[OF to] k)
  have uniq: "j = k" if "j \<in> set (gk_criteria g)" "gc_id (cc_criterion j) = gc_id c" for j
    using gate_distinct[OF d, of h n "from"] that mem kc
    by (simp add: distinct_map g) (metis comp_apply inj_onD)
  show ?thesis
  proof (cases "cc_outcome k = OUTCOME_WAIVED")
    case True
    then have "e' = recorded n (gc_id c) db"
      using uniq by (auto simp: rec split: option.splits dest!: find_Some_in)
    then show ?thesis using True check_waived[of h n db c] by (auto simp: k recorded_clear_def check_clear_def is_some_and_def split: option.splits)
  next
    case False
    have "find (\<lambda>k. gc_id (cc_criterion k) = gc_id c \<and> cc_outcome k \<noteq> OUTCOME_WAIVED) (gk_criteria g) = Some k"
    proof (rule find_the)
      show "gc_id (cc_criterion k) = gc_id c \<and> cc_outcome k \<noteq> OUTCOME_WAIVED" using kc False by simp
    qed (use mem uniq in blast)+
    then show ?thesis by (simp add: rec recorded_clear_def check_clear_def)
  qed
qed

lemma settled_rows_clear:
  assumes "distinct (map gc_id (td_criteria db))" and g: "g = check_gate h n (current_state n db) db"
    and rec: "\<And>m c. recorded m c (db\<lparr>td_evaluations := es\<rparr>)
        = (case find (\<lambda>k. m = n \<and> gc_id (cc_criterion k) = c \<and> cc_outcome k \<noteq> OUTCOME_WAIVED) (gk_criteria g) of
             Some k \<Rightarrow> Some (settled_row now n k) | None \<Rightarrow> recorded m c db)"
  shows "all_clear (recorded_criteria n (db\<lparr>td_evaluations := es\<rparr>)) = (gate_clear g \<and> gk_criteria g \<noteq> [])"
proof (cases "next_lifecycle (current_state n db)")
  case None
  then show ?thesis by (simp add: recorded_criteria_def all_clear_def current_state_def get_lifecycle_def g check_gate_def gate_clear_def)
next
  case (Some to)
  let ?from = "current_state n db"
  let ?rows = "map (\<lambda>c. (c, recorded n (gc_id c) (db\<lparr>td_evaluations := es\<rparr>))) (list_for_transition ?from to db)"
  have "list_for_transition ?from to (db\<lparr>td_evaluations := es\<rparr>) = list_for_transition ?from to db"
    by (simp add: list_for_transition_def)
  then have rows: "recorded_criteria n (db\<lparr>td_evaluations := es\<rparr>) = ?rows"
    using Some by (simp add: recorded_criteria_def current_state_def get_lifecycle_def list_evaluations_for_transition_def)
  have each: "recorded n (gc_id c) (db\<lparr>td_evaluations := es\<rparr>) \<noteq> None
      \<and> recorded_clear (c, recorded n (gc_id c) (db\<lparr>td_evaluations := es\<rparr>))
        = check_clear (check_criterion h n db (c, recorded n (gc_id c) db))" if "c \<in> set (list_for_transition ?from to db)" for c
    by (rule settled_criterion[OF g assms(1) Some that refl]) (simp add: rec)
  then have "filter (\<lambda>r. snd r \<noteq> None) ?rows = ?rows" by (auto simp: filter_id_conv)
  moreover have "gk_to g = Some to" by (simp add: g check_gate_def Some)
  ultimately show ?thesis using each
    by (auto simp: rows all_clear_def gate_clear_def g gate_criteria[OF Some] list_all_iff)
qed


definition sample_gate :: gate_db where
  "sample_gate = \<lparr>td_outline = \<lparr>ol_obligations = [], ol_plan = \<lparr>pl_steps = [], pl_deps = [], pl_links = [], pl_notes = [],
      pl_verdicts = sample_verdicts\<rparr>\<rparr>, td_stays = (\<lambda>_. None)(7 \<mapsto> (''learn'', 3)), td_waits = [],
     td_incoming = \<lparr>ic_queue = [], ic_verdicts = [], ic_next = 1, ic_baselines = (\<lambda>_. None)\<rparr>,
     td_conv = \<lparr>cv_rows = [], cv_turns = [], cv_reports = []\<rparr>,
     td_criteria = [\<lparr>gc_id = 1, gc_from = ''learn'', gc_to = ''done'', gc_slug = ''learn-done.learn-recorded'', gc_label = ''l'',
        gc_sort = 0, gc_active = True\<rparr>],
     td_evaluations = [], pd_content = [], pd_media_links = [], pd_media_sha = (\<lambda>_. None), pd_events = [], rd_findings = [],
     gd_linked = (\<lambda>_. []), gd_learn = [(7, 5)]\<rparr>"

lemma sample_gate_check:
  "check_gate h 7 (current_state 7 sample_gate) sample_gate = \<lparr>gk_from = ''learn'', gk_to = Some ''done'',
     gk_criteria = [\<lparr>cc_criterion = hd (td_criteria sample_gate), cc_outcome = OUTCOME_PASS, cc_detail = ''Retrospective recorded.''\<rparr>]\<rparr>"
proof -
  have next': "next_lifecycle ''learn'' = Some ''done''"
    by (simp add: next_lifecycle_def state_at_def rank_values LIFECYCLE_STATES_def)
  have "evaluate_derived h 7 (hd (td_criteria sample_gate)) sample_gate = Some (learn_recorded_outcome 7 sample_gate)"
    by (simp add: evaluate_derived_def derived_checks_def sample_gate_def)
  moreover have "learn_recorded_outcome 7 sample_gate = gate_pass ''Retrospective recorded.''"
    by (simp add: learn_recorded_outcome_def stay_started_at_def sample_gate_def)
  moreover have "current_state 7 sample_gate = ''learn''" by (simp add: current_state_def get_lifecycle_def sample_gate_def)
  moreover have "list_evaluations_for_transition 7 ''learn'' ''done'' sample_gate = [(hd (td_criteria sample_gate), None)]"
    by (simp add: list_evaluations_for_transition_def list_for_transition_def list_evaluations_for_node_def sample_gate_def)
  ultimately show ?thesis by (simp add: check_gate_def next' check_criterion_def gate_pass_def)
qed


section \<open>The next step and the gates\<close>

lemma due_active: "due_by PHASE_ACTIVE ''active''" "due_by PHASE_ACTIVE ''verifying''"
  by (simp_all add: due_by_def state_rank_def VALID_LIFECYCLE_STATES_def)

lemma steps_in_reach:
  assumes "due_by PHASE_ACTIVE state"
  shows "filter (\<lambda>s. ps_phase s = PHASE_ACTIVE \<or> step_due_by s state) ss = filter (\<lambda>s. step_due_by s state) ss"
  using assms by (auto simp: step_due_by_def intro!: filter_cong)

lemma standings_in_reach:
  assumes "due_by PHASE_ACTIVE state"
  shows "filter (\<lambda>s. os_phase s = PHASE_ACTIVE \<or> standing_due_by s state) (standings n ol)
    = filter (\<lambda>s. standing_due_by s state) (standings n ol)"
proof (intro filter_cong refl)
  fix s assume "s \<in> set (standings n ol)"
  then obtain p where "os_phase s = later_phase (ob_acts_in (os_obligation s)) p"
    by (auto simp: standings_def Let_def)
  then show "(os_phase s = PHASE_ACTIVE \<or> standing_due_by s state) = standing_due_by s state"
    using assms by (auto simp: standing_due_by_def later_phase_def split: if_splits)
qed

lemma no_phase_agent: "\<not> has_phase_agent ''active''" "\<not> has_phase_agent ''verifying''" "\<not> has_phase_agent ''review''"
  by (simp_all add: has_phase_agent_def PHASE_AGENT_STATES_def)

lemma no_filter: "filter P xs = [] \<longleftrightarrow> (\<forall>x \<in> set xs. \<not> P x)"
  by (simp add: filter_empty_conv)

lemma active_gate_next:
  "next_step_of (standing_of h n ''active'' db) = Some NsGateCheck \<longleftrightarrow> passes (plan_implemented_outcome n db)"
  by (auto simp: next_step_of_def standing_of_def Let_def no_phase_agent steps_in_reach due_active plan_implemented_outcome_def
      no_filter needs_user_def split: if_splits)

lemma plan_verified_passes:
  "passes (plan_verified_outcome ''verifying'' n db) \<longleftrightarrow>
     (let steps = filter (\<lambda>s. step_due_by s ''verifying'') (steps_for_node n (ol_plan (td_outline db)))
      in steps \<noteq> [] \<and> filter (\<lambda>s. ps_status s = STATUS_FAILED) steps = []
         \<and> filter (\<lambda>s. ps_status s \<noteq> STATUS_FAILED \<and> ps_status s \<noteq> STATUS_VERIFIED) steps = [])"
  by (simp add: plan_verified_outcome_def Let_def)

lemma obligations_verified_passes:
  "passes (obligations_verified_outcome n db) \<longleftrightarrow>
     (let due = filter (\<lambda>s. standing_due_by s ''verifying'') (standings n (td_outline db))
      in filter standing_failed due = [] \<and> filter standing_unchecked due = [])"
  by (simp add: obligations_verified_outcome_def Let_def)

lemma next_in_verifying:
  assumes "sg_lifecycle s = ''verifying''" "sg_phase s = None"
  shows "next_step_of s = Some NsGateCheck \<longleftrightarrow>
    sg_plan_steps s = 0 \<and> sg_obligations_unchecked s = 0
    \<or> sg_steps_unchecked s = 0 \<and> sg_obligations_unchecked s = 0 \<and> sg_obligations_failed s = 0 \<and> sg_steps_failed s = 0"
  using assms by (simp add: next_step_of_def verification_due_def unverified_def Let_def)

lemma verifying_gate_next:
  "next_step_of (standing_of h n ''verifying'' db) = Some NsGateCheck \<longleftrightarrow>
     passes (plan_verified_outcome ''verifying'' n db) \<and> passes (obligations_verified_outcome n db)
     \<or> filter (\<lambda>s. step_due_by s ''verifying'') (steps_for_node n (ol_plan (td_outline db))) = []
       \<and> \<not> list_ex standing_unchecked (filter (\<lambda>s. standing_due_by s ''verifying'') (standings n (td_outline db)))"
proof -
  let ?steps = "filter (\<lambda>s. step_due_by s ''verifying'') (steps_for_node n (ol_plan (td_outline db)))"
  let ?due = "filter (\<lambda>s. standing_due_by s ''verifying'') (standings n (td_outline db))"
  let ?s = "standing_of h n ''verifying'' db"
  have counts: "sg_lifecycle ?s = ''verifying''" "sg_phase ?s = None" "sg_plan_steps ?s = length ?steps"
    "sg_steps_unchecked ?s = length (filter (\<lambda>s. ps_status s \<noteq> STATUS_VERIFIED \<and> ps_status s \<noteq> STATUS_FAILED) ?steps)"
    "sg_steps_failed ?s = length (filter (\<lambda>s. ps_status s = STATUS_FAILED) ?steps)"
    "sg_obligations_unchecked ?s = length (filter standing_unchecked ?due)"
    "sg_obligations_failed ?s = length (filter standing_failed ?due)"
    unfolding standing_of_def Let_def steps_in_reach[OF due_active(2)] standings_in_reach[OF due_active(2)]
    by (simp_all add: no_phase_agent)
  have swap: "filter (\<lambda>s. ps_status s \<noteq> STATUS_VERIFIED \<and> ps_status s \<noteq> STATUS_FAILED) ?steps
      = filter (\<lambda>s. ps_status s \<noteq> STATUS_FAILED \<and> ps_status s \<noteq> STATUS_VERIFIED) ?steps" by (rule filter_cong) auto
  have ex: "list_ex standing_unchecked ?due \<longleftrightarrow> filter standing_unchecked ?due \<noteq> []" by (induction ?due) (auto simp: list_ex_iff no_filter)
  show ?thesis
    unfolding next_in_verifying[OF counts(1,2)] counts plan_verified_passes obligations_verified_passes Let_def swap ex
      length_0_conv by auto
qed

lemma review_gate_next:
  "next_step_of (standing_of h n ''review'' db) = Some NsGateCheck \<longleftrightarrow>
     passes (review_done_outcome n db) \<and> passes (findings_answered_outcome n db)"
  by (auto simp: next_step_of_def standing_of_def Let_def no_phase_agent review_done_outcome_def findings_answered_outcome_def
      dest: passed_recorded split: if_splits)

lemma phase_gate_next:
  assumes "has_phase_agent state"
  shows "next_step_of (standing_of h n state db) = Some NsGateCheck \<longleftrightarrow> gate_clear (check_gate h n state db)"
    and "next_step_of (standing_of h n state db) = Some NsEvaluate \<longleftrightarrow> \<not> gate_clear (check_gate h n state db)
      \<and> ph_evaluation_requested (phase_standing_of h n state db)"
proof -
  have other: "state \<noteq> ''active''" "state \<noteq> ''verifying''" "state \<noteq> ''review''" using assms no_phase_agent by blast+
  have "sg_lifecycle (standing_of h n state db) = state"
    and "sg_phase (standing_of h n state db) = Some (phase_step_of (phase_standing_of h n state db))"
    using assms by (simp_all add: standing_of_def Let_def)
  then have "next_step_of (standing_of h n state db) = (case phase_step_of (phase_standing_of h n state db) of
      StepGate \<Rightarrow> Some NsGateCheck | StepWork \<Rightarrow> Some NsPhase | StepEvaluate \<Rightarrow> Some NsEvaluate)"
    using other by (simp add: next_step_of_def Let_def split: phase_step.splits)
  moreover have "ph_gate (phase_standing_of h n state db) = check_gate h n state db" by (simp add: phase_standing_of_def Let_def)
  ultimately show "next_step_of (standing_of h n state db) = Some NsGateCheck \<longleftrightarrow> gate_clear (check_gate h n state db)"
    and "next_step_of (standing_of h n state db) = Some NsEvaluate \<longleftrightarrow> \<not> gate_clear (check_gate h n state db)
      \<and> ph_evaluation_requested (phase_standing_of h n state db)"
    by (simp_all add: phase_step_of_def)
qed


text \<open>Every criterion the app lists is one it has a check for, and no other has one.\<close>

lemma derived_complete: "evaluate_derived h n c db \<noteq> None \<longleftrightarrow> is_derived_slug (gc_slug c)"
  using derived_slugs[of h] by (auto simp: evaluate_derived_def is_derived_slug_def map_of_eq_None_iff)

section \<open>The readiness criteria and the babysitter\<close>

lemma judge_passes: "passes (judge_each read judge ps passed) \<longleftrightarrow>
    list_all (\<lambda>p. case read p of Inl _ \<Rightarrow> False | Inr v \<Rightarrow> \<not> isl (judge p v)) ps"
  by (induction ps arbitrary: passed) (auto split: sum.splits)

abbreviation all_readiness :: "readiness list" where
  "all_readiness \<equiv> [UpToDate, ThreadsResolved, ReviewCurrent, ReviewScore]"

lemma readiness_criteria:
  "list_all (\<lambda>w. \<not> isl (readiness_of w url a)) all_readiness \<longleftrightarrow>
     as_merged a \<or> \<not> conflicted a \<and> \<not> behind a \<and> as_open_threads a = []
       \<and> list_all (\<lambda>r. case br_standing r of BotCurrent score \<Rightarrow> bs_min_score (br_settings r) \<le> score | _ \<Rightarrow> False) (as_bots a)"
proof -
  have bots: "isl (readiness_of ReviewScore url a) \<longleftrightarrow> \<not> as_merged a \<and> list_ex (\<lambda>r. case br_standing r of
        BotCurrent score \<Rightarrow> score < bs_min_score (br_settings r) | _ \<Rightarrow> True) (as_bots a)"
    by (auto simp: readiness_of_def find_None_list_all list_all_iff list_ex_iff
        split: option.splits bot_standing.splits dest!: find_Some_in)
  have current: "isl (readiness_of ReviewCurrent url a) \<longleftrightarrow> \<not> as_merged a \<and> list_ex (\<lambda>r. \<not> is_current (br_standing r)) (as_bots a)"
    by (auto simp: readiness_of_def find_None_list_all list_all_iff list_ex_iff split: option.splits dest!: find_Some_in)
  have threads: "isl (readiness_of ThreadsResolved url a) \<longleftrightarrow> \<not> as_merged a \<and> as_open_threads a \<noteq> []"
    and base: "isl (readiness_of UpToDate url a) \<longleftrightarrow> \<not> as_merged a \<and> (conflicted a \<or> behind a)"
    by (simp_all add: readiness_of_def)
  show ?thesis
    unfolding list.pred_inject bots current threads base
    by (auto simp: list_all_iff list_ex_iff not_less split: bot_standing.splits)
      (metis bot_standing.exhaust is_current.simps(1))
qed

lemma waits_bots: "set (pr_waits_of a) \<subseteq> {WtChecksRunning, WtGitHub, WtHumanReview} \<longleftrightarrow>
    as_merged a \<or> list_all (\<lambda>r. is_current (br_standing r)) (as_bots a)"
  by (auto simp: pr_waits_of_def Let_def list_all_iff)

lemma bot_work_unanswered:
  assumes "is_current (br_standing r)" "as_answered_at a = None"
  shows "bot_work a r = (case br_standing r of
      BotCurrent score \<Rightarrow> if score < bs_min_score (br_settings r) then Some (WkLowScore (bs_name (br_settings r)) score (bs_min_score (br_settings r))) else None
    | _ \<Rightarrow> None)"
  using assms by (cases "br_standing r") (simp_all add: bot_work_def Let_def)

definition only_people :: "pr_work \<Rightarrow> bool" where
  "only_people w = (w \<in> {WkFailingChecks, WkChangesRequested} \<or> (\<exists>k. w = WkReviewComments k))"

lemma bot_never_people: "bot_work a r = Some w \<Longrightarrow> \<not> only_people w"
  by (auto simp: bot_work_def only_people_def Let_def split: bot_standing.splits if_splits)

lemma work_people:
  assumes "as_answered_at a = None" "\<not> as_merged a"
  shows "list_all only_people (pr_work_of a) \<longleftrightarrow>
    \<not> conflicted a \<and> \<not> behind a \<and> as_open_threads a = [] \<and> list_all (\<lambda>r. bot_work a r = None) (as_bots a)"
proof -
  have "list_all only_people (List.map_filter (bot_work a) rs) \<longleftrightarrow> list_all (\<lambda>r. bot_work a r = None) rs" for rs
    by (induction rs) (auto dest: bot_never_people split: option.splits simp: map_filter_simps)
  then show ?thesis using assms by (auto simp: pr_work_of_def only_people_def)
qed

lemma readiness_babysitter:
  assumes "as_answered_at a = None"
  shows "list_all (\<lambda>w. \<not> isl (readiness_of w url a)) all_readiness \<longleftrightarrow>
    list_all only_people (pr_work_of a) \<and> set (pr_waits_of a) \<subseteq> {WtChecksRunning, WtGitHub, WtHumanReview}"
proof (cases "as_merged a")
  case True
  then show ?thesis unfolding readiness_criteria waits_bots by (simp add: pr_work_of_def)
next
  case False
  have bot: "(case br_standing r of BotCurrent score \<Rightarrow> bs_min_score (br_settings r) \<le> score | _ \<Rightarrow> False)
      \<longleftrightarrow> is_current (br_standing r) \<and> bot_work a r = None" for r
    using bot_work_unanswered[OF _ assms, of r] by (auto split: bot_standing.splits)
  show ?thesis
    unfolding readiness_criteria waits_bots work_people[OF assms False] bot using False by (auto simp: list_all_iff)
qed

lemma list_all_swap: "list_all (\<lambda>x. list_all (P x) ys) xs \<longleftrightarrow> list_all (\<lambda>y. list_all (\<lambda>x. P x y) xs) ys"
  by (auto simp: list_all_iff)

text \<open>The gate into \<^verbatim>\<open>approved\<close> and the runner that works the pull requests read them alike: the four
  readiness criteria pass exactly when the node's links all name a pull request and there is a token,
  every pull request can be read, and on each, with nothing answered yet, the work left is at most failing
  checks, changes requested and people's comments, and what is waited for at most checks, GitHub and a person.\<close>
theorem readiness_agrees:
  "list_all (\<lambda>w. passes (pr_readiness_outcome h w n db)) [UpToDate, ThreadsResolved, ReviewCurrent, ReviewScore] =
    (case linked_prs h n db of
       Inl outcome \<Rightarrow> False
     | Inr prs \<Rightarrow> list_all (\<lambda>p. case hb_snapshot h p of
           Inl e \<Rightarrow> False
         | Inr sn \<Rightarrow> (let a = assessment_of (hb_rfc h) sn (hb_settings h) (hb_now h) in
             list_all only_people (pr_work_of a) \<and> set (pr_waits_of a) \<subseteq> {WtChecksRunning, WtGitHub, WtHumanReview})) prs)"
proof (cases "linked_prs h n db")
  case (Inl outcome)
  then show ?thesis using answers_linked[OF Inl] by (simp add: pr_readiness_outcome_def)
next
  case (Inr prs)
  let ?a = "\<lambda>p. assessment_of (hb_rfc h) (projr (hb_snapshot h p)) (hb_settings h) (hb_now h)"
  show ?thesis
  proof (cases "find (\<lambda>p. isl (hb_snapshot h p)) prs")
    case (Some p)
    then have "p \<in> set prs \<and> isl (hb_snapshot h p)" by (rule find_Some_in)
    then have "\<exists>p \<in> set prs. \<exists>e. hb_snapshot h p = Inl e" by (auto simp: isl_def)
    then show ?thesis using Inr Some by (auto simp: pr_readiness_outcome_def list_all_iff split: sum.splits)
  next
    case None
    then have all: "list_all (\<lambda>p. \<not> isl (hb_snapshot h p)) prs" by (simp add: find_None_list_all)
    have each: "passes (pr_readiness_outcome h w n db) \<longleftrightarrow> list_all (\<lambda>p. \<not> isl (readiness_of w (np_url p) (?a p))) prs" for w
      using Inr None by (simp add: pr_readiness_outcome_def readiness_outcome_def judge_passes list_all_iff)
    have "as_answered_at (?a p) = None" for p by (simp add: assessment_of_def Let_def)
    note agree = readiness_babysitter[OF this]
    have one: "list_all (\<lambda>w. \<not> isl (readiness_of w (np_url p) (?a p))) all_readiness
        \<longleftrightarrow> (case hb_snapshot h p of Inl e \<Rightarrow> False | Inr sn \<Rightarrow> (let a = assessment_of (hb_rfc h) sn (hb_settings h) (hb_now h) in
             list_all only_people (pr_work_of a) \<and> set (pr_waits_of a) \<subseteq> {WtChecksRunning, WtGitHub, WtHumanReview}))"
      if "p \<in> set prs" for p
      unfolding agree using all that by (cases "hb_snapshot h p") (auto simp: list_all_iff Let_def)
    show ?thesis unfolding each list_all_swap[where xs = all_readiness] Inr sum.case
      using one unfolding list_all_iff by blast
  qed
qed

end
