(* ===== verification/Cadence.thy ===== *)
theory Cadence
  imports PrReadiness
begin

text \<open>
  When to look again at a pull request that waits for a person
  (\<^verbatim>\<open>tod-core/src/wait_cadence.rs\<close>), and how each repository ships
  (\<^verbatim>\<open>RepoProfileSetting\<close> in \<^verbatim>\<open>tod-store/src/settings.rs\<close>).

  Instants are nanoseconds since 1970; a local time is the instant plus the offset. The machine's own
  offset is an argument. Dates stay inside the years \<^verbatim>\<open>chrono\<close> represents.
\<close>

section \<open>The working day\<close>

record review_schedule =
  sc_utc_offset_minutes :: "int option"
  sc_start_hour :: nat
  sc_end_hour :: nat
  sc_weekdays_only :: bool
  sc_interval_minutes :: nat
  sc_off_hours_minutes :: nat

abbreviation SECOND_NS :: int where "SECOND_NS \<equiv> 1000000000"
abbreviation HOUR_NS :: int where "HOUR_NS \<equiv> 3600000000000"
abbreviation DAY_NS :: int where "DAY_NS \<equiv> 86400000000000"

definition saturating_mul_i32 :: "int \<Rightarrow> int \<Rightarrow> int" where
  "saturating_mul_i32 a b = max (- (2 ^ 31)) (min (2 ^ 31 - 1) (a * b))"

definition east_opt :: "int \<Rightarrow> int option" where
  "east_opt secs = (if - 86400 < secs \<and> secs < 86400 then Some secs else None)"

definition offset_for :: "int \<Rightarrow> review_schedule \<Rightarrow> int" where
  "offset_for local_secs s =
     unwrap_or local_secs (Option.bind (sc_utc_offset_minutes s) (\<lambda>m. east_opt (saturating_mul_i32 m 60)))"

text \<open>Days are counted from 1970-01-01, a Thursday.\<close>

definition weekday :: "instant \<Rightarrow> int" where
  "weekday t = (t div DAY_NS + 3) mod 7"

definition weekend :: "instant \<Rightarrow> bool" where
  "weekend t = (weekday t \<in> {5, 6})"

definition hour_of :: "instant \<Rightarrow> int" where
  "hour_of t = t mod DAY_NS div HOUR_NS"

definition working :: "instant \<Rightarrow> review_schedule \<Rightarrow> bool" where
  "working t s =
     (if sc_weekdays_only s \<and> weekend t then False
      else int (sc_start_hour s) \<le> hour_of t \<and> hour_of t < int (sc_end_hour s))"

fun day_start_from :: "nat \<Rightarrow> instant \<Rightarrow> review_schedule \<Rightarrow> int \<Rightarrow> instant" where
  "day_start_from 0 t s day = t + 24 * HOUR_NS"
| "day_start_from (Suc k) t s day =
     (let c = day * DAY_NS + int (min (sc_start_hour s) 23) * HOUR_NS
      in if t < c \<and> (\<not> sc_weekdays_only s \<or> \<not> weekend c) then c else day_start_from k t s (day + 1))"

definition next_day_start :: "instant \<Rightarrow> review_schedule \<Rightarrow> instant" where
  "next_day_start t s = day_start_from 8 t s (t div DAY_NS)"

definition next_check :: "int \<Rightarrow> instant \<Rightarrow> review_schedule \<Rightarrow> instant" where
  "next_check local_secs now s =
     (let offset = offset_for local_secs s * SECOND_NS; local = now + offset;
          interval = minutes (max (sc_interval_minutes s) 5);
          off_cap = minutes (max (max (sc_off_hours_minutes s) (sc_interval_minutes s)) 5);
          candidate = local + interval;
          next' = (if working candidate s then candidate else min (next_day_start local s) (local + off_cap))
      in next' - offset)"

section \<open>How a repository ships\<close>

datatype repo_profile = ShipRelease | ShipMerge

record profile_setting =
  ps_repo :: string
  ps_profile :: repo_profile

definition valid_repo_pattern :: "string \<Rightarrow> bool" where
  "valid_repo_pattern repo \<longleftrightarrow> repo = ''*'' \<or>
     is_some_and (\<lambda>(o', r). o' \<noteq> [] \<and> r \<noteq> [] \<and> CHR ''*'' \<notin> set o' \<and> CHR 0x2F \<notin> set r \<and> (r = ''*'' \<or> CHR ''*'' \<notin> set r))
       (split_once ''/'' repo)"

definition parse_profile_entry :: "string \<Rightarrow> profile_setting fallible" where
  "parse_profile_entry entry =
     (case split_once ''='' entry of
        None \<Rightarrow> Inl ([CHR 0x22] @ entry @ [CHR 0x22] @ '': write it as owner/repo=release or owner/repo=merge'')
      | Some (repo0, profile) \<Rightarrow>
          let repo = trim repo0 in
          if \<not> valid_repo_pattern repo then Inl ([CHR 0x22] @ repo @ [CHR 0x22] @ '' is not owner/repo, owner/* or *'')
          else
            let p = lower (trim profile)
            in if p = ''release'' then Inr \<lparr>ps_repo = repo, ps_profile = ShipRelease\<rparr>
               else if p = ''merge'' then Inr \<lparr>ps_repo = repo, ps_profile = ShipMerge\<rparr>
               else Inl (''unknown profile '' @ [CHR 0x22] @ p @ [CHR 0x22] @ '' (release or merge)''))"

fun parse_each :: "string list \<Rightarrow> profile_setting list fallible" where
  "parse_each [] = Inr []"
| "parse_each (e # es) =
     (case parse_profile_entry e of
        Inl why \<Rightarrow> Inl why
      | Inr p \<Rightarrow> (case parse_each es of Inl why \<Rightarrow> Inl why | Inr ps \<Rightarrow> Inr (p # ps)))"

definition parse_profiles :: "string \<Rightarrow> profile_setting list fallible" where
  "parse_profiles text = parse_each (filter (\<lambda>e. e \<noteq> []) (map trim (split_on (\<lambda>c. c = CHR '','') text)))"

definition format_profile :: "profile_setting \<Rightarrow> string" where
  "format_profile e = ps_repo e @ ''='' @ (case ps_profile e of ShipRelease \<Rightarrow> ''release'' | ShipMerge \<Rightarrow> ''merge'')"

definition format_profiles :: "profile_setting list \<Rightarrow> string" where
  "format_profiles es = join '', '' (map format_profile es)"

definition profile_matches :: "string \<Rightarrow> string \<Rightarrow> profile_setting \<Rightarrow> bool" where
  "profile_matches owner repo e =
     (let pattern = lower (trim (ps_repo e)); full = lower (owner @ ''/'' @ repo)
      in pattern = ''*'' \<or> pattern = full \<or> is_some_and (\<lambda>o'. o' = lower owner) (strip_suffix ''/*'' pattern))"

definition profile_for :: "profile_setting list \<Rightarrow> string \<Rightarrow> string \<Rightarrow> repo_profile" where
  "profile_for es owner repo = unwrap_or ShipRelease (map_option ps_profile (find (profile_matches owner repo) es))"

section \<open>The next start of the working day\<close>

text \<open>A start of the working day: the start hour of a day that counts.\<close>

definition starts_day :: "review_schedule \<Rightarrow> instant \<Rightarrow> bool" where
  "starts_day s t \<longleftrightarrow> t mod DAY_NS = int (min (sc_start_hour s) 23) * HOUR_NS \<and> (sc_weekdays_only s \<longrightarrow> \<not> weekend t)"

abbreviation day_at :: "review_schedule \<Rightarrow> int \<Rightarrow> instant" where
  "day_at s day \<equiv> day * DAY_NS + int (min (sc_start_hour s) 23) * HOUR_NS"

lemma start_hour_range: "0 \<le> int (min (sc_start_hour s) 23) * HOUR_NS" "int (min (sc_start_hour s) 23) * HOUR_NS < DAY_NS"
  by simp_all

lemma day_at_parts [simp]: "day_at s day div DAY_NS = day" "day_at s day mod DAY_NS = int (min (sc_start_hour s) 23) * HOUR_NS"
proof -
  have e: "day_at s day = int (min (sc_start_hour s) 23) * HOUR_NS + day * DAY_NS" by simp
  show "day_at s day div DAY_NS = day" unfolding e
    by (subst div_mult_self1) (use start_hour_range[of s] in \<open>simp_all add: div_pos_pos_trivial\<close>)
  show "day_at s day mod DAY_NS = int (min (sc_start_hour s) 23) * HOUR_NS" unfolding e
    by (subst mod_mult_self1) (use start_hour_range[of s] in \<open>simp add: mod_pos_pos_trivial\<close>)
qed

lemma starts_day_at: "starts_day s t \<longleftrightarrow> t = day_at s (t div DAY_NS) \<and> (sc_weekdays_only s \<longrightarrow> \<not> weekend t)"
proof -
  have "t = t div DAY_NS * DAY_NS + t mod DAY_NS" by simp
  moreover have "day_at s (t div DAY_NS) = t div DAY_NS * DAY_NS + int (min (sc_start_hour s) 23) * HOUR_NS" by simp
  ultimately have "t mod DAY_NS = int (min (sc_start_hour s) 23) * HOUR_NS \<longleftrightarrow> t = day_at s (t div DAY_NS)" by linarith
  then show ?thesis unfolding starts_day_def by simp
qed

lemma later_day: "t div DAY_NS < day \<Longrightarrow> t < day_at s day"
proof -
  assume "t div DAY_NS < day"
  then have "t div DAY_NS + 1 \<le> day" by simp
  then have "(t div DAY_NS + 1) * DAY_NS \<le> day * DAY_NS" by simp
  moreover have "t < (t div DAY_NS + 1) * DAY_NS" by (simp add: algebra_simps)
  moreover have "day * DAY_NS \<le> day_at s day" by simp
  ultimately show ?thesis by linarith
qed

text \<open>What the search finds within its days, if any of them has a start of the day after \<open>t\<close>.\<close>

lemma day_start_from_found:
  assumes "\<exists>i<k. t < day_at s (day + int i) \<and> (sc_weekdays_only s \<longrightarrow> \<not> weekend (day_at s (day + int i)))"
  shows "\<exists>i<k. day_start_from k t s day = day_at s (day + int i) \<and> t < day_at s (day + int i)
      \<and> (sc_weekdays_only s \<longrightarrow> \<not> weekend (day_at s (day + int i)))
      \<and> (\<forall>j<i. \<not> (t < day_at s (day + int j) \<and> (sc_weekdays_only s \<longrightarrow> \<not> weekend (day_at s (day + int j)))))"
  using assms
proof (induction k arbitrary: day)
  case (Suc k)
  let ?good = "\<lambda>d. t < day_at s d \<and> (sc_weekdays_only s \<longrightarrow> \<not> weekend (day_at s d))"
  show ?case
  proof (cases "?good day")
    case True
    then show ?thesis by (intro exI[of _ 0]) (simp add: Let_def)
  next
    case False
    from Suc.prems obtain i where i: "i < Suc k" "?good (day + int i)" by blast
    with False obtain i' where "i = Suc i'" by (cases i) auto
    with i have "i' < k \<and> ?good (day + 1 + int i')" by (simp add: algebra_simps)
    then obtain m where m: "m < k" "day_start_from k t s (day + 1) = day_at s (day + 1 + int m)" "?good (day + 1 + int m)"
      "\<forall>j<m. \<not> ?good (day + 1 + int j)" using Suc.IH[of "day + 1"] by blast
    have "day_start_from (Suc k) t s day = day_start_from k t s (day + 1)" using False by (auto simp: Let_def)
    moreover have "\<forall>j<Suc m. \<not> ?good (day + int j)"
    proof (intro allI impI)
      fix j assume "j < Suc m"
      then show "\<not> ?good (day + int j)" using m(4) False by (cases j) (simp_all add: algebra_simps)
    qed
    ultimately show ?thesis using m(1-3) by (intro exI[of _ "Suc m"]) (simp add: algebra_simps)
  qed
qed simp

lemma weekday_at: "weekday (day_at s day) = (day + 3) mod 7"
  by (simp add: weekday_def)

text \<open>Of any seven days in a row one is a weekday, so the eight days always suffice.\<close>

lemma weekday_soon: "\<exists>i<8. 0 < i \<and> \<not> weekend (day_at s (day + int i))"
proof -
  have "\<not> weekend (day_at s (day + 1)) \<or> \<not> weekend (day_at s (day + 2)) \<or> \<not> weekend (day_at s (day + 3))"
    unfolding weekend_def weekday_at by auto presburger+
  then show ?thesis by (metis less_numeral_extra(1) numeral_less_iff of_nat_1 of_nat_numeral one_less_numeral_iff
      semiring_norm(76) semiring_norm(81) zero_less_numeral semiring_norm(78) semiring_norm(80))
qed

lemma next_day_start_first:
  "t < next_day_start t s \<and> starts_day s (next_day_start t s) \<and> (\<nexists>u. t < u \<and> u < next_day_start t s \<and> starts_day s u)"
proof -
  let ?d = "t div DAY_NS"
  let ?good = "\<lambda>i. t < day_at s (?d + int i) \<and> (sc_weekdays_only s \<longrightarrow> \<not> weekend (day_at s (?d + int i)))"
  have "\<exists>i<8. ?good i" using weekday_soon[of ?d s] later_day[of t] by fastforce
  from day_start_from_found[OF this] obtain i where i: "next_day_start t s = day_at s (?d + int i)" "?good i" "\<forall>j<i. \<not> ?good j"
    unfolding next_day_start_def by blast
  have "starts_day s (next_day_start t s)" 
    unfolding i(1) starts_day_def using i(2) day_at_parts(2) by blast
  moreover have "\<not> (t < u \<and> u < next_day_start t s \<and> starts_day s u)" for u
  proof
    assume u: "t < u \<and> u < next_day_start t s \<and> starts_day s u"
    then have at_u: "u = day_at s (u div DAY_NS)" and wd: "sc_weekdays_only s \<longrightarrow> \<not> weekend u" using starts_day_at by blast+
    have "?d \<le> u div DAY_NS" using u by (simp add: zdiv_mono1)
    then obtain j where j: "u div DAY_NS = ?d + int j" using zle_iff_zadd by blast
    have "u < day_at s (?d + int i)" using u i(1) by simp
    then have "day_at s (?d + int j) < day_at s (?d + int i)" using at_u j by simp
    then have "j < i" by simp
    then show False using i(3) u at_u j wd by metis
  qed
  ultimately show ?thesis using i(1,2) by simp
qed

text \<open>C35: The next look is always later than now and follows the reviewers' day. When the interval ends inside
  the working day it is the interval (at least five minutes); otherwise it comes at the start of a
  working day or at the off-hours limit, whichever is first, so no start of a working day passes without
  a look, and the loop over eight days always finds that start.\<close>
theorem next_check_cadence:
  "now < next_check local_secs now s
   \<and> (let offset = offset_for local_secs s * SECOND_NS;
          interval = minutes (max (sc_interval_minutes s) 5);
          off_cap = minutes (max (max (sc_off_hours_minutes s) (sc_interval_minutes s)) 5)
      in if working (now + offset + interval) s then next_check local_secs now s = now + interval
         else next_check local_secs now s \<le> now + off_cap
           \<and> (next_check local_secs now s = now + off_cap \<or> starts_day s (next_check local_secs now s + offset))
           \<and> (\<nexists>u. now + offset < u \<and> u < next_check local_secs now s + offset \<and> starts_day s u))"
proof -
  let ?o = "offset_for local_secs s * SECOND_NS"
  let ?i = "minutes (max (sc_interval_minutes s) 5)"
  let ?cap = "minutes (max (max (sc_off_hours_minutes s) (sc_interval_minutes s)) 5)"
  have pos: "0 < ?i" "0 < ?cap" by (simp_all add: minutes_def)
  note first = next_day_start_first[of "now + ?o" s]
  show ?thesis
  proof (cases "working (now + ?o + ?i) s")
    case True
    then show ?thesis using pos by (simp add: next_check_def Let_def)
  next
    case False
    then have n: "next_check local_secs now s + ?o = min (next_day_start (now + ?o) s) (now + ?o + ?cap)"
      by (simp add: next_check_def Let_def)
    have later: "now < next_check local_secs now s" using n first pos by linarith
    have bound: "next_check local_secs now s \<le> now + ?cap" using n by linarith
    have which: "next_check local_secs now s = now + ?cap \<or> starts_day s (next_check local_secs now s + ?o)"
    proof (cases "next_day_start (now + ?o) s \<le> now + ?o + ?cap")
      case True
      then have "next_check local_secs now s + ?o = next_day_start (now + ?o) s" using n by simp
      then show ?thesis using first by simp
    qed (use n in linarith)
    have "\<nexists>u. now + ?o < u \<and> u < next_check local_secs now s + ?o \<and> starts_day s u" using n first by auto
    then show ?thesis using False later bound which by (simp add: Let_def)
  qed
qed

section \<open>The profiles' text\<close>

lemma trim_hd: "trim s = s \<Longrightarrow> s \<noteq> [] \<Longrightarrow> \<not> is_space (hd s)"
proof
  assume t: "trim s = s" and n: "s \<noteq> []" and sp: "is_space (hd s)"
  then have "length (dropWhile is_space s) < length s" by (cases s) (auto simp: le_imp_less_Suc length_dropWhile_le)
  moreover have "length (trim s) \<le> length (dropWhile is_space s)" unfolding trim_def by (metis length_dropWhile_le length_rev)
  ultimately show False using t by simp
qed

lemma trim_space: "trim (CHR '' '' # s) = trim s"
  by (simp add: trim_def is_space_def)

lemma split_joined:
  assumes "list_all (\<lambda>w. list_all (\<lambda>c. c \<noteq> CHR '','') w) (w # ws)"
  shows "split_on (\<lambda>c. c = CHR '','') (join '', '' (w # ws)) = w # map (\<lambda>w. CHR '' '' # w) ws"
  using assms
proof (induction ws arbitrary: w)
  case Nil
  then show ?case by (simp add: split_on_no_sep)
next
  case (Cons v ws)
  have "split_on (\<lambda>c. c = CHR '','') (join '', '' (w # v # ws))
      = w # split_on (\<lambda>c. c = CHR '','') (CHR '' '' # join '', '' (v # ws))"
    using split_on_append_sep[of "\<lambda>c. c = CHR '',''" w "CHR '',''"] Cons.prems by simp
  also have "split_on (\<lambda>c. c = CHR '','') (CHR '' '' # join '', '' (v # ws)) = (CHR '' '' # v) # map (\<lambda>w. CHR '' '' # w) ws"
    using Cons.IH[of v] Cons.prems by simp
  finally show ?case by simp
qed

definition profile_ok :: "profile_setting \<Rightarrow> bool" where
  "profile_ok e \<longleftrightarrow> valid_repo_pattern (ps_repo e) \<and> trim (ps_repo e) = ps_repo e
     \<and> list_all (\<lambda>c. c \<noteq> CHR '','' \<and> c \<noteq> CHR ''='') (ps_repo e)"

lemma valid_nonempty: "valid_repo_pattern r \<Longrightarrow> r \<noteq> []"
  by (auto simp: valid_repo_pattern_def)

lemma format_profile_trim: "profile_ok e \<Longrightarrow> trim (format_profile e) = format_profile e \<and> format_profile e \<noteq> []
    \<and> list_all (\<lambda>c. c \<noteq> CHR '','') (format_profile e)"
proof -
  assume ok: "profile_ok e"
  then have ne: "ps_repo e \<noteq> []" using valid_nonempty by (simp add: profile_ok_def)
  have "\<not> is_space (hd (ps_repo e))" using ok ne trim_hd by (simp add: profile_ok_def)
  then have "trim (format_profile e) = format_profile e"
    using ne by (intro trim_id) (auto simp: format_profile_def is_space_def split: repo_profile.splits)
  then show ?thesis using ok ne by (auto simp: profile_ok_def format_profile_def list_all_iff split: repo_profile.splits)
qed

lemma parse_formatted: "profile_ok e \<Longrightarrow> parse_profile_entry (format_profile e) = Inr e"
proof -
  assume ok: "profile_ok e"
  have word: "lower (trim ''release'') = ''release''" "lower (trim ''merge'') = ''merge''" by code_simp+
  have "list_all (\<lambda>d. d \<noteq> CHR ''='') (ps_repo e)" using ok by (auto simp: profile_ok_def list_all_iff)
  then have "split_once ''='' (format_profile e) = Some (ps_repo e, case ps_profile e of ShipRelease \<Rightarrow> ''release'' | ShipMerge \<Rightarrow> ''merge'')"
    using split_once_at[of "CHR ''=''" "ps_repo e" "[]"] by (simp add: format_profile_def)
  then show ?thesis using ok word by (auto simp: parse_profile_entry_def profile_ok_def Let_def split: repo_profile.splits)
qed

lemma parse_each_formatted: "list_all profile_ok es \<Longrightarrow> parse_each (map format_profile es) = Inr es"
  by (induction es) (simp_all add: parse_formatted)

text \<open>The Settings field shows what it will read back: a list of profiles whose patterns are valid, trimmed and
  without the separators, formatted and parsed again, is the same list.\<close>
theorem profiles_roundtrip:
  assumes "list_all profile_ok es"
  shows "parse_profiles (format_profiles es) = Inr es"
proof (cases es)
  case Nil
  then show ?thesis by (simp add: parse_profiles_def format_profiles_def trim_def)
next
  case (Cons e rest)
  have each: "trim (format_profile x) = format_profile x \<and> format_profile x \<noteq> [] \<and> list_all (\<lambda>c. c \<noteq> CHR '','') (format_profile x)"
    if "x \<in> set es" for x
    using assms that by (intro format_profile_trim) (simp add: list_all_iff)
  have free: "list_all (\<lambda>w. list_all (\<lambda>c. c \<noteq> CHR '','') w) (format_profile e # map format_profile rest)"
    unfolding list_all_iff[of _ "_ # _"] using each by (simp add: Cons)
  have pieces: "map trim (split_on (\<lambda>c. c = CHR '','') (format_profiles es)) = map format_profile es"
    unfolding format_profiles_def Cons list.map split_joined[OF free] using each by (simp add: Cons trim_space)
  have "filter (\<lambda>p. p \<noteq> []) (map format_profile es) = map format_profile es"
    unfolding filter_id_conv using each by simp
  then show ?thesis unfolding parse_profiles_def pieces using parse_each_formatted[OF assms] by simp
qed

theorem profiles_roundtrip_witness:
  "parse_profiles (format_profiles [\<lparr>ps_repo = ''acme/*'', ps_profile = ShipMerge\<rparr>, \<lparr>ps_repo = ''*'', ps_profile = ShipRelease\<rparr>])
    = Inr [\<lparr>ps_repo = ''acme/*'', ps_profile = ShipMerge\<rparr>, \<lparr>ps_repo = ''*'', ps_profile = ShipRelease\<rparr>]"
  by (rule profiles_roundtrip) (simp add: profile_ok_def valid_repo_pattern_def trim_def is_space_def starts_with_def)

end
