(* ===== verification/GithubWait.thy ===== *)
theory GithubWait
  imports Gates Cadence NextActor
begin

text \<open>
  Waiting on GitHub (\<^verbatim>\<open>tod-core/src/autopilot/github_wait.rs\<close>), the release that carries a merged
  pull request (\<^verbatim>\<open>release_watch.rs\<close>), and \<^verbatim>\<open>check_now\<close>, the gate check made outside a run
  (\<^verbatim>\<open>lifecycle/check_now.rs\<close>).

  What GitHub answers, the settings and the clock are the record \<open>wait_world\<close>; what the checks
  write is the node's waits. Texts are bytes: letters outside ASCII keep their case and are not
  alphanumeric.
\<close>

section \<open>The release that carries a pull request\<close>

record pr_merge =
  mg_title :: string
  mg_merged :: bool
  mg_merged_at :: "string option"

record release =
  rl_tag :: string
  rl_name :: "string option"
  rl_body :: string
  rl_url :: string
  rl_published_at :: "string option"

definition squash :: "string \<Rightarrow> string" where
  "squash text = lower (join '' '' (split_whitespace text))"

text \<open>\<^verbatim>\<open>str::match_indices\<close>: the occurrences from the left, none overlapping the one before; each is judged
  by the characters around it. \<open>before\<close> is the character the rest of the text follows.\<close>

definition bounded :: "bool \<Rightarrow> char option \<Rightarrow> string \<Rightarrow> bool" where
  "bounded bare before after \<longleftrightarrow>
     \<not> is_some_and is_digit (case after of [] \<Rightarrow> None | c # _ \<Rightarrow> Some c)
     \<and> (\<not> bare \<or> \<not> is_some_and (\<lambda>c. ascii_alnum c \<or> c = CHR 0x2F \<or> c = CHR 0x23) before)"

function refers_from :: "string \<Rightarrow> bool \<Rightarrow> char option \<Rightarrow> string \<Rightarrow> bool" where
  "refers_from needle bare before [] = False"
| "refers_from needle bare before (c # cs) =
     (if starts_with needle (c # cs)
      then bounded bare before (drop (length needle) (c # cs))
        \<or> refers_from needle bare (Some (last (c # needle))) (drop (length needle - 1) cs)
      else refers_from needle bare (Some c) cs)"
  by pat_completeness auto
termination by (relation "measure (\<lambda>(_, _, _, s). length s)") auto

definition refers_to :: "string \<Rightarrow> string \<Rightarrow> bool \<Rightarrow> bool" where
  "refers_to text needle bare = refers_from needle bare None text"

definition notes_name :: "string \<Rightarrow> node_pr \<Rightarrow> string \<Rightarrow> bool" where
  "notes_name notes pr title0 =
     (let title = squash title0
      in if title \<noteq> [] \<and> contains_str title (squash notes) then True
         else let link = lower (np_owner pr @ ''/'' @ np_repo pr @ ''/pull/'' @ show_int (np_number pr))
              in refers_to (lower notes) link False \<or> refers_to (lower notes) (CHR 0x23 # show_int (np_number pr)) True)"

definition release_carrying :: "(string \<Rightarrow> instant option) \<Rightarrow> node_pr \<Rightarrow> pr_merge \<Rightarrow> release list \<Rightarrow> release option" where
  "release_carrying rfc pr merge releases =
     (let merged_at = Option.bind (mg_merged_at merge) rfc
      in find (\<lambda>r. notes_name (rl_body r) pr (mg_title merge))
           (filter (\<lambda>r. case (merged_at, Option.bind (rl_published_at r) rfc) of
               (Some merged, Some published) \<Rightarrow> merged \<le> published | _ \<Rightarrow> True) releases))"

section \<open>The world a look reads\<close>

record wait_world = hub +
  gw_feed :: bool
  gw_merge :: "node_pr \<Rightarrow> pr_merge fallible"
  gw_releases :: "node_pr \<Rightarrow> release list fallible"
  gw_profiles :: "profile_setting list fallible"
  gw_schedule :: review_schedule
  gw_local :: int
  gw_ms :: ms
  gw_fresh :: uuid

definition RELEASE_WAIT_SPEC :: string where
  "RELEASE_WAIT_SPEC = ''github:release:published''"

definition merge_wait_spec :: "int \<Rightarrow> string" where
  "merge_wait_spec number = ''github:pr:'' @ show_int number @ '':merged''"

definition bot_review_spec :: "int option \<Rightarrow> string \<Rightarrow> string" where
  "bot_review_spec number rb = ''github:pr:'' @ show_int (unwrap_or 0 number) @ '':bot-review:'' @ rb"

definition checks_spec :: "int option \<Rightarrow> string" where
  "checks_spec number = ''github:pr:'' @ show_int (unwrap_or 0 number) @ '':checks''"

datatype github_check =
  GcNothing | GcClear | GcWaiting string ms | GcFeedback string | GcUnreadable string

definition read_wait_spec :: "bool \<Rightarrow> string" where
  "read_wait_spec releasing = (if releasing then ''github:release:read'' else ''github:pr:read'')"

definition retry_delay_ms :: "nat \<Rightarrow> int" where
  "retry_delay_ms attempt = min (30000 * 2 ^ min attempt 6) (10 * 60 * 1000)"

definition is_transient_message :: "string \<Rightarrow> bool" where
  "is_transient_message message =
     (contains_str ''HTTP request failed:'' message \<or> contains_str ''GitHub is unavailable ('' message)"

section \<open>The waits a look writes\<close>

fun cancel_each :: "ms \<Rightarrow> uuid list \<Rightarrow> waits \<Rightarrow> waits fallible" where
  "cancel_each now [] ws = Inr ws"
| "cancel_each now (i # is) ws =
     (case set_wait_state now i ''cancelled'' ws of Inl e \<Rightarrow> Inl e | Inr ws' \<Rightarrow> cancel_each now is ws')"

definition cancel_waits :: "ms \<Rightarrow> uuid \<Rightarrow> (string \<Rightarrow> bool) \<Rightarrow> 'a gate_db_scheme \<Rightarrow> 'a gate_db_scheme fallible" where
  "cancel_waits now n matches db =
     (case cancel_each now (map w_id (filter (\<lambda>w. matches (normalize_spec (w_spec w))) (list_pending_for_node n (td_waits db))))
          (td_waits db) of
        Inl e \<Rightarrow> Inl e | Inr ws \<Rightarrow> Inr (db\<lparr>td_waits := ws\<rparr>))"

definition cancel_github_waits :: "ms \<Rightarrow> uuid \<Rightarrow> 'a gate_db_scheme \<Rightarrow> 'a gate_db_scheme fallible" where
  "cancel_github_waits now n db = cancel_waits now n (starts_with ''github:'') db"

definition clear_read_failures :: "ms \<Rightarrow> uuid \<Rightarrow> 'a gate_db_scheme \<Rightarrow> 'a gate_db_scheme fallible" where
  "clear_read_failures now n db = cancel_waits now n (\<lambda>spec. ends_with '':read'' spec \<and> starts_with ''github:'' spec) db"

definition clear_poll_waits :: "ms \<Rightarrow> uuid \<Rightarrow> 'a gate_db_scheme \<Rightarrow> 'a gate_db_scheme fallible" where
  "clear_poll_waits now n db = cancel_waits now n (\<lambda>spec. starts_with ''github:pr:'' spec \<and> \<not> ends_with '':read'' spec) db"

definition record_github_wait ::
    "wait_world \<Rightarrow> uuid \<Rightarrow> string \<Rightarrow> string \<Rightarrow> string \<Rightarrow> 'a gate_db_scheme \<Rightarrow> (ms \<times> 'a gate_db_scheme) fallible" where
  "record_github_wait w n spec replaces detail db =
     (let due = next_check (gw_local w) (hb_now w) (gw_schedule w) div 1000000
      in case cancel_waits (gw_ms w) n (starts_with replaces) db of
           Inl e \<Rightarrow> Inl e
         | Inr db1 \<Rightarrow>
             (case create_wait (gw_fresh w) (gw_ms w) (stay_started_at n db1) n (with_detail detail (new_event spec due)) (td_waits db1) of
                Inl e \<Rightarrow> Inl e
              | Inr (_, ws) \<Rightarrow> Inr (due, db1\<lparr>td_waits := ws\<rparr>)))"

section \<open>Merged and released\<close>

type_synonym looked = "(node_pr \<times> string) option \<times> string list"

text \<open>The loop of \<^verbatim>\<open>look_at_github\<close>: \<open>Inl\<close> where it returns early, else the first pull request still pending and
  where each stands.\<close>

fun merge_look ::
    "wait_world \<Rightarrow> bool \<Rightarrow> profile_setting list \<Rightarrow> node_pr list \<Rightarrow> looked \<Rightarrow> github_check + looked" where
  "merge_look w releasing profiles [] acc = Inr acc"
| "merge_look w releasing profiles (pr # prs) (pending, standing) =
     (let label = pr_label pr in
      case gw_merge w pr of
        Inl err \<Rightarrow> Inl (GcUnreadable (label @ '' not readable: '' @ err))
      | Inr merge \<Rightarrow>
          if \<not> mg_merged merge
          then if releasing then Inl GcNothing
               else merge_look w releasing profiles prs
                 (case pending of None \<Rightarrow> Some (pr, np_url pr @ '' to be merged'') | Some p \<Rightarrow> Some p,
                  standing @ [label @ '' not merged''])
          else if \<not> releasing then merge_look w releasing profiles prs (pending, standing @ [label @ '' merged''])
          else if profile_for profiles (np_owner pr) (np_repo pr) = ShipMerge
          then merge_look w releasing profiles prs (pending, standing @ [label @ '' merged (this repository does not release)''])
          else (case gw_releases w pr of
              Inl err \<Rightarrow> Inl (GcUnreadable (''releases of '' @ label @ '' not readable: '' @ err))
            | Inr releases \<Rightarrow>
                (case release_carrying (hb_rfc w) pr merge releases of
                   Some release \<Rightarrow>
                     merge_look w releasing profiles prs (pending, standing @ [label @ '' released in '' @ rl_tag release])
                 | None \<Rightarrow>
                     merge_look w releasing profiles prs
                       (case pending of None \<Rightarrow> Some (pr, ''a release whose notes name '' @ np_url pr) | Some p \<Rightarrow> Some p,
                        standing @ [label @ '' merged, no release names it yet'']))))"

text \<open>What a look answers, with the store it leaves.\<close>

type_synonym 'a looked_db = "(github_check \<times> 'a gate_db_scheme) fallible"

definition cleared :: "github_check \<Rightarrow> ms \<Rightarrow> uuid \<Rightarrow> 'a gate_db_scheme \<Rightarrow> 'a looked_db" where
  "cleared found now n db = (case cancel_github_waits now n db of Inl e \<Rightarrow> Inl e | Inr db' \<Rightarrow> Inr (found, db'))"

definition waiting :: "wait_world \<Rightarrow> uuid \<Rightarrow> string \<Rightarrow> string \<Rightarrow> string \<Rightarrow> 'a gate_db_scheme \<Rightarrow> 'a looked_db" where
  "waiting w n spec replaces what db =
     (case record_github_wait w n spec replaces what db of Inl e \<Rightarrow> Inl e | Inr (due, db') \<Rightarrow> Inr (GcWaiting what due, db'))"

definition and_the_rest :: "string \<Rightarrow> string list \<Rightarrow> string" where
  "and_the_rest what standing = (if 1 < length standing then what @ '' ('' @ join ''; '' standing @ '')'' else what)"

definition look_merged :: "wait_world \<Rightarrow> uuid \<Rightarrow> bool \<Rightarrow> 'a gate_db_scheme \<Rightarrow> 'a looked_db" where
  "look_merged w n releasing db =
     (case read_links n db of (prs, unrecognized) \<Rightarrow>
        if prs = [] \<or> unrecognized \<noteq> [] then Inr (GcNothing, db)
        else if \<not> gw_feed w then Inr (GcUnreadable ''GitHub credentials are not set up'', db)
        else (case gw_profiles w of
            Inl e \<Rightarrow> Inl (''settings not readable: '' @ e)
          | Inr profiles \<Rightarrow>
              (case merge_look w releasing profiles prs (None, []) of
                 Inl found \<Rightarrow> Inr (found, db)
               | Inr (None, _) \<Rightarrow> cleared GcClear (gw_ms w) n db
               | Inr (Some (pr, what), standing) \<Rightarrow>
                   waiting w n (if releasing then RELEASE_WAIT_SPEC else merge_wait_spec (np_number pr))
                     (if releasing then ''github:release:'' else ''github:pr:'') (and_the_rest what standing) db)))"

section \<open>Ready for review\<close>

definition plural :: "nat \<Rightarrow> string" where
  "plural n = (if n = 1 then [] else ''s'')"

definition work_words :: "pr_work \<Rightarrow> string" where
  "work_words w = (case w of
     WkThreads n \<Rightarrow> show_nat n @ '' open review thread'' @ plural n
   | WkFailingChecks \<Rightarrow> ''failing checks''
   | WkBehind \<Rightarrow> ''behind its base''
   | WkConflict \<Rightarrow> ''conflicts with its base''
   | WkLowScore rb score min' \<Rightarrow> rb @ '' scored it '' @ show_nat score @ '' (needs '' @ show_nat min' @ '')''
   | WkBotReviewMissing rb _ _ \<Rightarrow> ''no '' @ rb @ '' review of the current head''
   | WkChangesRequested \<Rightarrow> ''changes requested''
   | WkReviewComments n \<Rightarrow> show_nat n @ '' review'' @ plural n @ '' with comments to answer'')"

definition work_description :: "pr_work list \<Rightarrow> string" where
  "work_description work = join '', '' (map work_words work)"

definition agent_answered_at :: "uuid \<Rightarrow> 'a gate_db_scheme \<Rightarrow> instant option" where
  "agent_answered_at n db =
     (case latest_for_focus_with_protocol (FNode n) PkPr (td_conv db) of
        None \<Rightarrow> None
      | Some c \<Rightarrow> map_option (\<lambda>t. t * 1000000)
          (max_opt (map tn_created (filter (\<lambda>t. tn_role t = RoleAgent) (conv_turns (c_id c) (td_conv db))))))"

record ready_acc =
  ra_pending :: "(node_pr \<times> string \<times> string) option"
  ra_standing :: "string list"
  ra_feedback :: "string list"

fun ready_look :: "wait_world \<Rightarrow> instant option \<Rightarrow> node_pr list \<Rightarrow> ready_acc \<Rightarrow> github_check + ready_acc" where
  "ready_look w answered [] acc = Inr acc"
| "ready_look w answered (pr # prs) acc =
     (let label = pr_label pr in
      case hb_snapshot w pr of
        Inl err \<Rightarrow> Inl (GcUnreadable (label @ '' not readable: '' @ err))
      | Inr sn \<Rightarrow>
          let work = pr_work_of (answered_through answered (assessment_of (hb_rfc w) sn (hb_settings w) (hb_now w)));
              acc1 = (if work \<noteq> [] then acc\<lparr>ra_feedback := ra_feedback acc @ [label @ '': '' @ work_description work]\<rparr> else acc);
              say = (\<lambda>what event line. acc1\<lparr>ra_standing := ra_standing acc @ [label @ line],
                 ra_pending := (case ra_pending acc of None \<Rightarrow> Some (pr, what, event) | Some p \<Rightarrow> Some p)\<rparr>)
          in ready_look w answered prs
               (if isl (ready_for_review (np_url pr) (sn_status sn))
                then say (np_url pr @ '' to be marked ready for review'') ''ready_for_review'' '' still a draft''
                else if isl (has_reviewer (np_url pr) (sn_status sn) (sn_reviews sn))
                then say (''a reviewer to be put on '' @ np_url pr) ''review_requested'' '' has no reviewer''
                else acc1\<lparr>ra_standing := ra_standing acc @ [label @ '' ready for review'']\<rparr>))"

definition check_ready_for_review :: "wait_world \<Rightarrow> uuid \<Rightarrow> 'a gate_db_scheme \<Rightarrow> 'a looked_db" where
  "check_ready_for_review w n db =
     (case read_links n db of (prs, unrecognized) \<Rightarrow>
        if prs = [] \<or> unrecognized \<noteq> [] then Inr (GcNothing, db)
        else if \<not> gw_feed w then Inr (GcUnreadable ''GitHub credentials are not set up'', db)
        else (case ready_look w (agent_answered_at n db) prs \<lparr>ra_pending = None, ra_standing = [], ra_feedback = []\<rparr> of
            Inl found \<Rightarrow> Inr (found, db)
          | Inr acc \<Rightarrow>
              if ra_feedback acc \<noteq> [] then cleared (GcFeedback (join ''; '' (ra_feedback acc))) (gw_ms w) n db
              else (case ra_pending acc of
                  None \<Rightarrow> cleared GcClear (gw_ms w) n db
                | Some (pr, what, event) \<Rightarrow>
                    waiting w n (''github:pr:'' @ show_int (np_number pr) @ '':'' @ event) ''github:pr:''
                      (and_the_rest what (ra_standing acc)) db)))"

section \<open>In review\<close>

definition live_status :: "live_pr \<Rightarrow> string" where
  "live_status p =
     (let a = lp_assessment p in
      if as_merged a then ''merged''
      else join '', ''
        ([if lp_draft p then ''draft''
          else (case as_human_review a of HrApproved \<Rightarrow> ''approved'' | HrPending \<Rightarrow> ''awaiting review''
                | HrChangesRequested _ \<Rightarrow> ''changes requested'')]
         @ List.map_filter (\<lambda>wt. case wt of WtBotReview rb \<Rightarrow> Some (''waiting for '' @ rb @ '' review'')
               | WtChecksRunning \<Rightarrow> Some ''checks running'' | _ \<Rightarrow> None) (pr_waits_of a)
         @ (if unanswered_review_comments a \<noteq> [] then [''review comments to answer''] else [])))"

fun live_answered :: "wait_world \<Rightarrow> instant option \<Rightarrow> node_pr list \<Rightarrow> live_pr list fallible" where
  "live_answered w answered [] = Inr []"
| "live_answered w answered (pr # prs) =
     (case hb_snapshot w pr of
        Inl err \<Rightarrow> Inl (np_url pr @ '': '' @ err)
      | Inr sn \<Rightarrow>
          let a = answered_through answered (assessment_of (hb_rfc w) sn (hb_settings w) (hb_now w)); st = sn_status sn;
              fingerprint = unwrap_or [] (st_head_sha st) @ ''|'' @ unwrap_or [] (st_mergeable_state st) @ ''|''
                @ show_nat (length (sn_comments sn)) @ ''|'' @ join '','' (sort (map ot_id (as_open_threads a)))
          in (case live_answered w answered prs of
                Inl err \<Rightarrow> Inl err
              | Inr live \<Rightarrow> Inr (\<lparr>lp_pr = pr, lp_draft = st_draft st, lp_assessment = a, lp_fingerprint = fingerprint,
                    lp_head_sha = st_head_sha st, lp_threads = sn_threads sn\<rparr> # live)))"

definition overall :: "live_pr list \<Rightarrow> pr_next" where
  "overall live =
     (if list_all (\<lambda>p. as_merged (lp_assessment p)) live then NxMerged
      else
        let work = concat (map (\<lambda>p. case pr_next_of (lp_assessment p) of NxWork ws \<Rightarrow> ws | _ \<Rightarrow> []) live);
            waits = concat (map (\<lambda>p. case pr_next_of (lp_assessment p) of NxWait ws \<Rightarrow> ws | _ \<Rightarrow> []) live)
        in if work \<noteq> [] then NxWork work else if waits \<noteq> [] then NxWait waits else NxClear)"

definition review_wait_of :: "live_pr list \<Rightarrow> string \<times> string" where
  "review_wait_of live =
     (let waiting = find (\<lambda>p. WtHumanReview \<in> set (pr_waits_of (lp_assessment p))) live;
          requested = (case waiting of Some p \<Rightarrow> as_requested_reviewers (lp_assessment p) | None \<Rightarrow> []);
          spec = review_spec (map_option (\<lambda>p. np_number (lp_pr p)) waiting) requested;
          what = (case waiting of Some p \<Rightarrow> ''a review of '' @ np_url (lp_pr p) | None \<Rightarrow> ''a review'')
      in (spec, if 1 < length live
                then what @ '' ('' @ join ''; '' (map (\<lambda>p. pr_label (lp_pr p) @ '' '' @ live_status p) live) @ '')''
                else what))"

definition check_in_review :: "wait_world \<Rightarrow> uuid \<Rightarrow> 'a gate_db_scheme \<Rightarrow> 'a looked_db" where
  "check_in_review w n db =
     (case read_links n db of (prs, unrecognized) \<Rightarrow>
        if prs = [] \<or> unrecognized \<noteq> [] then Inr (GcNothing, db)
        else if \<not> gw_feed w then Inr (GcUnreadable ''GitHub credentials are not set up'', db)
        else (case live_answered w (agent_answered_at n db) prs of
            Inl err \<Rightarrow> Inr (GcUnreadable err, db)
          | Inr live \<Rightarrow>
              (case overall live of
                 NxMerged \<Rightarrow> cleared GcClear (gw_ms w) n db
               | NxClear \<Rightarrow> cleared GcClear (gw_ms w) n db
               | NxWork work \<Rightarrow> cleared (GcFeedback (work_description work)) (gw_ms w) n db
               | NxWait waits \<Rightarrow>
                   if list_all (\<lambda>wt. wt = WtHumanReview) waits
                   then (case review_wait_of live of (spec, what) \<Rightarrow> waiting w n spec ''github:pr:'' what db)
                   else Inr (GcNothing, db))))"

section \<open>Checking\<close>

definition look_at_github :: "wait_world \<Rightarrow> uuid \<Rightarrow> string \<Rightarrow> 'a gate_db_scheme \<Rightarrow> 'a looked_db" where
  "look_at_github w n lifecycle db =
     (if lifecycle = ''approved'' then look_merged w n False db
      else if lifecycle = ''merged'' then look_merged w n True db
      else if lifecycle = ''pr_draft'' then check_ready_for_review w n db
      else if lifecycle = ''pr_review'' then check_in_review w n db
      else Inr (GcNothing, db))"

definition unreadable :: "github_check \<Rightarrow> bool" where
  "unreadable found = (case found of GcUnreadable _ \<Rightarrow> True | _ \<Rightarrow> False)"

definition check_github :: "wait_world \<Rightarrow> uuid \<Rightarrow> string \<Rightarrow> 'a gate_db_scheme \<Rightarrow> 'a looked_db" where
  "check_github w n lifecycle db =
     (case look_at_github w n lifecycle db of
        Inl e \<Rightarrow> Inl e
      | Inr (found, db1) \<Rightarrow>
          if unreadable found then Inr (found, db1)
          else (case clear_read_failures (gw_ms w) n db1 of Inl e \<Rightarrow> Inl e | Inr db2 \<Rightarrow> Inr (found, db2)))"

text \<open>A failed look: counted on the node's read wait, made if there is none.\<close>

definition failure_wait :: "wait_world \<Rightarrow> uuid \<Rightarrow> bool \<Rightarrow> 'a gate_db_scheme \<Rightarrow> (uuid \<times> nat \<times> waits) fallible" where
  "failure_wait w n releasing db =
     (case find (\<lambda>x. w_spec x = read_wait_spec releasing) (list_pending_for_node n (td_waits db)) of
        Some x \<Rightarrow> Inr (w_id x, w_attempt x, td_waits db)
      | None \<Rightarrow>
          (case create_wait (gw_fresh w) (gw_ms w) (stay_started_at n db) n
                  (with_detail ''a look at GitHub'' (new_event (read_wait_spec releasing) (gw_ms w + retry_delay_ms 0))) (td_waits db) of
             Inl e \<Rightarrow> Inl e | Inr (x, ws) \<Rightarrow> Inr (w_id x, 0, ws)))"

definition github_look_failed :: "wait_world \<Rightarrow> uuid \<Rightarrow> bool \<Rightarrow> string \<Rightarrow> 'a gate_db_scheme \<Rightarrow> (outcome \<times> 'a gate_db_scheme) fallible" where
  "github_look_failed w n releasing error db =
     (case failure_wait w n releasing db of
        Inl e \<Rightarrow> Inl e
      | Inr (i, attempt, ws) \<Rightarrow>
          let retry = (if is_transient_message error then Some (gw_ms w + retry_delay_ms attempt) else None)
          in (case record_failure (gw_ms w) i error retry ws of
                Inl e \<Rightarrow> Inl e
              | Inr (x, ws') \<Rightarrow>
                  Inr (case (exhausted x, retry) of
                      (False, Some due) \<Rightarrow>
                        OWaiting (''GitHub could not be read ('' @ show_nat (w_attempt x) @ '' of '' @ show_nat (unwrap_or 0 (w_max x))
                          @ ''): '' @ error) due
                    | _ \<Rightarrow> OStopped (FAILED_PREFIX @ ''GitHub could not be read: '' @ error),
                    db\<lparr>td_waits := ws'\<rparr>)))"

definition hold_for_github :: "wait_world \<Rightarrow> uuid \<Rightarrow> string \<Rightarrow> 'a gate_db_scheme \<Rightarrow> (outcome option \<times> 'a gate_db_scheme) fallible" where
  "hold_for_github w n lifecycle db =
     (case check_github w n lifecycle db of
        Inl e \<Rightarrow> Inl e
      | Inr (GcWaiting what due, db1) \<Rightarrow> Inr (Some (OWaiting what due), db1)
      | Inr (GcUnreadable why, db1) \<Rightarrow>
          (case github_look_failed w n (lifecycle = ''merged'') why db1 of
             Inl e \<Rightarrow> Inl e | Inr (out, db2) \<Rightarrow> Inr (Some out, db2))
      | Inr (_, db1) \<Rightarrow> Inr (None, db1))"

text \<open>The babysitter's own poll.\<close>

definition number_waiting :: "pr_wait \<Rightarrow> live_pr list \<Rightarrow> int option" where
  "number_waiting wt live = map_option (\<lambda>p. np_number (lp_pr p)) (find (\<lambda>p. wt \<in> set (pr_waits_of (lp_assessment p))) live)"

definition poll_spec :: "pr_wait \<Rightarrow> live_pr list \<Rightarrow> string option" where
  "poll_spec wt live = (case wt of
     WtBotReview rb \<Rightarrow> Some (bot_review_spec (number_waiting wt live) rb)
   | WtChecksRunning \<Rightarrow> Some (checks_spec (number_waiting wt live))
   | WtGitHub \<Rightarrow> Some (''github:pr:'' @ show_int (unwrap_or 0 (number_waiting wt live)) @ '':github'')
   | WtHumanReview \<Rightarrow> None)"

definition record_poll_wait ::
    "wait_world \<Rightarrow> uuid \<Rightarrow> live_pr list \<Rightarrow> pr_wait list \<Rightarrow> string \<Rightarrow> ms \<Rightarrow> 'a gate_db_scheme \<Rightarrow> 'a gate_db_scheme fallible" where
  "record_poll_wait w n live waits detail due db =
     (case waits of [] \<Rightarrow> Inr db | first # _ \<Rightarrow>
       (case poll_spec first live of None \<Rightarrow> Inr db | Some spec \<Rightarrow>
         (case find (\<lambda>x. normalize_spec (w_spec x) = spec) (list_pending_for_node n (td_waits db)) of
            Some same \<Rightarrow> (case reschedule (gw_ms w) (w_id same) due (td_waits db) of
                Inl e \<Rightarrow> Inl e | Inr ws \<Rightarrow> Inr (db\<lparr>td_waits := ws\<rparr>))
          | None \<Rightarrow>
              (case cancel_waits (gw_ms w) n (starts_with ''github:pr:'') db of
                 Inl e \<Rightarrow> Inl e
               | Inr db1 \<Rightarrow>
                   (case create_wait (gw_fresh w) (gw_ms w) (stay_started_at n db1) n (with_detail detail (new_event spec due)) (td_waits db1) of
                      Inl e \<Rightarrow> Inl e | Inr (_, ws) \<Rightarrow> Inr (db1\<lparr>td_waits := ws\<rparr>))))))"

section \<open>Check now\<close>

record checked_now =
  cn_gate :: gate_check
  cn_advanced :: "string option"
  cn_github :: "github_check option"
  cn_held :: "string option"

definition reads_github :: "string \<Rightarrow> bool" where
  "reads_github state = (state \<in> {''pr_draft'', ''approved'', ''merged''})"

text \<open>A run's lease holds the node; \<open>leases\<close> and \<open>decisions\<close> are the two tables \<^verbatim>\<open>check_now\<close> reads besides.\<close>

definition held_by_run :: "ms \<Rightarrow> uuid \<Rightarrow> lease list \<Rightarrow> bool" where
  "held_by_run now n leases = list_ex (\<lambda>l. l_kind l = KIND_RUN \<and> lease_live l now) (leases_for_nodes [n] leases)"

definition held_by_github :: "github_check option \<Rightarrow> string option" where
  "held_by_github found = (case found of
     Some (GcWaiting what _) \<Rightarrow> Some what
   | Some (GcFeedback what) \<Rightarrow> Some (''the pull request needs the agent: '' @ what)
   | _ \<Rightarrow> None)"

definition look_before :: "wait_world \<Rightarrow> uuid \<Rightarrow> string \<Rightarrow> 'a gate_db_scheme \<Rightarrow> (github_check option \<times> 'a gate_db_scheme) fallible" where
  "look_before w n from db =
     (if from = ''pr_draft''
      then (case check_github w n from db of Inl e \<Rightarrow> Inl e | Inr (found, db') \<Rightarrow> Inr (Some found, db'))
      else Inr (None, db))"

definition held_back :: "decision_db \<Rightarrow> uuid \<Rightarrow> string \<Rightarrow> github_check option \<Rightarrow> string option" where
  "held_back decisions n from github =
     (case held_by_github github of
        Some what \<Rightarrow> Some what
      | None \<Rightarrow>
          let pending = length (pending_decisions [n] decisions)
          in if from \<in> {''pr_draft'', ''pr_review''} \<and> 0 < pending
             then Some (show_nat pending @ '' decision(s) are waiting for an answer'') else None)"

definition look_after ::
    "wait_world \<Rightarrow> uuid \<Rightarrow> string \<Rightarrow> github_check option \<Rightarrow> 'a gate_db_scheme \<Rightarrow> (github_check option \<times> 'a gate_db_scheme) fallible" where
  "look_after w n from github db =
     (let state = current_state n db
      in if reads_github state \<and> (state \<noteq> from \<or> github = None)
         then (case check_github w n state db of Inl e \<Rightarrow> Inl e | Inr (found, db') \<Rightarrow> Inr (Some found, db'))
         else Inr (github, db))"

definition check_now ::
    "wait_world \<Rightarrow> uuid \<Rightarrow> leases \<Rightarrow> decision_db \<Rightarrow> 'a gate_db_scheme \<Rightarrow> (checked_now \<times> 'a gate_db_scheme) fallible" where
  "check_now w n leases decisions db =
     (if held_by_run (gw_ms w) n leases
      then Inl ''this node is being run: check it once the run has ended, or pause it first''
      else case settle_gate (hub.truncate w) (gw_ms w) n db of
        Inl e \<Rightarrow> Inl e
      | Inr (gate, db1) \<Rightarrow>
          let from = current_state n db1 in
          case look_before w n from db1 of
            Inl e \<Rightarrow> Inl e
          | Inr (github, db2) \<Rightarrow>
              let held = held_back decisions n from github in
              case (if gate_clear gate \<and> held = None then advance (gw_ms w) n db2 else Inr (None, db2)) of
                Inl e \<Rightarrow> Inl e
              | Inr (advanced, db3) \<Rightarrow>
                  (case look_after w n from github db3 of
                     Inl e \<Rightarrow> Inl e
                   | Inr (github', db4) \<Rightarrow>
                       Inr (\<lparr>cn_gate = gate, cn_advanced = advanced, cn_github = github', cn_held = held\<rparr>, db4)))"

section \<open>What the looks write\<close>

text \<open>Cancelling never fails, and ends exactly the node's pending waits that match.\<close>

definition cancelled :: "ms \<Rightarrow> (wait \<Rightarrow> bool) \<Rightarrow> waits \<Rightarrow> waits" where
  "cancelled now p ws = map (\<lambda>w. if p w then w\<lparr>w_state := ''cancelled'', w_updated := now\<rparr> else w) ws"

lemma cancelled_keys [simp]: "map w_id (cancelled now p ws) = map w_id ws"
  by (simp add: cancelled_def)

lemma cancel_each_exact:
  assumes "set is \<subseteq> w_id ` set ws" "\<forall>x \<in> set ws. w_id x \<in> set is \<longrightarrow> is_pending x" "distinct (map w_id ws)" "distinct is"
  shows "cancel_each now is ws = Inr (cancelled now (\<lambda>x. w_id x \<in> set is) ws)"
  using assms
proof (induction "is" arbitrary: ws)
  case Nil
  then show ?case by (simp add: cancelled_def)
next
  case (Cons i is')
  let ?ws1 = "map (\<lambda>x. if w_id x = i \<and> w_state x \<noteq> ''cancelled'' then x\<lparr>w_state := ''cancelled'', w_updated := now\<rparr> else x) ws"
  have known: "\<not> list_all (\<lambda>x. w_id x \<noteq> i) ws" using Cons.prems(1) by (auto simp: list_all_iff)
  have "set_wait_state now i ''cancelled'' ws = Inr ?ws1" using known by (simp add: set_wait_state_def wait_states_def)
  moreover have "cancel_each now is' ?ws1 = Inr (cancelled now (\<lambda>x. w_id x \<in> set is') ?ws1)"
  proof (rule Cons.IH)
    have ids: "map w_id ?ws1 = map w_id ws" by simp
    show "set is' \<subseteq> w_id ` set ?ws1" using Cons.prems(1) ids by (metis insert_subset list.set_map list.simps(15))
    show "\<forall>x \<in> set ?ws1. w_id x \<in> set is' \<longrightarrow> is_pending x" using Cons.prems(2,4) by auto
    show "distinct (map w_id ?ws1)" unfolding ids by (rule Cons.prems(3))
    show "distinct is'" using Cons.prems(4) by simp
  qed
  moreover have "cancelled now (\<lambda>x. w_id x \<in> set is') ?ws1 = cancelled now (\<lambda>x. w_id x \<in> set (i # is')) ws"
    using Cons.prems(2,4) by (auto simp: cancelled_def is_pending_def)
  ultimately show ?case by simp
qed

lemma cancel_waits_exact:
  assumes "distinct (map w_id (td_waits db))"
  shows "cancel_waits now n matches db = Inr (db\<lparr>td_waits :=
    cancelled now (\<lambda>x. w_node x = n \<and> is_pending x \<and> matches (normalize_spec (w_spec x))) (td_waits db)\<rparr>)"
proof -
  let ?ws = "td_waits db"
  let ?p = "\<lambda>x. w_node x = n \<and> is_pending x \<and> matches (normalize_spec (w_spec x))"
  let ?ids = "map w_id (filter (\<lambda>w. matches (normalize_spec (w_spec w))) (list_pending_for_node n ?ws))"
  have inj: "inj_on w_id (set ?ws)" using assms by (simp add: distinct_map)
  have rows: "set (filter (\<lambda>w. matches (normalize_spec (w_spec w))) (list_pending_for_node n ?ws)) = {x \<in> set ?ws. ?p x}"
    by (auto simp: list_pending_for_node_def query_waits_def)
  then have in_ids: "x \<in> set ?ws \<Longrightarrow> w_id x \<in> set ?ids \<longleftrightarrow> ?p x" for x using inj by (auto dest: inj_onD)
  have sub: "set ?ids \<subseteq> w_id ` set ?ws" using rows by auto
  have "distinct ?ids"
    using assms unfolding list_pending_for_node_def query_waits_def distinct_map
    by (auto intro: inj_on_subset simp: distinct_map)
  then have "cancel_each now ?ids ?ws = Inr (cancelled now (\<lambda>x. w_id x \<in> set ?ids) ?ws)"
    using cancel_each_exact[OF sub _ assms] in_ids by blast
  moreover have "cancelled now (\<lambda>x. w_id x \<in> set ?ids) ?ws = cancelled now ?p ?ws"
    unfolding cancelled_def using in_ids by (intro map_cong refl if_cong) blast+
  ultimately show ?thesis by (simp add: cancel_waits_def)
qed

lemma create_event:
  assumes "CHR '':'' \<in> set spec"
  shows "create_wait i now stay n (with_detail detail (new_event spec due)) ws =
    Inr (\<lparr>w_id = i, w_node = n, w_kind = KIND_EVENT, w_spec = normalize_spec spec, w_every = None, w_due = due,
           w_state = WAIT_PENDING, w_created = now, w_updated = now, w_detail = Some detail, w_attempt = 0, w_max = None,
           w_error = None, w_stay = stay\<rparr>,
      ws @ [\<lparr>w_id = i, w_node = n, w_kind = KIND_EVENT, w_spec = normalize_spec spec, w_every = None, w_due = due,
           w_state = WAIT_PENDING, w_created = now, w_updated = now, w_detail = Some detail, w_attempt = 0, w_max = None,
           w_error = None, w_stay = stay\<rparr>])"
  using assms by (simp add: create_wait_def new_event_def with_detail_def Let_def wait_kinds_def)

abbreviation look_due :: "wait_world \<Rightarrow> ms" where
  "look_due w \<equiv> next_check (gw_local w) (hb_now w) (gw_schedule w) div 1000000"

abbreviation look_wait :: "wait_world \<Rightarrow> uuid \<Rightarrow> string \<Rightarrow> string \<Rightarrow> ms option \<Rightarrow> wait" where
  "look_wait w n spec what stay \<equiv> \<lparr>w_id = gw_fresh w, w_node = n, w_kind = KIND_EVENT, w_spec = normalize_spec spec, w_every = None,
     w_due = look_due w, w_state = WAIT_PENDING, w_created = gw_ms w, w_updated = gw_ms w, w_detail = Some what,
     w_attempt = 0, w_max = None, w_error = None, w_stay = stay\<rparr>"

abbreviation mine :: "uuid \<Rightarrow> (string \<Rightarrow> bool) \<Rightarrow> wait \<Rightarrow> bool" where
  "mine n p x \<equiv> w_node x = n \<and> is_pending x \<and> p (normalize_spec (w_spec x))"

lemma waiting_exact:
  assumes "distinct (map w_id (td_waits db))" "CHR '':'' \<in> set spec"
  shows "waiting w n spec replaces what db = Inr (GcWaiting what (look_due w),
    db\<lparr>td_waits := cancelled (gw_ms w) (mine n (starts_with replaces)) (td_waits db) @ [look_wait w n spec what (stay_started_at n db)]\<rparr>)"
  by (simp add: waiting_def record_github_wait_def Let_def cancel_waits_exact[OF assms(1)] create_event[OF assms(2)] stay_started_at_def)

lemma cleared_exact:
  assumes "distinct (map w_id (td_waits db))"
  shows "cleared found now n db = Inr (found, db\<lparr>td_waits := cancelled now (mine n (starts_with ''github:'')) (td_waits db)\<rparr>)"
  by (simp add: cleared_def cancel_github_waits_def cancel_waits_exact[OF assms])

lemma merge_look_early: "merge_look w releasing profiles prs acc = Inl found \<Longrightarrow> found = GcNothing \<or> unreadable found"
  by (induction w releasing profiles prs acc rule: merge_look.induct)
    (auto simp: Let_def unreadable_def split: sum.splits if_splits option.splits)

lemma ready_look_early: "ready_look w answered prs acc = Inl found \<Longrightarrow> unreadable found"
proof (induction prs arbitrary: acc)
  case (Cons pr prs)
  then show ?case by (cases "hb_snapshot w pr") (auto simp: Let_def unreadable_def split: if_splits)
qed simp

text \<open>How every look ends.\<close>

inductive look_ends :: "wait_world \<Rightarrow> uuid \<Rightarrow> 'a gate_db_scheme \<Rightarrow> 'a looked_db \<Rightarrow> bool" for w n db where
  "found = GcNothing \<or> unreadable found \<Longrightarrow> look_ends w n db (Inr (found, db))"
| "gw_profiles w = Inl e \<Longrightarrow> look_ends w n db (Inl e')"
| "found = GcClear \<or> (\<exists>what. found = GcFeedback what) \<Longrightarrow> look_ends w n db (cleared found (gw_ms w) n db)"
| "CHR '':'' \<in> set spec \<Longrightarrow> replaces \<in> {''github:pr:'', ''github:release:''} \<Longrightarrow> look_ends w n db (waiting w n spec replaces what db)"

lemma ends_unread: "look_ends w n db (Inr (GcNothing, db))" "look_ends w n db (Inr (GcUnreadable why, db))"
  by (simp_all add: look_ends.intros(1) unreadable_def)

lemma ends_cleared: "look_ends w n db (cleared GcClear (gw_ms w) n db)" "look_ends w n db (cleared (GcFeedback what) (gw_ms w) n db)"
  by (simp_all add: look_ends.intros(3))

lemma ends_waiting: "replaces = ''github:pr:'' \<or> replaces = ''github:release:'' \<Longrightarrow> CHR '':'' \<in> set spec \<Longrightarrow>
    look_ends w n db (waiting w n spec replaces what db)"
  by (simp add: look_ends.intros(4))

lemma look_merged_ends: "look_ends w n db (look_merged w n releasing db)"
proof -
  obtain prs unrecognized where links: "read_links n db = (prs, unrecognized)" by fastforce
  consider "prs = [] \<or> unrecognized \<noteq> [] \<or> \<not> gw_feed w" | e where "gw_profiles w = Inl e"
    | profiles where "\<not> (prs = [] \<or> unrecognized \<noteq> [])" "gw_feed w" "gw_profiles w = Inr profiles"
    by (cases "gw_profiles w") auto
  then show ?thesis
  proof cases
    case 1
    then show ?thesis by (auto simp: look_merged_def links ends_unread)
  next
    case 2
    then show ?thesis by (auto simp: look_merged_def links ends_unread look_ends.intros(2)[OF 2])
  next
    case (3 profiles)
    let ?look = "merge_look w releasing profiles prs (None, [])"
    show ?thesis
    proof (cases ?look)
      case (Inl found)
      then show ?thesis using 3 look_ends.intros(1)[OF merge_look_early[OF Inl]] by (simp add: look_merged_def links)
    next
      case (Inr acc)
      have spec: "CHR '':'' \<in> set RELEASE_WAIT_SPEC" "CHR '':'' \<in> set (merge_wait_spec k)" for k
        by (simp_all add: RELEASE_WAIT_SPEC_def merge_wait_spec_def)
      show ?thesis using 3 Inr
        by (cases acc; cases "fst acc"; cases "the (fst acc)") (auto simp: look_merged_def links spec intro: ends_cleared ends_waiting)
    qed
  qed
qed

lemma ready_ends: "look_ends w n db (check_ready_for_review w n db)"
proof -
  obtain prs unrecognized where links: "read_links n db = (prs, unrecognized)" by fastforce
  let ?look = "ready_look w (agent_answered_at n db) prs \<lparr>ra_pending = None, ra_standing = [], ra_feedback = []\<rparr>"
  show ?thesis
  proof (cases ?look)
    case (Inl found)
    then show ?thesis using ready_look_early[OF Inl] ends_unread
      by (auto simp: check_ready_for_review_def links intro: look_ends.intros(1))
  next
    case (Inr acc)
    then show ?thesis
      by (cases "ra_pending acc")
        (auto simp: check_ready_for_review_def links ends_unread intro: ends_cleared ends_waiting)
  qed
qed

lemma in_review_ends: "look_ends w n db (check_in_review w n db)"
proof -
  obtain prs unrecognized where links: "read_links n db = (prs, unrecognized)" by fastforce
  show ?thesis
  proof (cases "live_answered w (agent_answered_at n db) prs")
    case (Inl err)
    then show ?thesis by (simp add: check_in_review_def links ends_unread)
  next
    case (Inr live)
    obtain spec what where wait: "review_wait_of live = (spec, what)" by fastforce
    have "CHR '':'' \<in> set (review_spec k rs)" for k rs by (simp add: review_spec_def Let_def split: option.splits)
    moreover have "\<exists>k rs. spec = review_spec k rs" using wait unfolding review_wait_of_def Let_def prod.inject by blast
    ultimately have "CHR '':'' \<in> set spec" by blast
    then have "look_ends w n db (waiting w n spec ''github:pr:'' what db)" by (intro ends_waiting) simp_all
    then show ?thesis using Inr wait
      by (cases "overall live") (simp_all add: check_in_review_def links ends_unread ends_cleared)
  qed
qed

lemma look_ends_always: "look_ends w n db (look_at_github w n lifecycle db)"
  by (simp add: look_at_github_def look_merged_ends ready_ends in_review_ends ends_unread)

abbreviation is_read_spec :: "string \<Rightarrow> bool" where
  "is_read_spec spec \<equiv> ends_with '':read'' spec \<and> starts_with ''github:'' spec"

lemma cancelled_again:
  assumes "\<And>s. q s \<Longrightarrow> p s"
  shows "cancelled now (mine n q) (cancelled now (mine n p) ws) = cancelled now (mine n p) ws"
  using assms by (auto simp: cancelled_def is_pending_def)

lemma cancelled_either:
  "cancelled now (mine n q) (cancelled now (mine n p) ws @ [x]) =
     cancelled now (mine n (\<lambda>s. p s \<or> q s)) ws @ [if mine n q x then x\<lparr>w_state := ''cancelled'', w_updated := now\<rparr> else x]"
  by (auto simp: cancelled_def is_pending_def)

text \<open>C33: Every look at GitHub keeps the node's waits true to what it found, and touches nothing else. It fails only
  where the settings cannot be read; a look that could not read GitHub changes nothing; one that finds nothing
  to wait for ends every pending GitHub wait of the node; one that waits ends the last look's waits and any recorded
  failure and records one new pending wait with what it says, due at the next scheduled look (a new wait
  whose own name reads as a failure's is ended with them); otherwise only recorded failures end.\<close>
theorem check_github_waits:
  assumes "distinct (map w_id (td_waits db))" "gw_fresh w \<notin> w_id ` set (td_waits db)"
  shows "case check_github w n lifecycle db of
      Inl e \<Rightarrow> isl (gw_profiles w)
    | Inr (found, db') \<Rightarrow> db' = db\<lparr>td_waits := td_waits db'\<rparr> \<and>
       (case found of
          GcUnreadable why \<Rightarrow> td_waits db' = td_waits db
        | GcNothing \<Rightarrow> td_waits db' = cancelled (gw_ms w) (mine n is_read_spec) (td_waits db)
        | GcClear \<Rightarrow> td_waits db' = cancelled (gw_ms w) (mine n (starts_with ''github:'')) (td_waits db)
        | GcFeedback what \<Rightarrow> td_waits db' = cancelled (gw_ms w) (mine n (starts_with ''github:'')) (td_waits db)
        | GcWaiting what due \<Rightarrow> due = look_due w \<and> (\<exists>replaces \<in> {''github:pr:'', ''github:release:''}. \<exists>x.
            w_node x = n \<and> w_kind x = KIND_EVENT \<and> w_due x = due \<and> w_detail x = Some what
            \<and> w_state x = (if is_read_spec (w_spec x) then ''cancelled'' else WAIT_PENDING)
            \<and> td_waits db' = cancelled (gw_ms w) (mine n (\<lambda>s. starts_with replaces s \<or> is_read_spec s)) (td_waits db) @ [x]))"
proof -
  have "look_ends w n db (look_at_github w n lifecycle db)" by (rule look_ends_always)
  then show ?thesis
  proof cases
    case (1 found)
    then show ?thesis
      by (auto simp: check_github_def clear_read_failures_def cancel_waits_exact[OF assms(1)] unreadable_def split: github_check.splits)
  next
    case (2 e e')
    then show ?thesis by (simp add: check_github_def)
  next
    case (3 found)
    have "distinct (map w_id (cancelled (gw_ms w) (mine n (starts_with ''github:'')) (td_waits db)))" using assms(1) by simp
    moreover have "cancelled (gw_ms w) (mine n is_read_spec) (cancelled (gw_ms w) (mine n (starts_with ''github:'')) (td_waits db))
        = cancelled (gw_ms w) (mine n (starts_with ''github:'')) (td_waits db)" by (rule cancelled_again) simp
    ultimately show ?thesis using 3
      by (auto simp: check_github_def cleared_exact[OF assms(1)] clear_read_failures_def cancel_waits_exact unreadable_def)
  next
    case (4 spec replaces what)
    let ?x = "look_wait w n spec what (stay_started_at n db)"
    let ?ws = "cancelled (gw_ms w) (mine n (starts_with replaces)) (td_waits db)"
    let ?y = "if is_read_spec (w_spec ?x) then ?x\<lparr>w_state := ''cancelled'', w_updated := gw_ms w\<rparr> else ?x"
    have d: "distinct (map w_id (td_waits (db\<lparr>td_waits := ?ws @ [?x]\<rparr>)))" using assms by simp
    have m: "mine n is_read_spec ?x = is_read_spec (w_spec ?x)" using normalize_spec_canonical by (simp add: is_pending_def)
    have "check_github w n lifecycle db = Inr (GcWaiting what (look_due w), db\<lparr>td_waits :=
        cancelled (gw_ms w) (mine n is_read_spec) (?ws @ [?x])\<rparr>)"
      by (simp add: check_github_def 4(1) waiting_exact[OF assms(1) 4(2)] unreadable_def clear_read_failures_def cancel_waits_exact[OF d])
    moreover have "cancelled (gw_ms w) (mine n is_read_spec) (?ws @ [?x]) =
        cancelled (gw_ms w) (mine n (\<lambda>s. starts_with replaces s \<or> is_read_spec s)) (td_waits db) @ [?y]"
      by (subst cancelled_either[where q = is_read_spec and p = "starts_with replaces"]) (simp only: m)
    ultimately have done': "check_github w n lifecycle db = Inr (GcWaiting what (look_due w), db\<lparr>td_waits :=
        cancelled (gw_ms w) (mine n (\<lambda>s. starts_with replaces s \<or> is_read_spec s)) (td_waits db) @ [?y]\<rparr>)" by simp
    have y: "w_node ?y = n" "w_kind ?y = KIND_EVENT" "w_due ?y = look_due w" "w_detail ?y = Some what"
      "w_state ?y = (if is_read_spec (w_spec ?y) then ''cancelled'' else WAIT_PENDING)" by simp_all
    obtain y where found: "check_github w n lifecycle db = Inr (GcWaiting what (look_due w), db\<lparr>td_waits :=
        cancelled (gw_ms w) (mine n (\<lambda>s. starts_with replaces s \<or> is_read_spec s)) (td_waits db) @ [y]\<rparr>)"
      and "w_node y = n" "w_kind y = KIND_EVENT" "w_due y = look_due w" "w_detail y = Some what"
      "w_state y = (if is_read_spec (w_spec y) then ''cancelled'' else WAIT_PENDING)"
      using done' y by blast
    then show ?thesis using 4(3) unfolding found by fastforce
  qed
qed

text \<open>A person called \<open>read\<close> asked for a review: the wait for it is taken for a failure and ended as it is made.\<close>

lemma review_wait_lost: "is_read_spec (normalize_spec (review_spec (Some 5) [''read'']))"
  by code_simp

definition sample_world :: wait_world where
  "sample_world = \<lparr>hb_client = True, hb_status = (\<lambda>_. Inl ''offline''), hb_snapshot = (\<lambda>_. Inl ''offline''), hb_reviews = (\<lambda>_. Inl ''offline''),
     hb_rfc = (\<lambda>_. None), hb_settings = \<lparr>rs_bots = [], rs_max_thread_rounds = 3, rs_max_rounds = 4\<rparr>, hb_now = 0,
     hb_review_steps = (\<lambda>_. False), hb_agent = (\<lambda>_. None), hb_files = (\<lambda>_. None), hb_file_sha = (\<lambda>_. None),
     hb_digest = (\<lambda>_. ''d''), hb_fixes = (\<lambda>_. None), gw_feed = True,
     gw_merge = (\<lambda>_. Inr \<lparr>mg_title = ''t'', mg_merged = False, mg_merged_at = None\<rparr>), gw_releases = (\<lambda>_. Inr []), gw_profiles = Inr [],
     gw_schedule = \<lparr>sc_utc_offset_minutes = Some 0, sc_start_hour = 8, sc_end_hour = 19, sc_weekdays_only = True,
       sc_interval_minutes = 5, sc_off_hours_minutes = 240\<rparr>,
     gw_local = 0, gw_ms = 0, gw_fresh = 9\<rparr>"

theorem check_github_waits_witness:
  "case check_github sample_world 7 ''approved'' sample_gate of Inl e \<Rightarrow> False
   | Inr (found, db') \<Rightarrow> db' = sample_gate\<lparr>td_waits := td_waits db'\<rparr>"
proof -
  have "distinct (map w_id (td_waits sample_gate))" "gw_fresh sample_world \<notin> w_id ` set (td_waits sample_gate)"
    and settings: "\<not> isl (gw_profiles sample_world)"
    by (simp_all add: sample_gate_def sample_world_def)
  from check_github_waits[OF this(1,2), of 7 "''approved''"] settings show ?thesis by (auto split: sum.splits)
qed

section \<open>Looking again\<close>

text \<open>The delay before the next look grows with the failures in a row from half a minute to ten minutes.\<close>
theorem retry_delay_bounds:
  "30000 \<le> retry_delay_ms attempt \<and> retry_delay_ms attempt \<le> 600000 \<and> retry_delay_ms attempt \<le> retry_delay_ms (Suc attempt)
   \<and> (retry_delay_ms attempt = retry_delay_ms (Suc attempt)) = (5 \<le> attempt)"
proof -
  have cases: "attempt \<in> {0, 1, 2, 3, 4} \<or> 5 \<le> attempt" by auto
  then show ?thesis
  proof
    assume "5 \<le> attempt"
    then have "attempt = 5 \<or> min attempt 6 = 6 \<and> min (Suc attempt) 6 = 6" by auto
    then show ?thesis using \<open>5 \<le> attempt\<close> by (auto simp: retry_delay_ms_def)
  qed (auto simp: retry_delay_ms_def)
qed

definition read_wait :: "wait_world \<Rightarrow> uuid \<Rightarrow> bool \<Rightarrow> 'a gate_db_scheme \<Rightarrow> wait option" where
  "read_wait w n releasing db = find (\<lambda>x. w_spec x = read_wait_spec releasing) (list_pending_for_node n (td_waits db))"

lemma record_failure_at:
  assumes "distinct (map w_id ws)" "y \<in> set ws" "is_pending y" "m = unwrap_or DEFAULT_MAX_ATTEMPTS (w_max y)"
    and "x = y\<lparr>w_attempt := (case retry of Some _ \<Rightarrow> min (w_attempt y + 1) m | None \<Rightarrow> m), w_max := Some m, w_error := Some err,
           w_due := unwrap_or (w_due y) retry, w_updated := now\<rparr>"
  shows "\<exists>ws'. record_failure now (w_id y) err retry ws = Inr (x, ws') \<and> x \<in> set ws'"
proof -
  have "get_wait (w_id y) ws = Some y"
    using assms(1,2) unfolding get_wait_def by (intro find_the) (auto simp: distinct_map dest: inj_onD)
  then show ?thesis using assms(2-5) by (force simp: record_failure_def Let_def is_pending_def)
qed

lemma failure_wait_at:
  assumes "distinct (map w_id (td_waits db))" "gw_fresh w \<notin> w_id ` set (td_waits db)"
  shows "\<exists>y ws. failure_wait w n releasing db = Inr (w_id y, w_attempt y, ws) \<and> distinct (map w_id ws) \<and> y \<in> set ws \<and> w_node y = n
    \<and> is_pending y \<and> w_spec y = read_wait_spec releasing
    \<and> w_attempt y = (case read_wait w n releasing db of None \<Rightarrow> 0 | Some x \<Rightarrow> w_attempt x)
    \<and> unwrap_or DEFAULT_MAX_ATTEMPTS (w_max y)
      = (case read_wait w n releasing db of None \<Rightarrow> DEFAULT_MAX_ATTEMPTS | Some x \<Rightarrow> unwrap_or DEFAULT_MAX_ATTEMPTS (w_max x))"
proof (cases "read_wait w n releasing db")
  case None
  have spec: "CHR '':'' \<in> set (read_wait_spec releasing)" "normalize_spec (read_wait_spec releasing) = read_wait_spec releasing"
    by (cases releasing; simp add: read_wait_spec_def; code_simp)+
  let ?y = "\<lparr>w_id = gw_fresh w, w_node = n, w_kind = KIND_EVENT, w_spec = read_wait_spec releasing, w_every = None,
     w_due = gw_ms w + retry_delay_ms 0, w_state = WAIT_PENDING, w_created = gw_ms w, w_updated = gw_ms w,
     w_detail = Some ''a look at GitHub'', w_attempt = 0, w_max = None, w_error = None, w_stay = stay_started_at n db\<rparr>"
  show ?thesis using None assms
    by (intro exI[of _ ?y] exI[of _ "td_waits db @ [?y]"])
      (simp add: failure_wait_def read_wait_def create_event[OF spec(1)] spec(2) is_pending_def)
next
  case (Some x)
  then have "x \<in> set (list_pending_for_node n (td_waits db)) \<and> w_spec x = read_wait_spec releasing"
    unfolding read_wait_def by (rule find_Some_in)
  then show ?thesis using Some assms by (auto simp: failure_wait_def read_wait_def list_pending_for_node_def query_waits_def)
qed

text \<open>C34: A failed look is never dropped: the failure is recorded, with its error, on one pending wait of the node
  (made if there is none), counted up to five, and the run waits to look again after the growing delay
  exactly while the failure may pass and tries remain; otherwise it stops with the error.\<close>
theorem failed_look_counts:
  assumes "distinct (map w_id (td_waits db))" "gw_fresh w \<notin> w_id ` set (td_waits db)"
    and attempt: "attempt = (case read_wait w n releasing db of None \<Rightarrow> 0 | Some x \<Rightarrow> w_attempt x)"
    and limit: "limit = (case read_wait w n releasing db of None \<Rightarrow> DEFAULT_MAX_ATTEMPTS | Some x \<Rightarrow> unwrap_or DEFAULT_MAX_ATTEMPTS (w_max x))"
  shows "\<exists>out db' x. github_look_failed w n releasing error db = Inr (out, db') \<and> db' = db\<lparr>td_waits := td_waits db'\<rparr>
     \<and> x \<in> set (td_waits db') \<and> w_node x = n \<and> is_pending x \<and> w_spec x = read_wait_spec releasing \<and> w_error x = Some error
     \<and> w_attempt x = (if is_transient_message error then min (attempt + 1) limit else limit)
     \<and> (if is_transient_message error \<and> attempt + 1 < limit
        then w_due x = gw_ms w + retry_delay_ms attempt \<and> (\<exists>what. out = OWaiting what (w_due x))
        else out = OStopped (FAILED_PREFIX @ ''GitHub could not be read: '' @ error))"
proof -
  from failure_wait_at[OF assms(1,2)] obtain y ws where f: "failure_wait w n releasing db = Inr (w_id y, w_attempt y, ws)"
    and y: "distinct (map w_id ws)" "y \<in> set ws" "w_node y = n" "is_pending y" "w_spec y = read_wait_spec releasing"
    and a: "w_attempt y = attempt" and m: "unwrap_or DEFAULT_MAX_ATTEMPTS (w_max y) = limit"
    unfolding attempt limit by metis
  let ?retry = "if is_transient_message error then Some (gw_ms w + retry_delay_ms attempt) else None"
  let ?x = "y\<lparr>w_attempt := (case ?retry of Some _ \<Rightarrow> min (w_attempt y + 1) limit | None \<Rightarrow> limit), w_max := Some limit,
    w_error := Some error, w_due := unwrap_or (w_due y) ?retry, w_updated := gw_ms w\<rparr>"
  from record_failure_at[OF y(1,2,4) m[symmetric] refl] obtain ws' where
    r: "record_failure (gw_ms w) (w_id y) error ?retry ws = Inr (?x, ws')" "?x \<in> set ws'" by blast
  have ex: "exhausted ?x \<longleftrightarrow> \<not> (is_transient_message error \<and> attempt + 1 < limit)"
    using a by (auto simp: exhausted_def min_def)
  have look: "\<exists>out. github_look_failed w n releasing error db = Inr (out, db\<lparr>td_waits := ws'\<rparr>)
     \<and> (if is_transient_message error \<and> attempt + 1 < limit
        then \<exists>what. out = OWaiting what (gw_ms w + retry_delay_ms attempt)
        else out = OStopped (FAILED_PREFIX @ ''GitHub could not be read: '' @ error))"
    using f r(1) a ex by (auto simp: github_look_failed_def Let_def split: bool.splits option.splits)
  then obtain out where "github_look_failed w n releasing error db = Inr (out, db\<lparr>td_waits := ws'\<rparr>)"
    and "if is_transient_message error \<and> attempt + 1 < limit
        then \<exists>what. out = OWaiting what (gw_ms w + retry_delay_ms attempt)
        else out = OStopped (FAILED_PREFIX @ ''GitHub could not be read: '' @ error)" by blast
  then show ?thesis using r(2) y a by (intro exI[of _ out] exI[of _ "db\<lparr>td_waits := ws'\<rparr>"] exI[of _ ?x]) (auto simp: is_pending_def)
qed

theorem failed_look_counts_witness:
  "\<exists>what db'. github_look_failed sample_world 7 False ''GitHub is unavailable (502)'' sample_gate = Inr (OWaiting what 30000, db')
     \<and> (\<exists>x \<in> set (td_waits db'). w_attempt x = 1 \<and> is_pending x)"
proof -
  have "distinct (map w_id (td_waits sample_gate))" "gw_fresh sample_world \<notin> w_id ` set (td_waits sample_gate)"
    and ms: "gw_ms sample_world = 0" by (simp_all add: sample_gate_def sample_world_def)
  note counts = failed_look_counts[OF this(1,2) refl refl, of 7 False "''GitHub is unavailable (502)''"]
  have "read_wait sample_world 7 False sample_gate = None"
    by (simp add: read_wait_def list_pending_for_node_def query_waits_def sample_gate_def)
  moreover have "is_transient_message ''GitHub is unavailable (502)''" by code_simp
  moreover have "retry_delay_ms 0 = 30000" by (simp add: retry_delay_ms_def)
  ultimately show ?thesis using counts ms by (auto simp: DEFAULT_MAX_ATTEMPTS_def)
qed

section \<open>Checking now\<close>

lemma cleared_keeps: "cleared found now n db = Inr (f, db') \<Longrightarrow> \<exists>ws. db' = db\<lparr>td_waits := ws\<rparr>"
  by (auto simp: cleared_def cancel_github_waits_def cancel_waits_def split: sum.splits)

lemma waiting_keeps: "waiting w n spec replaces what db = Inr (f, db') \<Longrightarrow> \<exists>ws. db' = db\<lparr>td_waits := ws\<rparr>"
  by (auto simp: waiting_def record_github_wait_def cancel_waits_def Let_def split: sum.splits prod.splits)

lemma check_github_keeps:
  assumes "check_github w n lifecycle db = Inr (f, db')"
  shows "\<exists>ws. db' = db\<lparr>td_waits := ws\<rparr>"
proof -
  from assms obtain db1 where look: "look_at_github w n lifecycle db = Inr (f, db1)"
    and done': "db' = db1 \<or> clear_read_failures (gw_ms w) n db1 = Inr db'"
    by (auto simp: check_github_def split: sum.splits if_splits)
  have "\<exists>ws. db1 = db\<lparr>td_waits := ws\<rparr>"
    using look_ends_always[of w n db lifecycle] unfolding look
  proof cases
    case 1
    then show ?thesis by (intro exI[of _ "td_waits db"]) simp
  qed (use cleared_keeps waiting_keeps in \<open>metis+\<close>)
  then obtain ws where ws: "db1 = db\<lparr>td_waits := ws\<rparr>" by blast
  have "\<exists>ws'. db' = db1\<lparr>td_waits := ws'\<rparr>" using done'
  proof
    assume "db' = db1"
    then show ?thesis by (intro exI[of _ "td_waits db1"]) simp
  qed (auto simp: clear_read_failures_def cancel_waits_def split: sum.splits)
  then show ?thesis by (auto simp: ws)
qed

lemma look_before_keeps: "look_before w n from db = Inr (f, db') \<Longrightarrow> \<exists>ws. db' = db\<lparr>td_waits := ws\<rparr>"
proof (cases "from = ''pr_draft''")
  case False
  then show "look_before w n from db = Inr (f, db') \<Longrightarrow> ?thesis" by (auto simp: look_before_def intro: exI[of _ "td_waits db"])
qed (auto simp: look_before_def dest: check_github_keeps split: sum.splits)

lemma look_after_keeps: "look_after w n from github db = Inr (f, db') \<Longrightarrow> td_stays db' = td_stays db"
  by (auto simp: look_after_def Let_def dest!: check_github_keeps split: sum.splits if_splits)

lemma advance_to:
  assumes "next_lifecycle (current_state n db) = Some to" "advance now n db = Inr (advanced, db')"
  shows "advanced = Some to \<and> get_lifecycle n db' = Some to"
  using assms by (auto simp: advance_def apply_gate_mutation_def dest!: set_lifecycle_rows(1) split: sum.splits)



section \<open>References in release notes\<close>

abbreviation occurs :: "string \<Rightarrow> bool \<Rightarrow> char option \<Rightarrow> string \<Rightarrow> bool" where
  "occurs needle bare before s \<equiv>
     \<exists>pre post. s = pre @ needle @ post \<and> bounded bare (if pre = [] then before else Some (last pre)) post"

text \<open>A needle whose first character comes only once cannot overlap itself.\<close>

lemma no_overlap:
  assumes "c0 \<notin> set ds" "(c0 # ds) @ rest = pre @ (c0 # ds) @ post" "pre \<noteq> []"
  shows "\<exists>pre'. pre = (c0 # ds) @ pre' \<and> rest = pre' @ (c0 # ds) @ post"
proof -
  obtain pre1 where pre: "pre = c0 # pre1" using assms(2,3) by (cases pre) auto
  with assms(2) have eq: "ds @ rest = pre1 @ c0 # ds @ post" by simp
  then consider us where "ds = pre1 @ us" "us @ rest = c0 # ds @ post" | us where "ds @ us = pre1" "rest = us @ c0 # ds @ post"
    unfolding append_eq_append_conv2 by blast
  then show ?thesis
  proof cases
    case 1
    then have "us = []" using assms(1) by (cases us) auto
    then show ?thesis using 1 pre by simp
  next
    case 2
    then show ?thesis using pre by auto
  qed
qed

lemma refers_from_occurs:
  assumes "c0 \<notin> set ds" "needle = c0 # ds"
  shows "refers_from needle bare before s \<longleftrightarrow> occurs needle bare before s"
  using assms
proof (induction needle bare before s rule: refers_from.induct)
  case (1 needle bare before)
  then show ?case by simp
next
  case (2 needle bare before c cs)
  show ?case
  proof (cases "starts_with needle (c # cs)")
    case True
    then obtain rest where rest: "c # cs = needle @ rest" by (auto simp: starts_with_iff)
    then have dr: "drop (length needle - 1) cs = rest" "drop (length needle) (c # cs) = rest" using 2(4) by simp_all
    have last': "last (c # needle) = last needle" using 2(4) by simp
    have ih: "refers_from needle bare (Some (last needle)) rest \<longleftrightarrow> occurs needle bare (Some (last needle)) rest"
      using 2(1)[OF True 2(3,4)] unfolding dr last' .
    have "occurs needle bare before (c # cs) \<longleftrightarrow> bounded bare before rest \<or> occurs needle bare (Some (last needle)) rest"
    proof
      assume "occurs needle bare before (c # cs)"
      then obtain pre post where o: "needle @ rest = pre @ needle @ post" "bounded bare (if pre = [] then before else Some (last pre)) post"
        unfolding rest by blast
      show "bounded bare before rest \<or> occurs needle bare (Some (last needle)) rest"
      proof (cases "pre = []")
        case False
        then obtain pre' where "pre = needle @ pre'" "rest = pre' @ needle @ post"
          using no_overlap[OF 2(3)] o(1) unfolding 2(4) by blast
        moreover have "last (needle @ pre') = (if pre' = [] then last needle else last pre')" by simp
        ultimately have "rest = pre' @ needle @ post \<and> bounded bare (if pre' = [] then Some (last needle) else Some (last pre')) post"
          using o(2) False by (simp split: if_splits)
        then show ?thesis by blast
      qed (use o in simp)
    next
      assume "bounded bare before rest \<or> occurs needle bare (Some (last needle)) rest"
      then show "occurs needle bare before (c # cs)"
      proof
        assume "bounded bare before rest"
        then show ?thesis unfolding rest by (intro exI[of _ "[]"] exI[of _ rest]) simp
      next
        assume "occurs needle bare (Some (last needle)) rest"
        then obtain pre post where "rest = pre @ needle @ post" "bounded bare (if pre = [] then Some (last needle) else Some (last pre)) post" by blast
        moreover have "needle @ pre \<noteq> []" "last (needle @ pre) = (if pre = [] then last needle else last pre)"
          using 2(4) by auto
        ultimately show ?thesis unfolding rest
          by (intro exI[of _ "needle @ pre"] exI[of _ post]) (simp split: if_splits)
      qed
    qed
    then show ?thesis using True ih dr last' by simp
  next
    case False
    have ih: "refers_from needle bare (Some c) cs \<longleftrightarrow> occurs needle bare (Some c) cs" by (rule 2(2)[OF False 2(3,4)])
    have "occurs needle bare before (c # cs) \<longleftrightarrow> occurs needle bare (Some c) cs"
    proof
      assume "occurs needle bare before (c # cs)"
      then obtain pre post where o: "c # cs = pre @ needle @ post" "bounded bare (if pre = [] then before else Some (last pre)) post" by blast
      have "pre \<noteq> []" using False o(1) by (metis append_Nil starts_with_append)
      then obtain pre' where "pre = c # pre'" using o(1) by (cases pre) auto
      then show "occurs needle bare (Some c) cs" using o by (intro exI[of _ pre'] exI[of _ post]) (auto split: if_splits)
    next
      assume "occurs needle bare (Some c) cs"
      then obtain pre post where "cs = pre @ needle @ post" "bounded bare (if pre = [] then Some c else Some (last pre)) post" by blast
      then show "occurs needle bare before (c # cs)" by (intro exI[of _ "c # pre"] exI[of _ post]) (auto split: if_splits)
    qed
    then show ?thesis using False ih by simp
  qed
qed

lemma show_int_no_hash: "CHR 0x23 \<notin> set (show_int n)"
proof -
  have "CHR 0x23 \<notin> set (show_nat k)" for k using show_nat_digits[of k] by (auto simp: list_all_iff is_digit_def)
  then show ?thesis by (simp add: show_int_def)
qed

text \<open>A release names a pull request by its number exactly when its notes hold \<^verbatim>\<open>#n\<close> as a whole reference:
  somewhere the text reads \<^verbatim>\<open>#n\<close> with no digit after it and neither a letter or digit, nor \<^verbatim>\<open>/\<close>, nor \<^verbatim>\<open>#\<close> before it.\<close>
theorem number_reference_exact:
  "refers_to text (CHR 0x23 # show_int n) True =
    (\<exists>pre post. text = pre @ (CHR 0x23 # show_int n) @ post
       \<and> (post = [] \<or> is_digit (hd post) = False)
       \<and> (pre = [] \<or> (ascii_alnum (last pre) = False \<and> last pre \<noteq> CHR 0x2F \<and> last pre \<noteq> CHR 0x23)))"
proof -
  have free: "CHR 0x23 \<notin> set (show_int n)" by (rule show_int_no_hash)
  have "bounded True (if pre = [] then None else Some (last pre)) post \<longleftrightarrow>
      (post = [] \<or> is_digit (hd post) = False) \<and> (pre = [] \<or> (ascii_alnum (last pre) = False \<and> last pre \<noteq> CHR 0x2F \<and> last pre \<noteq> CHR 0x23))"
    for pre post by (cases post) (auto simp: bounded_def)
  then show ?thesis unfolding refers_to_def refers_from_occurs[OF free refl] by blast
qed

end
