(* ===== verification/Slugs.thy ===== *)
theory Slugs
  imports Prelude
begin

text \<open>
  The slug a node is known by (\<^verbatim>\<open>tod-store/src/outline/slug.rs\<close>), the node rows that carry it
  (\<^verbatim>\<open>nodes\<close>, with the constraints of \<^verbatim>\<open>outline/ddl.rs\<close> and the part of \<^verbatim>\<open>NodeRepo\<close> that reads and writes
  them), and that a slug allocated for a new node always satisfies those constraints.
\<close>

section \<open>Slugs\<close>

definition SLUG_MAX_LEN :: nat where "SLUG_MAX_LEN = 40"

definition is_lower :: "char \<Rightarrow> bool" where
  "is_lower c = (97 \<le> (of_char c :: nat) \<and> (of_char c :: nat) \<le> 122)"

definition is_upper :: "char \<Rightarrow> bool" where
  "is_upper c = (65 \<le> (of_char c :: nat) \<and> (of_char c :: nat) \<le> 90)"

definition ascii_alphanumeric :: "char \<Rightarrow> bool" where
  "ascii_alphanumeric c = (is_lower c \<or> is_upper c \<or> is_digit c)"

text \<open>The loop of \<^verbatim>\<open>slugify\<close>. Of a character outside ASCII every byte is a separator, and a run of
  separators gives one dash, so reading bytes gives what reading characters does.\<close>

fun slug_chars :: "bool \<Rightarrow> string \<Rightarrow> string" where
  "slug_chars prev_sep [] = []"
| "slug_chars prev_sep (c # s) =
     (if ascii_alphanumeric c \<or> c = CHR ''_'' then c # slug_chars False s
      else if \<not> prev_sep then CHR ''-'' # slug_chars True s
      else slug_chars True s)"

definition slugify :: "string \<Rightarrow> string" where
  "slugify s = trim_char (CHR ''-'') (trim_char (CHR ''_'') (trim_char (CHR ''-'')
     (slug_chars False (lower (trim s)))))"

text \<open>\<^verbatim>\<open>remainder[..n]\<close> panics inside a character; the one caller with a ticket is a test, and the
  slice is only compared with ASCII, so the model compares bytes.\<close>

fun strip_ticket :: "string list \<Rightarrow> string \<Rightarrow> string" where
  "strip_ticket [] r = r"
| "strip_ticket (p # ps) r =
     (if length p \<le> length r \<and> eq_ignore_case (take (length p) r) p
      then trim (trim_start_char (CHR 0x3A) (trim_start_char (CHR ''-'') (trim (drop (length p) r))))
      else strip_ticket ps r)"

definition title_part_for_slug :: "string \<Rightarrow> string option \<Rightarrow> string" where
  "title_part_for_slug title ticket =
     slugify (case opt_filter (\<lambda>t. t \<noteq> []) ticket of
        None \<Rightarrow> trim title
      | Some t \<Rightarrow> strip_ticket [''linear issue '' @ t, ''linear issue '' @ lower t, t, lower t] (trim title))"

definition truncate_slug :: "string \<Rightarrow> string" where
  "truncate_slug s =
     (if length s \<le> SLUG_MAX_LEN then s
      else trim_end_char (CHR ''_'') (trim_end_char (CHR ''-'') (take SLUG_MAX_LEN s)))"

definition derive_node_slug :: "string \<Rightarrow> string option \<Rightarrow> string" where
  "derive_node_slug title ticket =
     (let part = title_part_for_slug title ticket
      in truncate_slug (case opt_filter (\<lambda>t. t \<noteq> []) ticket of
           Some t \<Rightarrow> if part = [] then slugify t else slugify t @ ''-'' @ part
         | None \<Rightarrow> if part = [] then ''untitled'' else part))"

definition truncate_for_suffix :: "string \<Rightarrow> string \<Rightarrow> string" where
  "truncate_for_suffix base suffix =
     (let max_base = SLUG_MAX_LEN - length suffix;
          trimmed = (if length base \<le> max_base then base
                     else trim_end_char (CHR ''_'') (trim_end_char (CHR ''-'') (take max_base base)))
      in truncate_slug (trimmed @ suffix))"

section \<open>Node rows\<close>

record node_row =
  nd_id :: uuid
  nd_slug :: string
  nd_title :: string
  nd_created :: ms
  nd_updated :: ms

type_synonym node_rows = "node_row list"

text \<open>\<^verbatim>\<open>lower\<close> of SQLite folds ASCII only, as \<^verbatim>\<open>to_ascii_lowercase\<close> does.\<close>

definition get_node :: "uuid \<Rightarrow> node_rows \<Rightarrow> node_row option" where
  "get_node i ns = find (\<lambda>n. nd_id n = i) ns"

definition get_by_slug :: "string \<Rightarrow> node_rows \<Rightarrow> node_row option" where
  "get_by_slug slug ns = find (\<lambda>n. lower (nd_slug n) = lower slug) ns"

definition insert_node :: "node_row \<Rightarrow> node_rows \<Rightarrow> node_rows fallible" where
  "insert_node row ns =
     (if nd_id row \<in> nd_id ` set ns then Inl ''UNIQUE constraint failed: nodes.id''
      else if SLUG_MAX_LEN < length (nd_slug row) then Inl ''CHECK constraint failed: length(slug) <= 40''
      else if lower (nd_slug row) \<in> (lower \<circ> nd_slug) ` set ns
      then Inl ''UNIQUE constraint failed: index idx_nodes_slug_folded''
      else Inr (ns @ [row]))"

definition create_with_id :: "ms \<Rightarrow> uuid \<Rightarrow> string \<Rightarrow> string \<Rightarrow> node_rows \<Rightarrow> (node_row \<times> node_rows) fallible" where
  "create_with_id now i slug title ns =
     (let row = \<lparr>nd_id = i, nd_slug = slug, nd_title = title, nd_created = now, nd_updated = now\<rparr>
      in (case insert_node row ns of Inl e \<Rightarrow> Inl e | Inr ns' \<Rightarrow> Inr (row, ns')))"

definition update_title :: "ms \<Rightarrow> uuid \<Rightarrow> string \<Rightarrow> node_rows \<Rightarrow> node_rows" where
  "update_title now i title ns =
     map (\<lambda>n. if nd_id n = i then n\<lparr>nd_title := title, nd_updated := now\<rparr> else n) ns"

definition slug_taken :: "string \<Rightarrow> uuid option \<Rightarrow> node_rows \<Rightarrow> bool" where
  "slug_taken slug exclude ns =
     (case (get_by_slug slug ns, exclude) of
        (Some n, Some i) \<Rightarrow> nd_id n \<noteq> i
      | (Some n, None) \<Rightarrow> True
      | (None, _) \<Rightarrow> False)"

text \<open>\<^verbatim>\<open>for n in 2..=999\<close>.\<close>

fun first_free :: "string \<Rightarrow> uuid option \<Rightarrow> node_rows \<Rightarrow> nat list \<Rightarrow> string option" where
  "first_free base exclude ns [] = None"
| "first_free base exclude ns (k # ks) =
     (let candidate = truncate_for_suffix base (''-'' @ show_nat k)
      in if \<not> slug_taken candidate exclude ns then Some candidate else first_free base exclude ns ks)"

definition allocate_unique_slug :: "string \<Rightarrow> uuid option \<Rightarrow> node_rows \<Rightarrow> string fallible" where
  "allocate_unique_slug base0 exclude ns =
     (let base = truncate_slug base0
      in if \<not> slug_taken base exclude ns then Inr base
         else (case first_free base exclude ns [2..<1000] of
                 Some s \<Rightarrow> Inr s
               | None \<Rightarrow> Inl (''could not allocate unique slug for '' @ base)))"

section \<open>What a slug looks like\<close>

definition slug_char :: "char \<Rightarrow> bool" where
  "slug_char c = (is_lower c \<or> is_digit c \<or> c = CHR ''_'' \<or> c = CHR ''-'')"

lemma lower_not_upper: "\<not> is_upper (ascii_lower c)"
  by (cases "is_upper c") (auto simp: is_upper_def ascii_lower_def of_char_of)

lemma slug_chars_are: "list_all (\<lambda>c. \<not> is_upper c) s \<Longrightarrow> list_all slug_char (slug_chars b s)"
  by (induction b s rule: slug_chars.induct) (auto simp: slug_char_def ascii_alphanumeric_def)

lemma trim_char_all: "list_all P s \<Longrightarrow> list_all P (trim_end_char c s)" "list_all P s \<Longrightarrow> list_all P (trim_char c s)"
  by (auto simp: trim_char_def trim_end_char_def trim_start_char_def list_all_iff dest!: set_dropWhileD)

lemma trim_end_char_take: "\<exists>k. trim_end_char c s = take k s"
proof -
  have "\<exists>k. dropWhile (\<lambda>x. x = c) (rev s) = drop k (rev s)"
    by (metis dropWhile_eq_drop)
  then show ?thesis by (auto simp: trim_end_char_def rev_drop)
qed

lemma trim_end_char_length: "length (trim_end_char c s) \<le> length s"
  using trim_end_char_take[of c s] by auto

lemma slugify_chars: "list_all slug_char (slugify s)"
  unfolding slugify_def
  by (intro trim_char_all slug_chars_are) (simp add: lower_def list_all_iff lower_not_upper)

lemma truncate_slug_length: "length (truncate_slug s) \<le> SLUG_MAX_LEN"
  unfolding truncate_slug_def
  using order.trans[OF trim_end_char_length trim_end_char_length, of "CHR ''_''" "CHR ''-''" "take SLUG_MAX_LEN s"]
  by auto

lemma truncate_slug_id: "length s \<le> SLUG_MAX_LEN \<Longrightarrow> truncate_slug s = s"
  by (simp add: truncate_slug_def)

section \<open>Properties\<close>

abbreviation folded_slugs :: "node_rows \<Rightarrow> string list" where
  "folded_slugs ns \<equiv> map (\<lambda>n. lower (nd_slug n)) ns"

lemma slug_free:
  assumes "\<not> slug_taken slug (Some i) ns" "i \<notin> nd_id ` set ns"
  shows "lower slug \<notin> set (folded_slugs ns)"
proof
  assume "lower slug \<in> set (folded_slugs ns)"
  then obtain n where "find (\<lambda>n. lower (nd_slug n) = lower slug) ns = Some n"
    by (auto simp: find_None_iff dest: not_None_eq[THEN iffD1, rotated])
       (metis (mono_tags, lifting) find_None_iff not_None_eq)
  then show False
    using assms find_Some_in[of _ ns n] by (auto simp: slug_taken_def get_by_slug_def)
qed

lemma slug_taken_in: "slug_taken slug ex ns \<Longrightarrow> lower slug \<in> set (folded_slugs ns)"
  by (force simp: slug_taken_def get_by_slug_def dest!: find_Some_in split: option.splits)

lemma first_free_None:
  "first_free base ex ns ks = None \<Longrightarrow> k \<in> set ks \<Longrightarrow> slug_taken (truncate_for_suffix base (''-'' @ show_nat k)) ex ns"
  by (induction ks) (auto simp: Let_def split: if_splits)

lemma first_free_Some:
  "first_free base ex ns ks = Some s \<Longrightarrow> \<exists>k. s = truncate_for_suffix base (''-'' @ show_nat k) \<and> \<not> slug_taken s ex ns"
  by (induction ks) (auto simp: Let_def split: if_splits)

lemma truncate_for_suffix_length: "length (truncate_for_suffix base suf) \<le> SLUG_MAX_LEN"
  by (simp add: truncate_for_suffix_def Let_def truncate_slug_length)

text \<open>A suffix of at most 40 characters is kept whole.\<close>

lemma truncate_for_suffix_ends:
  assumes "length suf \<le> SLUG_MAX_LEN"
  shows "\<exists>t. truncate_for_suffix base suf = t @ suf"
proof -
  define m where "m = SLUG_MAX_LEN - length suf"
  define t where "t = (if length base \<le> m then base
                     else trim_end_char (CHR ''_'') (trim_end_char (CHR ''-'') (take m base)))"
  have "length t \<le> m"
    unfolding t_def
    using order.trans[OF trim_end_char_length trim_end_char_length, of "CHR ''_''" "CHR ''-''" "take m base"]
    by auto
  then have "length (t @ suf) \<le> SLUG_MAX_LEN" using assms by (simp add: m_def)
  then show ?thesis
    unfolding truncate_for_suffix_def Let_def m_def[symmetric] t_def[symmetric]
    by (auto simp: truncate_slug_id)
qed

lemma digit_lower: "is_digit c \<Longrightarrow> ascii_lower c = c"
  by (auto simp: is_digit_def ascii_lower_def)

lemma lower_digits: "list_all is_digit s \<Longrightarrow> lower s = s"
  by (induction s) (simp_all add: lower_def digit_lower)

lemma show_nat_inj: "show_nat a = show_nat b \<Longrightarrow> a = b"
  by (metis digits_value_show_nat)

text \<open>Reading back what follows the last dash.\<close>

definition after_dash :: "string \<Rightarrow> string" where
  "after_dash s = rev (takeWhile (\<lambda>c. c \<noteq> CHR ''-'') (rev s))"

lemma after_dash_number: "after_dash (lower (t @ ''-'' @ show_nat k)) = show_nat k"
proof -
  have "list_all (\<lambda>c. c \<noteq> CHR ''-'') (show_nat k)"
    using show_nat_digits[of k] by (auto simp: list_all_iff is_digit_def)
  then have "takeWhile (\<lambda>c. c \<noteq> CHR ''-'') (rev (show_nat k) @ CHR ''-'' # r) = rev (show_nat k)" for r
    by (subst takeWhile_append2) (auto simp: list_all_iff)
  moreover have "lower (t @ ''-'' @ show_nat k) = lower t @ ''-'' @ show_nat k"
    using lower_digits[OF show_nat_digits[of k]] by (simp add: lower_def ascii_lower_def)
  ultimately show ?thesis by (simp add: after_dash_def)
qed

lemma show_nat_short: "k < 1000 \<Longrightarrow> length (show_nat k) \<le> 3"
  by (subst show_nat.simps, subst show_nat.simps, subst show_nat.simps) simp

lemma candidates_distinct:
  "inj_on (\<lambda>k. lower (truncate_for_suffix base (''-'' @ show_nat k))) {2..<1000}"
proof (rule inj_onI)
  fix a b :: nat
  assume ab: "a \<in> {2..<1000}" "b \<in> {2..<1000}"
    and eq: "lower (truncate_for_suffix base (''-'' @ show_nat a)) = lower (truncate_for_suffix base (''-'' @ show_nat b))"
  have fits: "length (''-'' @ show_nat k) \<le> SLUG_MAX_LEN" if "k \<in> {2..<1000}" for k
    using that show_nat_short[of k] by (simp add: SLUG_MAX_LEN_def)
  obtain t u where "truncate_for_suffix base (''-'' @ show_nat a) = t @ ''-'' @ show_nat a"
      "truncate_for_suffix base (''-'' @ show_nat b) = u @ ''-'' @ show_nat b"
    using truncate_for_suffix_ends[OF fits] ab by metis
  then have "show_nat a = show_nat b" using eq after_dash_number by metis
  then show "a = b" by (rule show_nat_inj)
qed

text \<open>Allocating a slug for a new node never collides: what is allocated is free whatever the
  case, fits the 40 characters, is the wanted slug itself whenever that is free, and lets the node
  row be inserted. Among fewer than 998 nodes the allocation always succeeds.\<close>
theorem slug_allocation:
  assumes "i \<notin> nd_id ` set ns"
  shows "case allocate_unique_slug base (Some i) ns of
      Inr s \<Rightarrow> length s \<le> SLUG_MAX_LEN \<and> lower s \<notin> set (folded_slugs ns)
        \<and> (lower (truncate_slug base) \<notin> set (folded_slugs ns) \<longrightarrow> s = truncate_slug base)
        \<and> create_with_id now i s title ns = Inr (\<lparr>nd_id = i, nd_slug = s, nd_title = title, nd_created = now, nd_updated = now\<rparr>,
             ns @ [\<lparr>nd_id = i, nd_slug = s, nd_title = title, nd_created = now, nd_updated = now\<rparr>])
    | Inl e \<Rightarrow> 998 \<le> length ns"
proof -
  let ?b = "truncate_slug base"
  have inserts: "create_with_id now i s title ns = Inr (\<lparr>nd_id = i, nd_slug = s, nd_title = title, nd_created = now, nd_updated = now\<rparr>,
             ns @ [\<lparr>nd_id = i, nd_slug = s, nd_title = title, nd_created = now, nd_updated = now\<rparr>])"
    if "length s \<le> SLUG_MAX_LEN" "lower s \<notin> set (folded_slugs ns)" for s
    using that assms by (auto simp: create_with_id_def insert_node_def image_iff Let_def)
  show ?thesis
  proof (cases "slug_taken ?b (Some i) ns")
    case False
    then show ?thesis
      using slug_free[OF False assms] inserts[of ?b]
      by (simp add: allocate_unique_slug_def truncate_slug_length)
  next
    case True
    note base_taken = slug_taken_in[OF True]
    show ?thesis
    proof (cases "first_free ?b (Some i) ns [2..<1000]")
      case None
      then have "(\<lambda>k. lower (truncate_for_suffix ?b (''-'' @ show_nat k))) ` {2..<1000} \<subseteq> set (folded_slugs ns)"
        using slug_taken_in[OF first_free_None[OF None]] by (intro image_subsetI) (simp only: set_upt)
      then have "card ((\<lambda>k. lower (truncate_for_suffix ?b (''-'' @ show_nat k))) ` {2..<1000}) \<le> card (set (folded_slugs ns))"
        by (intro card_mono) auto
      then have "998 \<le> card (set (folded_slugs ns))"
        unfolding card_image[OF candidates_distinct] by simp
      then have "998 \<le> length ns" using card_length[of "folded_slugs ns"] by simp
      then show ?thesis using True None by (simp add: allocate_unique_slug_def)
    next
      case (Some s)
      then obtain k where s: "s = truncate_for_suffix ?b (''-'' @ show_nat k)" "\<not> slug_taken s (Some i) ns"
        using first_free_Some by blast
      then show ?thesis
        using slug_free[OF s(2) assms] inserts[of s] True Some base_taken truncate_for_suffix_length
        by (simp add: allocate_unique_slug_def)
    qed
  qed
qed

theorem slug_allocation_witness:
  "\<exists>s. allocate_unique_slug ''fix-bug'' (Some 2) [\<lparr>nd_id = 1, nd_slug = ''Fix-Bug'', nd_title = ''Fix bug'', nd_created = 3, nd_updated = 3\<rparr>]
     = Inr s \<and> lower s \<noteq> ''fix-bug''"
proof -
  let ?ns = "[\<lparr>nd_id = 1, nd_slug = ''Fix-Bug'', nd_title = ''Fix bug'', nd_created = 3, nd_updated = 3\<rparr>]"
  have fresh: "(2::nat) \<notin> nd_id ` set ?ns" by simp
  note fits = slug_allocation[OF fresh, of "''fix-bug''"]
  then obtain s where s: "allocate_unique_slug ''fix-bug'' (Some 2) ?ns = Inr s"
    by (cases "allocate_unique_slug ''fix-bug'' (Some 2) ?ns") auto
  then have "lower s \<notin> set (folded_slugs ?ns)" using fits by simp
  then have other: "lower s \<noteq> lower ''Fix-Bug''" by (simp only: list.map list.set node_row.select_convs singleton_iff not_False_eq_True)
  have folded: "lower ''Fix-Bug'' = ''fix-bug''" by code_simp
  note other[unfolded folded]
  with s show ?thesis by blast
qed

end
