(* ===== verification/OutlineTree.thy ===== *)
theory OutlineTree
  imports Incoming Slugs
begin

text \<open>
  Where nodes sit in the outline (\<^verbatim>\<open>tod-store/src/outline/repos/outline.rs\<close>, the placement mutations of
  \<^verbatim>\<open>outline/mutations.rs\<close>, \<^verbatim>\<open>tod-store/src/groups.rs\<close>) and the walks over it
  (\<^verbatim>\<open>outline/resolve.rs\<close>, \<^verbatim>\<open>GeneratorRepo::is_in_generator_subtree\<close>, \<^verbatim>\<open>collapsed_from\<close>). A walk follows
  \<^verbatim>\<open>parent_id\<close> in a \<^verbatim>\<open>while let\<close> loop with nothing to stop it on a cycle, so each is a
  \<open>partial_function\<close> whose value \<open>None\<close> is a loop that does not end.
\<close>

section \<open>Entries\<close>

record outline_entry =
  oe_node :: uuid
  oe_list :: uuid
  oe_parent :: "uuid option"
  oe_ordinal :: int
  oe_collapsed :: bool

text \<open>The entries, the node rows, the capabilities of each node (\<^verbatim>\<open>node_capabilities\<close>) and the nodes whose
  \<^verbatim>\<open>node_groups\<close> row groups by lifecycle.\<close>

record outline_tree =
  ot_entries :: "outline_entry list"
  ot_nodes :: node_rows
  ot_caps :: "uuid \<Rightarrow> capability list"
  ot_grouped :: "uuid list"

definition insert_entry :: "outline_entry \<Rightarrow> outline_tree \<Rightarrow> outline_tree fallible" where
  "insert_entry e t =
     (if oe_node e \<in> oe_node ` set (ot_entries t) then Inl ''UNIQUE constraint failed: outline_entries.node_id''
      else if oe_parent e = Some (oe_node e) then Inl ''CHECK constraint failed: parent_id IS NULL OR parent_id != node_id''
      else if oe_node e \<notin> nd_id ` set (ot_nodes t) \<or> is_some_and (\<lambda>p. p \<notin> nd_id ` set (ot_nodes t)) (oe_parent e)
      then Inl ''FOREIGN KEY constraint failed''
      else Inr (t\<lparr>ot_entries := ot_entries t @ [e]\<rparr>))"

text \<open>\<^verbatim>\<open>ORDER BY COALESCE(parent_id, X'00'), ordinal\<close>.\<close>

definition parent_key :: "outline_entry \<Rightarrow> nat" where
  "parent_key e = (case oe_parent e of None \<Rightarrow> 0 | Some p \<Rightarrow> Suc p)"

definition list_for_list :: "uuid \<Rightarrow> outline_tree \<Rightarrow> outline_entry list" where
  "list_for_list l t =
     sort_key (\<lambda>e. (parent_key e, oe_ordinal e)) (filter (\<lambda>e. oe_list e = l) (ot_entries t))"

definition get_entry :: "uuid \<Rightarrow> outline_tree \<Rightarrow> outline_entry option" where
  "get_entry i t = find (\<lambda>e. oe_node e = i) (ot_entries t)"

definition set_parent :: "uuid \<Rightarrow> uuid option \<Rightarrow> int \<Rightarrow> outline_tree \<Rightarrow> outline_tree fallible" where
  "set_parent i p ordinal t =
     (if i \<notin> oe_node ` set (ot_entries t) then Inr t
      else if p = Some i then Inl ''CHECK constraint failed: parent_id IS NULL OR parent_id != node_id''
      else if is_some_and (\<lambda>p. p \<notin> nd_id ` set (ot_nodes t)) p then Inl ''FOREIGN KEY constraint failed''
      else Inr (t\<lparr>ot_entries := map (\<lambda>e. if oe_node e = i then e\<lparr>oe_parent := p, oe_ordinal := ordinal\<rparr> else e)
                                 (ot_entries t)\<rparr>))"

definition set_collapsed :: "uuid \<Rightarrow> bool \<Rightarrow> outline_tree \<Rightarrow> outline_tree" where
  "set_collapsed i c t =
     t\<lparr>ot_entries := map (\<lambda>e. if oe_node e = i then e\<lparr>oe_collapsed := c\<rparr> else e) (ot_entries t)\<rparr>"

definition next_ordinal :: "uuid \<Rightarrow> uuid option \<Rightarrow> outline_tree \<Rightarrow> int" where
  "next_ordinal l p t =
     fold max (map oe_ordinal (filter (\<lambda>e. oe_list e = l \<and> oe_parent e = p) (ot_entries t))) (-1) + 1"

definition bump_ordinals_after :: "uuid \<Rightarrow> uuid option \<Rightarrow> int \<Rightarrow> outline_tree \<Rightarrow> outline_tree" where
  "bump_ordinals_after l p k t =
     t\<lparr>ot_entries := map (\<lambda>e. if oe_list e = l \<and> oe_parent e = p \<and> k \<le> oe_ordinal e
                            then e\<lparr>oe_ordinal := oe_ordinal e + 1\<rparr> else e) (ot_entries t)\<rparr>"

text \<open>The children of a place, in order.\<close>

definition siblings_in :: "outline_entry list \<Rightarrow> uuid option \<Rightarrow> outline_entry list" where
  "siblings_in es p = sort_key oe_ordinal (filter (\<lambda>e. oe_parent e = p) es)"

definition parent_of :: "outline_tree \<Rightarrow> uuid \<Rightarrow> uuid option" where
  "parent_of t i = Option.bind (get_entry i t) oe_parent"

section \<open>Walks up the tree\<close>

partial_function (option) collect_chain :: "(uuid \<Rightarrow> uuid option) \<Rightarrow> uuid option \<Rightarrow> uuid list option" where
  "collect_chain parents current =
     (case current of
        None \<Rightarrow> Some []
      | Some i \<Rightarrow> Option.bind (collect_chain parents (parents i)) (\<lambda>chain. Some (chain @ [i])))"

text \<open>\<^verbatim>\<open>parent_map\<close> of \<^verbatim>\<open>collect_ancestors\<close>: the parents of the entries of one list.\<close>

definition parent_map :: "uuid \<Rightarrow> outline_tree \<Rightarrow> uuid \<Rightarrow> uuid option" where
  "parent_map l t i = Option.bind (map_of (map (\<lambda>e. (oe_node e, oe_parent e)) (rev (list_for_list l t))) i) id"

definition ancestor_chain :: "uuid \<Rightarrow> outline_tree \<Rightarrow> uuid list option" where
  "ancestor_chain i t =
     (case get_entry i t of
        None \<Rightarrow> Some [i]
      | Some e \<Rightarrow> collect_chain (parent_map (oe_list e) t) (Some i))"

partial_function (option) generator_above :: "outline_tree \<Rightarrow> uuid option \<Rightarrow> bool option" where
  "generator_above t current =
     (case current of
        None \<Rightarrow> Some False
      | Some i \<Rightarrow> if CapGenerator \<in> set (ot_caps t i) then Some True else generator_above t (parent_of t i))"

definition is_in_generator_subtree :: "uuid \<Rightarrow> outline_tree \<Rightarrow> bool option" where
  "is_in_generator_subtree i t = generator_above t (Some i)"

definition guard_not_in_generator_subtree :: "uuid option \<Rightarrow> outline_tree \<Rightarrow> unit fallible option" where
  "guard_not_in_generator_subtree p t =
     (case p of
        None \<Rightarrow> Some (Inr ())
      | Some i \<Rightarrow> map_option (\<lambda>inside.
            if inside then Inl ''cannot manually create or move nodes into a generator subtree'' else Inr ())
          (is_in_generator_subtree i t))"

partial_function (option) collapsed_above :: "outline_tree \<Rightarrow> uuid option \<Rightarrow> uuid list option" where
  "collapsed_above t current =
     (case Option.bind current (\<lambda>i. get_entry i t) of
        None \<Rightarrow> Some []
      | Some e \<Rightarrow> Option.bind (collapsed_above t (oe_parent e))
                    (\<lambda>found. Some (if oe_collapsed e then oe_node e # found else found)))"

definition collapsed_from :: "uuid \<Rightarrow> outline_tree \<Rightarrow> uuid list option" where
  "collapsed_from i t = collapsed_above t (Some i)"

text \<open>The loop of \<^verbatim>\<open>place_node\<close> that refuses to move a node under itself.\<close>

partial_function (option) guard_not_under :: "outline_tree \<Rightarrow> uuid \<Rightarrow> uuid option \<Rightarrow> unit fallible option" where
  "guard_not_under t i ancestor =
     (case ancestor of
        None \<Rightarrow> Some (Inr ())
      | Some current \<Rightarrow>
          if current = i then Some (Inl ''a node cannot move under its own subtree'')
          else guard_not_under t i (parent_of t current))"

section \<open>Grouping by lifecycle\<close>

definition by_lifecycle :: "uuid \<Rightarrow> outline_tree \<Rightarrow> bool" where
  "by_lifecycle i t = (i \<in> set (ot_grouped t) \<and> CapGroups \<in> set (ot_caps t i))"

definition accepts :: "uuid \<Rightarrow> uuid \<Rightarrow> outline_tree \<Rightarrow> bool" where
  "accepts p i t = (\<not> by_lifecycle p t \<or> CapLifecycle \<in> set (ot_caps t i))"

partial_function (option) place_valid_loop :: "bool \<Rightarrow> uuid \<Rightarrow> outline_tree \<Rightarrow> (bool \<times> outline_tree) fallible option" where
  "place_valid_loop moved i t =
     (case Option.bind (get_entry i t) oe_parent of
        None \<Rightarrow> Some (Inr (moved, t))
      | Some p \<Rightarrow>
          if accepts p i t then Some (Inr (moved, t))
          else (case get_entry p t of
              None \<Rightarrow> Some (Inr (moved, t))
            | Some pe \<Rightarrow>
                (case set_parent i (oe_parent pe) (oe_ordinal pe + 1)
                        (bump_ordinals_after (oe_list pe) (oe_parent pe) (oe_ordinal pe + 1) t) of
                   Inl e \<Rightarrow> Some (Inl e)
                 | Inr t' \<Rightarrow> place_valid_loop True i t')))"

definition place_valid :: "uuid \<Rightarrow> outline_tree \<Rightarrow> (bool \<times> outline_tree) fallible option" where
  "place_valid i t = place_valid_loop False i t"

section \<open>Placement\<close>

text \<open>\<^verbatim>\<open>?\<close> on an operation whose loops may not end: \<open>None\<close> is a loop that does not, \<open>Inl\<close> an error.\<close>

definition and_then :: "'a fallible option \<Rightarrow> ('a \<Rightarrow> 'b fallible option) \<Rightarrow> 'b fallible option" where
  "and_then x f = (case x of None \<Rightarrow> None | Some (Inl e) \<Rightarrow> Some (Inl e) | Some (Inr a) \<Rightarrow> f a)"

datatype create_position = Below | Child | Above
datatype reorder_direction = Up | Down

text \<open>The loops of \<^verbatim>\<open>place_node\<close> and \<^verbatim>\<open>renumber_siblings\<close> that write the positions that changed.\<close>

fun write_siblings :: "uuid option \<Rightarrow> uuid option \<Rightarrow> int \<Rightarrow> outline_entry list \<Rightarrow> outline_tree \<Rightarrow> outline_tree fallible" where
  "write_siblings moved p k [] t = Inr t"
| "write_siblings moved p k (s # ss) t =
     (if moved = Some (oe_node s) \<or> oe_ordinal s \<noteq> k
      then (case set_parent (oe_node s) p k t of
              Inl e \<Rightarrow> Inl e | Inr t' \<Rightarrow> write_siblings moved p (k + 1) ss t')
      else write_siblings moved p (k + 1) ss t)"

definition renumber_siblings :: "outline_entry list \<Rightarrow> uuid option \<Rightarrow> outline_tree \<Rightarrow> outline_tree fallible" where
  "renumber_siblings ss p t = write_siblings None p 0 ss t"

definition place_node :: "uuid \<Rightarrow> uuid option \<Rightarrow> int \<Rightarrow> outline_tree \<Rightarrow> outline_tree fallible option" where
  "place_node i p index t =
     (case get_entry i t of
        None \<Rightarrow> Some (Inl ''node missing from outline'')
      | Some e \<Rightarrow> and_then (guard_not_under t i p) (\<lambda>_.
          let siblings = siblings_in (filter (\<lambda>s. oe_node s \<noteq> i) (list_for_list (oe_list e) t)) p;
              at = min (nat index) (length siblings)
          in Some (write_siblings (Some i) p 0 (insert_nth at (e\<lparr>oe_parent := p\<rparr>) siblings) t)))"

definition create_text_node ::
    "ms \<Rightarrow> uuid \<Rightarrow> uuid \<Rightarrow> uuid option \<Rightarrow> uuid option \<Rightarrow> create_position \<Rightarrow> string \<Rightarrow> outline_tree \<Rightarrow> outline_tree fallible" where
  "create_text_node now i l p anchor pos title t =
     (if trim title = [] then Inl ''a node needs a title before it can be created''
      else case allocate_unique_slug (derive_node_slug title None) (Some i) (ot_nodes t) of
        Inl e \<Rightarrow> Inl e
      | Inr slug \<Rightarrow>
          (case create_with_id now i slug title (ot_nodes t) of
             Inl e \<Rightarrow> Inl e
           | Inr (_, nodes) \<Rightarrow>
               let t1 = t\<lparr>ot_nodes := nodes\<rparr> in
               (case (case anchor of
                        None \<Rightarrow> Inr (p, next_ordinal l p t1, t1)
                      | Some a \<Rightarrow>
                          if pos = Child then Inr (Some a, next_ordinal l (Some a) t1, t1)
                          else (case get_entry a t1 of
                              None \<Rightarrow> Inl ''anchor node missing from outline''
                            | Some e \<Rightarrow>
                                let k = (if pos = Below then oe_ordinal e + 1 else oe_ordinal e)
                                in Inr (oe_parent e, k, bump_ordinals_after l (oe_parent e) k t1))) of
                  Inl e \<Rightarrow> Inl e
                | Inr (parent, k, t2) \<Rightarrow>
                    insert_entry \<lparr>oe_node = i, oe_list = l, oe_parent = parent, oe_ordinal = k, oe_collapsed = False\<rparr> t2)))"

text \<open>\<^verbatim>\<open>NodeRepo::enable_capability\<close>, up to the settings rows it makes sure of in other tables.\<close>

definition mutually_exclusive :: "capability \<Rightarrow> capability list" where
  "mutually_exclusive c =
     (case c of CapGenerator \<Rightarrow> [CapLifecycle] | CapLifecycle \<Rightarrow> [CapGenerator] | _ \<Rightarrow> [])"

definition enable_capability :: "uuid \<Rightarrow> capability \<Rightarrow> outline_tree \<Rightarrow> outline_tree fallible" where
  "enable_capability i c t =
     (case find (\<lambda>x. x \<in> set (ot_caps t i)) (mutually_exclusive c) of
        Some x \<Rightarrow> Inl (''Cannot enable '' @ capability_label c @ '' while '' @ capability_label x @ '' is enabled'')
      | None \<Rightarrow>
          if c = CapGenerator \<and> list_ex (\<lambda>e. oe_parent e = Some i) (ot_entries t)
          then Inl ''Cannot enable Generator on a node that already has children''
          else Inr (if c \<in> set (ot_caps t i) then t else t\<lparr>ot_caps := (ot_caps t)(i := ot_caps t i @ [c])\<rparr>))"

fun enable_capabilities :: "uuid \<Rightarrow> capability list \<Rightarrow> outline_tree \<Rightarrow> outline_tree fallible" where
  "enable_capabilities i [] t = Inr t"
| "enable_capabilities i (c # cs) t =
     (case enable_capability i c t of Inl e \<Rightarrow> Inl e | Inr t' \<Rightarrow> enable_capabilities i cs t')"

text \<open>\<^verbatim>\<open>OutlineMutation::CreateNode\<close>, \<^verbatim>\<open>PlaceNode\<close> and \<^verbatim>\<open>ReparentNode\<close>.\<close>

definition exec_create_node ::
    "ms \<Rightarrow> uuid \<Rightarrow> uuid \<Rightarrow> uuid option \<Rightarrow> uuid option \<Rightarrow> create_position \<Rightarrow> string \<Rightarrow> outline_tree \<Rightarrow> outline_tree fallible option" where
  "exec_create_node now i l p anchor pos title t =
     and_then (guard_not_in_generator_subtree p t) (\<lambda>_. Some
       (case create_text_node now i l p anchor pos title t of
          Inl e \<Rightarrow> Inl e
        | Inr t1 \<Rightarrow>
            if is_some_and (\<lambda>parent. by_lifecycle parent t1) (parent_of t1 i)
            then enable_capabilities i [CapLifecycle] t1 else Inr t1))"

definition exec_place_node :: "uuid \<Rightarrow> uuid option \<Rightarrow> int \<Rightarrow> outline_tree \<Rightarrow> outline_tree fallible option" where
  "exec_place_node i p index t =
     and_then (guard_not_in_generator_subtree p t) (\<lambda>_. place_node i p index t)"

definition outline_list_for_node :: "uuid \<Rightarrow> outline_tree \<Rightarrow> uuid fallible" where
  "outline_list_for_node i t =
     (case get_entry i t of None \<Rightarrow> Inl ''Query returned no rows'' | Some e \<Rightarrow> Inr (oe_list e))"

definition exec_reparent :: "uuid \<Rightarrow> uuid option \<Rightarrow> int \<Rightarrow> outline_tree \<Rightarrow> outline_tree fallible option" where
  "exec_reparent i p k t =
     and_then (guard_not_in_generator_subtree p t) (\<lambda>_.
     and_then (Some (outline_list_for_node i t)) (\<lambda>l.
     and_then (Some (set_parent i p k (bump_ordinals_after l p k t))) (\<lambda>t1.
     and_then (place_valid i t1) (\<lambda>(_, t2). Some (Inr t2)))))"

section \<open>Reordering\<close>

partial_function (option) preorder_loop ::
    "outline_entry list \<Rightarrow> (uuid \<times> nat) list \<Rightarrow> (uuid \<times> nat) list \<Rightarrow> (uuid \<times> nat) list option" where
  "preorder_loop es stack out =
     (case stack of
        [] \<Rightarrow> Some out
      | (i, depth) # rest \<Rightarrow>
          preorder_loop es (map (\<lambda>e. (oe_node e, depth + 1)) (siblings_in es (Some i)) @ rest) (out @ [(i, depth)]))"

definition preorder :: "outline_entry list \<Rightarrow> (uuid \<times> nat) list option" where
  "preorder es = preorder_loop es (map (\<lambda>e. (oe_node e, 0)) (siblings_in es None)) []"

fun first_target :: "outline_tree \<Rightarrow> nat \<Rightarrow> (uuid \<times> nat) list \<Rightarrow> uuid option option" where
  "first_target t depth [] = Some None"
| "first_target t depth ((i, d) # candidates) =
     (if d = depth
      then (case is_in_generator_subtree i t of
              None \<Rightarrow> None
            | Some inside \<Rightarrow> if \<not> inside then Some (Some i) else first_target t depth candidates)
      else first_target t depth candidates)"

definition cross_parent_target ::
    "outline_tree \<Rightarrow> outline_entry list \<Rightarrow> uuid \<Rightarrow> reorder_direction \<Rightarrow> uuid option option" where
  "cross_parent_target t es parent dir =
     (case preorder es of
        None \<Rightarrow> None
      | Some order \<Rightarrow>
          (case pos_in (map fst order) parent of
             None \<Rightarrow> Some None
           | Some k \<Rightarrow> first_target t (snd (order ! k))
               (case dir of Down \<Rightarrow> drop (k + 1) order | Up \<Rightarrow> rev (take k order))))"

datatype reorder_outcome = ReorderUnchanged | ReorderSwap | ReorderReparent uuid int

definition plan_reorder :: "uuid \<Rightarrow> reorder_direction \<Rightarrow> outline_tree \<Rightarrow> reorder_outcome option" where
  "plan_reorder i dir t =
     (case get_entry i t of
        None \<Rightarrow> Some ReorderUnchanged
      | Some e \<Rightarrow>
          let es = list_for_list (oe_list e) t; siblings = siblings_in es (oe_parent e) in
          (case pos_in (map oe_node siblings) i of
             None \<Rightarrow> Some ReorderUnchanged
           | Some pos \<Rightarrow>
               if \<not> (case dir of Up \<Rightarrow> pos = 0 | Down \<Rightarrow> pos + 1 = length siblings) then Some ReorderSwap
               else (case oe_parent e of
                   None \<Rightarrow> Some ReorderUnchanged
                 | Some parent \<Rightarrow> map_option (\<lambda>target. case target of
                       None \<Rightarrow> ReorderUnchanged
                     | Some k \<Rightarrow> ReorderReparent k
                         (case dir of Down \<Rightarrow> 0 | Up \<Rightarrow> int (length (filter (\<lambda>e. oe_parent e = Some k) es))))
                     (cross_parent_target t es parent dir))))"

definition reorder_sibling :: "uuid \<Rightarrow> reorder_direction \<Rightarrow> outline_tree \<Rightarrow> outline_tree fallible option" where
  "reorder_sibling i dir t =
     (case plan_reorder i dir t of
        None \<Rightarrow> None
      | Some ReorderUnchanged \<Rightarrow> Some (Inr t)
      | Some ReorderSwap \<Rightarrow>
          (case get_entry i t of
             None \<Rightarrow> Some (Inl ''node missing from outline'')
           | Some e \<Rightarrow>
               let siblings = siblings_in (list_for_list (oe_list e) t) (oe_parent e) in
               (case pos_in (map oe_node siblings) i of
                  None \<Rightarrow> Some (Inl ''node missing from its siblings'')
                | Some pos \<Rightarrow> Some (renumber_siblings
                    (swap_nth pos (case dir of Up \<Rightarrow> pos - 1 | Down \<Rightarrow> pos + 1) siblings) (oe_parent e) t)))
      | Some (ReorderReparent p index) \<Rightarrow>
          (case get_entry i t of
             None \<Rightarrow> Some (Inl ''node missing from outline'')
           | Some e \<Rightarrow>
               (case collapsed_from p t of
                  None \<Rightarrow> None
                | Some closed \<Rightarrow>
                    and_then (place_node i (Some p) index (fold (\<lambda>a. set_collapsed a False) closed t)) (\<lambda>t1.
                      Some (renumber_siblings (siblings_in (list_for_list (oe_list e) t1) (oe_parent e)) (oe_parent e) t1)))))"

text \<open>\<^verbatim>\<open>groups::set_by_lifecycle\<close>: turning grouping on moves out the children that cannot be grouped.\<close>

fun place_each :: "uuid list \<Rightarrow> outline_tree \<Rightarrow> outline_tree fallible option" where
  "place_each [] t = Some (Inr t)"
| "place_each (c # cs) t = and_then (place_valid c t) (\<lambda>(_, t'). place_each cs t')"

definition set_by_lifecycle :: "uuid \<Rightarrow> bool \<Rightarrow> outline_tree \<Rightarrow> outline_tree fallible option" where
  "set_by_lifecycle i on t =
     (let t1 = t\<lparr>ot_grouped := (if on then i # removeAll i (ot_grouped t) else removeAll i (ot_grouped t))\<rparr>
      in if on then place_each (map oe_node (siblings_in (ot_entries t1) (Some i))) t1 else Some (Inr t1))"

definition exec_set_groups :: "uuid \<Rightarrow> bool \<Rightarrow> outline_tree \<Rightarrow> outline_tree fallible option" where
  "exec_set_groups i on t =
     (if CapGroups \<notin> set (ot_caps t i) then Some (Inl (''Groups is not enabled on node '' @ show_uuid i))
      else set_by_lifecycle i on t)"

section \<open>Forests\<close>

text \<open>The store is a forest when following \<^verbatim>\<open>parent_id\<close> never comes back.\<close>

definition parent_rel :: "outline_tree \<Rightarrow> (uuid \<times> uuid) set" where
  "parent_rel t = {(c, p). parent_of t c = Some p}"

definition forest :: "outline_tree \<Rightarrow> bool" where
  "forest t = acyclic (parent_rel t)"

lemma get_entry_Some: "get_entry i t = Some e \<Longrightarrow> e \<in> set (ot_entries t) \<and> oe_node e = i"
  unfolding get_entry_def using find_Some_in by fastforce

lemma get_entry_None: "get_entry i t = None \<longleftrightarrow> i \<notin> oe_node ` set (ot_entries t)"
  by (auto simp: get_entry_def find_None_iff)

lemma finite_parent_rel: "finite (parent_rel t)"
proof (rule finite_subset)
  show "parent_rel t \<subseteq> (\<lambda>e. (oe_node e, the (oe_parent e))) ` set (ot_entries t)"
    by (force simp: parent_rel_def parent_of_def bind_eq_Some_conv dest: get_entry_Some)
qed simp

lemma forest_induct [consumes 1, case_names node]:
  assumes "forest t" "\<And>i. (\<And>p. parent_of t i = Some p \<Longrightarrow> P p) \<Longrightarrow> P i"
  shows "P i"
proof -
  have "wf ((parent_rel t)\<inverse>)"
    using assms(1) finite_acyclic_wf_converse[OF finite_parent_rel] by (simp add: forest_def)
  then show ?thesis
    by (induction i rule: wf_induct_rule) (rule assms(2), simp add: parent_rel_def)
qed

text \<open>Only where an entry hangs matters.\<close>

lemma forest_parents: "(\<And>i. parent_of t' i = parent_of t i) \<Longrightarrow> forest t' = forest t"
  by (simp add: forest_def parent_rel_def)

lemma find_node_map:
  "(\<And>e. oe_node (f e) = oe_node e) \<Longrightarrow>
   find (\<lambda>e. oe_node e = i) (map f es) = map_option f (find (\<lambda>e. oe_node e = i) es)"
  by (induction es) auto

lemma get_entry_map:
  "(\<And>e. oe_node (f e) = oe_node e) \<Longrightarrow> get_entry i (t\<lparr>ot_entries := map f (ot_entries t)\<rparr>) = map_option f (get_entry i t)"
  by (simp add: get_entry_def find_node_map)

lemma parent_of_map:
  "(\<And>e. oe_node (f e) = oe_node e) \<Longrightarrow> (\<And>e. oe_parent (f e) = oe_parent e) \<Longrightarrow>
   parent_of (t\<lparr>ot_entries := map f (ot_entries t)\<rparr>) i = parent_of t i"
  by (simp add: parent_of_def get_entry_map split: bind_splits)

lemma bump_parent [simp]: "parent_of (bump_ordinals_after l p k t) i = parent_of t i"
  unfolding bump_ordinals_after_def by (rule parent_of_map) auto

lemma collapse_parent [simp]: "parent_of (set_collapsed j c t) i = parent_of t i"
  unfolding set_collapsed_def by (rule parent_of_map) auto

text \<open>What \<^verbatim>\<open>set_parent\<close> changes.\<close>

lemma set_parent_rows:
  "set_parent i p k t = Inr t' \<Longrightarrow>
     t' = t\<lparr>ot_entries := map (\<lambda>e. if oe_node e = i then e\<lparr>oe_parent := p, oe_ordinal := k\<rparr> else e) (ot_entries t)\<rparr>"
  by (cases t) (auto simp: set_parent_def intro!: map_idI[symmetric] split: if_splits)

lemma set_parent_entry:
  assumes "set_parent i p k t = Inr t'"
  shows "get_entry j t' = map_option (\<lambda>e. if oe_node e = i then e\<lparr>oe_parent := p, oe_ordinal := k\<rparr> else e) (get_entry j t)"
  unfolding set_parent_rows[OF assms] by (rule get_entry_map) simp

lemma set_parent_of:
  assumes "set_parent i p k t = Inr t'"
  shows "parent_of t' j = (if j = i \<and> get_entry i t \<noteq> None then p else parent_of t j)"
  using get_entry_Some[of j t] by (cases "get_entry j t") (auto simp: parent_of_def set_parent_entry[OF assms])

lemma moved_forest:
  assumes "forest t" "\<And>j. parent_of t' j = (if j = i then p else parent_of t j)"
    and "\<And>q. p = Some q \<Longrightarrow> (q, i) \<notin> (parent_rel t)\<^sup>*"
  shows "forest t'"
proof -
  let ?r = "parent_rel t - {i} \<times> UNIV"
  have sub: "?r \<subseteq> parent_rel t" by blast
  have old: "acyclic ?r" using assms(1) acyclic_subset[OF _ sub] by (simp add: forest_def)
  have "parent_rel t' = ?r \<union> (case p of None \<Rightarrow> {} | Some q \<Rightarrow> {(i, q)})"
    by (auto simp: parent_rel_def assms(2) split: option.splits if_splits)
  moreover have "acyclic (insert (i, q) ?r)" if "p = Some q" for q
    using old assms(3)[OF that] rtrancl_mono[OF sub] by (auto simp: acyclic_insert)
  ultimately show ?thesis using old by (cases p) (auto simp: forest_def)
qed

lemma set_parent_forest:
  assumes "set_parent i p k t = Inr t'" "forest t" "\<And>q. p = Some q \<Longrightarrow> (q, i) \<notin> (parent_rel t)\<^sup>*"
  shows "forest t'"
proof (cases "get_entry i t")
  case None
  then show ?thesis using assms(2) set_parent_of[OF assms(1)] forest_parents[of t' t] by simp
next
  case (Some e)
  then show ?thesis
    using moved_forest[OF assms(2) _ assms(3), of t'] set_parent_of[OF assms(1)] by simp
qed

lemma forest_no_loop: "forest t \<Longrightarrow> parent_of t i = Some p \<Longrightarrow> (p, i) \<notin> (parent_rel t)\<^sup>*"
  by (auto simp: forest_def acyclic_def parent_rel_def dest: rtrancl_into_trancl2[rotated])

text \<open>The guard of \<^verbatim>\<open>place_node\<close> is what keeps a move from closing a loop, and it ends.\<close>

lemma guard_not_under_exact:
  assumes "forest t"
  shows "guard_not_under t i p = Some (if \<exists>q. p = Some q \<and> (q, i) \<in> (parent_rel t)\<^sup>*
           then Inl ''a node cannot move under its own subtree'' else Inr ())"
proof (cases p)
  case None
  then show ?thesis by (simp add: guard_not_under.simps)
next
  case (Some q)
  show ?thesis unfolding Some using assms
  proof (induction q rule: forest_induct)
    case (node q)
    show ?case
    proof (cases "q = i")
      case True
      then show ?thesis by (simp add: guard_not_under.simps)
    next
      case False
      then have "(q, i) \<in> (parent_rel t)\<^sup>* \<longleftrightarrow> (\<exists>p. parent_of t q = Some p \<and> (p, i) \<in> (parent_rel t)\<^sup>*)"
        by (auto simp: parent_rel_def elim: converse_rtranclE intro: converse_rtrancl_into_rtrancl)
      then show ?thesis using False node
        by (subst guard_not_under.simps) (cases "parent_of t q", auto simp: guard_not_under.simps)
    qed
  qed
qed

lemma write_siblings_parents:
  assumes "write_siblings moved p k ss t = Inr t'"
    and "\<And>s. s \<in> set ss \<Longrightarrow> moved \<noteq> Some (oe_node s) \<Longrightarrow> parent_of t (oe_node s) = p"
  shows "parent_of t' j = (if moved = Some j \<and> j \<in> oe_node ` set ss \<and> get_entry j t \<noteq> None then p else parent_of t j)
    \<and> (get_entry j t' = None \<longleftrightarrow> get_entry j t = None)"
  using assms
proof (induction ss arbitrary: k t)
  case (Cons s ss)
  show ?case
  proof (cases "moved = Some (oe_node s) \<or> oe_ordinal s \<noteq> k")
    case True
    then obtain t1 where t1: "set_parent (oe_node s) p k t = Inr t1" "write_siblings moved p (k + 1) ss t1 = Inr t'"
      using Cons.prems(1) by (auto split: sum.splits)
    have same: "parent_of t1 x = (if x = oe_node s \<and> moved = Some x \<and> get_entry x t \<noteq> None then p else parent_of t x)" for x
      using set_parent_of[OF t1(1), of x] Cons.prems(2)[of s] by auto
    have "parent_of t1 (oe_node x) = p" if "x \<in> set ss" "moved \<noteq> Some (oe_node x)" for x
      using that Cons.prems(2)[of x] by (simp add: same)
    from Cons.IH[OF t1(2) this] show ?thesis
      by (auto simp: same set_parent_entry[OF t1(1)])
  next
    case False
    then show ?thesis using Cons.IH[of "k + 1" t] Cons.prems by auto
  qed
qed simp

section \<open>The walks end\<close>

text \<open>What the store keeps of the outline: one entry per node, parents that exist, no loop.\<close>

definition wf_tree :: "outline_tree \<Rightarrow> bool" where
  "wf_tree t \<longleftrightarrow> distinct (map oe_node (ot_entries t)) \<and> oe_node ` set (ot_entries t) = nd_id ` set (ot_nodes t)
     \<and> (\<forall>e \<in> set (ot_entries t). \<forall>p. oe_parent e = Some p \<longrightarrow> p \<in> nd_id ` set (ot_nodes t)) \<and> forest t"

lemma wf_tree_forest: "wf_tree t \<Longrightarrow> forest t"
  by (simp add: wf_tree_def)

lemma parent_entry: "parent_of t i = Some p \<longleftrightarrow> (\<exists>e. get_entry i t = Some e \<and> oe_parent e = Some p)"
  by (simp add: parent_of_def bind_eq_Some_conv)

lemma parent_exists:
  assumes "wf_tree t" "parent_of t i = Some p"
  shows "p \<in> nd_id ` set (ot_nodes t)" "get_entry p t \<noteq> None"
  using assms get_entry_Some[of i t] get_entry_None[of p t] unfolding wf_tree_def parent_entry by metis+

lemma find_key_in: "distinct (map f xs) \<Longrightarrow> x \<in> set xs \<Longrightarrow> find (\<lambda>y. f y = f x) xs = Some x"
  by (induction xs) auto

lemma get_entry_in: "distinct (map oe_node (ot_entries t)) \<Longrightarrow> e \<in> set (ot_entries t) \<Longrightarrow> get_entry (oe_node e) t = Some e"
  unfolding get_entry_def by (rule find_key_in)

lemma map_of_nodes: "map_of (map (\<lambda>e. (oe_node e, oe_parent e)) es) i = map_option oe_parent (find (\<lambda>e. oe_node e = i) es)"
  by (induction es) auto

lemma find_distinct_set:
  "distinct (map oe_node xs) \<Longrightarrow> set xs = set ys \<Longrightarrow> distinct (map oe_node ys) \<Longrightarrow>
   find (\<lambda>e. oe_node e = i) xs = find (\<lambda>e. oe_node e = i) ys"
proof (cases "find (\<lambda>e. oe_node e = i) xs")
  case None
  assume "set xs = set ys"
  then show ?thesis using None by (metis (mono_tags, lifting) find_None_iff)
next
  case (Some e)
  assume "set xs = set ys" "distinct (map oe_node ys)"
  then show ?thesis using Some find_Some_in[OF Some] find_key_in[of oe_node ys e] by auto
qed

lemma find_filtered: "distinct (map oe_node es) \<Longrightarrow>
   find (\<lambda>e. oe_node e = i) (filter P es) = opt_filter P (find (\<lambda>e. oe_node e = i) es)"
proof (induction es)
  case (Cons a es)
  have "find (\<lambda>e. oe_node e = i) es = None" if "oe_node a = i"
  proof -
    have "oe_node a \<notin> oe_node ` set es" using Cons.prems by simp
    then show ?thesis using that by (metis (mono_tags, lifting) find_None_iff imageI)
  qed
  then show ?case using Cons by auto
qed simp

lemma parent_map_exact:
  assumes "distinct (map oe_node (ot_entries t))"
  shows "parent_map l t i = (case get_entry i t of Some e \<Rightarrow> if oe_list e = l then oe_parent e else None | None \<Rightarrow> None)"
proof -
  let ?es = "filter (\<lambda>e. oe_list e = l) (ot_entries t)"
  have d: "distinct (map oe_node ?es)" using assms by (simp add: distinct_map_filter)
  have s: "set (rev (list_for_list l t)) = set ?es" by (simp add: list_for_list_def)
  have d': "distinct (map oe_node (rev (list_for_list l t)))"
    using d by (simp add: rev_map[symmetric] list_for_list_def distinct_map)
  have "parent_map l t i = Option.bind (find (\<lambda>e. oe_node e = i) ?es) oe_parent"
    unfolding parent_map_def map_of_nodes find_distinct_set[OF d' s d]
    by (cases "find (\<lambda>e. oe_node e = i) ?es") simp_all
  also have "find (\<lambda>e. oe_node e = i) ?es = opt_filter (\<lambda>e. oe_list e = l) (get_entry i t)"
    unfolding get_entry_def by (rule find_filtered[OF assms])
  finally show ?thesis by (cases "get_entry i t") auto
qed

lemma chain_ends:
  assumes "forest t" "\<And>j p. parents j = Some p \<Longrightarrow> parent_of t j = Some p"
  shows "\<exists>chain. collect_chain parents (Some i) = Some chain \<and> chain \<noteq> [] \<and> last chain = i \<and> parents (hd chain) = None
    \<and> successively (\<lambda>p c. parents c = Some p) chain \<and> (\<forall>a \<in> set chain. (i, a) \<in> (parent_rel t)\<^sup>*) \<and> distinct chain"
  using assms(1)
proof (induction i rule: forest_induct)
  case (node i)
  show ?case
  proof (cases "parents i")
    case None
    then show ?thesis by (simp add: collect_chain.simps)
  next
    case (Some p)
    then have up: "parent_of t i = Some p" by (rule assms(2))
    from node[OF up] obtain chain where c: "collect_chain parents (Some p) = Some chain" "chain \<noteq> []" "last chain = p"
      "parents (hd chain) = None" "successively (\<lambda>p c. parents c = Some p) chain"
      "\<forall>a \<in> set chain. (p, a) \<in> (parent_rel t)\<^sup>*" "distinct chain" by auto
    have "collect_chain parents (Some i) = Some (chain @ [i])"
      using c(1) Some by (subst collect_chain.simps) simp
    moreover have "i \<notin> set chain" using c(6) forest_no_loop[OF assms(1) up] by auto
    moreover have "\<forall>a \<in> set (chain @ [i]). (i, a) \<in> (parent_rel t)\<^sup>*"
      using c(6) up by (auto simp: parent_rel_def intro: converse_rtrancl_into_rtrancl)
    ultimately show ?thesis using c Some by (auto simp: successively_append_iff)
  qed
qed

lemma generator_above_exact:
  assumes "forest t"
  shows "generator_above t (Some i) = Some (\<exists>g. (i, g) \<in> (parent_rel t)\<^sup>* \<and> CapGenerator \<in> set (ot_caps t g))"
  using assms
proof (induction i rule: forest_induct)
  case (node i)
  have up: "(\<exists>g. (i, g) \<in> (parent_rel t)\<^sup>* \<and> CapGenerator \<in> set (ot_caps t g)) \<longleftrightarrow> CapGenerator \<in> set (ot_caps t i)
     \<or> (\<exists>p. parent_of t i = Some p \<and> (\<exists>g. (p, g) \<in> (parent_rel t)\<^sup>* \<and> CapGenerator \<in> set (ot_caps t g)))"
    by (auto simp: parent_rel_def elim: converse_rtranclE intro: converse_rtrancl_into_rtrancl)
  show ?case unfolding up
    by (subst generator_above.simps) (cases "parent_of t i", auto simp: node generator_above.simps[of _ None])
qed

lemma collapsed_above_exact:
  assumes "forest t"
  shows "\<exists>found. collapsed_above t (Some i) = Some found \<and>
     set found = {a. (i, a) \<in> (parent_rel t)\<^sup>* \<and> is_some_and oe_collapsed (get_entry a t)}"
  using assms
proof (induction i rule: forest_induct)
  case (node i)
  have up: "(i, a) \<in> (parent_rel t)\<^sup>* \<longleftrightarrow> a = i \<or> (\<exists>p. parent_of t i = Some p \<and> (p, a) \<in> (parent_rel t)\<^sup>*)" for a
    by (auto simp: parent_rel_def elim: converse_rtranclE intro: converse_rtrancl_into_rtrancl)
  show ?case
  proof (cases "get_entry i t")
    case None
    then show ?thesis by (subst collapsed_above.simps) (auto simp: up parent_of_def)
  next
    case (Some e)
    have e: "oe_node e = i" "parent_of t i = oe_parent e" using get_entry_Some[OF Some] Some by (simp_all add: parent_of_def)
    show ?thesis
    proof (cases "oe_parent e")
      case None
      then show ?thesis using Some e by (subst collapsed_above.simps) (auto simp: up collapsed_above.simps[of _ None])
    next
      case p: (Some p)
      with node[of p] e obtain found where f: "collapsed_above t (Some p) = Some found"
        "set found = {a. (p, a) \<in> (parent_rel t)\<^sup>* \<and> is_some_and oe_collapsed (get_entry a t)}" by auto
      have "collapsed_above t (Some i) = Some (if oe_collapsed e then i # found else found)"
        using Some e p f(1) by (subst collapsed_above.simps) simp
      moreover have "{a. (i, a) \<in> (parent_rel t)\<^sup>* \<and> is_some_and oe_collapsed (get_entry a t)}
          = {a. a = i \<and> oe_collapsed e} \<union> set found"
        using Some e p unfolding up f(2) by auto
      ultimately show ?thesis by auto
    qed
  qed
qed

text \<open>C13: As long as no node hangs under itself, every walk up the outline ends: the chain of ancestors runs
  from the top of the node's list down to the node, each the parent of the next and none twice; the generator guard
  answers whether an ancestor is a generator; the walk that opens a place finds exactly the collapsed
  ancestors; and the guard of a move answers whether the target lies under the node.\<close>
theorem walks_end:
  assumes "forest t" "distinct (map oe_node (ot_entries t))"
  shows "(\<exists>chain. ancestor_chain i t = Some chain \<and> chain \<noteq> [] \<and> last chain = i \<and> distinct chain
        \<and> successively (\<lambda>p c. parent_of t c = Some p) chain
        \<and> (\<forall>e h p. get_entry i t = Some e \<and> get_entry (hd chain) t = Some h \<and> oe_parent h = Some p \<longrightarrow> oe_list h \<noteq> oe_list e))
    \<and> is_in_generator_subtree i t = Some (\<exists>g. (i, g) \<in> (parent_rel t)\<^sup>* \<and> CapGenerator \<in> set (ot_caps t g))
    \<and> (\<exists>found. collapsed_from i t = Some found
        \<and> set found = {a. (i, a) \<in> (parent_rel t)\<^sup>* \<and> is_some_and oe_collapsed (get_entry a t)})
    \<and> (\<exists>answer. guard_not_under t j (Some i) = Some answer \<and> (isl answer \<longleftrightarrow> (i, j) \<in> (parent_rel t)\<^sup>*))"
proof -
  have chain: "\<exists>chain. ancestor_chain i t = Some chain \<and> chain \<noteq> [] \<and> last chain = i \<and> distinct chain
        \<and> successively (\<lambda>p c. parent_of t c = Some p) chain
        \<and> (\<forall>e h p. get_entry i t = Some e \<and> get_entry (hd chain) t = Some h \<and> oe_parent h = Some p \<longrightarrow> oe_list h \<noteq> oe_list e)"
  proof (cases "get_entry i t")
    case None
    then show ?thesis by (simp add: ancestor_chain_def)
  next
    case (Some e)
    have sub: "parent_map (oe_list e) t c = Some p \<Longrightarrow> parent_of t c = Some p" for c p
      by (auto simp: parent_map_exact[OF assms(2)] parent_of_def split: option.splits if_splits)
    obtain chain where c: "collect_chain (parent_map (oe_list e) t) (Some i) = Some chain" "chain \<noteq> []" "last chain = i"
      "parent_map (oe_list e) t (hd chain) = None" "successively (\<lambda>p c. parent_map (oe_list e) t c = Some p) chain" "distinct chain"
      using chain_ends[OF assms(1) sub] by blast
    have "successively (\<lambda>p c. parent_of t c = Some p) chain"
      using c(5) by (rule successively_mono) (rule sub)
    then show ?thesis
      using c Some by (auto simp: ancestor_chain_def parent_map_exact[OF assms(2)] split: if_splits)
  qed
  show ?thesis
    using chain collapsed_above_exact[OF assms(1), of i]
    by (simp add: is_in_generator_subtree_def generator_above_exact[OF assms(1)] collapsed_from_def
        guard_not_under_exact[OF assms(1)])
qed

text \<open>A move that closes a loop leaves a store on which the same walk does not end.\<close>

lemma chain_loops:
  assumes "\<And>j. j \<in> C \<Longrightarrow> \<exists>p \<in> C. parents j = Some p" "i \<in> C"
  shows "collect_chain parents (Some i) = None"
proof (rule ccontr)
  have never: "ps = parents \<longrightarrow> (\<forall>j \<in> C. current \<noteq> Some j)" if "collect_chain ps current = Some chain" for ps current chain
  proof (rule collect_chain.raw_induct[OF _ that])
    fix walk ps current chain
    assume IH: "\<And>ps current chain. walk ps current = Some chain \<Longrightarrow> ps = parents \<longrightarrow> (\<forall>j \<in> C. current \<noteq> Some j)"
      and step: "(case current of None \<Rightarrow> Some []
        | Some i \<Rightarrow> Option.bind (walk ps (ps i)) (\<lambda>chain. Some (chain @ [i]))) = Some chain"
    show "ps = parents \<longrightarrow> (\<forall>j \<in> C. current \<noteq> Some j)"
    proof (intro impI ballI notI)
      fix j assume j: "ps = parents" "j \<in> C" "current = Some j"
      then obtain p where p: "p \<in> C" "ps j = Some p" using assms(1) by blast
      obtain rest where "walk ps (Some p) = Some rest" using step j(3) p(2) by (auto simp: bind_eq_Some_conv)
      from IH[OF this] show False using j(1) p(1) by blast
    qed
  qed
  assume "collect_chain parents (Some i) \<noteq> None"
  then show False using never assms(2) by blast
qed

lemma bump_entry: "get_entry j (bump_ordinals_after l p k t)
    = map_option (\<lambda>e. if oe_list e = l \<and> oe_parent e = p \<and> k \<le> oe_ordinal e then e\<lparr>oe_ordinal := oe_ordinal e + 1\<rparr> else e) (get_entry j t)"
  unfolding bump_ordinals_after_def by (rule get_entry_map) simp

lemma bump_same [simp]:
  "ot_nodes (bump_ordinals_after l p k t) = ot_nodes t" "ot_caps (bump_ordinals_after l p k t) = ot_caps t"
  "ot_grouped (bump_ordinals_after l p k t) = ot_grouped t"
  "map oe_node (ot_entries (bump_ordinals_after l p k t)) = map oe_node (ot_entries t)"
  by (simp_all add: bump_ordinals_after_def)

lemma set_parent_same:
  assumes "set_parent i p k t = Inr t'"
  shows "ot_nodes t' = ot_nodes t" "ot_caps t' = ot_caps t" "ot_grouped t' = ot_grouped t"
    "map oe_node (ot_entries t') = map oe_node (ot_entries t)"
  unfolding set_parent_rows[OF assms] by simp_all

lemma set_parent_ok:
  assumes "p \<noteq> Some i" "\<And>q. p = Some q \<Longrightarrow> q \<in> nd_id ` set (ot_nodes t)"
  shows "\<exists>t'. set_parent i p k t = Inr t'"
  using assms by (cases p) (auto simp: set_parent_def)

text \<open>\<^verbatim>\<open>ReparentNode\<close> has no such guard: moving a node under its own child succeeds, and from then on the
  walk up from the node does not end.\<close>

lemma reparent_under_itself_loops:
  assumes "wf_tree t" "parent_of t c = Some n" "map_option oe_list (get_entry c t) = map_option oe_list (get_entry n t)"
    and "is_in_generator_subtree c t = Some False" "accepts c n t"
  shows "\<exists>t'. exec_reparent n (Some c) k t = Some (Inr t') \<and> ancestor_chain n t' = None"
proof -
  have "c \<noteq> n" using forest_no_loop[OF wf_tree_forest[OF assms(1)] assms(2)] by auto
  obtain ec where ec: "get_entry c t = Some ec" using assms(2) by (auto simp: parent_entry)
  obtain en where en: "get_entry n t = Some en" using parent_exists(2)[OF assms(1,2)] by auto
  let ?t = "bump_ordinals_after (oe_list en) (Some c) k t"
  have "c \<in> nd_id ` set (ot_nodes t)" using ec get_entry_Some[OF ec] assms(1) by (auto simp: wf_tree_def)
  then obtain t' where t': "set_parent n (Some c) k ?t = Inr t'"
    using set_parent_ok[of "Some c" n ?t k] \<open>c \<noteq> n\<close> by auto
  have pn: "parent_of t' n = Some c" "parent_of t' c = Some n"
    using set_parent_of[OF t'] en assms(2) \<open>c \<noteq> n\<close> by (auto simp: bump_entry)
  have "accepts c n t'" using assms(5) set_parent_same[OF t'] by (simp add: accepts_def by_lifecycle_def)
  then have "place_valid n t' = Some (Inr (False, t'))"
    using pn(1) unfolding place_valid_def parent_of_def by (subst place_valid_loop.simps) simp
  then have ok: "exec_reparent n (Some c) k t = Some (Inr t')"
    using assms(4) en t' by (simp add: exec_reparent_def and_then_def guard_not_in_generator_subtree_def outline_list_for_node_def)
  have d: "distinct (map oe_node (ot_entries t'))"
    using assms(1) set_parent_same(4)[OF t'] by (simp add: wf_tree_def)
  obtain en' where en': "get_entry n t' = Some en'" "oe_list en' = oe_list en"
    using en by (auto simp: set_parent_entry[OF t'] bump_entry)
  obtain ec' where ec': "get_entry c t' = Some ec'" "oe_list ec' = oe_list ec"
    using ec by (auto simp: set_parent_entry[OF t'] bump_entry)
  have "oe_list ec = oe_list en" using assms(3) ec en by simp
  then have "parent_map (oe_list en') t' n = Some c" "parent_map (oe_list en') t' c = Some n"
    using pn en' ec' by (simp_all add: parent_map_exact[OF d] parent_of_def)
  then have "collect_chain (parent_map (oe_list en') t') (Some n) = None"
    by (intro chain_loops[of "{n, c}"]) auto
  then show ?thesis using ok en'(1) by (auto simp: ancestor_chain_def)
qed

section \<open>A small outline\<close>

text \<open>Node 1 at the top, which may group, node 2 below it and node 3 after it.\<close>

definition row_of :: "uuid \<Rightarrow> string \<Rightarrow> node_row" where
  "row_of i slug = \<lparr>nd_id = i, nd_slug = slug, nd_title = slug, nd_created = 0, nd_updated = 0\<rparr>"

definition at_place :: "uuid \<Rightarrow> uuid option \<Rightarrow> int \<Rightarrow> outline_entry" where
  "at_place i p k = \<lparr>oe_node = i, oe_list = 9, oe_parent = p, oe_ordinal = k, oe_collapsed = False\<rparr>"

definition sample_outline :: "uuid list \<Rightarrow> outline_tree" where
  "sample_outline groups = \<lparr>ot_entries = [at_place 1 None 0, at_place 2 (Some 1) 0, at_place 3 None 1],
     ot_nodes = [row_of 1 ''a'', row_of 2 ''b'', row_of 3 ''c''],
     ot_caps = (\<lambda>i. if i = 1 then [CapGroups] else []), ot_grouped = groups\<rparr>"

lemma sample_parent: "parent_of (sample_outline g) i = (if i = 2 then Some 1 else None)"
  by (simp add: parent_of_def get_entry_def sample_outline_def at_place_def)

lemma wf_sample_outline: "wf_tree (sample_outline g)"
proof -
  have "parent_rel (sample_outline g) = {(2, 1)}" by (auto simp: parent_rel_def sample_parent split: if_splits)
  moreover have "acyclic {(2 :: uuid, 1 :: uuid)}"
    by (rule acyclicI_order[where f = "\<lambda>i. i"]) simp
  ultimately have "forest (sample_outline g)" by (simp add: forest_def)
  then show ?thesis by (simp add: wf_tree_def sample_outline_def at_place_def row_of_def)
qed

theorem walks_end_witness:
  "\<exists>chain. ancestor_chain 2 (sample_outline []) = Some chain \<and> chain \<noteq> [] \<and> last chain = 2"
  using walks_end[of "sample_outline []" 2 2] wf_sample_outline[of "[]"] unfolding wf_tree_def by blast

end
