(* ===== verification/OutlineMoves.thy ===== *)
theory OutlineMoves
  imports OutlineTree
begin

text \<open>
  What the moves of \<open>OutlineTree\<close> do to a well-formed outline: where a node under a grouping parent settles, where a
  placed node lands among its siblings, that every placement leaves a forest on which every other one returns,
  and what keeps the children of a grouping node groupable.
\<close>

section \<open>Placing under a node that groups\<close>

text \<open>\<open>t'\<close> is \<open>t\<close> with one node hung elsewhere: the other nodes keep their parents.\<close>

definition elsewhere :: "uuid \<Rightarrow> outline_tree \<Rightarrow> outline_tree \<Rightarrow> bool" where
  "elsewhere i t t' \<longleftrightarrow> (\<forall>j. j \<noteq> i \<longrightarrow> parent_of t' j = parent_of t j)
     \<and> map oe_node (ot_entries t') = map oe_node (ot_entries t)
     \<and> ot_nodes t' = ot_nodes t \<and> ot_caps t' = ot_caps t \<and> ot_grouped t' = ot_grouped t"

lemma elsewhere_entry: "elsewhere i t t' \<Longrightarrow> get_entry j t' = None \<longleftrightarrow> get_entry j t = None"
  unfolding get_entry_None elsewhere_def by (metis list.set_map)

lemma elsewhere_accepts: "elsewhere i t t' \<Longrightarrow> accepts p c t' = accepts p c t"
  by (simp add: elsewhere_def accepts_def by_lifecycle_def)

lemma elsewhere_step:
  assumes "elsewhere i t t1" "set_parent i p k (bump_ordinals_after l q m t1) = Inr t2"
  shows "elsewhere i t t2"
proof -
  note e = assms(1)[unfolded elsewhere_def]
  note s = set_parent_same[OF assms(2), unfolded bump_same]
  have "parent_of t2 j = parent_of t j" if "j \<noteq> i" for j
    using e that unfolding set_parent_of[OF assms(2), of j] bump_parent by metis
  then show ?thesis unfolding elsewhere_def s using e by blast
qed

lemma wf_elsewhere:
  assumes "wf_tree t" "elsewhere i t t'" "\<And>q. parent_of t' i = Some q \<Longrightarrow> (q, i) \<notin> (parent_rel t)\<^sup>* \<and> q \<in> nd_id ` set (ot_nodes t)"
  shows "wf_tree t'"
proof -
  have same: "parent_of t' j = (if j = i then parent_of t' i else parent_of t j)" for j
    using assms(2) by (auto simp only: elsewhere_def split: if_split)
  have "forest t'"
    by (rule moved_forest[OF wf_tree_forest[OF assms(1)] same]) (use assms(3) in blast)
  moreover have d: "distinct (map oe_node (ot_entries t'))" using assms(1,2) by (simp add: wf_tree_def elsewhere_def)
  moreover have "p \<in> nd_id ` set (ot_nodes t')" if e: "e \<in> set (ot_entries t')" "oe_parent e = Some p" for e p
  proof -
    have "parent_of t' (oe_node e) = Some p" using get_entry_in[OF d e(1)] e(2) by (simp add: parent_of_def)
    then show ?thesis
      using assms(2,3) parent_exists(1)[OF assms(1), of "oe_node e" p] by (cases "oe_node e = i") (auto simp: elsewhere_def)
  qed
  ultimately show ?thesis
    using assms(1,2) unfolding wf_tree_def elsewhere_def by (metis list.set_map)
qed

lemma place_valid_loop_ends:
  assumes "wf_tree t" "elsewhere i t t1" "parent_of t1 i = Some p" "(i, p) \<in> (parent_rel t)\<^sup>+"
  shows "\<exists>m t2. place_valid_loop moved i t1 = Some (Inr (m, t2)) \<and> elsewhere i t t2
    \<and> (\<forall>a. parent_of t2 i = Some a \<longrightarrow> accepts a i t \<and> (p, a) \<in> (parent_rel t)\<^sup>*)
    \<and> (\<forall>b. (p, b) \<in> (parent_rel t)\<^sup>* \<and> accepts b i t \<longrightarrow> (\<exists>a. parent_of t2 i = Some a \<and> (a, b) \<in> (parent_rel t)\<^sup>*))
    \<and> (m \<longleftrightarrow> moved \<or> \<not> accepts p i t)"
  using wf_tree_forest[OF assms(1)] assms(2-4)
proof (induction p arbitrary: t1 moved rule: forest_induct)
  case (node p)
  note e1 = elsewhere_entry[OF node.prems(1)]
  have par: "Option.bind (get_entry i t1) oe_parent = Some p" using node.prems(2) by (simp add: parent_of_def)
  show ?case
  proof (cases "accepts p i t")
    case True
    then have "place_valid_loop moved i t1 = Some (Inr (moved, t1))"
      using par elsewhere_accepts[OF node.prems(1)] by (subst place_valid_loop.simps) simp
    then show ?thesis using True node.prems by auto
  next
    case False
    obtain c where "parent_of t c = Some p" using node.prems(3) by (auto simp: parent_rel_def elim: tranclE)
    then obtain pe where pe: "get_entry p t1 = Some pe" using parent_exists(2)[OF assms(1)] e1 by fastforce
    have "p \<noteq> i" using node.prems(3) wf_tree_forest[OF assms(1)] by (auto simp: forest_def acyclic_def)
    then have up: "parent_of t p = oe_parent pe"
      using node.prems(1) pe by (simp add: elsewhere_def parent_of_def bind_eq_Some_conv) (metis bind.bind_lunit)
    let ?t = "bump_ordinals_after (oe_list pe) (oe_parent pe) (oe_ordinal pe + 1) t1"
    have above: "(i, q) \<in> (parent_rel t)\<^sup>+" if "oe_parent pe = Some q" for q
      using that up node.prems(3) by (auto simp: parent_rel_def intro: trancl_into_trancl)
    have "oe_parent pe \<noteq> Some i" using above wf_tree_forest[OF assms(1)] by (auto simp: forest_def acyclic_def)
    moreover have "q \<in> nd_id ` set (ot_nodes ?t)" if "oe_parent pe = Some q" for q
      using parent_exists(1)[OF assms(1), of p q] that up node.prems(1) by (simp add: elsewhere_def)
    ultimately obtain t2 where t2: "set_parent i (oe_parent pe) (oe_ordinal pe + 1) ?t = Inr t2"
      using set_parent_ok by metis
    have step: "place_valid_loop moved i t1 = place_valid_loop True i t2"
      using par pe False t2 elsewhere_accepts[OF node.prems(1)] by (subst place_valid_loop.simps) simp
    note els = elsewhere_step[OF node.prems(1) t2]
    have p2: "parent_of t2 i = oe_parent pe"
      using set_parent_of[OF t2, of i] node.prems(2) by (auto simp: bump_entry parent_of_def)
    have reach: "(p, b) \<in> (parent_rel t)\<^sup>* \<longleftrightarrow> b = p \<or> (\<exists>q. oe_parent pe = Some q \<and> (q, b) \<in> (parent_rel t)\<^sup>*)" for b
      using up by (auto simp: parent_rel_def elim: converse_rtranclE intro: converse_rtrancl_into_rtrancl)
    show ?thesis
    proof (cases "oe_parent pe")
      case None
      then have "place_valid_loop True i t2 = Some (Inr (True, t2))"
        using p2 unfolding parent_of_def by (subst place_valid_loop.simps) simp
      then show ?thesis using None False step els p2 reach by auto
    next
      case (Some q)
      have "parent_of t p = Some q" "parent_of t2 i = Some q" using up p2 Some by simp_all
      from node.IH[OF this(1) els this(2) above[OF Some], of True] obtain m t3 where
        "place_valid_loop True i t2 = Some (Inr (m, t3))" "elsewhere i t t3"
        "\<forall>a. parent_of t3 i = Some a \<longrightarrow> accepts a i t \<and> (q, a) \<in> (parent_rel t)\<^sup>*"
        "\<forall>b. (q, b) \<in> (parent_rel t)\<^sup>* \<and> accepts b i t \<longrightarrow> (\<exists>a. parent_of t3 i = Some a \<and> (a, b) \<in> (parent_rel t)\<^sup>*)" "m"
        by auto
      then show ?thesis using Some False step unfolding reach by auto
    qed
  qed
qed

lemma place_valid_returns:
  assumes "wf_tree t"
  shows "\<exists>m t'. place_valid i t = Some (Inr (m, t')) \<and> wf_tree t' \<and> elsewhere i t t'
    \<and> (\<forall>p. parent_of t' i = Some p \<longrightarrow> accepts p i t' \<and> (i, p) \<in> (parent_rel t)\<^sup>+)
    \<and> (\<forall>b. (i, b) \<in> (parent_rel t)\<^sup>+ \<and> accepts b i t \<longrightarrow> (\<exists>a. parent_of t' i = Some a \<and> (a, b) \<in> (parent_rel t)\<^sup>*))
    \<and> (m \<longleftrightarrow> is_some_and (\<lambda>p. \<not> accepts p i t) (parent_of t i))"
proof (cases "parent_of t i")
  case None
  then have "place_valid i t = Some (Inr (False, t))"
    unfolding place_valid_def parent_of_def by (subst place_valid_loop.simps) simp
  moreover have "(i, b) \<notin> (parent_rel t)\<^sup>+" for b
    using None by (auto simp: parent_rel_def dest!: tranclD)
  moreover have "elsewhere i t t" by (simp add: elsewhere_def)
  ultimately show ?thesis using assms None by auto
next
  case (Some p)
  have self: "elsewhere i t t" by (simp add: elsewhere_def)
  have ip: "(i, p) \<in> (parent_rel t)\<^sup>+" using Some by (auto simp: parent_rel_def)
  obtain m t' where r: "place_valid i t = Some (Inr (m, t'))" "elsewhere i t t'"
    "\<And>a. parent_of t' i = Some a \<Longrightarrow> accepts a i t \<and> (p, a) \<in> (parent_rel t)\<^sup>*"
    "\<And>b. (p, b) \<in> (parent_rel t)\<^sup>* \<Longrightarrow> accepts b i t \<Longrightarrow> (\<exists>a. parent_of t' i = Some a \<and> (a, b) \<in> (parent_rel t)\<^sup>*)"
    "m \<longleftrightarrow> \<not> accepts p i t"
    using place_valid_loop_ends[OF assms self Some ip, of False] unfolding place_valid_def by blast
  have above: "(i, a) \<in> (parent_rel t)\<^sup>+" if "parent_of t' i = Some a" for a
    using r(3)[OF that] ip by (meson trancl_rtrancl_trancl)
  have fine: "(q, i) \<notin> (parent_rel t)\<^sup>* \<and> q \<in> nd_id ` set (ot_nodes t)" if q: "parent_of t' i = Some q" for q
  proof -
    obtain c where "parent_of t c = Some q" using above[OF q] by (auto simp: parent_rel_def elim: tranclE)
    moreover have "(q, i) \<notin> (parent_rel t)\<^sup>*"
      using above[OF q] wf_tree_forest[OF assms] unfolding forest_def acyclic_def by (meson trancl_rtrancl_trancl)
    ultimately show ?thesis using parent_exists(1)[OF assms] by blast
  qed
  have up: "(p, b) \<in> (parent_rel t)\<^sup>*" if "(i, b) \<in> (parent_rel t)\<^sup>+" for b
    using tranclD[OF that] Some by (auto simp: parent_rel_def)
  have "wf_tree t'" by (rule wf_elsewhere[OF assms r(2) fine])
  moreover have "\<forall>q. parent_of t' i = Some q \<longrightarrow> accepts q i t' \<and> (i, q) \<in> (parent_rel t)\<^sup>+"
    using r(3) above elsewhere_accepts[OF r(2)] by blast
  ultimately show ?thesis using r(1,2,4,5) up Some by (intro exI[of _ m] exI[of _ t']) simp
qed

text \<open>C38: A node under a parent that groups by lifecycle and does not take it moves down to the first place that
  does: the move always ends, the node is then under the nearest ancestor that accepts it (or at the top when none
  does), every other node keeps its parent, and the outline stays well formed.\<close>
theorem place_valid_settles:
  assumes "wf_tree t"
  shows "\<exists>m t'. place_valid i t = Some (Inr (m, t')) \<and> wf_tree t' \<and> (\<forall>j. j \<noteq> i \<longrightarrow> parent_of t' j = parent_of t j)
    \<and> (\<forall>p. parent_of t' i = Some p \<longrightarrow> accepts p i t' \<and> (i, p) \<in> (parent_rel t)\<^sup>+)
    \<and> (\<forall>b. (i, b) \<in> (parent_rel t)\<^sup>+ \<and> accepts b i t \<longrightarrow> (\<exists>a. parent_of t' i = Some a \<and> (a, b) \<in> (parent_rel t)\<^sup>*))
    \<and> (m \<longleftrightarrow> is_some_and (\<lambda>p. \<not> accepts p i t) (parent_of t i))"
  using place_valid_returns[OF assms, of i] unfolding elsewhere_def by blast

section \<open>Moving a node\<close>

lemma write_siblings_same:
  "write_siblings moved p k ss t = Inr t' \<Longrightarrow>
     ot_nodes t' = ot_nodes t \<and> ot_caps t' = ot_caps t \<and> ot_grouped t' = ot_grouped t
     \<and> map oe_node (ot_entries t') = map oe_node (ot_entries t)"
  by (induction ss arbitrary: k t) (auto simp: set_parent_same split: if_splits sum.splits)

lemma write_siblings_target:
  "write_siblings (Some i) p k ss t = Inr t' \<Longrightarrow> i \<in> oe_node ` set ss \<Longrightarrow> get_entry i t \<noteq> None \<Longrightarrow> p = Some q
     \<Longrightarrow> q \<in> nd_id ` set (ot_nodes t)"
proof (induction ss arbitrary: k t)
  case (Cons s ss)
  show ?case
  proof (cases "oe_node s = i")
    case True
    then show ?thesis using Cons.prems by (auto simp: set_parent_def get_entry_None split: sum.splits if_splits)
  next
    case False
    show ?thesis
    proof (cases "oe_ordinal s = k")
      case True
      then show ?thesis using Cons.IH[of "k + 1" t] Cons.prems False by auto
    next
      case k: False
      obtain t1 where t1: "set_parent (oe_node s) p k t = Inr t1" "write_siblings (Some i) p (k + 1) ss t1 = Inr t'"
        using Cons.prems(1) k False by (auto split: sum.splits)
      then show ?thesis
        using Cons.IH[OF t1(2)] Cons.prems False by (auto simp: set_parent_entry[OF t1(1)] set_parent_same[OF t1(1)])
    qed
  qed
qed simp

lemma siblings_in_set [simp]: "set (siblings_in es p) = {e \<in> set es. oe_parent e = p}"
  by (auto simp: siblings_in_def)

lemma list_for_list_set [simp]: "set (list_for_list l t) = {e \<in> set (ot_entries t). oe_list e = l}"
  by (auto simp: list_for_list_def)

lemma sibling_parent: "wf_tree t \<Longrightarrow> e \<in> set (ot_entries t) \<Longrightarrow> parent_of t (oe_node e) = oe_parent e"
  using get_entry_in[of t e] by (simp add: wf_tree_def parent_of_def)

lemma place_node_moves:
  assumes "wf_tree t" "place_node i p index t = Some (Inr t')"
  shows "elsewhere i t t' \<and> parent_of t' i = p \<and> wf_tree t'"
proof -
  obtain e where e: "get_entry i t = Some e" using assms(2) by (auto simp: place_node_def split: option.splits)
  note ee = get_entry_Some[OF e]
  have g: "guard_not_under t i p = Some (Inr ())"
    using assms(2) e guard_not_under_exact[OF wf_tree_forest[OF assms(1)], of i p]
    by (auto simp: place_node_def and_then_def split: if_splits)
  define sibs where "sibs = siblings_in (filter (\<lambda>s. oe_node s \<noteq> i) (list_for_list (oe_list e) t)) p"
  define ss where "ss = insert_nth (min (nat index) (length sibs)) (e\<lparr>oe_parent := p\<rparr>) sibs"
  have w: "write_siblings (Some i) p 0 ss t = Inr t'"
    using assms(2) e g by (simp add: place_node_def and_then_def Let_def ss_def sibs_def)
  have here: "i \<in> oe_node ` set ss" using ee by (force simp: ss_def)
  have "parent_of t (oe_node s) = p" if "s \<in> set ss" "Some i \<noteq> Some (oe_node s)" for s
    using that ee sibling_parent[OF assms(1), of s] by (auto simp: ss_def sibs_def)
  note par = write_siblings_parents[OF w this]
  have els: "elsewhere i t t'"
    using par write_siblings_same[OF w] unfolding elsewhere_def by auto
  have pi: "parent_of t' i = p" using par here e by simp
  have "q \<in> nd_id ` set (ot_nodes t)" if "p = Some q" for q
    using write_siblings_target[OF w here _ that] e by simp
  moreover have "(q, i) \<notin> (parent_rel t)\<^sup>*" if "p = Some q" for q
    using g that guard_not_under_exact[OF wf_tree_forest[OF assms(1)], of i p] by (auto split: if_splits)
  ultimately show ?thesis using wf_elsewhere[OF assms(1) els] els pi by blast
qed

lemma renumber_keeps:
  assumes "wf_tree t" "renumber_siblings ss p t = Inr t'" "\<And>s. s \<in> set ss \<Longrightarrow> parent_of t (oe_node s) = p"
  shows "wf_tree t' \<and> (\<forall>j. parent_of t' j = parent_of t j) \<and> ot_nodes t' = ot_nodes t \<and> ot_caps t' = ot_caps t
    \<and> ot_grouped t' = ot_grouped t"
proof -
  have w: "write_siblings None p 0 ss t = Inr t'" using assms(2) by (simp add: renumber_siblings_def)
  have par: "parent_of t' j = parent_of t j" for j using write_siblings_parents[OF w, of j] assms(3) by simp
  have els: "elsewhere j t t'" for j
    using par write_siblings_same[OF w] unfolding elsewhere_def by simp
  have fine: "(q, j) \<notin> (parent_rel t)\<^sup>* \<and> q \<in> nd_id ` set (ot_nodes t)" if "parent_of t' j = Some q" for j q
    using that forest_no_loop[OF wf_tree_forest[OF assms(1)]] parent_exists(1)[OF assms(1)] par by auto
  have "wf_tree t'" by (rule wf_elsewhere[OF assms(1) els fine])
  then show ?thesis using par write_siblings_same[OF w] by simp
qed

lemma sort_key_strict:
  fixes f :: "'a \<Rightarrow> 'k::linorder"
  assumes "sorted_wrt (\<lambda>a b. f a < f b) ys" "set xs = set ys" "distinct xs"
  shows "sort_key f xs = ys"
proof -
  have "sorted_wrt (<) (map f ys)" using assms(1) by (simp add: sorted_wrt_map)
  then have y: "sorted (map f ys)" "distinct (map f ys)" by (simp_all add: strict_sorted_iff)
  then have inj: "inj_on f (set (sort_key f xs) \<union> set ys)" using assms(2) by (simp add: distinct_map)
  then have "distinct (map f (sort_key f xs))" using assms(2,3) by (simp add: distinct_map)
  then have "map f (sort_key f xs) = map f ys"
    using y assms(2) by (intro sorted_distinct_set_unique) simp_all
  then show ?thesis using inj by (simp add: inj_on_map_eq_map)
qed

lemma write_siblings_total:
  assumes "\<And>s. s \<in> set ss \<Longrightarrow> p \<noteq> Some (oe_node s)" "\<And>q. p = Some q \<Longrightarrow> q \<in> nd_id ` set (ot_nodes t)"
  shows "\<exists>t'. write_siblings moved p k ss t = Inr t'"
  using assms
proof (induction ss arbitrary: k t)
  case (Cons s ss)
  show ?case
  proof (cases "moved = Some (oe_node s) \<or> oe_ordinal s \<noteq> k")
    case True
    obtain t1 where t1: "set_parent (oe_node s) p k t = Inr t1"
      using set_parent_ok[of p "oe_node s" t k] Cons.prems by auto
    then show ?thesis using Cons.IH[of t1 "k + 1"] Cons.prems True by (simp add: set_parent_same[OF t1])
  next
    case False
    then show ?thesis using Cons.IH[of t "k + 1"] Cons.prems by auto
  qed
qed simp

lemma write_siblings_entries:
  assumes "write_siblings moved p k ss t = Inr t'" "distinct (map oe_node ss)"
    and "\<And>s. s \<in> set ss \<Longrightarrow> moved \<noteq> Some (oe_node s) \<Longrightarrow> get_entry (oe_node s) t = Some s \<and> oe_parent s = p"
  shows "(\<forall>n < length ss. get_entry (oe_node (ss ! n)) t'
            = map_option (\<lambda>e. e\<lparr>oe_parent := p, oe_ordinal := k + int n\<rparr>) (get_entry (oe_node (ss ! n)) t))
    \<and> (\<forall>j. j \<notin> oe_node ` set ss \<longrightarrow> get_entry j t' = get_entry j t)"
  using assms
proof (induction ss arbitrary: k t)
  case (Cons s ss)
  have step: ?case
    if rec: "write_siblings moved p (k + 1) ss t1 = Inr t'"
      and here: "get_entry (oe_node s) t1 = map_option (\<lambda>e. e\<lparr>oe_parent := p, oe_ordinal := k\<rparr>) (get_entry (oe_node s) t)"
      and others: "\<And>j. j \<noteq> oe_node s \<Longrightarrow> get_entry j t1 = get_entry j t" for t1
  proof -
    have d: "distinct (map oe_node ss)" "oe_node s \<notin> oe_node ` set ss" using Cons.prems(2) by auto
    have "get_entry (oe_node x) t1 = Some x \<and> oe_parent x = p" if "x \<in> set ss" "moved \<noteq> Some (oe_node x)" for x
    proof -
      have "oe_node x \<noteq> oe_node s" using that(1) d(2) by (metis imageI)
      then show ?thesis using that Cons.prems(3)[of x] others[of "oe_node x"] by simp
    qed
    note IH = Cons.IH[OF rec d(1) this]
    have "get_entry (oe_node ((s # ss) ! n)) t'
        = map_option (\<lambda>e. e\<lparr>oe_parent := p, oe_ordinal := k + int n\<rparr>) (get_entry (oe_node ((s # ss) ! n)) t)"
      if "n < length (s # ss)" for n
    proof (cases n)
      case 0
      then show ?thesis using IH d(2) here by simp
    next
      case (Suc m)
      then have "oe_node (ss ! m) \<noteq> oe_node s" using that d(2) by (metis Suc_less_eq imageI length_Cons nth_mem)
      moreover have "get_entry (oe_node (ss ! m)) t'
          = map_option (\<lambda>e. e\<lparr>oe_parent := p, oe_ordinal := k + 1 + int m\<rparr>) (get_entry (oe_node (ss ! m)) t1)"
        using IH Suc that by simp
      ultimately show ?thesis using others Suc by (simp add: add.assoc)
    qed
    then show ?thesis using IH others by auto
  qed
  show ?case
  proof (cases "moved = Some (oe_node s) \<or> oe_ordinal s \<noteq> k")
    case True
    then obtain t1 where t1: "set_parent (oe_node s) p k t = Inr t1" "write_siblings moved p (k + 1) ss t1 = Inr t'"
      using Cons.prems(1) by (auto split: sum.splits)
    have "get_entry (oe_node s) t1 = map_option (\<lambda>e. e\<lparr>oe_parent := p, oe_ordinal := k\<rparr>) (get_entry (oe_node s) t)"
      using get_entry_Some[of "oe_node s" t] unfolding set_parent_entry[OF t1(1)] by (cases "get_entry (oe_node s) t") auto
    moreover have "get_entry j t1 = get_entry j t" if "j \<noteq> oe_node s" for j
      using that get_entry_Some[of j t] unfolding set_parent_entry[OF t1(1)] by (cases "get_entry j t") auto
    ultimately show ?thesis by (rule step[OF t1(2)])
  next
    case False
    then have "get_entry (oe_node s) t = Some s" "oe_parent s = p" using Cons.prems(3)[of s] by auto
    then show ?thesis using False Cons.prems(1) by (intro step[of t]) auto
  qed
qed simp

lemma placed_siblings:
  assumes "distinct (map oe_node (ot_entries t'))"
    and "\<And>n. n < length order \<Longrightarrow> get_entry (order ! n) t' = Some (g n) \<and> oe_ordinal (g n) = int n
           \<and> oe_parent (g n) = p \<and> oe_list (g n) = l"
    and "\<And>x. x \<in> set (ot_entries t') \<Longrightarrow> oe_list x = l \<Longrightarrow> oe_parent x = p \<Longrightarrow> oe_node x \<in> set order"
  shows "map (\<lambda>s. (oe_node s, oe_ordinal s)) (siblings_in (list_for_list l t') p) = zip order (map int [0..<length order])"
proof -
  have node: "oe_node (g n) = order ! n" "g n \<in> set (ot_entries t')" if "n < length order" for n
    using get_entry_Some assms(2)[OF that] by blast+
  have "siblings_in (list_for_list l t') p = map g [0..<length order]"
    unfolding siblings_in_def
  proof (rule sort_key_strict)
    show "sorted_wrt (\<lambda>a b. oe_ordinal a < oe_ordinal b) (map g [0..<length order])"
      using assms(2) by (simp add: sorted_wrt_map sorted_wrt_upt sorted_wrt_iff_nth_less)
    show "set (filter (\<lambda>e. oe_parent e = p) (list_for_list l t')) = set (map g [0..<length order])"
    proof (intro set_eqI iffI)
      fix x assume x: "x \<in> set (filter (\<lambda>e. oe_parent e = p) (list_for_list l t'))"
      then obtain n where n: "n < length order" "order ! n = oe_node x"
        using assms(3)[of x] by (auto simp: in_set_conv_nth)
      then show "x \<in> set (map g [0..<length order])" using assms(2)[OF n(1)] get_entry_in[OF assms(1), of x] x by auto
    qed (use assms(2) node in auto)
    show "distinct (filter (\<lambda>e. oe_parent e = p) (list_for_list l t'))"
      using assms(1) by (simp add: list_for_list_def distinct_map)
  qed
  then have "map (\<lambda>s. (oe_node s, oe_ordinal s)) (siblings_in (list_for_list l t') p)
      = map (\<lambda>n. (order ! n, int n)) [0..<length order]"
    using node assms(2) by simp
  also have "\<dots> = zip order (map int [0..<length order])"
    by (rule nth_equalityI) simp_all
  finally show ?thesis .
qed

text \<open>C12: Placing a node at an index puts it exactly there: among the children of its new parent it comes after that
  many of the others (at the end when there are fewer), the others keep their order, the positions
  written are 0, 1, 2 and so on, every other node keeps its place, and a move under the node's own subtree is
  refused.\<close>
theorem place_node_exact:
  assumes "wf_tree t" "get_entry i t = Some e" "\<And>q. p = Some q \<Longrightarrow> q \<in> nd_id ` set (ot_nodes t)"
    and "sibs = siblings_in (filter (\<lambda>s. oe_node s \<noteq> i) (list_for_list (oe_list e) t)) p"
    and "order = insert_nth (min (nat index) (length sibs)) i (map oe_node sibs)"
  shows "if \<exists>q. p = Some q \<and> (q, i) \<in> (parent_rel t)\<^sup>*
    then place_node i p index t = Some (Inl ''a node cannot move under its own subtree'')
    else \<exists>t'. place_node i p index t = Some (Inr t')
      \<and> map (\<lambda>s. (oe_node s, oe_ordinal s)) (siblings_in (list_for_list (oe_list e) t') p) = zip order (map int [0..<length order])
      \<and> (\<forall>j. j \<notin> set order \<longrightarrow> get_entry j t' = get_entry j t)"
proof (cases "\<exists>q. p = Some q \<and> (q, i) \<in> (parent_rel t)\<^sup>*")
  case True
  then show ?thesis
    using assms(2) guard_not_under_exact[OF wf_tree_forest[OF assms(1)], of i p] by (simp add: place_node_def and_then_def)
next
  case False
  note d = assms(1)[unfolded wf_tree_def, THEN conjunct1]
  define ss where "ss = insert_nth (min (nat index) (length sibs)) (e\<lparr>oe_parent := p\<rparr>) sibs"
  have ei: "oe_node e = i" "e \<in> set (ot_entries t)" using get_entry_Some[OF assms(2)] by auto
  have ids: "map oe_node ss = order" by (simp add: ss_def assms(5) insert_nth_def take_map drop_map ei)
  have sibs: "s \<in> set sibs \<longleftrightarrow> s \<in> set (ot_entries t) \<and> oe_list s = oe_list e \<and> oe_node s \<noteq> i \<and> oe_parent s = p" for s
    by (auto simp: assms(4))
  have "distinct (map oe_node sibs)"
    unfolding assms(4) siblings_in_def list_for_list_def using d by (simp add: distinct_map inj_on_def)
  then have order: "distinct order" by (auto simp: assms(5) sibs)
  have ssx: "x \<in> set ss \<longleftrightarrow> x = e\<lparr>oe_parent := p\<rparr> \<or> x \<in> set sibs" for x by (simp add: ss_def)
  have self: "p \<noteq> Some (oe_node s)" if "s \<in> set ss" for s
  proof (cases "oe_node s = i")
    case True
    then show ?thesis using False by auto
  next
    case other: False
    then have "parent_of t (oe_node s) = p" using that sibling_parent[OF assms(1)] ei by (auto simp: ssx sibs)
    then show ?thesis using forest_no_loop[OF wf_tree_forest[OF assms(1)]] by auto
  qed
  obtain t' where w: "write_siblings (Some i) p 0 ss t = Inr t'" using write_siblings_total[OF self assms(3)] by blast
  have placed: "place_node i p index t = Some (Inr t')"
    using assms(2) False w guard_not_under_exact[OF wf_tree_forest[OF assms(1)], of i p]
    by (simp add: place_node_def and_then_def Let_def ss_def assms(4))
  have same: "get_entry (oe_node s) t = Some s \<and> oe_parent s = p" if "s \<in> set ss" "Some i \<noteq> Some (oe_node s)" for s
    using that get_entry_in[OF d] ei by (auto simp: ssx sibs)
  have entries: "\<forall>n < length order. get_entry (order ! n) t'
            = map_option (\<lambda>e. e\<lparr>oe_parent := p, oe_ordinal := int n\<rparr>) (get_entry (order ! n) t)"
    "\<forall>j. j \<notin> set order \<longrightarrow> get_entry j t' = get_entry j t"
    using write_siblings_entries[OF w _ same] order unfolding ids[symmetric] by (simp_all add: nth_map)
  define l where "l = oe_list e"
  define g where "g = (\<lambda>n. (the (get_entry (order ! n) t))\<lparr>oe_parent := p, oe_ordinal := int n\<rparr>)"
  have known: "\<exists>en. get_entry j t = Some en \<and> oe_node en = j \<and> oe_list en = l \<and> (j \<noteq> i \<longrightarrow> oe_parent en = p)"
    if "j \<in> set order" for j
    using that assms(2) ei get_entry_in[OF d] by (auto simp: assms(5) sibs l_def)
  have g: "get_entry (order ! n) t' = Some (g n) \<and> oe_ordinal (g n) = int n \<and> oe_parent (g n) = p \<and> oe_list (g n) = l"
    if "n < length order" for n
    using entries(1) known[OF nth_mem[OF that]] that by (auto simp: g_def)
  have d': "distinct (map oe_node (ot_entries t'))" using write_siblings_same[OF w] d by simp
  have in_order: "oe_node x \<in> set order" if x: "x \<in> set (ot_entries t')" "oe_list x = l" "oe_parent x = p" for x
  proof (rule ccontr)
    assume out: "oe_node x \<notin> set order"
    then have "get_entry (oe_node x) t = Some x" using get_entry_in[OF d' x(1)] entries(2) by simp
    then have "x \<in> set sibs" using x out get_entry_Some[of "oe_node x" t x] by (auto simp: sibs assms(5) l_def)
    then show False using out by (simp add: assms(5))
  qed
  have "map (\<lambda>s. (oe_node s, oe_ordinal s)) (siblings_in (list_for_list l t') p) = zip order (map int [0..<length order])"
    by (rule placed_siblings[OF d' g in_order])
  then show ?thesis unfolding if_not_P[OF False] using placed entries(2) unfolding l_def by blast
qed

section \<open>The outline stays a forest\<close>

lemma wf_same_parents:
  assumes "wf_tree t" "\<And>j. parent_of t' j = parent_of t j" "map oe_node (ot_entries t') = map oe_node (ot_entries t)"
    and "nd_id ` set (ot_nodes t') = nd_id ` set (ot_nodes t)"
  shows "wf_tree t'"
proof -
  have d: "distinct (map oe_node (ot_entries t'))" using assms(1,3) by (simp add: wf_tree_def)
  have "p \<in> nd_id ` set (ot_nodes t')" if e: "e \<in> set (ot_entries t')" "oe_parent e = Some p" for e p
  proof -
    have "parent_of t (oe_node e) = Some p"
      using get_entry_in[OF d e(1)] e(2) assms(2)[of "oe_node e"] by (simp add: parent_of_def)
    then show ?thesis using parent_exists(1)[OF assms(1)] assms(4) by simp
  qed
  moreover have "forest t'" using forest_parents[of t' t] assms(1,2) by (simp add: wf_tree_def)
  ultimately show ?thesis
    using d assms(1,3,4) unfolding wf_tree_def by (metis list.set_map)
qed

lemma wf_set_collapsed: "wf_tree t \<Longrightarrow> wf_tree (set_collapsed i c t)"
  by (rule wf_same_parents) (auto simp: set_collapsed_def parent_of_map)

lemma collapse_each:
  "wf_tree t \<Longrightarrow> wf_tree (fold (\<lambda>a. set_collapsed a c) is t)
     \<and> (\<forall>j. parent_of (fold (\<lambda>a. set_collapsed a c) is t) j = parent_of t j)"
  by (induction "is" arbitrary: t) (simp_all add: wf_set_collapsed)

lemma bump_wf: "wf_tree t \<Longrightarrow> wf_tree (bump_ordinals_after l p k t)"
  by (rule wf_same_parents) simp_all

lemma insert_entry_parents:
  assumes "insert_entry e t = Inr t'"
  shows "parent_of t' j = (if j = oe_node e then oe_parent e else parent_of t j)"
proof -
  have t': "t' = t\<lparr>ot_entries := ot_entries t @ [e]\<rparr>" and fresh: "oe_node e \<notin> oe_node ` set (ot_entries t)"
    using assms by (auto simp: insert_entry_def split: if_splits)
  have find_append: "find P (xs @ [x]) = or_else (find P xs) (if P x then Some x else None)" for P :: "outline_entry \<Rightarrow> bool" and xs x
    by (induction xs) auto
  show ?thesis
  proof (cases "j = oe_node e")
    case True
    then have "find (\<lambda>x. oe_node x = j) (ot_entries t) = None" using fresh get_entry_None by (simp add: get_entry_def)
    then show ?thesis using True by (simp add: t' parent_of_def get_entry_def find_append)
  next
    case False
    then show ?thesis
      by (cases "find (\<lambda>x. oe_node x = j) (ot_entries t)") (simp_all add: t' parent_of_def get_entry_def find_append)
  qed
qed

lemma insert_entry_wf:
  assumes "wf_tree t" "insert_entry e (t\<lparr>ot_nodes := ot_nodes t @ [row]\<rparr>) = Inr t'" "nd_id row = oe_node e"
    and "oe_node e \<notin> nd_id ` set (ot_nodes t)"
  shows "wf_tree t'"
proof -
  have t': "t' = t\<lparr>ot_nodes := ot_nodes t @ [row], ot_entries := ot_entries t @ [e]\<rparr>"
    and fresh: "oe_node e \<notin> oe_node ` set (ot_entries t)" and other: "oe_parent e \<noteq> Some (oe_node e)"
    and par: "\<And>p. oe_parent e = Some p \<Longrightarrow> p \<in> nd_id ` set (ot_nodes t @ [row])"
    using assms(2) by (auto simp: insert_entry_def is_some_and_iff split: if_splits)
  have par_of: "parent_of t' j = (if j = oe_node e then oe_parent e else parent_of t j)" for j
    using insert_entry_parents[OF assms(2), of j] by (simp add: parent_of_def get_entry_def)
  have none: "(q, oe_node e) \<notin> (parent_rel t)\<^sup>*" if "oe_parent e = Some q" for q
  proof
    assume "(q, oe_node e) \<in> (parent_rel t)\<^sup>*"
    then show False
    proof (cases rule: rtranclE)
      case base
      then show ?thesis using that other by simp
    next
      case (step c)
      then have "parent_of t c = Some (oe_node e)" by (simp add: parent_rel_def)
      then show ?thesis using parent_exists(1)[OF assms(1)] assms(4) by blast
    qed
  qed
  have "forest t'" by (rule moved_forest[OF wf_tree_forest[OF assms(1)] par_of none])
  then show ?thesis
    using assms(1,3) fresh par unfolding wf_tree_def t' by auto
qed

lemma create_text_node_steps:
  assumes "create_text_node now i l p anchor pos title t = Inr t'"
  obtains row q k tb where "nd_id row = i" "i \<notin> nd_id ` set (ot_nodes t)" "tb = t \<or> tb = bump_ordinals_after l q k t"
    "insert_entry \<lparr>oe_node = i, oe_list = l, oe_parent = q, oe_ordinal = k, oe_collapsed = False\<rparr>
       (tb\<lparr>ot_nodes := ot_nodes tb @ [row]\<rparr>) = Inr t'"
proof -
  obtain slug row nodes where a: "allocate_unique_slug (derive_node_slug title None) (Some i) (ot_nodes t) = Inr slug"
    and n: "create_with_id now i slug title (ot_nodes t) = Inr (row, nodes)"
    using assms by (auto simp: create_text_node_def split: if_splits sum.splits)
  have row: "nd_id row = i" "i \<notin> nd_id ` set (ot_nodes t)" "nodes = ot_nodes t @ [row]"
    using n by (auto simp: create_with_id_def insert_node_def Let_def split: if_splits sum.splits)
  have bump: "bump_ordinals_after l q k (t\<lparr>ot_nodes := ns\<rparr>) = (bump_ordinals_after l q k t)\<lparr>ot_nodes := ns\<rparr>" for q k ns
    by (simp add: bump_ordinals_after_def)
  note made = that[OF row(1,2)]
  show ?thesis
  proof (cases anchor)
    case None
    then show ?thesis
      using assms a n row made[of t] by (auto simp: create_text_node_def Let_def split: if_splits sum.splits)
  next
    case (Some x)
    show ?thesis
    proof (cases "pos = Child")
      case True
      then show ?thesis
        using Some assms a n row made[of t] by (auto simp: create_text_node_def Let_def split: if_splits sum.splits)
    next
      case False
      then show ?thesis
        using Some assms a n row made[OF disjI2[OF refl]]
        by (auto simp: create_text_node_def Let_def bump split: if_splits sum.splits option.splits)
    qed
  qed
qed

lemma create_text_node_wf:
  assumes "wf_tree t" "create_text_node now i l p anchor pos title t = Inr t'"
  shows "wf_tree t'"
proof -
  obtain row q k tb where made: "nd_id row = i" "i \<notin> nd_id ` set (ot_nodes t)" "tb = t \<or> tb = bump_ordinals_after l q k t"
    "insert_entry \<lparr>oe_node = i, oe_list = l, oe_parent = q, oe_ordinal = k, oe_collapsed = False\<rparr>
       (tb\<lparr>ot_nodes := ot_nodes tb @ [row]\<rparr>) = Inr t'"
    using create_text_node_steps[OF assms(2)] .
  then have "wf_tree tb" "ot_nodes tb = ot_nodes t" using assms(1) bump_wf by auto
  then show ?thesis using insert_entry_wf[OF _ made(4)] made(1,2) by simp
qed

lemma enable_capabilities_wf:
  "wf_tree t \<Longrightarrow> enable_capabilities i cs t = Inr t' \<Longrightarrow> wf_tree t'"
proof (induction cs arbitrary: t)
  case (Cons c cs)
  then obtain t1 where t1: "enable_capability i c t = Inr t1" "enable_capabilities i cs t1 = Inr t'" by (auto split: sum.splits)
  have "wf_tree t1"
    using t1(1) by (intro wf_same_parents[OF Cons.prems(1)])
      (auto simp: enable_capability_def parent_of_def get_entry_def split: option.splits if_splits)
  then show ?case using Cons.IH t1(2) by blast
qed simp

lemma preorder_ends:
  assumes "distinct (map oe_node es)" "distinct (map fst stack @ map fst out)"
    and "set (map fst stack @ map fst out) \<subseteq> oe_node ` set es"
    and "\<And>e p. e \<in> set es \<Longrightarrow> oe_node e \<in> set (map fst stack @ map fst out) \<Longrightarrow> oe_parent e = Some p \<Longrightarrow> p \<in> set (map fst out)"
  shows "\<exists>r. preorder_loop es stack out = Some r"
  using assms(2-)
proof (induction "length es - length out" arbitrary: stack out rule: less_induct)
  case less
  show ?case
  proof (cases stack)
    case Nil
    then show ?thesis by (simp add: preorder_loop.simps)
  next
    case (Cons x rest)
    obtain i d where x: "x = (i, d)" by fastforce
    define kids where "kids = siblings_in es (Some i)"
    have i: "i \<notin> set (map fst out)" "i \<notin> set (map fst rest)" using less.prems(1) Cons x by auto
    have kid: "k \<in> set es" "oe_parent k = Some i" if "k \<in> set kids" for k using that by (simp_all add: kids_def)
    have new: "oe_node k \<notin> set (map fst stack @ map fst out)" if "k \<in> set kids" for k
      using less.prems(3)[OF kid(1)[OF that] _ kid(2)[OF that]] i(1) by blast
    have dk: "distinct (map oe_node kids)"
      using assms(1) unfolding kids_def siblings_in_def by (simp add: distinct_map inj_on_def)
    have "length (out @ [x]) \<le> length es"
      using card_mono[OF _ less.prems(2)] distinct_card[OF less.prems(1)] Cons assms(1)
      by (simp add: card_image distinct_map distinct_card)
    then have smaller: "length es - length (out @ [x]) < length es - length out" by simp
    have "\<exists>r. preorder_loop es (map (\<lambda>e. (oe_node e, d + 1)) kids @ rest) (out @ [x]) = Some r"
    proof (rule less.hyps[OF smaller])
      show "distinct (map fst (map (\<lambda>e. (oe_node e, d + 1)) kids @ rest) @ map fst (out @ [x]))"
        using less.prems(1) dk new Cons x by (force simp: comp_def)
      show "set (map fst (map (\<lambda>e. (oe_node e, d + 1)) kids @ rest) @ map fst (out @ [x])) \<subseteq> oe_node ` set es"
        using less.prems(2) kid Cons x by auto
    next
      fix e p assume e: "e \<in> set es" "oe_parent e = Some p"
        "oe_node e \<in> set (map fst (map (\<lambda>e. (oe_node e, d + 1)) kids @ rest) @ map fst (out @ [x]))"
      show "p \<in> set (map fst (out @ [x]))"
      proof (cases "oe_node e \<in> oe_node ` set kids")
        case True
        then obtain k where k: "k \<in> set kids" "oe_node k = oe_node e" by auto
        then have "k = e" using kid(1)[OF k(1)] e(1) assms(1) by (auto simp: distinct_map dest: inj_onD)
        then show ?thesis using kid(2)[OF k(1)] e(2) x by simp
      next
        case False
        then have "oe_node e \<in> set (map fst stack @ map fst out)" using e(3) Cons x by auto
        then show ?thesis using less.prems(3)[OF e(1) _ e(2)] by simp
      qed
    qed
    then show ?thesis using Cons x by (subst preorder_loop.simps) (simp add: kids_def)
  qed
qed

lemma preorder_total:
  assumes "distinct (map oe_node es)"
  shows "preorder es \<noteq> None"
proof -
  have "distinct (map oe_node (siblings_in es None))"
    using assms unfolding siblings_in_def by (simp add: distinct_map inj_on_def)
  moreover have "e \<in> set (siblings_in es None)" if "e \<in> set es" "oe_node e \<in> oe_node ` set (siblings_in es None)" for e
    using that assms by (force simp: distinct_map inj_on_def)
  ultimately have "\<exists>r. preorder_loop es (map (\<lambda>e. (oe_node e, 0)) (siblings_in es None)) [] = Some r"
    by (intro preorder_ends[OF assms]) (force simp: comp_def)+
  then show ?thesis by (simp add: preorder_def)
qed

lemma first_target_total: "forest t \<Longrightarrow> first_target t depth order \<noteq> None"
  by (induction order) (auto simp: is_in_generator_subtree_def generator_above_exact)

lemma list_nodes_distinct: "wf_tree t \<Longrightarrow> distinct (map oe_node (list_for_list l t))"
  by (simp add: wf_tree_def list_for_list_def distinct_map inj_on_def)

lemma plan_reorder_total:
  assumes "wf_tree t"
  shows "plan_reorder i dir t \<noteq> None"
proof -
  have "cross_parent_target t (list_for_list l t) p dir \<noteq> None" for l p
    using preorder_total[OF list_nodes_distinct[OF assms, of l]] first_target_total[OF wf_tree_forest[OF assms]]
    by (auto simp: cross_parent_target_def split: option.splits)
  then show ?thesis by (auto simp: plan_reorder_def Let_def split: option.splits)
qed

lemma place_node_total: "wf_tree t \<Longrightarrow> place_node i p index t \<noteq> None"
  using guard_not_under_exact[OF wf_tree_forest, of t i p]
  by (auto simp: place_node_def and_then_def Let_def split: option.splits)

lemma guard_generator_total: "wf_tree t \<Longrightarrow> guard_not_in_generator_subtree p t \<noteq> None"
  using generator_above_exact[OF wf_tree_forest]
  by (auto simp: guard_not_in_generator_subtree_def is_in_generator_subtree_def split: option.splits)

lemma renumber_wf:
  assumes "wf_tree t" "renumber_siblings ss p t = Inr t'" "\<And>s. s \<in> set ss \<Longrightarrow> s \<in> set (ot_entries t) \<and> oe_parent s = p"
  shows "wf_tree t'"
  using renumber_keeps[OF assms(1,2)] assms(3) sibling_parent[OF assms(1)] by blast

lemma swap_nth_set: "i < length xs \<Longrightarrow> j < length xs \<Longrightarrow> set (swap_nth i j xs) = set xs"
  by (simp add: swap_nth_def)

lemma reorder_sibling_wf:
  assumes "wf_tree t"
  shows "reorder_sibling i dir t \<noteq> None" "reorder_sibling i dir t = Some (Inr t') \<Longrightarrow> wf_tree t'"
proof -
  have fine: "reorder_sibling i dir t \<noteq> None \<and> (reorder_sibling i dir t = Some (Inr t') \<longrightarrow> wf_tree t')"
  proof (cases "plan_reorder i dir t")
    case None
    then show ?thesis using plan_reorder_total[OF assms] by simp
  next
    case (Some what)
    show ?thesis
    proof (cases what)
      case ReorderUnchanged
      then show ?thesis using Some assms by (auto simp: reorder_sibling_def)
    next
      case ReorderSwap
      then obtain e pos where e: "get_entry i t = Some e"
        and pos: "pos_in (map oe_node (siblings_in (list_for_list (oe_list e) t) (oe_parent e))) i = Some pos"
        and "\<not> (case dir of Up \<Rightarrow> pos = 0 | Down \<Rightarrow> pos + 1 = length (siblings_in (list_for_list (oe_list e) t) (oe_parent e)))"
        using Some by (auto simp: plan_reorder_def Let_def split: option.splits if_splits)
      then have at: "(case dir of Up \<Rightarrow> pos - 1 | Down \<Rightarrow> pos + 1) < length (siblings_in (list_for_list (oe_list e) t) (oe_parent e))"
          "pos < length (siblings_in (list_for_list (oe_list e) t) (oe_parent e))"
        using pos_in_Some[OF pos] by (auto split: reorder_direction.splits)
      have "s \<in> set (ot_entries t) \<and> oe_parent s = oe_parent e"
        if "s \<in> set (swap_nth pos (case dir of Up \<Rightarrow> pos - 1 | Down \<Rightarrow> pos + 1)
              (siblings_in (list_for_list (oe_list e) t) (oe_parent e)))" for s
        using that unfolding swap_nth_set[OF at(2,1)] by simp
      from renumber_wf[OF assms _ this] show ?thesis
        using Some ReorderSwap e pos by (simp add: reorder_sibling_def)
    next
      case (ReorderReparent p index)
      obtain closed where closed: "collapsed_from p t = Some closed"
        using collapsed_above_exact[OF wf_tree_forest[OF assms], of p] by (auto simp: collapsed_from_def)
      define t0 where "t0 = fold (\<lambda>a. set_collapsed a False) closed t"
      have t0: "wf_tree t0" using collapse_each[OF assms] by (simp add: t0_def)
      have renum: "wf_tree t2" if r: "place_node i (Some p) index t0 = Some (Inr t1)"
          "renumber_siblings (siblings_in (list_for_list l t1) q) q t1 = Inr t2" for t1 t2 l q
        using renumber_wf[OF _ r(2)] place_node_moves[OF t0 r(1)] by simp
      show ?thesis
        using Some ReorderReparent closed place_node_total[OF t0, of i "Some p" index] renum
        by (auto simp: reorder_sibling_def t0_def[symmetric] and_then_def split: option.splits sum.splits)
    qed
  qed
  then show "reorder_sibling i dir t \<noteq> None" "reorder_sibling i dir t = Some (Inr t') \<Longrightarrow> wf_tree t'" by blast+
qed

lemma place_valid_wf:
  assumes "wf_tree t"
  shows "place_valid i t \<noteq> None" "place_valid i t = Some (Inr (m, t')) \<Longrightarrow> wf_tree t'"
  using place_valid_returns[OF assms, of i] by auto

lemma place_each_wf: "wf_tree t \<Longrightarrow> place_each cs t \<noteq> None \<and> (place_each cs t = Some (Inr t') \<longrightarrow> wf_tree t')"
proof (induction cs arbitrary: t)
  case (Cons c cs)
  obtain m t1 where "place_valid c t = Some (Inr (m, t1))" "wf_tree t1" using place_valid_returns[OF Cons.prems] by blast
  then show ?case using Cons.IH[of t1] by (simp add: and_then_def)
qed auto

text \<open>The writes that place nodes. A reparent is one only where the node does not go under itself, which
  \<^verbatim>\<open>ReparentNode\<close> leaves to its callers.\<close>

inductive tree_write :: "outline_tree \<Rightarrow> outline_tree \<Rightarrow> bool" where
  created: "exec_create_node now i l p anchor pos title t = Some (Inr t') \<Longrightarrow> tree_write t t'"
| titled: "tree_write t (t\<lparr>ot_nodes := update_title now i title (ot_nodes t)\<rparr>)"
| node_placed: "exec_place_node i p index t = Some (Inr t') \<Longrightarrow> tree_write t t'"
| reparented: "exec_reparent i p k t = Some (Inr t') \<Longrightarrow> (\<And>q. p = Some q \<Longrightarrow> (q, i) \<notin> (parent_rel t)\<^sup>*) \<Longrightarrow> tree_write t t'"
| reordered: "reorder_sibling i dir t = Some (Inr t') \<Longrightarrow> tree_write t t'"
| grouped: "exec_set_groups i on t = Some (Inr t') \<Longrightarrow> tree_write t t'"
| enabled: "enable_capabilities i cs t = Inr t' \<Longrightarrow> tree_write t t'"
| folded: "tree_write t (set_collapsed i c t)"

lemma exec_create_wf:
  assumes "wf_tree t" "exec_create_node now i l p anchor pos title t = Some (Inr t')"
  shows "wf_tree t'"
proof -
  obtain t1 where t1: "create_text_node now i l p anchor pos title t = Inr t1"
      "t' = t1 \<or> enable_capabilities i [CapLifecycle] t1 = Inr t'"
    using assms(2) by (auto simp: exec_create_node_def and_then_def split: option.splits sum.splits if_splits)
  show ?thesis using t1(2) create_text_node_wf[OF assms(1) t1(1)] enable_capabilities_wf by blast
qed

lemma set_parent_target:
  "set_parent i p k t = Inr t' \<Longrightarrow> get_entry i t \<noteq> None \<Longrightarrow> p = Some q \<Longrightarrow> q \<in> nd_id ` set (ot_nodes t)"
  by (auto simp: set_parent_def get_entry_None split: if_splits)

text \<open>The first half of a reparent, up to the step that settles the node.\<close>

lemma reparent_hung:
  assumes "wf_tree t" "\<And>a. p = Some a \<Longrightarrow> (a, i) \<notin> (parent_rel t)\<^sup>*" "get_entry i t \<noteq> None"
    and "set_parent i p k (bump_ordinals_after l p k t) = Inr t1"
  shows "elsewhere i t t1 \<and> wf_tree t1"
proof -
  have els: "elsewhere i t t1" by (rule elsewhere_step[OF _ assms(4)]) (simp add: elsewhere_def)
  have i: "get_entry i (bump_ordinals_after l p k t) \<noteq> None" using assms(3) by (simp add: bump_entry)
  have "q \<in> nd_id ` set (ot_nodes t)" if "p = Some q" for q
    using set_parent_target[OF assms(4) i that] by simp
  moreover have "parent_of t1 i = p" using set_parent_of[OF assms(4), of i] i by simp
  ultimately show ?thesis using wf_elsewhere[OF assms(1) els] assms(2) els by blast
qed

lemma reparent_steps:
  assumes "exec_reparent i p k t = Some (Inr t')"
  obtains l t1 m where "get_entry i t \<noteq> None" "set_parent i p k (bump_ordinals_after l p k t) = Inr t1"
    "place_valid i t1 = Some (Inr (m, t'))"
  using assms by (auto simp: exec_reparent_def and_then_def outline_list_for_node_def split: option.splits sum.splits)

lemma exec_reparent_wf:
  assumes "wf_tree t" "exec_reparent i p k t = Some (Inr t')" "\<And>q. p = Some q \<Longrightarrow> (q, i) \<notin> (parent_rel t)\<^sup>*"
  shows "wf_tree t'"
  using reparent_steps[OF assms(2)] reparent_hung[OF assms(1,3)] place_valid_wf(2) by metis

lemma tree_write_wf: "tree_write t t' \<Longrightarrow> wf_tree t \<Longrightarrow> wf_tree t'"
proof (induction rule: tree_write.induct)
  case (created now i l p anchor pos title t t')
  then show ?case by (rule exec_create_wf[rotated])
next
  case (titled t now i title)
  have "map nd_id (update_title now i title (ot_nodes t)) = map nd_id (ot_nodes t)" by (simp add: update_title_def)
  then have "nd_id ` set (update_title now i title (ot_nodes t)) = nd_id ` set (ot_nodes t)" by (metis list.set_map)
  then show ?case by (intro wf_same_parents[OF titled]) (simp_all add: parent_of_def get_entry_def)
next
  case (node_placed i p index t t')
  then show ?case using place_node_moves by (auto simp: exec_place_node_def and_then_def split: option.splits sum.splits)
next
  case (reparented i p k t t')
  then show ?case using exec_reparent_wf by blast
next
  case (reordered i dir t t')
  then show ?case using reorder_sibling_wf(2) by blast
next
  case (grouped i on t t')
  define t1 where "t1 = t\<lparr>ot_grouped := (if on then i # removeAll i (ot_grouped t) else removeAll i (ot_grouped t))\<rparr>"
  have t1: "wf_tree t1"
    by (rule wf_same_parents[OF grouped.prems]) (simp_all add: t1_def parent_of_def get_entry_def)
  have r: "set_by_lifecycle i on t = Some (Inr t')" using grouped.hyps by (simp add: exec_set_groups_def split: if_splits)
  show ?case
  proof (cases on)
    case True
    then show ?thesis
      using r place_each_wf[OF t1, of "map oe_node (siblings_in (ot_entries t1) (Some i))" t']
      unfolding set_by_lifecycle_def Let_def t1_def by simp
  next
    case False
    then show ?thesis using r t1 unfolding set_by_lifecycle_def Let_def t1_def by simp
  qed
next
  case (enabled i cs t t')
  then show ?case using enable_capabilities_wf by blast
next
  case (folded t i c)
  then show ?case by (rule wf_set_collapsed)
qed

definition empty_tree :: outline_tree where
  "empty_tree = \<lparr>ot_entries = [], ot_nodes = [], ot_caps = (\<lambda>_. []), ot_grouped = []\<rparr>"

lemma wf_empty_tree: "wf_tree empty_tree"
  by (simp add: wf_tree_def empty_tree_def forest_def parent_rel_def parent_of_def get_entry_def acyclic_def)

lemma exec_reparent_total:
  assumes "wf_tree t" "\<And>a. p = Some a \<Longrightarrow> (a, i) \<notin> (parent_rel t)\<^sup>*"
  shows "exec_reparent i p k t \<noteq> None"
proof -
  have ends: False
    if "place_valid i t1 = None" "get_entry i t = Some e" "set_parent i p k (bump_ordinals_after (oe_list e) p k t) = Inr t1" for e t1
    using reparent_hung[OF assms _ that(3)] that(2) place_valid_wf(1)[of t1 i] that(1) by simp
  show ?thesis
    using guard_generator_total[OF assms(1), of p] ends
    by (auto simp: exec_reparent_def and_then_def outline_list_for_node_def split: option.splits sum.splits)
qed

lemma exec_set_groups_total: "wf_tree t \<Longrightarrow> exec_set_groups i on t \<noteq> None"
proof -
  assume "wf_tree t"
  then have "wf_tree (t\<lparr>ot_grouped := g\<rparr>)" for g by (rule wf_same_parents) (simp_all add: parent_of_def get_entry_def)
  then show ?thesis using place_each_wf by (auto simp: exec_set_groups_def set_by_lifecycle_def Let_def)
qed

text \<open>C11: However the outline is built and rearranged (nodes created, placed, reordered across parents, grouped,
  folded, reparented anywhere but under themselves), no node ever hangs under itself, every parent is a node, and
  so each of those operations returns on what the others left.\<close>
theorem outline_stays_forest:
  assumes "tree_write\<^sup>*\<^sup>* empty_tree t"
  shows "(i, i) \<notin> (parent_rel t)\<^sup>+ \<and> (parent_of t i = Some p \<longrightarrow> get_entry p t \<noteq> None)
    \<and> exec_create_node now i l q anchor pos title t \<noteq> None \<and> exec_place_node i q index t \<noteq> None
    \<and> reorder_sibling i dir t \<noteq> None \<and> exec_set_groups i on t \<noteq> None
    \<and> ((\<forall>a. q = Some a \<longrightarrow> (a, i) \<notin> (parent_rel t)\<^sup>*) \<longrightarrow> exec_reparent i q k t \<noteq> None)"
proof -
  have wf: "wf_tree t" using assms by (induction rule: rtranclp_induct) (auto intro: wf_empty_tree tree_write_wf)
  have "(i, i) \<notin> (parent_rel t)\<^sup>+" using wf_tree_forest[OF wf] by (simp add: forest_def acyclic_def)
  moreover have "exec_create_node now i l q anchor pos title t \<noteq> None" "exec_place_node i q index t \<noteq> None"
    using guard_generator_total[OF wf, of q] place_node_total[OF wf]
    by (auto simp: exec_create_node_def exec_place_node_def and_then_def split: sum.splits)
  ultimately show ?thesis
    using parent_exists(2)[OF wf] reorder_sibling_wf(1)[OF wf] exec_set_groups_total[OF wf] exec_reparent_total[OF wf]
    by blast
qed

lemma sample_tree: "\<exists>t. tree_write empty_tree t \<and> get_entry 1 t \<noteq> None"
proof -
  define slug where "slug = truncate_slug (derive_node_slug ''Fix'' None)"
  have title: "trim ''Fix'' \<noteq> []" by code_simp
  have fresh: "ot_nodes empty_tree = []" by (simp add: empty_tree_def)
  have "allocate_unique_slug (derive_node_slug ''Fix'' None) (Some 1) [] = Inr slug"
    by (simp add: allocate_unique_slug_def slug_taken_def get_by_slug_def slug_def)
  moreover define row where "row = \<lparr>nd_id = 1, nd_slug = slug, nd_title = ''Fix'', nd_created = 5, nd_updated = 5\<rparr>"
  have "create_with_id 5 1 slug ''Fix'' [] = Inr (row, [row])" "nd_id row = 1"
    using truncate_slug_length[of "derive_node_slug ''Fix'' None"]
    by (simp_all add: create_with_id_def insert_node_def slug_def[symmetric] row_def Let_def)
  ultimately have "\<exists>t. create_text_node 5 1 9 None None Child ''Fix'' empty_tree = Inr t \<and> get_entry 1 t \<noteq> None \<and> parent_of t 1 = None"
    using title by (simp add: create_text_node_def fresh Let_def)
      (simp add: empty_tree_def insert_entry_def parent_of_def get_entry_def)
  then obtain t where "create_text_node 5 1 9 None None Child ''Fix'' empty_tree = Inr t" "get_entry 1 t \<noteq> None" "parent_of t 1 = None"
    by blast
  then have "exec_create_node 5 1 9 None None Child ''Fix'' empty_tree = Some (Inr t)"
    by (simp add: exec_create_node_def and_then_def guard_not_in_generator_subtree_def)
  then show ?thesis using \<open>get_entry 1 t \<noteq> None\<close> tree_write.created by blast
qed

theorem outline_stays_forest_witness:
  "\<exists>t. get_entry 1 t \<noteq> None \<and> (1, 1) \<notin> (parent_rel t)\<^sup>+ \<and> exec_place_node 1 None 0 t \<noteq> None"
proof -
  obtain t where t: "tree_write empty_tree t" "get_entry 1 t \<noteq> None" using sample_tree by blast
  have "tree_write\<^sup>*\<^sup>* empty_tree t" using t(1) by blast
  from outline_stays_forest[OF this, of 1 _ _ _ None] t(2) show ?thesis by blast
qed

section \<open>Grouping\<close>

text \<open>A node that groups by lifecycle has only children with a lifecycle state.\<close>

definition groups_ok :: "outline_tree \<Rightarrow> bool" where
  "groups_ok t \<longleftrightarrow> (\<forall>c p. parent_of t c = Some p \<longrightarrow> accepts p c t)"

lemma place_each_groups:
  assumes "wf_tree t" "\<And>c p. parent_of t c = Some p \<Longrightarrow> \<not> accepts p c t \<Longrightarrow> c \<in> set cs" "place_each cs t = Some (Inr t')"
  shows "groups_ok t'"
  using assms
proof (induction cs arbitrary: t)
  case Nil
  then show ?case by (auto simp: groups_ok_def)
next
  case (Cons c cs)
  obtain m t1 where t1: "place_valid c t = Some (Inr (m, t1))" "wf_tree t1" "elsewhere c t t1"
      "\<And>p. parent_of t1 c = Some p \<Longrightarrow> accepts p c t1"
    using place_valid_returns[OF Cons.prems(1), of c] by blast
  have "place_each cs t1 = Some (Inr t')" using Cons.prems(3) t1(1) by (simp add: and_then_def)
  moreover have "x \<in> set cs" if x: "parent_of t1 x = Some p" "\<not> accepts p x t1" for x p
  proof -
    have bad: "\<not> accepts p x t" using x(2) elsewhere_accepts[OF t1(3)] by simp
    then have "x \<noteq> c" using t1(4) x by blast
    then have "parent_of t x = Some p" using t1(3) x(1) by (simp add: elsewhere_def)
    then show ?thesis using Cons.prems(2)[OF _ bad] \<open>x \<noteq> c\<close> by auto
  qed
  ultimately show ?case using Cons.IH[OF t1(2)] by blast
qed

lemma reparent_groups:
  assumes "wf_tree t" "groups_ok t" "exec_reparent i p k t = Some (Inr t')" "\<And>q. p = Some q \<Longrightarrow> (q, i) \<notin> (parent_rel t)\<^sup>*"
  shows "groups_ok t'"
proof -
  obtain l t1 m where t1: "get_entry i t \<noteq> None" "set_parent i p k (bump_ordinals_after l p k t) = Inr t1"
      "place_valid i t1 = Some (Inr (m, t'))"
    using reparent_steps[OF assms(3)] .
  have els: "elsewhere i t t1" and wf: "wf_tree t1" using reparent_hung[OF assms(1,4) t1(1,2)] by blast+
  have "c \<in> set [i]" if "parent_of t1 c = Some q" "\<not> accepts q c t1" for c q
    using that els assms(2) elsewhere_accepts[OF els] by (cases "c = i") (auto simp: elsewhere_def groups_ok_def)
  moreover have "place_each [i] t1 = Some (Inr t')" using t1(3) by (simp add: and_then_def)
  ultimately show ?thesis by (rule place_each_groups[OF wf])
qed

lemma create_text_node_entry:
  assumes "create_text_node now i l p anchor pos title t = Inr t1"
  shows "i \<notin> nd_id ` set (ot_nodes t) \<and> ot_caps t1 = ot_caps t \<and> ot_grouped t1 = ot_grouped t
    \<and> (\<forall>j. j \<noteq> i \<longrightarrow> parent_of t1 j = parent_of t j)"
proof -
  obtain row q k tb where made: "nd_id row = i" "i \<notin> nd_id ` set (ot_nodes t)" "tb = t \<or> tb = bump_ordinals_after l q k t"
    "insert_entry \<lparr>oe_node = i, oe_list = l, oe_parent = q, oe_ordinal = k, oe_collapsed = False\<rparr>
       (tb\<lparr>ot_nodes := ot_nodes tb @ [row]\<rparr>) = Inr t1"
    using create_text_node_steps[OF assms] .
  have tb: "ot_caps tb = ot_caps t" "ot_grouped tb = ot_grouped t" "parent_of (tb\<lparr>ot_nodes := ns\<rparr>) j = parent_of t j" for ns j
    using made(3) bump_parent[of l q k t] by (auto simp: parent_of_def get_entry_def)
  have "ot_caps t1 = ot_caps tb \<and> ot_grouped t1 = ot_grouped tb"
    using made(4) by (auto simp: insert_entry_def split: if_splits)
  then show ?thesis using made(2) tb insert_entry_parents[OF made(4)] by simp
qed

lemma create_groups:
  assumes "wf_tree t" "groups_ok t" "exec_create_node now i l p anchor pos title t = Some (Inr t')"
  shows "groups_ok t'"
proof -
  obtain t1 where t1: "create_text_node now i l p anchor pos title t = Inr t1"
      "if is_some_and (\<lambda>parent. by_lifecycle parent t1) (parent_of t1 i)
       then enable_capabilities i [CapLifecycle] t1 = Inr t' else t' = t1"
    using assms(3) by (auto simp: exec_create_node_def and_then_def split: option.splits sum.splits if_splits)
  note made = create_text_node_entry[OF t1(1)]
  have wf1: "wf_tree t1" by (rule create_text_node_wf[OF assms(1) t1(1)])
  have old: "accepts q c t1" if "parent_of t1 c = Some q" "c \<noteq> i" for c q
    using that made assms(2) by (auto simp: groups_ok_def accepts_def by_lifecycle_def)
  show ?thesis
  proof (cases "is_some_and (\<lambda>parent. by_lifecycle parent t1) (parent_of t1 i)")
    case False
    then have "t' = t1" using t1(2) by simp
    then show ?thesis using False old unfolding groups_ok_def
      by (metis accepts_def is_some_and_iff)
  next
    case True
    then have en: "enable_capability i CapLifecycle t1 = Inr t'" using t1(2) by (auto split: sum.splits)
    then have caps: "ot_entries t' = ot_entries t1" "ot_grouped t' = ot_grouped t1"
        "CapLifecycle \<in> set (ot_caps t' i)" "\<And>c. c \<noteq> i \<Longrightarrow> ot_caps t' c = ot_caps t1 c"
        "CapGroups \<in> set (ot_caps t' i) \<longleftrightarrow> CapGroups \<in> set (ot_caps t1 i)"
      by (auto simp: enable_capability_def split: option.splits if_splits)
    have par: "parent_of t' c = parent_of t1 c" for c by (simp add: parent_of_def get_entry_def caps(1))
    have grp: "by_lifecycle q t' = by_lifecycle q t1" for q
      using caps(2,4,5) by (cases "q = i") (simp_all add: by_lifecycle_def)
    show ?thesis
      unfolding groups_ok_def par
      using old caps(3,4) grp by (metis accepts_def)
  qed
qed

lemma placing_ignores_groups:
  assumes "wf_tree t" "exec_place_node i (Some p) index t = Some (Inr t')" "\<not> accepts p i t"
  shows "\<not> groups_ok t'"
proof -
  have "place_node i (Some p) index t = Some (Inr t')"
    using assms(2) by (auto simp: exec_place_node_def and_then_def split: option.splits sum.splits)
  then show ?thesis
    using place_node_moves[OF assms(1)] assms(3) elsewhere_accepts by (fastforce simp: groups_ok_def)
qed

text \<open>C39: While a node groups its children by lifecycle, creating a node below it, reparenting a node and turning the
  grouping on all leave it with only children that have a lifecycle state. Placing a node at an index and
  reordering across parents do not look, so they can leave one there (\<open>placing_ignores_groups\<close>).\<close>
theorem grouping_kept:
  assumes "wf_tree t" "groups_ok t"
    and "exec_create_node now i l p anchor pos title t = Some (Inr t')
      \<or> exec_set_groups i on t = Some (Inr t')
      \<or> exec_reparent i p k t = Some (Inr t') \<and> (\<forall>q. p = Some q \<longrightarrow> (q, i) \<notin> (parent_rel t)\<^sup>*)"
  shows "groups_ok t'"
proof -
  have sets: "groups_ok t'" if "exec_set_groups i on t = Some (Inr t')"
  proof -
    define t1 where "t1 = t\<lparr>ot_grouped := (if on then i # removeAll i (ot_grouped t) else removeAll i (ot_grouped t))\<rparr>"
    have par: "parent_of t1 j = parent_of t j" for j by (simp add: t1_def parent_of_def get_entry_def)
    have wf: "wf_tree t1" by (rule wf_same_parents[OF assms(1) par]) (simp_all add: t1_def)
    have r: "set_by_lifecycle i on t = Some (Inr t')" using that by (simp add: exec_set_groups_def split: if_splits)
    have grp: "by_lifecycle q t1 \<longrightarrow> on \<and> q = i \<or> by_lifecycle q t" for q by (auto simp: by_lifecycle_def t1_def)
    have caps: "ot_caps t1 = ot_caps t" by (simp add: t1_def)
    show ?thesis
    proof (cases on)
      case True
      have "c \<in> set (map oe_node (siblings_in (ot_entries t1) (Some i)))" if c: "parent_of t1 c = Some q" "\<not> accepts q c t1" for c q
      proof -
        have "q = i" using c grp[of q] caps assms(2) by (auto simp: groups_ok_def par accepts_def)
        then show ?thesis using c(1) get_entry_Some[of c t1] by (auto simp: parent_entry)
      qed
      from place_each_groups[OF wf this] show ?thesis
        using r True unfolding set_by_lifecycle_def Let_def t1_def by simp
    next
      case False
      then have "t' = t1" using r unfolding set_by_lifecycle_def Let_def t1_def by simp
      then show ?thesis using False grp caps assms(2) by (auto simp: groups_ok_def par accepts_def)
    qed
  qed
  show ?thesis using assms sets create_groups reparent_groups by blast
qed

section \<open>The properties on a small outline\<close>

theorem place_valid_settles_witness:
  "\<exists>t'. place_valid 2 (sample_outline [1]) = Some (Inr (True, t')) \<and> wf_tree t'"
proof -
  have "is_some_and (\<lambda>p. \<not> accepts p 2 (sample_outline [1])) (parent_of (sample_outline [1]) 2)"
    unfolding sample_parent by (simp add: accepts_def by_lifecycle_def sample_outline_def)
  then show ?thesis using place_valid_settles[OF wf_sample_outline[of "[1]"], of 2] by auto
qed

theorem place_node_exact_witness:
  "\<exists>t'. place_node 2 None 1 (sample_outline []) = Some (Inr t')
     \<and> map oe_node (siblings_in (list_for_list 9 t') None) = [1, 2, 3]"
proof -
  let ?t = "sample_outline []"
  have e: "get_entry 2 ?t = Some (at_place 2 (Some 1) 0)" by (simp add: get_entry_def sample_outline_def at_place_def)
  have order: "insert_nth (min (nat 1) (length (siblings_in (filter (\<lambda>s. oe_node s \<noteq> 2) (list_for_list 9 ?t)) None))) 2
      (map oe_node (siblings_in (filter (\<lambda>s. oe_node s \<noteq> 2) (list_for_list 9 ?t)) None)) = [1, 2, 3]"
    by code_simp
  have l: "oe_list (at_place 2 (Some 1) 0) = 9" by (simp add: at_place_def)
  obtain t' where t': "place_node 2 None 1 ?t = Some (Inr t')"
    "map (\<lambda>s. (oe_node s, oe_ordinal s)) (siblings_in (list_for_list 9 t') None) = zip [1, 2, 3] (map int [0..<length [1 :: uuid, 2, 3]])"
    using place_node_exact[OF wf_sample_outline e _ refl refl, of None 1] unfolding l order
    by (simp only: option.distinct simp_thms if_False) blast
  have keys: "map fst (map (\<lambda>s. (oe_node s, oe_ordinal s)) xs) = map oe_node xs" for xs by simp
  have "map fst (zip [1, 2, 3] (map int [0..<length [1 :: uuid, 2, 3]])) = [1 :: uuid, 2, 3]" by code_simp
  then have "map oe_node (siblings_in (list_for_list 9 t') None) = [1, 2, 3]"
    unfolding t'(2)[symmetric] keys .
  with t'(1) show ?thesis by (intro exI[of _ t'] conjI)
qed

theorem grouping_kept_witness:
  "\<exists>t'. exec_set_groups 1 True (sample_outline []) = Some (Inr t') \<and> groups_ok t'"
proof -
  have turned: "(sample_outline [])\<lparr>ot_grouped := [1]\<rparr> = sample_outline [1]" by (simp add: sample_outline_def)
  have kids: "map oe_node (siblings_in (ot_entries (sample_outline [1])) (Some 1)) = [2]" by code_simp
  obtain m t' where "place_valid 2 (sample_outline [1]) = Some (Inr (m, t'))"
    using place_valid_returns[OF wf_sample_outline[of "[1]"], of 2] by blast
  then have "place_each [2] (sample_outline [1]) = Some (Inr t')" by (simp add: and_then_def)
  moreover have "ot_grouped (sample_outline []) = []" "CapGroups \<in> set (ot_caps (sample_outline []) 1)"
    by (simp_all add: sample_outline_def)
  ultimately have r: "exec_set_groups 1 True (sample_outline []) = Some (Inr t')"
    by (simp add: exec_set_groups_def set_by_lifecycle_def Let_def turned[simplified] kids[simplified])
  have "groups_ok (sample_outline [])"
    by (simp add: groups_ok_def accepts_def by_lifecycle_def sample_outline_def)
  from grouping_kept[OF wf_sample_outline this disjI2[OF disjI1[OF r]]] r show ?thesis by blast
qed

end
