(* ===== verification/References.thy ===== *)
theory References
  imports OutlineTree
begin

text \<open>
  The \<^verbatim>\<open>[[slug]]\<close> references written in obligations (\<^verbatim>\<open>tod-store/src/outline/references.rs\<close>): finding them in
  a text, refusing an agent's text that names no node, and the table of edges kept up to date by triggers
  and by \<^verbatim>\<open>sync_reference_edges\<close> after every mutation. What is shown is that the table, maintained change by change,
  is always what reading every obligation anew would give.
\<close>

section \<open>References in a text\<close>

function referenced_slugs :: "string \<Rightarrow> string list" where
  "referenced_slugs text =
     (case split_once ''[['' text of
        None \<Rightarrow> []
      | Some (_, after) \<Rightarrow>
          (case split_once '']]'' after of
             None \<Rightarrow> []
           | Some (inner, rest) \<Rightarrow>
               let slug = trim inner
               in (if slug \<noteq> [] \<and> CHR ''['' \<notin> set slug then [slug] else []) @ referenced_slugs rest))"
  by pat_completeness auto
termination
  by (relation "measure length") (auto dest!: split_once_Some)

declare referenced_slugs.simps [simp del]

definition missing_slugs :: "node_rows \<Rightarrow> string \<Rightarrow> string list" where
  "missing_slugs ns text =
     fold (\<lambda>slug missing. if get_by_slug slug ns = None \<and> slug \<notin> set missing then missing @ [slug] else missing)
       (referenced_slugs text) []"

text \<open>The two mutations it reads; any other passes. \<open>has_words\<close> is whether the text holds an alphanumeric character
  (\<^verbatim>\<open>char::is_alphanumeric\<close>, over all of Unicode).\<close>

definition check_references :: "(string \<Rightarrow> bool) \<Rightarrow> node_rows \<Rightarrow> string option \<Rightarrow> unit fallible" where
  "check_references has_words ns body =
     (case body of
        None \<Rightarrow> Inr ()
      | Some body \<Rightarrow>
          if \<not> has_words body
          then Inl (''obligation text `'' @ trim body
            @ ''` has no words: pass the text itself, or `--body -` with the text on stdin'')
          else if missing_slugs ns body \<noteq> []
          then Inl (''no node has slug '' @ join '', '' (map (\<lambda>s. ''[['' @ s @ '']]'') (missing_slugs ns body))
            @ '' (find one with `tod-cli node search`, or create it first)'')
          else Inr ())"

section \<open>The table of edges\<close>

text \<open>An edge is the obligation, the node it is on and the node it names.\<close>

record ref_db =
  rb_nodes :: node_rows
  rb_outline :: outline_db
  rb_edges :: "(uuid \<times> uuid \<times> uuid) list"
  rb_dirty :: "uuid list"

definition mark_dirty :: "uuid \<Rightarrow> ref_db \<Rightarrow> ref_db" where
  "mark_dirty i db = (if i \<in> set (rb_dirty db) then db else db\<lparr>rb_dirty := rb_dirty db @ [i]\<rparr>)"

text \<open>The triggers of \<^verbatim>\<open>CREATE_NODE_REFERENCES\<close>, and the \<^verbatim>\<open>ON DELETE CASCADE\<close> of its two foreign keys.\<close>

definition on_obligation_insert :: "obligation \<Rightarrow> ref_db \<Rightarrow> ref_db" where
  "on_obligation_insert new db = (if contains_str ''[['' (ob_body new) then mark_dirty (ob_id new) db else db)"

definition on_obligation_body :: "uuid \<Rightarrow> string \<Rightarrow> string \<Rightarrow> ref_db \<Rightarrow> ref_db" where
  "on_obligation_body i old new db =
     (if contains_str ''[['' new \<or> contains_str ''[['' old then mark_dirty i db else db)"

definition on_node_insert :: "string \<Rightarrow> ref_db \<Rightarrow> ref_db" where
  "on_node_insert slug db =
     fold mark_dirty (map ob_id (filter (\<lambda>o'. contains_str ''[['' (ob_body o') \<and> contains_str (lower slug) (lower (ob_body o')))
       (ol_obligations (rb_outline db)))) db"

definition on_obligation_delete :: "uuid \<Rightarrow> ref_db \<Rightarrow> ref_db" where
  "on_obligation_delete i db = db\<lparr>rb_edges := filter (\<lambda>(ob, _, _). ob \<noteq> i) (rb_edges db)\<rparr>"

definition on_node_delete :: "uuid \<Rightarrow> ref_db \<Rightarrow> ref_db" where
  "on_node_delete i db = db\<lparr>rb_edges := filter (\<lambda>(_, _, to). to \<noteq> i) (rb_edges db)\<rparr>"

text \<open>\<^verbatim>\<open>INSERT OR IGNORE\<close>, the key being the obligation and the node it names.\<close>

definition insert_edge :: "uuid \<times> uuid \<times> uuid \<Rightarrow> (uuid \<times> uuid \<times> uuid) list \<Rightarrow> (uuid \<times> uuid \<times> uuid) list" where
  "insert_edge e es = (if list_ex (\<lambda>(ob, _, to). ob = fst e \<and> to = snd (snd e)) es then es else es @ [e])"

definition sync_one :: "uuid \<Rightarrow> ref_db \<Rightarrow> ref_db" where
  "sync_one i db =
     (let es = filter (\<lambda>(ob, _, _). ob \<noteq> i) (rb_edges db)
      in db\<lparr>rb_edges :=
           (case get_obligation i (rb_outline db) of
              None \<Rightarrow> es
            | Some o' \<Rightarrow>
                fold (\<lambda>slug es. fold insert_edge
                        (map (\<lambda>n. (i, ob_node o', nd_id n)) (filter (\<lambda>n. lower (nd_slug n) = lower slug) (rb_nodes db))) es)
                  (referenced_slugs (ob_body o')) es)\<rparr>)"

definition sync_reference_edges :: "ref_db \<Rightarrow> ref_db" where
  "sync_reference_edges db =
     (if rb_dirty db = [] then db else (fold sync_one (rb_dirty db) db)\<lparr>rb_dirty := []\<rparr>)"

text \<open>\<^verbatim>\<open>backfill_reference_edges\<close>: the migration that builds the table.\<close>

definition backfill_reference_edges :: "ref_db \<Rightarrow> ref_db" where
  "backfill_reference_edges db =
     sync_reference_edges (fold mark_dirty
       (map ob_id (filter (\<lambda>o'. contains_str ''[['' (ob_body o')) (ol_obligations (rb_outline db)))) db)"

section \<open>Reading the table\<close>

definition referrers :: "uuid \<Rightarrow> ref_db \<Rightarrow> uuid list" where
  "referrers n db = remdups (map (\<lambda>(_, from, _). from) (filter (\<lambda>(_, from, to). to = n \<and> from \<noteq> n) (rb_edges db)))"

definition referenced_node_ids :: "uuid \<Rightarrow> ref_db \<Rightarrow> uuid list" where
  "referenced_node_ids n db = remdups (map (\<lambda>(_, _, to). to) (filter (\<lambda>(_, from, to). from = n \<and> to \<noteq> n) (rb_edges db)))"

record broken_reference =
  br_obligation :: uuid
  br_node :: uuid
  br_slug :: string

text \<open>\<^verbatim>\<open>body LIKE '%[[%]]%'\<close>.\<close>

definition like_reference :: "string \<Rightarrow> bool" where
  "like_reference body = is_some_and (\<lambda>(_, after). contains_str '']]'' after) (split_once ''[['' body)"

definition broken_references :: "uuid list option \<Rightarrow> ref_db \<Rightarrow> broken_reference list" where
  "broken_references scope db =
     concat (map (\<lambda>o'.
        if is_some_and (\<lambda>ns. ob_node o' \<notin> set ns) scope then []
        else map (\<lambda>slug. \<lparr>br_obligation = ob_id o', br_node = ob_node o', br_slug = slug\<rparr>) (missing_slugs (rb_nodes db) (ob_body o')))
       (filter (\<lambda>o'. like_reference (ob_body o')) (ol_obligations (rb_outline db))))"

section \<open>The writes and their triggers\<close>

text \<open>A repository method on obligations that fires no trigger (section, phase, order and so on).\<close>

definition quiet_write :: "outline_db fallible \<Rightarrow> ref_db \<Rightarrow> ref_db fallible" where
  "quiet_write r db = (case r of Inl e \<Rightarrow> Inl e | Inr ol \<Rightarrow> Inr (db\<lparr>rb_outline := ol\<rparr>))"

definition ref_insert_at ::
    "ms \<Rightarrow> uuid \<Rightarrow> uuid \<Rightarrow> string \<Rightarrow> nat \<Rightarrow> string option \<Rightarrow> string \<Rightarrow> string \<Rightarrow> ref_db \<Rightarrow> ref_db fallible" where
  "ref_insert_at now i n kind index section body phase db =
     (case insert_obligation_at now i n kind index section body phase (rb_outline db) of
        Inl e \<Rightarrow> Inl e
      | Inr ol \<Rightarrow> Inr (if contains_str ''[['' body then mark_dirty i (db\<lparr>rb_outline := ol\<rparr>) else db\<lparr>rb_outline := ol\<rparr>))"

definition ref_update_body :: "ms \<Rightarrow> uuid \<Rightarrow> string \<Rightarrow> ref_db \<Rightarrow> ref_db fallible" where
  "ref_update_body now i body db =
     (case update_obligation_body now i body (rb_outline db) of
        Inl e \<Rightarrow> Inl e
      | Inr ol \<Rightarrow> Inr (on_obligation_body i (unwrap_or [] (map_option ob_body (get_obligation i (rb_outline db)))) body
                         (db\<lparr>rb_outline := ol\<rparr>)))"

definition ref_delete :: "ms \<Rightarrow> uuid \<Rightarrow> ref_db \<Rightarrow> ref_db" where
  "ref_delete now i db = on_obligation_delete i (db\<lparr>rb_outline := snd (delete_obligation now i (rb_outline db))\<rparr>)"

text \<open>\<^verbatim>\<open>move_to_node\<close> deletes the row and inserts it again, so both triggers fire.\<close>

definition ref_move :: "ms \<Rightarrow> uuid \<Rightarrow> uuid \<Rightarrow> ref_db \<Rightarrow> ref_db fallible" where
  "ref_move now i target db =
     (case move_to_node now i target (rb_outline db) of
        Inl e \<Rightarrow> Inl e
      | Inr ol \<Rightarrow>
          (case get_obligation i (rb_outline db) of
             None \<Rightarrow> Inr (db\<lparr>rb_outline := ol\<rparr>)
           | Some row \<Rightarrow>
               if ob_node row = target then Inr db
               else Inr (on_obligation_insert row (on_obligation_delete i (db\<lparr>rb_outline := ol\<rparr>)))))"

definition ref_insert_node :: "node_row \<Rightarrow> ref_db \<Rightarrow> ref_db fallible" where
  "ref_insert_node row db =
     (case insert_node row (rb_nodes db) of
        Inl e \<Rightarrow> Inl e | Inr ns \<Rightarrow> Inr (on_node_insert (nd_slug row) (db\<lparr>rb_nodes := ns\<rparr>)))"

text \<open>\<^verbatim>\<open>DELETE FROM nodes\<close>: its obligations and plan go with it, and every edge to or from it.\<close>

definition delete_node_rows :: "uuid \<Rightarrow> outline_db \<Rightarrow> outline_db" where
  "delete_node_rows n ol =
     (let gone = map ob_id (filter (\<lambda>o'. ob_node o' = n) (ol_obligations ol));
          steps = map ps_id (filter (\<lambda>s. ps_node s = n) (pl_steps (ol_plan ol)));
          ol1 = fold delete_obligation_row gone ol; p = ol_plan ol1
      in ol1\<lparr>ol_plan := p\<lparr>pl_steps := filter (\<lambda>s. ps_id s \<notin> set steps) (pl_steps p),
             pl_deps := filter (\<lambda>(a, b). a \<notin> set steps \<and> b \<notin> set steps) (pl_deps p),
             pl_links := filter (\<lambda>(s, _). s \<notin> set steps) (pl_links p),
             pl_notes := filter (\<lambda>t. sn_step t \<notin> set steps) (pl_notes p)\<rparr>\<rparr>)"

definition ref_delete_node :: "uuid \<Rightarrow> ref_db \<Rightarrow> ref_db" where
  "ref_delete_node n db =
     on_node_delete n (fold (\<lambda>i db. on_obligation_delete i db)
       (map ob_id (filter (\<lambda>o'. ob_node o' = n) (ol_obligations (rb_outline db))))
       (db\<lparr>rb_nodes := filter (\<lambda>r. nd_id r \<noteq> n) (rb_nodes db), rb_outline := delete_node_rows n (rb_outline db)\<rparr>))"

section \<open>The table against the texts\<close>

text \<open>What the table says of an obligation: its id, the node it is on and its text.\<close>

definition ob_text :: "obligation \<Rightarrow> uuid \<times> uuid \<times> string" where
  "ob_text o' = (ob_id o', ob_node o', ob_body o')"

definition texts :: "outline_db \<Rightarrow> (uuid \<times> uuid \<times> string) list" where
  "texts ol = map ob_text (ol_obligations ol)"

lemma texts_ids: "fst ` set (texts ol) = ob_id ` set (ol_obligations ol)"
  by (auto simp: texts_def ob_text_def image_iff)

lemma in_texts: "get_obligation i ol = Some o' \<Longrightarrow> ob_text o' \<in> set (texts ol) \<and> fst (ob_text o') = i"
  using get_obligation_Some by (auto simp: texts_def ob_text_def)

text \<open>The specification: the edges one text stands for, and those all of them do.\<close>

definition edges_of_text :: "node_rows \<Rightarrow> uuid \<times> uuid \<times> string \<Rightarrow> (uuid \<times> uuid \<times> uuid) set" where
  "edges_of_text ns = (\<lambda>(i, from, body).
     (\<lambda>n. (i, from, nd_id n)) ` {n \<in> set ns. lower (nd_slug n) \<in> lower ` set (referenced_slugs body)})"

definition edges_of_texts :: "ref_db \<Rightarrow> (uuid \<times> uuid \<times> uuid) set" where
  "edges_of_texts db = \<Union> (edges_of_text (rb_nodes db) ` set (texts (rb_outline db)))"

text \<open>What every write keeps: an edge is of an obligation that exists, and only a marked obligation's edges may be out of date.\<close>

definition refs_ok :: "ref_db \<Rightarrow> bool" where
  "refs_ok db = (distinct (map fst (texts (rb_outline db)))
     \<and> fst ` set (rb_edges db) \<subseteq> fst ` set (texts (rb_outline db))
     \<and> (\<forall>x \<in> set (texts (rb_outline db)). fst x \<notin> set (rb_dirty db) \<longrightarrow>
          {e \<in> set (rb_edges db). fst e = fst x} = edges_of_text (rb_nodes db) x))"

lemma edges_of_text_fst: "e \<in> edges_of_text ns x \<Longrightarrow> fst e = fst x"
  by (auto simp: edges_of_text_def split: prod.splits)

subsection \<open>A slug read from a text is in the text\<close>

lemma substring_trim: "contains_str (trim s) s"
proof -
  obtain a where a: "s = a @ dropWhile is_space s" by (metis takeWhile_dropWhile_id)
  define t where "t = dropWhile is_space s"
  have "t = trim s @ rev (takeWhile is_space (rev t))"
    unfolding trim_def t_def[symmetric] by (metis rev_append rev_rev_ident takeWhile_dropWhile_id)
  then show ?thesis unfolding contains_str_iff using a t_def by metis
qed

lemma contains_str_trans: "contains_str a b \<Longrightarrow> contains_str b c \<Longrightarrow> contains_str a c"
  unfolding contains_str_iff by (metis append.assoc)

lemma contains_str_middle: "contains_str p s \<Longrightarrow> contains_str p (a @ s @ b)"
  unfolding contains_str_iff by (metis append.assoc)

lemma contains_str_lower: "contains_str a b \<Longrightarrow> contains_str (lower a) (lower b)"
  unfolding contains_str_iff lower_def by (metis map_append)

lemma referenced_slug_in_text:
  "slug \<in> set (referenced_slugs s) \<Longrightarrow> contains_str ''[['' s \<and> contains_str slug s"
proof (induction s rule: referenced_slugs.induct)
  case (1 s)
  obtain before after where open_at: "split_once ''[['' s = Some (before, after)"
    using "1.prems" by (cases "split_once ''[['' s") (auto simp: referenced_slugs.simps[of s])
  obtain inner rest where close_at: "split_once '']]'' after = Some (inner, rest)"
    using "1.prems" open_at by (cases "split_once '']]'' after") (auto simp: referenced_slugs.simps[of s])
  have cut: "s = before @ ''[['' @ inner @ '']]'' @ rest"
    using split_once_Some[OF open_at] split_once_Some[OF close_at] by simp
  have opened: "contains_str ''[['' s" unfolding contains_str_iff cut by blast
  have "contains_str slug s"
  proof (cases "slug = trim inner")
    case True
    have "contains_str (trim inner) ((before @ ''[['') @ inner @ ('']]'' @ rest))"
      by (rule contains_str_middle) (rule substring_trim)
    then show ?thesis by (simp add: True cut)
  next
    case False
    then have "slug \<in> set (referenced_slugs rest)"
      using "1.prems" open_at close_at by (auto simp: referenced_slugs.simps[of s] Let_def split: if_splits)
    then have "contains_str slug rest"
      using "1.IH"[OF open_at _ close_at] by blast
    then have "contains_str slug ((before @ ''[['' @ inner @ '']]'') @ rest @ [])" by (rule contains_str_middle)
    then show ?thesis by (simp add: cut)
  qed
  then show ?case using opened by blast
qed

lemma no_reference: "\<not> contains_str ''[['' body \<Longrightarrow> edges_of_text ns (i, n, body) = {}"
  using referenced_slug_in_text by (fastforce simp: edges_of_text_def)

subsection \<open>Marking and syncing\<close>

lemma mark_dirty_simps [simp]:
  "set (rb_dirty (mark_dirty i db)) = insert i (set (rb_dirty db))"
  "rb_edges (mark_dirty i db) = rb_edges db" "rb_nodes (mark_dirty i db) = rb_nodes db"
  "rb_outline (mark_dirty i db) = rb_outline db"
  by (auto simp: mark_dirty_def)

lemma mark_all_simps [simp]:
  "set (rb_dirty (fold mark_dirty ids db)) = set ids \<union> set (rb_dirty db)"
  "rb_edges (fold mark_dirty ids db) = rb_edges db" "rb_nodes (fold mark_dirty ids db) = rb_nodes db"
  "rb_outline (fold mark_dirty ids db) = rb_outline db"
  by (induction ids arbitrary: db) auto

text \<open>Resolving one obligation: every other's edges stay, its own are what its text stands for.\<close>

lemma insert_edge_set:
  assumes "\<And>e'. e' \<in> set es \<Longrightarrow> fst e' = fst e \<Longrightarrow> fst (snd e') = fst (snd e)"
  shows "set (insert_edge e es) = insert e (set es)"
proof (cases "list_ex (\<lambda>(ob, _, to). ob = fst e \<and> to = snd (snd e)) es")
  case True
  then obtain e' where "e' \<in> set es" "fst e' = fst e" "snd (snd e') = snd (snd e)"
    by (auto simp: list_ex_iff)
  then have "e' = e" using assms[of e'] by (simp add: prod_eq_iff)
  then show ?thesis using True \<open>e' \<in> set es\<close> by (auto simp: insert_edge_def)
next
  case False
  then show ?thesis by (auto simp: insert_edge_def)
qed

lemma insert_edges_set:
  assumes "\<And>e. e \<in> set es \<Longrightarrow> fst e = i \<Longrightarrow> fst (snd e) = f"
  shows "set (fold insert_edge (map (\<lambda>n. (i, f, g n)) ns) es) = set es \<union> (\<lambda>n. (i, f, g n)) ` set ns"
  using assms
proof (induction ns arbitrary: es)
  case (Cons n ns)
  have "set (insert_edge (i, f, g n) es) = insert (i, f, g n) (set es)"
    by (rule insert_edge_set) (use Cons.prems in auto)
  moreover have "set (fold insert_edge (map (\<lambda>n. (i, f, g n)) ns) (insert_edge (i, f, g n) es))
      = set (insert_edge (i, f, g n) es) \<union> (\<lambda>n. (i, f, g n)) ` set ns"
    by (rule Cons.IH) (use Cons.prems calculation in auto)
  ultimately show ?case by simp
qed simp

lemma insert_slugs_set:
  assumes "\<And>e. e \<in> set es \<Longrightarrow> fst e = i \<Longrightarrow> fst (snd e) = f"
  shows "set (fold (\<lambda>slug es. fold insert_edge (map (\<lambda>n. (i, f, nd_id n)) (filter (\<lambda>n. lower (nd_slug n) = lower slug) ns)) es)
            slugs es)
       = set es \<union> (\<lambda>n. (i, f, nd_id n)) ` {n \<in> set ns. lower (nd_slug n) \<in> lower ` set slugs}"
  using assms
proof (induction slugs arbitrary: es)
  case (Cons slug slugs)
  define es1 where "es1 = fold insert_edge (map (\<lambda>n. (i, f, nd_id n)) (filter (\<lambda>n. lower (nd_slug n) = lower slug) ns)) es"
  have es1: "set es1 = set es \<union> (\<lambda>n. (i, f, nd_id n)) ` {n \<in> set ns. lower (nd_slug n) = lower slug}"
    unfolding es1_def by (subst insert_edges_set[OF Cons.prems]) auto
  have "fst (snd e) = f" if "e \<in> set es1" "fst e = i" for e
    using that Cons.prems[of e] unfolding es1 by (cases e) auto
  then have "set (fold (\<lambda>slug es. fold insert_edge (map (\<lambda>n. (i, f, nd_id n)) (filter (\<lambda>n. lower (nd_slug n) = lower slug) ns)) es)
            slugs es1)
       = set es1 \<union> (\<lambda>n. (i, f, nd_id n)) ` {n \<in> set ns. lower (nd_slug n) \<in> lower ` set slugs}"
    by (rule Cons.IH)
  then show ?case unfolding fold.simps o_apply es1_def[symmetric] unfolding es1 by auto
qed simp

lemma sync_one_same [simp]:
  "rb_nodes (sync_one i db) = rb_nodes db" "rb_outline (sync_one i db) = rb_outline db" "rb_dirty (sync_one i db) = rb_dirty db"
  by (simp_all add: sync_one_def Let_def)

lemma sync_one_edges:
  "set (rb_edges (sync_one i db)) = {e \<in> set (rb_edges db). fst e \<noteq> i}
     \<union> (case get_obligation i (rb_outline db) of None \<Rightarrow> {} | Some o' \<Rightarrow> edges_of_text (rb_nodes db) (ob_text o'))"
proof (cases "get_obligation i (rb_outline db)")
  case None
  then show ?thesis by (auto simp: sync_one_def Let_def)
next
  case (Some o')
  have id: "ob_id o' = i" using get_obligation_Some[OF Some] by simp
  define es where "es = filter (\<lambda>(ob, _, _). ob \<noteq> i) (rb_edges db)"
  have "set (rb_edges (sync_one i db)) = set es
     \<union> (\<lambda>n. (i, ob_node o', nd_id n)) ` {n \<in> set (rb_nodes db). lower (nd_slug n) \<in> lower ` set (referenced_slugs (ob_body o'))}"
    using Some insert_slugs_set[of es i "ob_node o'" "rb_nodes db" "referenced_slugs (ob_body o')"]
    by (auto simp: sync_one_def es_def[symmetric] Let_def) (auto simp: es_def)
  then show ?thesis using Some id by (auto simp: es_def edges_of_text_def ob_text_def)
qed

lemma get_of_text:
  assumes "distinct (map fst (texts ol))" "x \<in> set (texts ol)"
  obtains o' where "get_obligation (fst x) ol = Some o'" "ob_text o' = x"
proof -
  obtain o' where o': "o' \<in> set (ol_obligations ol)" "ob_text o' = x" using assms(2) by (auto simp: texts_def)
  have fst_id: "fst x = ob_id o'" using o'(2) by (auto simp: ob_text_def)
  have "get_obligation (ob_id o') ol \<noteq> None" using o'(1) by (auto simp: get_obligation_def find_None_iff)
  then obtain o2 where o2: "get_obligation (ob_id o') ol = Some o2" by auto
  have "o2 \<in> set (ol_obligations ol)" "ob_id o2 = ob_id o'" using get_obligation_Some[OF o2] by auto
  moreover have "inj_on ob_id (set (ol_obligations ol))"
    using assms(1) by (auto simp: texts_def distinct_map ob_text_def comp_def)
  ultimately have "o2 = o'" using o'(1) by (auto dest: inj_onD)
  then show ?thesis using that o2 o'(2) fst_id by simp
qed


text \<open>Resolving a list of marked obligations, whose marks are gone at the end.\<close>

lemma sync_all_ok:
  assumes "distinct (map fst (texts ol))" "fst ` set (rb_edges db) \<subseteq> fst ` set (texts ol)" "rb_outline db = ol"
    and "\<And>x. x \<in> set (texts ol) \<Longrightarrow> fst x \<notin> set ds \<Longrightarrow> {e \<in> set (rb_edges db). fst e = fst x} = edges_of_text (rb_nodes db) x"
  defines "out \<equiv> fold sync_one ds db"
  shows "rb_nodes out = rb_nodes db \<and> rb_outline out = ol
     \<and> fst ` set (rb_edges out) \<subseteq> fst ` set (texts ol)
     \<and> (\<forall>x \<in> set (texts ol). {e \<in> set (rb_edges out). fst e = fst x} = edges_of_text (rb_nodes db) x)"
  using assms(2-4) unfolding out_def
proof (induction ds arbitrary: db)
  case Nil
  then show ?case by simp
next
  case (Cons i ds)
  let ?db = "sync_one i db"
  have "fst ` set (rb_edges ?db) \<subseteq> fst ` set (texts ol)"
    using Cons.prems(1,2) in_texts[of i ol]
    by (auto simp: sync_one_edges image_subset_iff dest!: edges_of_text_fst split: option.splits)
  moreover have "{e \<in> set (rb_edges ?db). fst e = fst x} = edges_of_text (rb_nodes db) x"
    if x: "x \<in> set (texts ol)" and nd: "fst x \<notin> set ds" for x
  proof (cases "fst x = i")
    case True
    obtain o' where o': "get_obligation i ol = Some o'" "ob_text o' = x"
      using get_of_text[OF assms(1) x] True by metis
    have "{e \<in> set (rb_edges ?db). fst e = fst x} = {e \<in> edges_of_text (rb_nodes db) x. fst e = fst x}"
      using o' True Cons.prems(2) by (auto simp: sync_one_edges)
    then show ?thesis using edges_of_text_fst by blast
  next
    case False
    have "{e \<in> set (rb_edges ?db). fst e = fst x} = {e \<in> set (rb_edges db). fst e = fst x}"
      using False Cons.prems(2) in_texts[of i ol]
      by (auto simp: sync_one_edges dest!: edges_of_text_fst split: option.splits)
    then show ?thesis using Cons.prems(3)[OF x] nd False by simp
  qed
  ultimately show ?case
    using Cons.IH[of ?db] Cons.prems(2) by simp
qed

lemma sync_reference_edges_exact:
  assumes "refs_ok db"
  defines "out \<equiv> sync_reference_edges db"
  shows "set (rb_edges out) = edges_of_texts db" "rb_nodes out = rb_nodes db" "rb_outline out = rb_outline db"
    "rb_dirty out = []" "refs_ok out"
proof -
  have fold_out: "out = (fold sync_one (rb_dirty db) db)\<lparr>rb_dirty := []\<rparr>"
    by (cases db) (simp add: out_def sync_reference_edges_def)
  have ok: "distinct (map fst (texts (rb_outline db)))" "fst ` set (rb_edges db) \<subseteq> fst ` set (texts (rb_outline db))"
    "\<And>x. x \<in> set (texts (rb_outline db)) \<Longrightarrow> fst x \<notin> set (rb_dirty db) \<Longrightarrow>
        {e \<in> set (rb_edges db). fst e = fst x} = edges_of_text (rb_nodes db) x"
    using assms(1) unfolding refs_ok_def by blast+
  note all = sync_all_ok[OF ok(1,2) refl ok(3)]
  have facts: "rb_nodes out = rb_nodes db" "rb_outline out = rb_outline db"
    "fst ` set (rb_edges out) \<subseteq> fst ` set (texts (rb_outline db))"
    "\<And>x. x \<in> set (texts (rb_outline db)) \<Longrightarrow> {e \<in> set (rb_edges out). fst e = fst x} = edges_of_text (rb_nodes db) x"
    using all unfolding fold_out by auto
  show "rb_nodes out = rb_nodes db" "rb_outline out = rb_outline db" by (rule facts)+
  show "rb_dirty out = []" by (simp add: fold_out)
  show "set (rb_edges out) = edges_of_texts db"
  proof (intro set_eqI iffI)
    fix e assume e: "e \<in> set (rb_edges out)"
    then obtain x where "x \<in> set (texts (rb_outline db))" "fst e = fst x" using facts(3) by fastforce
    then show "e \<in> edges_of_texts db" using facts(4)[of x] e by (auto simp: edges_of_texts_def)
  next
    fix e assume "e \<in> edges_of_texts db"
    then obtain x where "x \<in> set (texts (rb_outline db))" "e \<in> edges_of_text (rb_nodes db) x"
      by (auto simp: edges_of_texts_def)
    then show "e \<in> set (rb_edges out)" using facts(4)[of x] by auto
  qed
  show "refs_ok out" using ok(1) facts by (simp add: refs_ok_def)
qed

subsection \<open>Every write keeps it\<close>

lemma texts_renumber [simp]: "texts (write_ob_ordinals now n kind ids ol) = texts ol"
  by (simp add: texts_def write_ob_ordinals_def ob.renum_keeps ob_text_def touch_ob_def place_ob_def)

lemma texts_insert:
  "insert_obligation now row ol = Inr ol' \<Longrightarrow>
     texts ol' = texts ol @ [ob_text row] \<and> ob_id row \<notin> fst ` set (texts ol)"
  unfolding texts_ids by (auto simp: texts_def insert_obligation_def ob_text_def split: if_splits)

lemma texts_insert_at:
  assumes "insert_obligation_at now i n kind index section body phase ol = Inr ol'"
  shows "texts ol' = texts ol @ [(i, n, body)] \<and> i \<notin> fst ` set (texts ol)"
proof -
  obtain ol1 where ins: "insert_obligation now \<lparr>ob_id = i, ob_node = n, ob_kind = kind,
        ob_ordinal = 10000 + int (length (obligation_ids_for_kind n kind ol)),
        ob_section = section, ob_body = body, ob_phase = phase, ob_acts_in = ACTS_IN_ACTIVE,
        ob_visual = None, ob_updated = now\<rparr> ol = Inr ol1" and same: "texts ol' = texts ol1"
    using assms by (auto simp: insert_obligation_at_def Let_def split: sum.splits)
  show ?thesis using texts_insert[OF ins] by (simp add: same ob_text_def)
qed

lemma texts_update_body:
  assumes "update_obligation_body now i body ol = Inr ol'"
  shows "texts ol' = map (\<lambda>x. if fst x = i then (i, fst (snd x), body) else x) (texts ol)"
  using assms
  by (auto simp: texts_def update_obligation_body_def map_obligation_def Let_def ob_text_def split: if_splits)

lemma texts_map_obligation:
  "map_obligation i f ol = Inr ol' \<Longrightarrow> (\<And>r. ob_text (f r) = ob_text r) \<Longrightarrow> texts ol' = texts ol"
  by (auto simp: texts_def map_obligation_def split: if_splits)

lemma texts_delete_row [simp]: "texts (delete_obligation_row i ol) = filter (\<lambda>x. fst x \<noteq> i) (texts ol)"
  by (simp add: texts_def filter_map comp_def ob_text_def)

lemma texts_delete: "texts (snd (delete_obligation now i ol)) = filter (\<lambda>x. fst x \<noteq> i) (texts ol)"
proof (cases "get_obligation i ol")
  case None
  then have "\<forall>o' \<in> set (ol_obligations ol). ob_id o' \<noteq> i" by (auto simp: get_obligation_def find_None_iff)
  then show ?thesis using None by (simp add: texts_def delete_obligation_def ob_text_def filter_id_conv)
next
  case (Some row)
  then show ?thesis unfolding delete_obligation_def by (simp add: Let_def)
qed

lemma texts_delete_rows: "texts (fold delete_obligation_row gone ol) = filter (\<lambda>x. fst x \<notin> set gone) (texts ol)"
proof (induction gone arbitrary: ol)
  case (Cons i gone)
  show ?case by (simp only: fold.simps o_apply Cons.IH texts_delete_row filter_filter) (simp add: conj_commute)
qed simp

text \<open>The obligations that stay where they are.\<close>

lemma refs_okI:
  assumes "refs_ok db"
    and "distinct (map fst (texts (rb_outline db')))"
    and "fst ` set (rb_edges db') \<subseteq> fst ` set (texts (rb_outline db'))"
    and "\<And>x. x \<in> set (texts (rb_outline db')) \<Longrightarrow> fst x \<notin> set (rb_dirty db') \<Longrightarrow>
      x \<in> set (texts (rb_outline db)) \<and> fst x \<notin> set (rb_dirty db)
        \<and> {e \<in> set (rb_edges db'). fst e = fst x} = {e \<in> set (rb_edges db). fst e = fst x}
        \<and> edges_of_text (rb_nodes db') x = edges_of_text (rb_nodes db) x
      \<or> {e \<in> set (rb_edges db'). fst e = fst x} = edges_of_text (rb_nodes db') x"
  shows "refs_ok db'"
  unfolding refs_ok_def
proof (intro conjI ballI impI)
  show "distinct (map fst (texts (rb_outline db')))" "fst ` set (rb_edges db') \<subseteq> fst ` set (texts (rb_outline db'))"
    by (rule assms(2,3))+
next
  fix x assume x: "x \<in> set (texts (rb_outline db'))" "fst x \<notin> set (rb_dirty db')"
  have "\<forall>x \<in> set (texts (rb_outline db)). fst x \<notin> set (rb_dirty db) \<longrightarrow>
      {e \<in> set (rb_edges db). fst e = fst x} = edges_of_text (rb_nodes db) x"
    using assms(1) unfolding refs_ok_def by (elim conjE)
  then show "{e \<in> set (rb_edges db'). fst e = fst x} = edges_of_text (rb_nodes db') x"
    using assms(4)[OF x] by (elim disjE conjE) simp_all
qed

lemma ok_quiet:
  assumes "refs_ok db" "texts ol = texts (rb_outline db)"
  shows "refs_ok (db\<lparr>rb_outline := ol\<rparr>)"
  using assms by (simp add: refs_ok_def)

lemma refs_ok_ids: "refs_ok db \<Longrightarrow> distinct (map fst (texts (rb_outline db)))"
  and refs_ok_edges: "refs_ok db \<Longrightarrow> fst ` set (rb_edges db) \<subseteq> fst ` set (texts (rb_outline db))"
  and refs_ok_exact: "refs_ok db \<Longrightarrow> x \<in> set (texts (rb_outline db)) \<Longrightarrow> fst x \<notin> set (rb_dirty db) \<Longrightarrow>
      {e \<in> set (rb_edges db). fst e = fst x} = edges_of_text (rb_nodes db) x"
  by (simp_all add: refs_ok_def)

text \<open>A row that appears: marked, or with nothing in its text to resolve.\<close>

lemma ok_append:
  assumes "refs_ok db" "texts ol = texts (rb_outline db) @ [(i, n, body)]" "i \<notin> fst ` set (texts (rb_outline db))"
  shows "refs_ok (if contains_str ''[['' body then mark_dirty i (db\<lparr>rb_outline := ol\<rparr>) else db\<lparr>rb_outline := ol\<rparr>)"
    (is "refs_ok ?db")
proof (rule refs_okI[OF assms(1)])
  have same: "rb_outline ?db = ol" "rb_edges ?db = rb_edges db" "rb_nodes ?db = rb_nodes db" by auto
  show "distinct (map fst (texts (rb_outline ?db)))"
    using refs_ok_ids[OF assms(1)] assms(3) unfolding same assms(2) by auto
  show "fst ` set (rb_edges ?db) \<subseteq> fst ` set (texts (rb_outline ?db))"
    using refs_ok_edges[OF assms(1)] unfolding same assms(2) by auto
  fix x assume "x \<in> set (texts (rb_outline ?db))" and nd: "fst x \<notin> set (rb_dirty ?db)"
  then consider "x \<in> set (texts (rb_outline db))" | "x = (i, n, body)" unfolding same assms(2) by auto
  then show "x \<in> set (texts (rb_outline db)) \<and> fst x \<notin> set (rb_dirty db)
        \<and> {e \<in> set (rb_edges ?db). fst e = fst x} = {e \<in> set (rb_edges db). fst e = fst x}
        \<and> edges_of_text (rb_nodes ?db) x = edges_of_text (rb_nodes db) x
      \<or> {e \<in> set (rb_edges ?db). fst e = fst x} = edges_of_text (rb_nodes ?db) x"
  proof cases
    case 1
    then show ?thesis using nd same by (auto split: if_splits)
  next
    case 2
    then have "\<not> contains_str ''[['' body" using nd by (auto split: if_splits)
    moreover have "{e \<in> set (rb_edges db). fst e = i} = {}"
      using refs_ok_edges[OF assms(1)] assms(3) by blast
    ultimately show ?thesis using 2 same by (auto simp: no_reference)
  qed
qed

lemma ok_insert_at:
  "refs_ok db \<Longrightarrow> ref_insert_at now i n kind index section body phase db = Inr db' \<Longrightarrow> refs_ok db'"
  using texts_insert_at by (fastforce simp: ref_insert_at_def split: sum.splits intro!: ok_append)

text \<open>Rows that go, with their edges.\<close>

lemma ok_remove:
  assumes "refs_ok db" "texts ol = filter (\<lambda>x. fst x \<notin> gone) (texts (rb_outline db))"
    and "rb_outline db' = ol" "rb_dirty db' = rb_dirty db" "set (rb_nodes db') = {r \<in> set (rb_nodes db). nd_id r \<notin> ns}"
    and "set (rb_edges db') = {e \<in> set (rb_edges db). fst e \<notin> gone \<and> snd (snd e) \<notin> ns}"
  shows "refs_ok db'"
proof -
  note ids = refs_ok_ids[OF assms(1)] and es = refs_ok_edges[OF assms(1)] and exact = refs_ok_exact[OF assms(1)]
  show ?thesis
    unfolding refs_ok_def assms(3) assms(2)
  proof (intro conjI ballI impI)
    show "distinct (map fst (filter (\<lambda>x. fst x \<notin> gone) (texts (rb_outline db))))" by (rule distinct_map_filter[OF ids])
    show "fst ` set (rb_edges db') \<subseteq> fst ` set (filter (\<lambda>x. fst x \<notin> gone) (texts (rb_outline db)))"
    proof
      fix i assume "i \<in> fst ` set (rb_edges db')"
      then have "i \<in> fst ` set (texts (rb_outline db))" "i \<notin> gone" using es assms(6) by auto
      then show "i \<in> fst ` set (filter (\<lambda>x. fst x \<notin> gone) (texts (rb_outline db)))"
        unfolding set_filter by blast
    qed
    fix x assume "x \<in> set (filter (\<lambda>x. fst x \<notin> gone) (texts (rb_outline db)))" "fst x \<notin> set (rb_dirty db')"
    then have x: "x \<in> set (texts (rb_outline db))" "fst x \<notin> gone" "fst x \<notin> set (rb_dirty db)"
      using assms(4) by simp_all
    have "{e \<in> set (rb_edges db'). fst e = fst x} = {e \<in> {e \<in> set (rb_edges db). fst e = fst x}. snd (snd e) \<notin> ns}"
    proof (intro set_eqI)
      fix e show "e \<in> {e \<in> set (rb_edges db'). fst e = fst x}
          \<longleftrightarrow> e \<in> {e \<in> {e \<in> set (rb_edges db). fst e = fst x}. snd (snd e) \<notin> ns}"
        unfolding assms(6) using x(2) by (cases "fst e = fst x") simp_all
    qed
    also have "\<dots> = {e \<in> edges_of_text (rb_nodes db) x. snd (snd e) \<notin> ns}" by (simp only: exact[OF x(1,3)])
    also have "\<dots> = edges_of_text (rb_nodes db') x"
      unfolding edges_of_text_def assms(5) by (cases x) auto
    finally show "{e \<in> set (rb_edges db'). fst e = fst x} = edges_of_text (rb_nodes db') x" .
  qed
qed

lemma ok_delete: "refs_ok db \<Longrightarrow> refs_ok (ref_delete now i db)"
  by (rule ok_remove[where gone = "{i}" and ns = "{}" and db = db])
    (auto simp: ref_delete_def on_obligation_delete_def texts_delete)

lemma on_deletes [simp]:
  "rb_edges (fold (\<lambda>i db. on_obligation_delete i db) gone db) = filter (\<lambda>e. fst e \<notin> set gone) (rb_edges db)"
  "rb_nodes (fold (\<lambda>i db. on_obligation_delete i db) gone db) = rb_nodes db"
  "rb_outline (fold (\<lambda>i db. on_obligation_delete i db) gone db) = rb_outline db"
  "rb_dirty (fold (\<lambda>i db. on_obligation_delete i db) gone db) = rb_dirty db"
  by (induction gone arbitrary: db)
    (auto simp: on_obligation_delete_def case_prod_unfold intro!: filter_cong)

lemma texts_delete_node:
  "texts (delete_node_rows n ol)
     = filter (\<lambda>x. fst x \<notin> set (map ob_id (filter (\<lambda>o'. ob_node o' = n) (ol_obligations ol)))) (texts ol)"
proof -
  have plan: "texts (ol1\<lparr>ol_plan := p\<rparr>) = texts ol1" for ol1 p by (simp add: texts_def)
  show ?thesis unfolding delete_node_rows_def Let_def plan by (rule texts_delete_rows)
qed

lemma ok_delete_node: "refs_ok db \<Longrightarrow> refs_ok (ref_delete_node n db)"
  by (rule ok_remove[where gone = "set (map ob_id (filter (\<lambda>o'. ob_node o' = n) (ol_obligations (rb_outline db))))"
        and ns = "{n}" and db = db])
    (auto simp: ref_delete_node_def on_node_delete_def texts_delete_node case_prod_unfold simp del: set_map)

text \<open>A text that changes: marked, or with nothing to resolve before and after.\<close>

lemma ok_update_body:
  assumes "refs_ok db" "ref_update_body now i body db = Inr db'"
  shows "refs_ok db'"
proof -
  obtain ol where ol: "update_obligation_body now i body (rb_outline db) = Inr ol"
    and db': "db' = on_obligation_body i (unwrap_or [] (map_option ob_body (get_obligation i (rb_outline db)))) body
                         (db\<lparr>rb_outline := ol\<rparr>)"
    using assms(2) by (auto simp: ref_update_body_def split: sum.splits)
  note new = texts_update_body[OF ol]
  have ids: "map fst (texts ol) = map fst (texts (rb_outline db))" unfolding new by (auto simp: comp_def)
  have same: "rb_outline db' = ol" "rb_edges db' = rb_edges db" "rb_nodes db' = rb_nodes db"
    by (simp_all add: db' on_obligation_body_def)
  show ?thesis
  proof (rule refs_okI[OF assms(1)])
    show "distinct (map fst (texts (rb_outline db')))" using refs_ok_ids[OF assms(1)] by (simp only: same ids)
    show "fst ` set (rb_edges db') \<subseteq> fst ` set (texts (rb_outline db'))"
      using refs_ok_edges[OF assms(1)] unfolding same using ids by (metis list.set_map)
    fix x assume "x \<in> set (texts (rb_outline db'))" and nd: "fst x \<notin> set (rb_dirty db')"
    then obtain y where y: "y \<in> set (texts (rb_outline db))" and x: "x = (if fst y = i then (i, fst (snd y), body) else y)"
      unfolding same new set_map by blast
    have old: "fst x \<notin> set (rb_dirty db)" using nd by (auto simp: db' on_obligation_body_def split: if_splits)
    show "x \<in> set (texts (rb_outline db)) \<and> fst x \<notin> set (rb_dirty db)
        \<and> {e \<in> set (rb_edges db'). fst e = fst x} = {e \<in> set (rb_edges db). fst e = fst x}
        \<and> edges_of_text (rb_nodes db') x = edges_of_text (rb_nodes db) x
      \<or> {e \<in> set (rb_edges db'). fst e = fst x} = edges_of_text (rb_nodes db') x"
    proof (cases "fst y = i")
      case False
      then show ?thesis using y x old same by simp
    next
      case True
      obtain o' where o': "get_obligation i (rb_outline db) = Some o'" "ob_text o' = y"
        using get_of_text[OF refs_ok_ids[OF assms(1)] y] True by metis
      have "\<not> contains_str ''[['' body \<and> \<not> contains_str ''[['' (ob_body o')"
        using nd x True o'(1) by (auto simp: db' on_obligation_body_def split: if_splits)
      then have "edges_of_text (rb_nodes db) y = {}" "edges_of_text (rb_nodes db') x = {}"
        using o'(2) x True by (auto simp: ob_text_def no_reference)
      then show ?thesis using refs_ok_exact[OF assms(1) y] old x True same by simp
    qed
  qed
qed

text \<open>An obligation that goes to another node is a row that goes and one that appears.\<close>

lemma ok_move:
  assumes "refs_ok db" "ref_move now i target db = Inr db'"
  shows "refs_ok db'"
proof (cases "get_obligation i (rb_outline db)")
  case None
  then show ?thesis using assms(2) by (simp add: ref_move_def move_to_node_def)
next
  case (Some row)
  obtain ol where ol: "move_to_node now i target (rb_outline db) = Inr ol"
    using assms(2) by (auto simp: ref_move_def split: sum.splits)
  have id: "ob_id row = i" using get_obligation_Some[OF Some] by simp
  show ?thesis
  proof (cases "ob_node row = target")
    case True
    then show ?thesis using assms Some ol by (simp add: ref_move_def)
  next
    case False
    let ?gone = "on_obligation_delete i (db\<lparr>rb_outline := delete_obligation_row i (rb_outline db)\<rparr>)"
    have gone: "refs_ok ?gone"
      by (rule ok_remove[OF assms(1), where gone = "{i}" and ns = "{}"]) (auto simp: on_obligation_delete_def)
    have new: "texts ol = texts (rb_outline ?gone) @ [(i, target, ob_body row)]"
      and fresh: "i \<notin> fst ` set (texts (rb_outline ?gone))"
      using ol Some False id
      by (auto simp: move_to_node_def Let_def ob_text_def on_obligation_delete_def dest!: texts_insert)
    have "db' = (if contains_str ''[['' (ob_body row) then mark_dirty i (?gone\<lparr>rb_outline := ol\<rparr>) else ?gone\<lparr>rb_outline := ol\<rparr>)"
      using assms(2) ol Some False id
      by (cases db) (auto simp: ref_move_def on_obligation_insert_def on_obligation_delete_def)
    then show ?thesis using ok_append[OF gone new fresh] by simp
  qed
qed

text \<open>A node that appears: whoever names its slug is marked.\<close>

lemma ok_insert_node:
  assumes "refs_ok db" "ref_insert_node row db = Inr db'"
  shows "refs_ok db'"
proof -
  have db': "db' = on_node_insert (nd_slug row) (db\<lparr>rb_nodes := rb_nodes db @ [row]\<rparr>)"
    using assms(2) by (auto simp: ref_insert_node_def insert_node_def split: sum.splits if_splits)
  have same: "rb_outline db' = rb_outline db" "rb_edges db' = rb_edges db" "rb_nodes db' = rb_nodes db @ [row]"
    by (simp_all add: db' on_node_insert_def)
  show ?thesis
  proof (rule refs_okI[OF assms(1)])
    show "distinct (map fst (texts (rb_outline db')))" "fst ` set (rb_edges db') \<subseteq> fst ` set (texts (rb_outline db'))"
      using refs_ok_ids[OF assms(1)] refs_ok_edges[OF assms(1)] by (simp_all only: same)
    fix x assume "x \<in> set (texts (rb_outline db'))" and nd: "fst x \<notin> set (rb_dirty db')"
    then obtain o' where o': "o' \<in> set (ol_obligations (rb_outline db))" "x = ob_text o'"
      unfolding same by (auto simp: texts_def)
    have unnamed: "\<not> (contains_str ''[['' (ob_body o') \<and> contains_str (lower (nd_slug row)) (lower (ob_body o')))"
      and old: "fst x \<notin> set (rb_dirty db)"
      using nd o' by (auto simp: db' on_node_insert_def ob_text_def)
    have "lower (nd_slug row) \<notin> lower ` set (referenced_slugs (ob_body o'))"
      using unnamed referenced_slug_in_text contains_str_lower by (metis imageE)
    then have "edges_of_text (rb_nodes db') x = edges_of_text (rb_nodes db) x"
      by (auto simp: same edges_of_text_def o'(2) ob_text_def)
    then show "x \<in> set (texts (rb_outline db)) \<and> fst x \<notin> set (rb_dirty db)
        \<and> {e \<in> set (rb_edges db'). fst e = fst x} = {e \<in> set (rb_edges db). fst e = fst x}
        \<and> edges_of_text (rb_nodes db') x = edges_of_text (rb_nodes db) x
      \<or> {e \<in> set (rb_edges db'). fst e = fst x} = edges_of_text (rb_nodes db') x"
      using o' old same by (auto simp: texts_def)
  qed
qed

section \<open>Properties\<close>

inductive ref_write :: "ref_db \<Rightarrow> ref_db \<Rightarrow> bool" where
  "ref_insert_at now i n kind index section body phase db = Inr db' \<Longrightarrow> ref_write db db'"
| "ref_update_body now i body db = Inr db' \<Longrightarrow> ref_write db db'"
| "ref_write db (ref_delete now i db)"
| "ref_move now i target db = Inr db' \<Longrightarrow> ref_write db db'"
| "quiet_write (update_section now i section (rb_outline db)) db = Inr db' \<Longrightarrow> ref_write db db'"
| "quiet_write (update_phase now i phase (rb_outline db)) db = Inr db' \<Longrightarrow> ref_write db db'"
| "quiet_write (update_acts_in now i acts_in (rb_outline db)) db = Inr db' \<Longrightarrow> ref_write db db'"
| "quiet_write (update_visual_design_path now i path (rb_outline db)) db = Inr db' \<Longrightarrow> ref_write db db'"
| "quiet_write (Inr (rename_section now n kind old new (rb_outline db))) db = Inr db' \<Longrightarrow> ref_write db db'"
| "quiet_write (reorder_obligation now i delta (rb_outline db)) db = Inr db' \<Longrightarrow> ref_write db db'"
| "quiet_write (place_obligation now i index (rb_outline db)) db = Inr db' \<Longrightarrow> ref_write db db'"
| "ref_insert_node row db = Inr db' \<Longrightarrow> ref_write db db'"
| "ref_write db (ref_delete_node n db)"
| "ref_write db (sync_reference_edges db)"

lemma ok_quiet_write:
  assumes "refs_ok db" "quiet_write r db = Inr db'" "\<And>ol. r = Inr ol \<Longrightarrow> texts ol = texts (rb_outline db)"
  shows "refs_ok db'"
  using assms by (auto simp: quiet_write_def split: sum.splits intro: ok_quiet)

lemma texts_quiet:
  "update_section now i section ol = Inr ol' \<Longrightarrow> texts ol' = texts ol"
  "update_phase now i phase ol = Inr ol' \<Longrightarrow> texts ol' = texts ol"
  "update_acts_in now i acts_in ol = Inr ol' \<Longrightarrow> texts ol' = texts ol"
  "update_visual_design_path now i path ol = Inr ol' \<Longrightarrow> texts ol' = texts ol"
  unfolding update_section_def update_phase_def update_acts_in_def update_visual_design_path_def
  by (erule texts_map_obligation; simp add: ob_text_def)+

lemma texts_quiet_order:
  "reorder_obligation now i delta ol = Inr ol' \<Longrightarrow> texts ol' = texts ol"
  "place_obligation now i index ol = Inr ol' \<Longrightarrow> texts ol' = texts ol"
  "texts (rename_section now n kind old new ol) = texts ol"
  by (auto simp: reorder_obligation_def place_obligation_def Let_def split: option.splits if_splits)
    (simp add: rename_section_def texts_def ob_text_def)

lemma ok_quiet_writes:
  assumes "refs_ok db"
  shows "quiet_write (update_section now i section (rb_outline db)) db = Inr db' \<Longrightarrow> refs_ok db'"
    "quiet_write (update_phase now i phase (rb_outline db)) db = Inr db' \<Longrightarrow> refs_ok db'"
    "quiet_write (update_acts_in now i acts_in (rb_outline db)) db = Inr db' \<Longrightarrow> refs_ok db'"
    "quiet_write (update_visual_design_path now i path (rb_outline db)) db = Inr db' \<Longrightarrow> refs_ok db'"
    "quiet_write (Inr (rename_section now n kind old new (rb_outline db))) db = Inr db' \<Longrightarrow> refs_ok db'"
    "quiet_write (reorder_obligation now i delta (rb_outline db)) db = Inr db' \<Longrightarrow> refs_ok db'"
    "quiet_write (place_obligation now i index (rb_outline db)) db = Inr db' \<Longrightarrow> refs_ok db'"
  by (erule ok_quiet_write[OF assms]; auto dest: texts_quiet texts_quiet_order(1,2) simp: texts_quiet_order(3))+

lemma ref_write_ok: "ref_write db db' \<Longrightarrow> refs_ok db \<Longrightarrow> refs_ok db'"
  by (induction rule: ref_write.induct)
    (rule ok_insert_at ok_update_body ok_delete ok_move ok_insert_node ok_delete_node
      sync_reference_edges_exact(5) ok_quiet_writes; assumption)+

lemma backfill_ok:
  assumes "distinct (map ob_id (ol_obligations (rb_outline db)))" "rb_edges db = []"
  shows "refs_ok (backfill_reference_edges db)"
proof -
  let ?db = "fold mark_dirty (map ob_id (filter (\<lambda>o'. contains_str ''[['' (ob_body o')) (ol_obligations (rb_outline db)))) db"
  have "refs_ok ?db"
    unfolding refs_ok_def
  proof (intro conjI ballI impI)
    show "distinct (map fst (texts (rb_outline ?db)))" using assms(1) by (simp add: texts_def ob_text_def comp_def)
    show "fst ` set (rb_edges ?db) \<subseteq> fst ` set (texts (rb_outline ?db))" by (simp add: assms(2))
    fix x assume "x \<in> set (texts (rb_outline ?db))" "fst x \<notin> set (rb_dirty ?db)"
    then obtain o' where o': "x = ob_text o'" "o' \<in> set (ol_obligations (rb_outline db))" "ob_id o' \<notin> set (rb_dirty ?db)"
      by (auto simp: texts_def ob_text_def)
    then have "\<not> contains_str ''[['' (ob_body o')" by auto
    with o'(1) show "{e \<in> set (rb_edges ?db). fst e = fst x} = edges_of_text (rb_nodes ?db) x"
      using assms(2) by (auto simp: ob_text_def no_reference)
  qed
  then show ?thesis unfolding backfill_reference_edges_def by (rule sync_reference_edges_exact(5))
qed

lemma ref_writes_ok:
  assumes "ref_write\<^sup>*\<^sup>* (backfill_reference_edges db0) db"
    and "distinct (map ob_id (ol_obligations (rb_outline db0)))" "rb_edges db0 = []"
  shows "refs_ok db"
  using assms(1)
  by (induction rule: rtranclp_induct) (use backfill_ok[OF assms(2,3)] ref_write_ok in blast)+

definition two_nodes :: ref_db where
  "two_nodes = \<lparr>rb_nodes = [\<lparr>nd_id = 1, nd_slug = ''form'', nd_title = ''Form'', nd_created = 0, nd_updated = 0\<rparr>],
     rb_outline = empty_outline, rb_edges = [], rb_dirty = []\<rparr>"

text \<open>C5: The reference table refines reading the texts. Built once from the texts, then kept by the triggers
  through any writes to obligations and nodes in any order, resolving the marked obligations gives exactly the edges
  that reading every obligation anew would give, clears the marks and touches nothing else; so a node's referrers are
  exactly the other nodes with an obligation that names its slug, whatever the case.\<close>
theorem references_in_step:
  assumes "distinct (map ob_id (ol_obligations (rb_outline db0)))" "rb_edges db0 = []"
    and "ref_write\<^sup>*\<^sup>* (backfill_reference_edges db0) db"
  shows "set (rb_edges (sync_reference_edges db)) = edges_of_texts db
     \<and> sync_reference_edges db = db\<lparr>rb_edges := rb_edges (sync_reference_edges db), rb_dirty := []\<rparr>
     \<and> (m \<in> set (referrers n (sync_reference_edges db)) \<longleftrightarrow>
          m \<noteq> n \<and> (\<exists>o' r slug. o' \<in> set (ol_obligations (rb_outline db)) \<and> ob_node o' = m
            \<and> r \<in> set (rb_nodes db) \<and> nd_id r = n
            \<and> slug \<in> set (referenced_slugs (ob_body o')) \<and> lower (nd_slug r) = lower slug))"
proof -
  note sync = sync_reference_edges_exact[OF ref_writes_ok[OF assms(3,1,2)]]
  have "sync_reference_edges db = db\<lparr>rb_edges := rb_edges (sync_reference_edges db), rb_dirty := []\<rparr>"
    using sync(2-4) by (cases db; cases "sync_reference_edges db") simp
  moreover have "m \<in> set (referrers n (sync_reference_edges db)) \<longleftrightarrow> m \<noteq> n \<and> (\<exists>i. (i, m, n) \<in> edges_of_texts db)"
    unfolding sync(1)[symmetric] by (force simp: referrers_def)
  moreover have "(\<exists>i. (i, m, n) \<in> edges_of_texts db) \<longleftrightarrow>
      (\<exists>o' r slug. o' \<in> set (ol_obligations (rb_outline db)) \<and> ob_node o' = m \<and> r \<in> set (rb_nodes db) \<and> nd_id r = n
        \<and> slug \<in> set (referenced_slugs (ob_body o')) \<and> lower (nd_slug r) = lower slug)"
    by (auto simp: edges_of_texts_def edges_of_text_def texts_def ob_text_def)
  ultimately show ?thesis using sync(1) by simp
qed

theorem references_in_step_witness:
  "\<exists>db. ref_insert_at 5 1 7 KIND_REQUIREMENT 0 None ''see [[Form]]'' ''design'' (backfill_reference_edges two_nodes) = Inr db
     \<and> set (rb_edges (sync_reference_edges db)) = edges_of_texts db \<and> 7 \<in> set (referrers 1 (sync_reference_edges db))"
proof -
  obtain db where ins: "ref_insert_at 5 1 7 KIND_REQUIREMENT 0 None ''see [[Form]]'' ''design'' (backfill_reference_edges two_nodes) = Inr db"
    and at1: "\<exists>o' \<in> set (ol_obligations (rb_outline db)). ob_node o' = 7 \<and> ob_body o' = ''see [[Form]]''"
    and nodes: "rb_nodes db = rb_nodes two_nodes"
  proof -
    have "(case ref_insert_at 5 1 7 KIND_REQUIREMENT 0 None ''see [[Form]]'' ''design'' (backfill_reference_edges two_nodes) of
        Inr db \<Rightarrow> list_ex (\<lambda>o'. ob_node o' = 7 \<and> ob_body o' = ''see [[Form]]'') (ol_obligations (rb_outline db))
          \<and> rb_nodes db = rb_nodes two_nodes | Inl _ \<Rightarrow> False)"
      by code_simp
    then show ?thesis
      by (cases "ref_insert_at 5 1 7 KIND_REQUIREMENT 0 None ''see [[Form]]'' ''design'' (backfill_reference_edges two_nodes)")
        (use that in \<open>auto simp: list_ex_iff\<close>)
  qed
  have slug: "''Form'' \<in> set (referenced_slugs ''see [[Form]]'')" by code_simp
  have low: "lower ''form'' = lower ''Form''" by code_simp
  have "ref_write\<^sup>*\<^sup>* (backfill_reference_edges two_nodes) db" using ref_write.intros(1)[OF ins] by blast
  then have all: "set (rb_edges (sync_reference_edges db)) = edges_of_texts db"
    "7 \<in> set (referrers 1 (sync_reference_edges db)) \<longleftrightarrow>
          7 \<noteq> (1::uuid) \<and> (\<exists>o' r slug. o' \<in> set (ol_obligations (rb_outline db)) \<and> ob_node o' = 7
            \<and> r \<in> set (rb_nodes db) \<and> nd_id r = 1
            \<and> slug \<in> set (referenced_slugs (ob_body o')) \<and> lower (nd_slug r) = lower slug)"
    using references_in_step[of two_nodes db 7 1] by (simp_all add: two_nodes_def empty_outline_def)
  obtain o' where o': "o' \<in> set (ol_obligations (rb_outline db))" "ob_node o' = 7" "ob_body o' = ''see [[Form]]''"
    using at1 by blast
  obtain r where r: "r \<in> set (rb_nodes db)" "nd_id r = 1" "nd_slug r = ''form''" by (simp add: nodes two_nodes_def)
  have "7 \<in> set (referrers 1 (sync_reference_edges db))"
    unfolding all(2)
  proof (intro conjI exI)
    show "''Form'' \<in> set (referenced_slugs (ob_body o'))" unfolding o'(3) by (rule slug)
    show "lower (nd_slug r) = lower ''Form''" unfolding r(3) by (rule low)
  qed (use o'(1,2) r(1,2) in simp_all)
  with all(1) have "set (rb_edges (sync_reference_edges db)) = edges_of_texts db \<and> 7 \<in> set (referrers 1 (sync_reference_edges db))"
    by blast
  then show ?thesis using ins by blast
qed

lemma fold_missing:
  "set (fold (\<lambda>slug missing. if get_by_slug slug ns = None \<and> slug \<notin> set missing then missing @ [slug] else missing) slugs m)
     = set m \<union> {s \<in> set slugs. get_by_slug s ns = None}"
  by (induction slugs arbitrary: m) auto

lemma missing_slugs_set: "set (missing_slugs ns body) = {s \<in> set (referenced_slugs body). get_by_slug s ns = None}"
  by (simp add: missing_slugs_def fold_missing)

lemma like_of_slug: "s \<in> set (referenced_slugs body) \<Longrightarrow> like_reference body"
proof -
  assume s: "s \<in> set (referenced_slugs body)"
  obtain before after where cut: "split_once ''[['' body = Some (before, after)"
    using s by (cases "split_once ''[['' body") (auto simp: referenced_slugs.simps[of body])
  obtain inner rest where "split_once '']]'' after = Some (inner, rest)"
    using s cut by (cases "split_once '']]'' after") (auto simp: referenced_slugs.simps[of body])
  then have "after = inner @ '']]'' @ rest" by (rule split_once_Some)
  then have "contains_str '']]'' after" unfolding contains_str_iff by blast
  then show ?thesis by (simp add: like_reference_def cut)
qed

lemma two_refusals: "(if a then Inl x else if b then Inl y else Inr z) = Inr z \<longleftrightarrow> \<not> a \<and> \<not> b"
  by simp

lemma check_accepts:
  "check_references has_words ns (Some body) = Inr ()
     \<longleftrightarrow> has_words body \<and> (\<forall>s \<in> set (referenced_slugs body). get_by_slug s ns \<noteq> None)"
proof -
  have "missing_slugs ns body = [] \<longleftrightarrow> (\<forall>s \<in> set (referenced_slugs body). get_by_slug s ns \<noteq> None)"
    using missing_slugs_set[of ns body] by (cases "missing_slugs ns body") auto
  moreover have "check_references has_words ns (Some body) = Inr () \<longleftrightarrow> has_words body \<and> missing_slugs ns body = []"
    unfolding check_references_def option.case by (rule trans[OF two_refusals]) (simp only: not_not)
  ultimately show ?thesis by (metis (no_types))
qed

lemma broken_exact:
  "b \<in> set (broken_references None db) \<longleftrightarrow>
     (\<exists>o' \<in> set (ol_obligations (rb_outline db)). br_obligation b = ob_id o' \<and> br_node b = ob_node o'
        \<and> br_slug b \<in> set (referenced_slugs (ob_body o')) \<and> get_by_slug (br_slug b) (rb_nodes db) = None)"
  by (cases b) (auto simp: broken_references_def missing_slugs_set like_of_slug image_iff)

text \<open>C40: A text an agent may write names only nodes that exist: once its obligation is added and the edges
  synced, every slug in it has an edge to the node that bears it, and the obligation is in no list of broken
  references.\<close>
theorem accepted_text_resolves:
  assumes "distinct (map ob_id (ol_obligations (rb_outline db0)))" "rb_edges db0 = []"
    and "ref_write\<^sup>*\<^sup>* (backfill_reference_edges db0) db"
    and "check_references has_words (rb_nodes db) (Some body) = Inr ()"
    and "ref_insert_at now i n kind index section body phase db = Inr db'"
  shows "(\<forall>slug \<in> set (referenced_slugs body). \<exists>r \<in> set (rb_nodes db). lower (nd_slug r) = lower slug
            \<and> (i, n, nd_id r) \<in> set (rb_edges (sync_reference_edges db')))
     \<and> (\<forall>b \<in> set (broken_references None db'). br_obligation b \<noteq> i)"
proof -
  obtain ol where ol: "insert_obligation_at now i n kind index section body phase (rb_outline db) = Inr ol"
    and same: "rb_outline db' = ol" "rb_nodes db' = rb_nodes db"
    using assms(5) by (auto simp: ref_insert_at_def split: sum.splits)
  have new: "texts ol = texts (rb_outline db) @ [(i, n, body)]" and fresh: "i \<notin> fst ` set (texts (rb_outline db))"
    using texts_insert_at[OF ol] by auto
  note edges = sync_reference_edges_exact(1)[OF ok_insert_at[OF ref_writes_ok[OF assms(3,1,2)] assms(5)]]
  have resolved: "\<exists>r \<in> set (rb_nodes db). lower (nd_slug r) = lower slug" if slug: "slug \<in> set (referenced_slugs body)" for slug
  proof -
    have "get_by_slug slug (rb_nodes db) \<noteq> None" using assms(4) slug by (simp add: check_accepts)
    then show ?thesis by (auto simp: get_by_slug_def find_None_iff)
  qed
  have "(i, n, nd_id r) \<in> edges_of_texts db'"
    if "slug \<in> set (referenced_slugs body)" "r \<in> set (rb_nodes db)" "lower (nd_slug r) = lower slug" for slug r
    using that by (auto simp: edges_of_texts_def edges_of_text_def same new)
  moreover have "br_obligation b \<noteq> i" if b: "b \<in> set (broken_references None db')" for b
  proof
    assume bi: "br_obligation b = i"
    obtain o' where o': "o' \<in> set (ol_obligations ol)" "ob_id o' = i" "br_slug b \<in> set (referenced_slugs (ob_body o'))"
      "get_by_slug (br_slug b) (rb_nodes db) = None"
      using b bi by (auto simp: broken_exact same)
    have "ob_text o' \<in> set (texts ol)" using o'(1) by (simp add: texts_def)
    then have "ob_body o' = body" using fresh o'(2) unfolding new by (force simp: ob_text_def)
    then show False using o'(3,4) assms(4) unfolding check_accepts by blast
  qed
  ultimately show ?thesis using resolved edges by blast
qed

theorem accepted_text_resolves_witness:
  "\<exists>db'. ref_insert_at 5 1 7 KIND_REQUIREMENT 0 None ''see [[Form]]'' ''design'' (backfill_reference_edges two_nodes) = Inr db'
     \<and> (\<exists>r \<in> set (rb_nodes two_nodes). (1, 7, nd_id r) \<in> set (rb_edges (sync_reference_edges db')))"
proof -
  have nodes: "rb_nodes (backfill_reference_edges two_nodes) = rb_nodes two_nodes" by code_simp
  have "\<not> isl (ref_insert_at 5 1 7 KIND_REQUIREMENT 0 None ''see [[Form]]'' ''design'' (backfill_reference_edges two_nodes))"
    by code_simp
  then obtain db' where ins: "ref_insert_at 5 1 7 KIND_REQUIREMENT 0 None ''see [[Form]]'' ''design'' (backfill_reference_edges two_nodes) = Inr db'"
    by (auto simp: isl_def split: sum.splits) (metis sum.exhaust)
  have slug: "''Form'' \<in> set (referenced_slugs ''see [[Form]]'')" by code_simp
  have "check_references (\<lambda>_. True) (rb_nodes (backfill_reference_edges two_nodes)) (Some ''see [[Form]]'') = Inr ()" by code_simp
  from accepted_text_resolves[OF _ _ rtranclp.rtrancl_refl this ins] slug show ?thesis
    using ins nodes by (auto simp: two_nodes_def empty_outline_def)
qed

end
