(* ===== verification/Mutations.thy ===== *)
theory Mutations
  imports References
begin

text \<open>
  The mutations on obligations and plan steps (\<^verbatim>\<open>OutlineMutation::execute\<close> in \<^verbatim>\<open>outline/mutations.rs\<close>), with
  the guards they pass before the repositories write, the file references an obligation may not hold
  (\<^verbatim>\<open>outline/file_refs.rs\<close>).
\<close>

section \<open>References to files\<close>

definition is_url :: "string \<Rightarrow> bool" where
  "is_url s = (contains_str ''://'' s \<or> starts_with ''mailto:'' s)"

definition ascii_alphabetic :: "char \<Rightarrow> bool" where
  "ascii_alphabetic c = (is_lower c \<or> is_upper c)"

abbreviation slash :: "char \<Rightarrow> bool" where
  "slash c \<equiv> c = CHR ''/'' \<or> c = CHR 0x5C"

text \<open>\<^verbatim>\<open>rsplit(sep).next()\<close> and \<^verbatim>\<open>rsplit_once('.')\<close>.\<close>

definition last_segment :: "(char \<Rightarrow> bool) \<Rightarrow> string \<Rightarrow> string" where
  "last_segment sep s = rev (takeWhile (\<lambda>c. \<not> sep c) (rev s))"

definition rsplit_once_char :: "char \<Rightarrow> string \<Rightarrow> (string \<times> string) option" where
  "rsplit_once_char c s =
     (if c \<in> set s then Some (rev (tl (dropWhile (\<lambda>x. x \<noteq> c) (rev s))), last_segment (\<lambda>x. x = c) s) else None)"

definition has_extension :: "string \<Rightarrow> bool" where
  "has_extension s =
     (case rsplit_once_char CHR ''.'' s of
        Some (stem, ext) \<Rightarrow> stem \<noteq> [] \<and> ext \<noteq> [] \<and> length ext \<le> 8 \<and> ascii_alphabetic (hd ext) \<and> list_all ascii_alphanumeric ext
      | None \<Rightarrow> False)"

definition is_path :: "string \<Rightarrow> bool" where
  "is_path token =
     (if token = [] \<or> is_url token then False
      else if starts_with ''./'' token \<or> starts_with ''../'' token
            \<or> starts_with [CHR ''.'', CHR 0x5C] token \<or> starts_with [CHR ''.'', CHR ''.'', CHR 0x5C] token then True
      else if length token > 2 \<and> ascii_alphabetic (token ! 0) \<and> token ! 1 = CHR '':'' \<and> slash (token ! 2) then True
      else if \<not> list_ex slash token then False
      else has_extension (last_segment slash token))"

definition push_new :: "string \<Rightarrow> string list \<Rightarrow> string list" where
  "push_new s out = (if s \<in> set out then out else out @ [s])"

text \<open>The targets of the markdown links.\<close>

function link_targets :: "string \<Rightarrow> string list" where
  "link_targets s =
     (case split_once [CHR '']'', CHR ''(''] s of
        None \<Rightarrow> []
      | Some (_, after) \<Rightarrow>
          (case split_once '')'' after of
             None \<Rightarrow> []
           | Some (target, rest) \<Rightarrow>
               let t = trim target
               in (if t \<noteq> [] \<and> \<not> is_url t \<and> \<not> starts_with ''#'' t then [t] else []) @ link_targets rest))"
  by pat_completeness auto
termination
  by (relation "measure length") (auto dest!: split_once_Some)

declare link_targets.simps [simp del]

definition strip_quotes :: "string \<Rightarrow> string" where
  "strip_quotes token =
     rev (dropWhile (\<lambda>c. c \<in> {CHR 0x60, CHR 0x22, CHR 0x27, CHR ''>'', CHR '','', CHR '';'', CHR '':'', CHR ''.'', CHR ''!'', CHR ''?'', CHR ''*''})
       (rev (dropWhile (\<lambda>c. c \<in> {CHR 0x60, CHR 0x22, CHR 0x27, CHR ''<'', CHR ''*''}) token)))"

definition referenced_files :: "string \<Rightarrow> string list" where
  "referenced_files s =
     fold push_new
       (link_targets s @ filter is_path (map strip_quotes
          (split_on (\<lambda>c. is_space c \<or> c = CHR ''('' \<or> c = CHR '')'' \<or> c = CHR ''['' \<or> c = CHR '']'') s))) []"

definition check_no_file_references :: "string \<Rightarrow> unit fallible" where
  "check_no_file_references body =
     (let files = referenced_files body
      in if files = [] then Inr ()
         else Inl (''obligation text references '' @ (if length files = 1 then ''a file'' else ''files'') @ '' (''
           @ join '', '' (map (\<lambda>f. [CHR 0x60] @ f @ [CHR 0x60]) files)
           @ ''): obligations are stored in the data root and must stand on their own - state what the file says instead of pointing at it''))"

section \<open>Mutations\<close>

datatype text_mutation =
  CreateObligation "uuid option" uuid string "uuid option" bool "string option" string string
    \<comment> \<open>id, node, kind, anchor, before it, section, body, phase\<close>
| UpdateObligationBody uuid string
| UpdateObligationVisualDesign uuid "string option"
| UpdateObligationSection uuid "string option"
| UpdateObligationPhase uuid string
| UpdateObligationActsIn uuid string
| RenameObligationSection uuid string "string option" string
| DeleteObligation uuid
| MoveObligation uuid uuid
| ReorderObligation uuid reorder_direction
| RestoreObligationRow uuid entity_snapshot
| PlaceObligation uuid uuid int
| CreatePlanStep "uuid option" uuid "uuid option" bool string
| UpdatePlanStepBody uuid string
| UpdatePlanStepStatus uuid string "string option" "handoff_reason option"
| SetPlanStepPhase uuid string
| DeletePlanStep uuid
| ReorderPlanStep uuid reorder_direction
| AddPlanStepDependency uuid uuid
| RemovePlanStepDependency uuid uuid
| LinkPlanStepObligation uuid uuid
| UnlinkPlanStepObligation uuid uuid
| RestorePlanStep uuid entity_snapshot
| PlacePlanStep uuid int

text \<open>What they read and write: the obligations, plan and reference edges, the capabilities of each node, and
  the nodes a generator manages.\<close>

record edit_db =
  ed_refs :: ref_db
  ed_caps :: "uuid \<Rightarrow> capability list"
  ed_managed :: "uuid list"

abbreviation ed_outline :: "edit_db \<Rightarrow> outline_db" where
  "ed_outline db \<equiv> rb_outline (ed_refs db)"

abbreviation ed_plan :: "edit_db \<Rightarrow> plan_db" where
  "ed_plan db \<equiv> ol_plan (ed_outline db)"

definition OBLIGATION_PHASES :: "string list" where
  "OBLIGATION_PHASES = [''unknown'', ''requirements'', ''design'']"

definition guard_not_managed :: "uuid \<Rightarrow> edit_db \<Rightarrow> unit fallible" where
  "guard_not_managed n db =
     (if n \<in> set (ed_managed db) then Inl ''cannot modify a managed node - it is owned by its generator'' else Inr ())"

definition require_spec :: "uuid \<Rightarrow> edit_db \<Rightarrow> unit fallible" where
  "require_spec n db = (if CapSpec \<in> set (ed_caps db n) then Inr () else Inl ''node does not have spec capability'')"

definition parse_obligation_kind :: "string \<Rightarrow> string fallible" where
  "parse_obligation_kind kind =
     (if kind = KIND_REQUIREMENT then Inr KIND_REQUIREMENT
      else if kind = KIND_CONSTRAINT then Inr KIND_CONSTRAINT
      else Inl (''invalid obligation kind: '' @ kind))"

definition parse_obligation_phase :: "string \<Rightarrow> bool \<Rightarrow> string fallible" where
  "parse_obligation_phase phase allow_unknown =
     (if phase \<notin> set OBLIGATION_PHASES then Inl (''unknown phase `'' @ phase @ ''` (expected requirements|design)'')
      else if phase = ''unknown'' \<and> \<not> allow_unknown
      then Inl ''a new obligation must be tagged with a real phase, not `unknown`''
      else Inr phase)"

definition parse_obligation_acts_in :: "string \<Rightarrow> string fallible" where
  "parse_obligation_acts_in acts_in =
     (if acts_in \<in> set OBLIGATION_ACTS_IN then Inr acts_in
      else Inl (''unknown acts_in `'' @ acts_in @ ''` (expected design|active|verifying|merged|released)''))"

definition index_from_ordinal :: "int \<Rightarrow> nat" where
  "index_from_ordinal k = nat (k - 1)"

text \<open>\<^verbatim>\<open>?\<close>, and a repository write on part of the state.\<close>

definition ok_then :: "'a fallible \<Rightarrow> ('a \<Rightarrow> 'b fallible) \<Rightarrow> 'b fallible" where
  "ok_then x f = (case x of Inl e \<Rightarrow> Inl e | Inr a \<Rightarrow> f a)"

definition on_refs :: "(ref_db \<Rightarrow> ref_db fallible) \<Rightarrow> edit_db \<Rightarrow> edit_db fallible" where
  "on_refs f db = (case f (ed_refs db) of Inl e \<Rightarrow> Inl e | Inr r \<Rightarrow> Inr (db\<lparr>ed_refs := r\<rparr>))"

definition on_plan :: "(plan_db \<Rightarrow> plan_db fallible) \<Rightarrow> edit_db \<Rightarrow> edit_db fallible" where
  "on_plan f db =
     (case f (ed_plan db) of
        Inl e \<Rightarrow> Inl e
      | Inr p \<Rightarrow> Inr (db\<lparr>ed_refs := (ed_refs db)\<lparr>rb_outline := (ed_outline db)\<lparr>ol_plan := p\<rparr>\<rparr>\<rparr>))"

text \<open>The index of \<^verbatim>\<open>create_obligation\<close> and \<^verbatim>\<open>create_plan_step\<close>: next to the anchor, or last.\<close>

definition anchored_index :: "uuid option \<Rightarrow> bool \<Rightarrow> uuid list \<Rightarrow> nat" where
  "anchored_index after before ids =
     (case after of
        None \<Rightarrow> length ids
      | Some anchor \<Rightarrow> (let pos = unwrap_or (length ids) (pos_in ids anchor) in if before then pos else pos + 1))"

definition create_obligation ::
    "ms \<Rightarrow> uuid \<Rightarrow> uuid \<Rightarrow> string \<Rightarrow> uuid option \<Rightarrow> bool \<Rightarrow> string option \<Rightarrow> string \<Rightarrow> string \<Rightarrow> edit_db \<Rightarrow> edit_db fallible" where
  "create_obligation now i n kind after before section body phase db =
     ok_then (require_spec n db) (\<lambda>_.
     ok_then (parse_obligation_kind kind) (\<lambda>kind.
     ok_then (parse_obligation_phase phase False) (\<lambda>phase.
       on_refs (ref_insert_at now i n kind (anchored_index after before (obligation_ids_for_kind n kind (ed_outline db))) section body phase) db)))"

definition restore_obligation_row :: "ms \<Rightarrow> uuid \<Rightarrow> entity_snapshot \<Rightarrow> edit_db \<Rightarrow> edit_db fallible" where
  "restore_obligation_row now i snap db =
     (case snap of
        SnObligation n kind section body phase acts_in ordinal visual \<Rightarrow>
          if get_obligation i (ed_outline db) \<noteq> None then Inl (''obligation '' @ short_id i @ '' already exists'')
          else if get_node n (rb_nodes (ed_refs db)) = None then Inl (''node '' @ show_uuid n @ '' no longer exists'')
          else
            ok_then (guard_not_managed n db) (\<lambda>_.
            ok_then (require_spec n db) (\<lambda>_.
            ok_then (parse_obligation_kind kind) (\<lambda>kind.
            ok_then (on_refs (ref_insert_at now i n kind (index_from_ordinal ordinal) section body phase) db) (\<lambda>db1.
            ok_then (on_refs (\<lambda>r. quiet_write (update_acts_in now i acts_in (rb_outline r)) r) db1) (\<lambda>db2.
              if visual \<noteq> None
              then on_refs (\<lambda>r. quiet_write (update_visual_design_path now i visual (rb_outline r)) r) db2
              else Inr db2)))))
      | _ \<Rightarrow> Inl ''not an obligation snapshot'')"

definition plan_step_key :: "string \<Rightarrow> string" where
  "plan_step_key body = join '' '' (split_whitespace body)"

definition reject_duplicate_plan_step :: "uuid \<Rightarrow> uuid option \<Rightarrow> string \<Rightarrow> plan_db \<Rightarrow> unit fallible" where
  "reject_duplicate_plan_step n except body p =
     (let key = plan_step_key body
      in if key = [] then Inr ()
         else (case find (\<lambda>s. Some (ps_id s) \<noteq> except \<and> plan_step_key (ps_body s) = key) (steps_for_node n p) of
             Some existing \<Rightarrow> Inl (''the plan already has this step ('' @ show_uuid (ps_id existing) @ ''); it was not added again'')
           | None \<Rightarrow> Inr ()))"

definition create_plan_step ::
    "ms \<Rightarrow> uuid \<Rightarrow> uuid \<Rightarrow> uuid option \<Rightarrow> bool \<Rightarrow> string \<Rightarrow> edit_db \<Rightarrow> edit_db fallible" where
  "create_plan_step now i n after before body db =
     ok_then (require_spec n db) (\<lambda>_.
     ok_then (reject_duplicate_plan_step n None body (ed_plan db)) (\<lambda>_.
       on_plan (insert_step_at now i n (anchored_index after before (step_ids_for_node n (ed_plan db))) body) db))"

text \<open>The loops that put a restored step's edges and links back, those that still have their other end.\<close>

fun restore_deps :: "uuid \<Rightarrow> uuid list \<Rightarrow> plan_db \<Rightarrow> plan_db fallible" where
  "restore_deps i [] p = Inr p"
| "restore_deps i (d # ds) p =
     (if get_step d p \<noteq> None then ok_then (add_dependency i d p) (restore_deps i ds) else restore_deps i ds p)"

definition restore_links :: "uuid \<Rightarrow> uuid list \<Rightarrow> outline_db \<Rightarrow> plan_db \<Rightarrow> plan_db" where
  "restore_links i obs ol p = fold (\<lambda>ob p. if get_obligation ob ol \<noteq> None then link_obligation i ob p else p) obs p"

definition restore_plan_step :: "ms \<Rightarrow> uuid \<Rightarrow> entity_snapshot \<Rightarrow> edit_db \<Rightarrow> edit_db fallible" where
  "restore_plan_step now i snap db =
     (case snap of
        SnPlanStep n ordinal body status note reason depends_on satisfies phase \<Rightarrow>
          if get_step i (ed_plan db) \<noteq> None then Inl (''plan step '' @ short_id i @ '' already exists'')
          else if get_node n (rb_nodes (ed_refs db)) = None then Inl (''node '' @ show_uuid n @ '' no longer exists'')
          else
            ok_then (require_spec n db) (\<lambda>_.
              if status \<notin> set PLAN_STEP_STATUSES then Inl (''unknown plan step status `'' @ status @ ''`'')
              else on_plan (\<lambda>p.
                ok_then (insert_step_at now i n (index_from_ordinal ordinal) body p) (\<lambda>p1.
                ok_then (restore_deps i depends_on
                    (map_step i (\<lambda>s. s\<lparr>ps_status := status, ps_note := note, ps_reason := reason, ps_phase := phase\<rparr>) p1)) (\<lambda>p2.
                  Inr (restore_links i satisfies (ed_outline db) p2)))) db)
      | _ \<Rightarrow> Inl ''not a plan step snapshot'')"

text \<open>\<^verbatim>\<open>PlaceObligation\<close> moves the obligation onto its node first when it is not there.\<close>

definition place_obligation_on :: "ms \<Rightarrow> uuid \<Rightarrow> uuid \<Rightarrow> int \<Rightarrow> edit_db \<Rightarrow> edit_db fallible" where
  "place_obligation_on now i n ordinal db =
     (case get_obligation i (ed_outline db) of
        None \<Rightarrow> Inl ''obligation not found''
      | Some row \<Rightarrow>
          ok_then (if ob_node row \<noteq> n then ok_then (require_spec n db) (\<lambda>_. on_refs (ref_move now i n) db) else Inr db) (\<lambda>db1.
            on_refs (\<lambda>r. quiet_write (place_obligation now i (index_from_ordinal ordinal) (rb_outline r)) r) db1))"

definition direction_delta :: "reorder_direction \<Rightarrow> int" where
  "direction_delta dir = (case dir of Up \<Rightarrow> -1 | Down \<Rightarrow> 1)"

text \<open>\<^verbatim>\<open>fresh\<close> is the id \<^verbatim>\<open>Uuid::new_v4\<close> gives a create that names none. The two link rows are foreign keys.\<close>

fun execute_rows :: "ms \<Rightarrow> uuid \<Rightarrow> text_mutation \<Rightarrow> edit_db \<Rightarrow> edit_db fallible" where
  "execute_rows now fresh (CreateObligation i n kind after before section body phase) db =
     ok_then (guard_not_managed n db) (\<lambda>_.
     ok_then (check_no_file_references body) (\<lambda>_.
       create_obligation now (unwrap_or fresh i) n kind after before section body phase db))"
| "execute_rows now fresh (UpdateObligationBody i body) db =
     ok_then (check_no_file_references body) (\<lambda>_. on_refs (ref_update_body now i body) db)"
| "execute_rows now fresh (UpdateObligationVisualDesign i path) db =
     on_refs (\<lambda>r. quiet_write (update_visual_design_path now i path (rb_outline r)) r) db"
| "execute_rows now fresh (UpdateObligationSection i section) db =
     on_refs (\<lambda>r. quiet_write (update_section now i (opt_filter (\<lambda>s. s \<noteq> []) (map_option trim section)) (rb_outline r)) r) db"
| "execute_rows now fresh (UpdateObligationPhase i phase) db =
     ok_then (parse_obligation_phase phase True) (\<lambda>phase.
       on_refs (\<lambda>r. quiet_write (update_phase now i phase (rb_outline r)) r) db)"
| "execute_rows now fresh (UpdateObligationActsIn i acts_in) db =
     ok_then (parse_obligation_acts_in acts_in) (\<lambda>acts_in.
       on_refs (\<lambda>r. quiet_write (update_acts_in now i acts_in (rb_outline r)) r) db)"
| "execute_rows now fresh (RenameObligationSection n kind old new) db =
     ok_then (require_spec n db) (\<lambda>_.
     ok_then (parse_obligation_kind kind) (\<lambda>kind.
       if trim new = [] then Inl ''section name cannot be empty''
       else on_refs (\<lambda>r. quiet_write (Inr (rename_section now n kind old (trim new) (rb_outline r))) r) db))"
| "execute_rows now fresh (DeleteObligation i) db = on_refs (\<lambda>r. Inr (ref_delete now i r)) db"
| "execute_rows now fresh (MoveObligation i n) db =
     ok_then (require_spec n db) (\<lambda>_. on_refs (ref_move now i n) db)"
| "execute_rows now fresh (ReorderObligation i dir) db =
     on_refs (\<lambda>r. quiet_write (reorder_obligation now i (direction_delta dir) (rb_outline r)) r) db"
| "execute_rows now fresh (RestoreObligationRow i snap) db = restore_obligation_row now i snap db"
| "execute_rows now fresh (PlaceObligation i n ordinal) db = place_obligation_on now i n ordinal db"
| "execute_rows now fresh (CreatePlanStep i n after before body) db =
     create_plan_step now (unwrap_or fresh i) n after before body db"
| "execute_rows now fresh (UpdatePlanStepBody i body) db =
     (case get_step i (ed_plan db) of
        None \<Rightarrow> Inl ''plan step not found''
      | Some s \<Rightarrow> ok_then (reject_duplicate_plan_step (ps_node s) (Some i) body (ed_plan db)) (\<lambda>_.
          on_plan (update_step_body now i body) db))"
| "execute_rows now fresh (UpdatePlanStepStatus i status note reason) db =
     on_plan (update_step_status now i status note reason) db"
| "execute_rows now fresh (SetPlanStepPhase i phase) db = on_plan (set_step_phase now i phase) db"
| "execute_rows now fresh (DeletePlanStep i) db = on_plan (\<lambda>p. Inr (snd (delete_step now i p))) db"
| "execute_rows now fresh (ReorderPlanStep i dir) db = on_plan (reorder_step now i (direction_delta dir)) db"
| "execute_rows now fresh (AddPlanStepDependency i d) db = on_plan (add_dependency i d) db"
| "execute_rows now fresh (RemovePlanStepDependency i d) db = on_plan (\<lambda>p. Inr (remove_dependency i d p)) db"
| "execute_rows now fresh (LinkPlanStepObligation i ob) db =
     (if get_step i (ed_plan db) = None \<or> get_obligation ob (ed_outline db) = None then Inl ''FOREIGN KEY constraint failed''
      else on_plan (\<lambda>p. Inr (link_obligation i ob p)) db)"
| "execute_rows now fresh (UnlinkPlanStepObligation i ob) db = on_plan (\<lambda>p. Inr (unlink_obligation i ob p)) db"
| "execute_rows now fresh (RestorePlanStep i snap) db = restore_plan_step now i snap db"
| "execute_rows now fresh (PlacePlanStep i ordinal) db = on_plan (place_step_at now i (index_from_ordinal ordinal)) db"

definition execute :: "ms \<Rightarrow> uuid \<Rightarrow> text_mutation \<Rightarrow> edit_db \<Rightarrow> edit_db fallible" where
  "execute now fresh m db =
     ok_then (execute_rows now fresh m db) (\<lambda>db'. Inr (db'\<lparr>ed_refs := sync_reference_edges (ed_refs db')\<rparr>))"

end
