(* ===== verification/Undo.thy ===== *)
theory Undo
  imports Mutations
begin

text \<open>
  The state recorded of an obligation or a plan step around a change (\<^verbatim>\<open>snapshot\<close> in \<^verbatim>\<open>conversation/record.rs\<close>), and the
  mutation that undoes a recorded one (\<^verbatim>\<open>inverse\<close> in \<^verbatim>\<open>conversation/inverse.rs\<close>), with what undoing gives back.
\<close>

section \<open>What is recorded of an item\<close>

datatype entity = ENode | EObligation | EPlanStep | ECapabilities

datatype action_kind = ActCreate | ActEdit | ActMove | ActDelete | ActReverse

definition obligation_snapshot :: "uuid \<Rightarrow> outline_db \<Rightarrow> entity_snapshot option" where
  "obligation_snapshot i ol =
     map_option (\<lambda>o'. SnObligation (ob_node o') (ob_kind o') (ob_section o') (ob_body o') (ob_phase o') (ob_acts_in o')
         (ob_ordinal o') (ob_visual o')) (get_obligation i ol)"

definition step_snapshot :: "uuid \<Rightarrow> plan_db \<Rightarrow> entity_snapshot option" where
  "step_snapshot i p =
     map_option (\<lambda>s. SnPlanStep (ps_node s) (ps_ordinal s) (ps_body s) (ps_status s) (ps_note s) (ps_reason s)
         (sort (list_dependencies i p)) (sort (list_obligations i p)) (ps_phase s)) (get_step i p)"

text \<open>The part of \<^verbatim>\<open>classify\<close> on these mutations, \<^verbatim>\<open>normalize\<close> having given every create its id.\<close>

fun classify_text :: "text_mutation \<Rightarrow> (action_kind \<times> entity \<times> uuid) option" where
  "classify_text (CreateObligation i _ _ _ _ _ _ _) = map_option (\<lambda>i. (ActCreate, EObligation, i)) i"
| "classify_text (UpdateObligationBody i _) = Some (ActEdit, EObligation, i)"
| "classify_text (UpdateObligationVisualDesign i _) = Some (ActEdit, EObligation, i)"
| "classify_text (UpdateObligationSection i _) = Some (ActEdit, EObligation, i)"
| "classify_text (UpdateObligationPhase i _) = Some (ActEdit, EObligation, i)"
| "classify_text (UpdateObligationActsIn i _) = Some (ActEdit, EObligation, i)"
| "classify_text (RenameObligationSection _ _ _ _) = None"
| "classify_text (DeleteObligation i) = Some (ActDelete, EObligation, i)"
| "classify_text (MoveObligation i _) = Some (ActMove, EObligation, i)"
| "classify_text (ReorderObligation i _) = Some (ActMove, EObligation, i)"
| "classify_text (RestoreObligationRow _ _) = None"
| "classify_text (PlaceObligation i _ _) = Some (ActMove, EObligation, i)"
| "classify_text (CreatePlanStep i _ _ _ _) = map_option (\<lambda>i. (ActCreate, EPlanStep, i)) i"
| "classify_text (UpdatePlanStepBody i _) = Some (ActEdit, EPlanStep, i)"
| "classify_text (UpdatePlanStepStatus i _ _ _) = Some (ActEdit, EPlanStep, i)"
| "classify_text (SetPlanStepPhase i _) = Some (ActEdit, EPlanStep, i)"
| "classify_text (DeletePlanStep i) = Some (ActDelete, EPlanStep, i)"
| "classify_text (ReorderPlanStep i _) = Some (ActMove, EPlanStep, i)"
| "classify_text (AddPlanStepDependency i _) = Some (ActEdit, EPlanStep, i)"
| "classify_text (RemovePlanStepDependency i _) = Some (ActEdit, EPlanStep, i)"
| "classify_text (LinkPlanStepObligation i _) = Some (ActEdit, EPlanStep, i)"
| "classify_text (UnlinkPlanStepObligation i _) = Some (ActEdit, EPlanStep, i)"
| "classify_text (RestorePlanStep _ _) = None"
| "classify_text (PlacePlanStep i _) = Some (ActMove, EPlanStep, i)"

section \<open>The inverse of an action\<close>

definition no_prior :: "int \<Rightarrow> string" where
  "no_prior a = ''action '' @ show_int a @ '' recorded no prior state''"

text \<open>The message of a mutation that has no inverse leaves out its debug form.
  \<^verbatim>\<open>before()?\<close>, taken apart as an obligation or a plan step.\<close>

definition prior_obligation :: "int \<Rightarrow> entity_snapshot option \<Rightarrow> (uuid \<Rightarrow> string option \<Rightarrow> string \<Rightarrow> string \<Rightarrow> string \<Rightarrow> int \<Rightarrow> string option \<Rightarrow> text_mutation) \<Rightarrow> text_mutation fallible" where
  "prior_obligation a before f =
     (case before of
        None \<Rightarrow> Inl (no_prior a)
      | Some (SnObligation n _ section body phase acts_in ordinal visual) \<Rightarrow> Inr (f n section body phase acts_in ordinal visual)
      | Some _ \<Rightarrow> Inl (''action '' @ show_int a @ '' recorded the wrong kind of state''))"

definition prior_step :: "int \<Rightarrow> entity_snapshot option \<Rightarrow> (int \<Rightarrow> string \<Rightarrow> string \<Rightarrow> string option \<Rightarrow> handoff_reason option \<Rightarrow> uuid list \<Rightarrow> uuid list \<Rightarrow> string \<Rightarrow> text_mutation) \<Rightarrow> text_mutation fallible" where
  "prior_step a before f =
     (case before of
        None \<Rightarrow> Inl (no_prior a)
      | Some (SnPlanStep _ ordinal body status note reason depends_on satisfies phase) \<Rightarrow>
          Inr (f ordinal body status note reason depends_on satisfies phase)
      | Some _ \<Rightarrow> Inl (''action '' @ show_int a @ '' recorded the wrong kind of state''))"

definition put_dependency :: "uuid \<Rightarrow> uuid \<Rightarrow> uuid list \<Rightarrow> text_mutation" where
  "put_dependency i d depends_on = (if d \<in> set depends_on then AddPlanStepDependency i d else RemovePlanStepDependency i d)"

definition put_link :: "uuid \<Rightarrow> uuid \<Rightarrow> uuid list \<Rightarrow> text_mutation" where
  "put_link i ob satisfies = (if ob \<in> set satisfies then LinkPlanStepObligation i ob else UnlinkPlanStepObligation i ob)"

fun inverse_text :: "int \<Rightarrow> uuid \<Rightarrow> entity_snapshot option \<Rightarrow> text_mutation \<Rightarrow> text_mutation fallible" where
  "inverse_text a i before (CreateObligation _ _ _ _ _ _ _ _) = Inr (DeleteObligation i)"
| "inverse_text a i before (RestoreObligationRow _ _) = Inr (DeleteObligation i)"
| "inverse_text a i before (CreatePlanStep _ _ _ _ _) = Inr (DeletePlanStep i)"
| "inverse_text a i before (RestorePlanStep _ _) = Inr (DeletePlanStep i)"
| "inverse_text a i before (DeleteObligation _) =
     (case before of None \<Rightarrow> Inl (no_prior a) | Some snap \<Rightarrow> Inr (RestoreObligationRow i snap))"
| "inverse_text a i before (DeletePlanStep _) =
     (case before of None \<Rightarrow> Inl (no_prior a) | Some snap \<Rightarrow> Inr (RestorePlanStep i snap))"
| "inverse_text a i before (UpdateObligationBody _ _) = prior_obligation a before (\<lambda>_ _ body _ _ _ _. UpdateObligationBody i body)"
| "inverse_text a i before (UpdateObligationSection _ _) = prior_obligation a before (\<lambda>_ section _ _ _ _ _. UpdateObligationSection i section)"
| "inverse_text a i before (UpdateObligationPhase _ _) = prior_obligation a before (\<lambda>_ _ _ phase _ _ _. UpdateObligationPhase i phase)"
| "inverse_text a i before (UpdateObligationActsIn _ _) = prior_obligation a before (\<lambda>_ _ _ _ acts_in _ _. UpdateObligationActsIn i acts_in)"
| "inverse_text a i before (UpdateObligationVisualDesign _ _) = prior_obligation a before (\<lambda>_ _ _ _ _ _ visual. UpdateObligationVisualDesign i visual)"
| "inverse_text a i before (UpdatePlanStepBody _ _) = prior_step a before (\<lambda>_ body _ _ _ _ _ _. UpdatePlanStepBody i body)"
| "inverse_text a i before (SetPlanStepPhase _ _) = prior_step a before (\<lambda>_ _ _ _ _ _ _ phase. SetPlanStepPhase i phase)"
| "inverse_text a i before (UpdatePlanStepStatus _ _ _ _) =
     prior_step a before (\<lambda>_ _ status note reason _ _ _. UpdatePlanStepStatus i status note reason)"
| "inverse_text a i before (AddPlanStepDependency _ d) = prior_step a before (\<lambda>_ _ _ _ _ depends_on _ _. put_dependency i d depends_on)"
| "inverse_text a i before (RemovePlanStepDependency _ d) = prior_step a before (\<lambda>_ _ _ _ _ depends_on _ _. put_dependency i d depends_on)"
| "inverse_text a i before (LinkPlanStepObligation _ ob) = prior_step a before (\<lambda>_ _ _ _ _ _ satisfies _. put_link i ob satisfies)"
| "inverse_text a i before (UnlinkPlanStepObligation _ ob) = prior_step a before (\<lambda>_ _ _ _ _ _ satisfies _. put_link i ob satisfies)"
| "inverse_text a i before (MoveObligation _ _) = prior_obligation a before (\<lambda>n _ _ _ _ ordinal _. PlaceObligation i n ordinal)"
| "inverse_text a i before (ReorderObligation _ _) = prior_obligation a before (\<lambda>n _ _ _ _ ordinal _. PlaceObligation i n ordinal)"
| "inverse_text a i before (PlaceObligation _ _ _) = prior_obligation a before (\<lambda>n _ _ _ _ ordinal _. PlaceObligation i n ordinal)"
| "inverse_text a i before (ReorderPlanStep _ _) = prior_step a before (\<lambda>ordinal _ _ _ _ _ _ _. PlacePlanStep i ordinal)"
| "inverse_text a i before (PlacePlanStep _ _) = prior_step a before (\<lambda>ordinal _ _ _ _ _ _ _. PlacePlanStep i ordinal)"
| "inverse_text a i before (RenameObligationSection _ _ _ _) = Inl (''action '' @ show_int a @ '' has no inverse'')"

section \<open>The obligations as a set of texts and an order\<close>

text \<open>What a group's rows hold apart from number and time, and the order they are in: dense rows are these two.\<close>

definition clear_ob :: "obligation \<Rightarrow> obligation" where
  "clear_ob o' = o'\<lparr>ob_ordinal := 0, ob_updated := 0\<rparr>"

definition contents :: "outline_db \<Rightarrow> obligation set" where
  "contents ol = clear_ob ` set (ol_obligations ol)"

definition ob_order :: "outline_db \<Rightarrow> uuid \<times> string \<Rightarrow> uuid list" where
  "ob_order ol g = group_ids ob_id ob_group ob_ordinal g (ol_obligations ol)"

definition ob_table :: "outline_db \<Rightarrow> obligation set" where
  "ob_table ol = (\<lambda>o'. o'\<lparr>ob_updated := 0\<rparr>) ` set (ol_obligations ol)"

lemma clear_ob_simps [simp]:
  "ob_id (clear_ob o') = ob_id o'" "ob_group (clear_ob o') = ob_group o'" "ob_node (clear_ob o') = ob_node o'"
  "ob_kind (clear_ob o') = ob_kind o'"
  by (simp_all add: clear_ob_def)

lemma order_ids: "obligation_ids_for_kind n kind ol = ob_order ol (n, kind)"
  by (simp add: obligation_ids_for_kind_def ob_order_def)

lemma table_subset:
  assumes "ob_dense a" "ob_dense b" "contents a \<subseteq> contents b" "ob_order a = ob_order b"
  shows "ob_table a \<subseteq> ob_table b"
proof
  fix t assume "t \<in> ob_table a"
  then obtain r where r: "r \<in> set (ol_obligations a)" "t = r\<lparr>ob_updated := 0\<rparr>" by (auto simp: ob_table_def)
  then have "clear_ob r \<in> contents b" using assms(3) by (auto simp: contents_def)
  then obtain r' where r': "r' \<in> set (ol_obligations b)" "clear_ob r = clear_ob r'" by (auto simp: contents_def)
  have "ob_id r = ob_id r'" "ob_group r = ob_group r'" using r'(2) by (metis clear_ob_simps)+
  moreover have "group_ids ob_id ob_group ob_ordinal g (ol_obligations a) = group_ids ob_id ob_group ob_ordinal g (ol_obligations b)" for g
    using assms(4) by (metis ob_order_def)
  ultimately have "ob_ordinal r = ob_ordinal r'" using ob.dense_same[OF assms(1,2) _ r(1) r'(1)] by blast
  then have "r\<lparr>ob_updated := 0\<rparr> = r'\<lparr>ob_updated := 0\<rparr>" using r'(2) by (cases r; cases r') (simp add: clear_ob_def)
  then show "t \<in> ob_table b" using r r'(1) by (auto simp: ob_table_def)
qed

lemma same_table:
  "ob_dense a \<Longrightarrow> ob_dense b \<Longrightarrow> contents a = contents b \<Longrightarrow> ob_order a = ob_order b \<Longrightarrow> ob_table a = ob_table b"
  using table_subset by (metis subset_antisym order_refl)

lemma contents_ordinals [simp]: "contents (write_ob_ordinals now n kind ids ol) = contents ol"
proof -
  have "map clear_ob (ol_obligations (write_ob_ordinals now n kind ids ol)) = map clear_ob (ol_obligations ol)"
    by (simp add: write_ob_ordinals_def ob.renum_keeps clear_ob_def touch_ob_def place_ob_def)
  then show ?thesis by (metis contents_def set_map)
qed

lemma order_ordinals:
  assumes "distinct ids" "distinct (map ob_id (ol_obligations ol))" "set ids = ob_id ` {r \<in> set (ol_obligations ol). ob_group r = (n, kind)}"
  shows "ob_order (write_ob_ordinals now n kind ids ol) = (ob_order ol)((n, kind) := ids)"
  using ob.group_ids_renum[OF assms] by (auto simp: ob_order_def write_ob_ordinals_def fun_eq_iff)

lemma order_set: "set (ob_order ol g) = ob_id ` {r \<in> set (ol_obligations ol). ob_group r = g}"
  by (simp add: ob_order_def ob.group_ids_set)

lemma order_distinct: "ob_dense ol \<Longrightarrow> distinct (ob_order ol g)"
  unfolding ob_order_def by (rule ob.group_ids_distinct) (rule ob.dense_ids)

lemma ids_contents: "ob_id ` set (ol_obligations ol) = ob_id ` contents ol"
  by (auto simp: contents_def image_image)

lemma order_append:
  "ob_group row \<noteq> g \<Longrightarrow> group_ids ob_id ob_group ob_ordinal g (rows @ [row]) = group_ids ob_id ob_group ob_ordinal g rows"
  by (simp add: group_ids_def)

text \<open>An obligation put in at an index.\<close>

lemma view_insert_at:
  assumes "ob_dense ol" "insert_obligation_at now i n kind index section body phase ol = Inr ol'"
  shows "i \<notin> ob_id ` set (ol_obligations ol)"
    and "contents ol' = insert \<lparr>ob_id = i, ob_node = n, ob_kind = kind, ob_ordinal = 0, ob_section = section, ob_body = body,
        ob_phase = phase, ob_acts_in = ACTS_IN_ACTIVE, ob_visual = None, ob_updated = 0\<rparr> (contents ol)"
    and "ob_order ol' = (ob_order ol)((n, kind) := insert_nth (min index (length (ob_order ol (n, kind)))) i (ob_order ol (n, kind)))"
proof -
  define row where "row = \<lparr>ob_id = i, ob_node = n, ob_kind = kind, ob_ordinal = 10000 + int (length (ob_order ol (n, kind))),
                 ob_section = section, ob_body = body, ob_phase = phase, ob_acts_in = ACTS_IN_ACTIVE,
                 ob_visual = None, ob_updated = now\<rparr>"
  let ?ol = "ol\<lparr>ol_obligations := ol_obligations ol @ [row]\<rparr>"
  let ?ids = "insert_nth (min index (length (ob_order ol (n, kind)))) i (ob_order ol (n, kind))"
  have fresh: "i \<notin> ob_id ` set (ol_obligations ol)" and ol': "ol' = write_ob_ordinals now n kind ?ids ?ol"
    using assms(2)
    by (auto simp: insert_obligation_at_def insert_obligation_def Let_def order_ids row_def split: if_splits)
  have row: "ob_id row = i" "ob_group row = (n, kind)" by (simp_all add: row_def ob_group_def)
  show "i \<notin> ob_id ` set (ol_obligations ol)" by (rule fresh)
  show "contents ol' = insert \<lparr>ob_id = i, ob_node = n, ob_kind = kind, ob_ordinal = 0, ob_section = section, ob_body = body,
        ob_phase = phase, ob_acts_in = ACTS_IN_ACTIVE, ob_visual = None, ob_updated = 0\<rparr> (contents ol)"
    unfolding ol' contents_ordinals by (simp add: contents_def clear_ob_def row_def)
  have "ob_order ol' = (ob_order ?ol)((n, kind) := ?ids)"
    unfolding ol'
  proof (rule order_ordinals)
    show "distinct ?ids" using fresh order_distinct[OF assms(1)] by (auto simp: order_set)
    show "distinct (map ob_id (ol_obligations ?ol))" using fresh ob.dense_ids[OF assms(1)] row by auto
    have "{r \<in> set (ol_obligations ?ol). ob_group r = (n, kind)} = insert row {r \<in> set (ol_obligations ol). ob_group r = (n, kind)}"
      using row by auto
    then show "set ?ids = ob_id ` {r \<in> set (ol_obligations ?ol). ob_group r = (n, kind)}"
      using row by (simp add: order_set)
  qed
  moreover have "ob_order ?ol g = ob_order ol g" if "g \<noteq> (n, kind)" for g
    using order_append[of row g "ol_obligations ol"] row that by (simp add: ob_order_def)
  ultimately show "ob_order ol' = (ob_order ol)((n, kind) := ?ids)" by (auto simp: fun_eq_iff)
qed

text \<open>One taken out.\<close>

lemma contents_delete_row [simp]: "contents (delete_obligation_row i ol) = {c \<in> contents ol. ob_id c \<noteq> i}"
  by (auto simp: contents_def)

lemma order_delete_row:
  "ob_dense ol \<Longrightarrow> ob_order (delete_obligation_row i ol) g = filter (\<lambda>k. k \<noteq> i) (ob_order ol g)"
  by (simp add: ob_order_def ob.group_ids_delete[OF ob.dense_ids])

lemma order_delete_renumbered:
  assumes "ob_dense ol"
  shows "ob_order (write_ob_ordinals now n kind (ob_order (delete_obligation_row i ol) (n, kind)) (delete_obligation_row i ol)) g
       = filter (\<lambda>k. k \<noteq> i) (ob_order ol g)"
proof -
  let ?d = "delete_obligation_row i ol"
  have dist: "distinct (map ob_id (ol_obligations ?d))" using ob.dense_ids[OF assms] by (simp add: distinct_map_filter)
  have "distinct (ob_order ?d (n, kind))" unfolding ob_order_def by (rule ob.group_ids_distinct[OF dist])
  then have "ob_order (write_ob_ordinals now n kind (ob_order ?d (n, kind)) ?d) = ob_order ?d"
    using order_ordinals[OF _ dist, of "ob_order ?d (n, kind)" n kind now] by (simp add: order_set)
  then show ?thesis by (simp add: order_delete_row[OF assms])
qed

lemma not_in_order: "i \<notin> ob_id ` set (ol_obligations ol) \<Longrightarrow> filter (\<lambda>k. k \<noteq> i) (ob_order ol g) = ob_order ol g"
  by (rule filter_True) (auto simp: order_set)

lemma view_delete:
  assumes "ob_dense ol"
  shows "contents (snd (delete_obligation now i ol)) = {c \<in> contents ol. ob_id c \<noteq> i}"
    and "ob_order (snd (delete_obligation now i ol)) = (\<lambda>g. filter (\<lambda>k. k \<noteq> i) (ob_order ol g))"
proof -
  have "contents (snd (delete_obligation now i ol)) = {c \<in> contents ol. ob_id c \<noteq> i}
      \<and> (\<forall>g. ob_order (snd (delete_obligation now i ol)) g = filter (\<lambda>k. k \<noteq> i) (ob_order ol g))"
  proof (cases "get_obligation i ol")
    case None
    then have fresh: "i \<notin> ob_id ` set (ol_obligations ol)" by (auto simp: get_obligation_def find_None_iff)
    then have "i \<notin> ob_id ` contents ol" by (simp add: ids_contents)
    then show ?thesis using None not_in_order[OF fresh] by (auto simp: delete_obligation_def)
  next
    case (Some row)
    then show ?thesis by (simp add: delete_obligation_def Let_def order_ids order_delete_renumbered[OF assms])
  qed
  then show "contents (snd (delete_obligation now i ol)) = {c \<in> contents ol. ob_id c \<noteq> i}"
    and "ob_order (snd (delete_obligation now i ol)) = (\<lambda>g. filter (\<lambda>k. k \<noteq> i) (ob_order ol g))"
    by auto
qed

text \<open>A field written.\<close>

lemma view_map:
  assumes "map_obligation i f ol = Inr ol'"
    and "\<And>r. ob_id (f r) = ob_id r" "\<And>r. ob_group (f r) = ob_group r" "\<And>r. ob_ordinal (f r) = ob_ordinal r"
    and "\<And>r. clear_ob (f r) = h (clear_ob r)"
  shows "contents ol' = (\<lambda>c. if ob_id c = i then h c else c) ` contents ol" and "ob_order ol' = ob_order ol"
proof -
  let ?F = "\<lambda>o'. if ob_id o' = i then f o' else o'"
  have ol': "ol_obligations ol' = map ?F (ol_obligations ol)"
    using assms(1) by (auto simp: map_obligation_def split: if_splits)
  show "contents ol' = (\<lambda>c. if ob_id c = i then h c else c) ` contents ol"
    unfolding contents_def ol' set_map image_image by (rule image_cong) (simp_all add: assms(5))
  show "ob_order ol' = ob_order ol"
  proof
    fix g
    have "sort_key ob_ordinal (map ?F xs) = map ?F (sort_key ob_ordinal xs)" for xs
    proof (induction xs)
      case (Cons x xs)
      have ins: "insort_key ob_ordinal (?F y) (map ?F ys) = map ?F (insort_key ob_ordinal y ys)" for y ys
        by (induction ys) (simp_all add: assms(4))
      show ?case by (simp only: sort_key_simps list.map Cons.IH ins)
    qed simp
    moreover have "filter (\<lambda>r. ob_group r = g) (map ?F xs) = map ?F (filter (\<lambda>r. ob_group r = g) xs)" for xs
      by (induction xs) (simp_all add: assms(3))
    ultimately show "ob_order ol' g = ob_order ol g"
      by (simp add: ob_order_def group_ids_def ol' assms(2) comp_def)
  qed
qed

text \<open>A row moved within its group, and to another node.\<close>

lemma row_in_order: "get_obligation i ol = Some row \<Longrightarrow> i \<in> set (ob_order ol (ob_group row))"
  using get_obligation_Some by (fastforce simp: order_set)

lemma view_place:
  assumes "ob_dense ol" "get_obligation i ol = Some row" "place_obligation now i index ol = Inr ol'"
  shows "contents ol' = contents ol"
    and "ob_order ol' = (let fl = filter (\<lambda>k. k \<noteq> i) (ob_order ol (ob_group row))
          in (ob_order ol)(ob_group row := insert_nth (min index (length fl)) i fl))"
proof -
  define fl where "fl = filter (\<lambda>k. k \<noteq> i) (ob_order ol (ob_group row))"
  have ol': "ol' = write_ob_ordinals now (ob_node row) (ob_kind row) (insert_nth (min index (length fl)) i fl) ol"
    using assms(2,3) by (simp add: place_obligation_def Let_def order_ids group_eq fl_def)
  show "contents ol' = contents ol" by (simp add: ol')
  have "distinct (insert_nth (min index (length fl)) i fl)"
    using order_distinct[OF assms(1)] by (simp add: fl_def)
  moreover have "set (insert_nth (min index (length fl)) i fl) = ob_id ` {r \<in> set (ol_obligations ol). ob_group r = (ob_node row, ob_kind row)}"
    using row_in_order[OF assms(2)] by (auto simp: fl_def group_eq simp flip: order_set)
  ultimately show "ob_order ol' = (let fl = filter (\<lambda>k. k \<noteq> i) (ob_order ol (ob_group row))
          in (ob_order ol)(ob_group row := insert_nth (min index (length fl)) i fl))"
    unfolding ol' using order_ordinals[OF _ ob.dense_ids[OF assms(1)]] by (simp add: fl_def group_eq Let_def)
qed

lemma put_back_at:
  assumes "distinct ids" "p < length ids" "ids ! p = i"
  shows "(let fl = filter (\<lambda>k. k \<noteq> i) ids in insert_nth (min p (length fl)) i fl) = ids"
proof -
  have cut: "ids = take p ids @ i # drop (Suc p) ids" using id_take_nth_drop[OF assms(2)] assms(3) by simp
  have "i \<notin> set (take p ids)" "i \<notin> set (drop (Suc p) ids)"
    using assms(1) by (subst (asm) cut, simp)+
  then have "filter (\<lambda>k. k \<noteq> i) (take p ids) = take p ids" "filter (\<lambda>k. k \<noteq> i) (drop (Suc p) ids) = drop (Suc p) ids"
    by (metis (mono_tags, lifting) filter_True)+
  then have fl: "filter (\<lambda>k. k \<noteq> i) ids = take p ids @ drop (Suc p) ids"
    by (subst cut) simp
  show ?thesis
    unfolding Let_def fl insert_nth_def using assms(2) cut by simp
qed

lemma filter_swap_next:
  assumes "Suc p < length ids" "ids ! p = i \<or> ids ! Suc p = i"
  shows "filter (\<lambda>k. k \<noteq> i) (ids[p := ids ! Suc p, Suc p := ids ! p]) = filter (\<lambda>k. k \<noteq> i) ids"
proof -
  have cut: "ids = take p ids @ ids ! p # ids ! Suc p # drop (Suc (Suc p)) ids"
    using assms(1) by (metis Cons_nth_drop_Suc Suc_lessD id_take_nth_drop)
  have "ids[p := ids ! Suc p, Suc p := ids ! p] = take p ids @ ids ! Suc p # ids ! p # drop (Suc (Suc p)) ids"
    using assms(1) by (subst cut) (simp add: list_update_append)
  then show ?thesis by (subst (2) cut) (use assms(2) in auto)
qed

lemma filter_swap_nth:
  assumes "p < length ids" "ids ! p = i" "0 \<le> int p + direction_delta dir" "int p + direction_delta dir < int (length ids)"
  shows "filter (\<lambda>k. k \<noteq> i) (swap_nth p (nat (int p + direction_delta dir)) ids) = filter (\<lambda>k. k \<noteq> i) ids"
proof (cases dir)
  case Up
  then have p: "0 < p" "nat (int p + direction_delta dir) = p - 1" using assms(3) by (auto simp: direction_delta_def)
  have "ids[p := ids ! (p - 1), p - 1 := ids ! p] = ids[p - 1 := ids ! p, p := ids ! (p - 1)]"
    using p by (simp add: list_update_swap)
  then show ?thesis using filter_swap_next[of "p - 1" ids i] assms(1,2) p by (simp add: swap_nth_def)
next
  case Down
  then have "nat (int p + direction_delta dir) = Suc p" by (simp add: direction_delta_def)
  then show ?thesis using filter_swap_next[of p ids i] assms Down by (simp add: swap_nth_def direction_delta_def)
qed

lemma view_reorder:
  assumes "ob_dense ol" "get_obligation i ol = Some row" "reorder_obligation now i (direction_delta dir) ol = Inr ol'"
  shows "contents ol' = contents ol"
    and "\<exists>ids. ob_order ol' = (ob_order ol)(ob_group row := ids)
        \<and> filter (\<lambda>k. k \<noteq> i) ids = filter (\<lambda>k. k \<noteq> i) (ob_order ol (ob_group row))"
proof -
  let ?ids = "ob_order ol (ob_group row)"
  have same: "ob_order ol = (ob_order ol)(ob_group row := ?ids)" by simp
  have "contents ol' = contents ol \<and> (\<exists>ids. ob_order ol' = (ob_order ol)(ob_group row := ids)
        \<and> filter (\<lambda>k. k \<noteq> i) ids = filter (\<lambda>k. k \<noteq> i) ?ids)"
  proof (cases "pos_in ?ids i")
    case None
    then have "ol' = ol" using assms(2,3) by (simp add: reorder_obligation_def Let_def order_ids group_eq)
    then show ?thesis using same by metis
  next
    case (Some pos)
    note p = pos_in_Some[OF Some]
    show ?thesis
    proof (cases "int pos + direction_delta dir < 0 \<or> int (length ?ids) \<le> int pos + direction_delta dir")
      case True
      then have "ol' = ol" using assms(2,3) Some by (simp add: reorder_obligation_def Let_def order_ids group_eq)
      then show ?thesis using same by metis
    next
      case False
      let ?new = "swap_nth pos (nat (int pos + direction_delta dir)) ?ids"
      have ol': "ol' = write_ob_ordinals now (ob_node row) (ob_kind row) ?new ol"
        using assms(2,3) Some False by (simp add: reorder_obligation_def Let_def order_ids group_eq)
      have lt: "pos < length ?ids" "nat (int pos + direction_delta dir) < length ?ids" using p False by auto
      have "ob_order ol' = (ob_order ol)(ob_group row := ?new)"
        unfolding ol' using order_ordinals[OF _ ob.dense_ids[OF assms(1)], of ?new "ob_node row" "ob_kind row" now]
          lt order_distinct[OF assms(1)] by (simp add: group_eq order_set)
      moreover have "filter (\<lambda>k. k \<noteq> i) ?new = filter (\<lambda>k. k \<noteq> i) ?ids"
        by (rule filter_swap_nth) (use p False in auto)
      ultimately show ?thesis using ol' by auto
    qed
  qed
  then show "contents ol' = contents ol"
    and "\<exists>ids. ob_order ol' = (ob_order ol)(ob_group row := ids) \<and> filter (\<lambda>k. k \<noteq> i) ids = filter (\<lambda>k. k \<noteq> i) ?ids"
    by auto
qed

lemma order_append_last:
  assumes "ob_dense ol" "ob_ordinal row = int (length (ob_order ol (ob_group row))) + 1"
  shows "group_ids ob_id ob_group ob_ordinal g (ol_obligations ol @ [row])
     = (if g = ob_group row then ob_order ol g @ [ob_id row] else ob_order ol g)"
proof (cases "g = ob_group row")
  case True
  have "ob_ordinal r \<le> ob_ordinal row" if r: "r \<in> set (filter (\<lambda>r. ob_group r = g) (ol_obligations ol))" for r
  proof -
    have "r \<in> set (ol_obligations ol)" using r by simp
    then obtain p where "p < length (group_ids ob_id ob_group ob_ordinal (ob_group r) (ol_obligations ol))" "ob_ordinal r = int p + 1"
      using ob.dense_ord[OF assms(1)] by metis
    then show ?thesis using assms(2) r True by (simp add: ob_order_def)
  qed
  then have "sort_key ob_ordinal (filter (\<lambda>r. ob_group r = g) (ol_obligations ol) @ [row])
      = sort_key ob_ordinal (filter (\<lambda>r. ob_group r = g) (ol_obligations ol)) @ [row]"
    by (rule ob.sort_key_snoc_greatest)
  then show ?thesis by (simp add: True group_ids_def ob_order_def)
next
  case False
  then show ?thesis using order_append[of row g] by (simp add: ob_order_def)
qed

lemma view_move:
  assumes "ob_dense ol" "get_obligation i ol = Some row" "ob_node row \<noteq> n" "move_to_node now i n ol = Inr ol'"
  shows "contents ol' = insert (clear_ob row\<lparr>ob_node := n\<rparr>) {c \<in> contents ol. ob_id c \<noteq> i}"
    and "ob_order ol' = (\<lambda>g. let fl = filter (\<lambda>k. k \<noteq> i) (ob_order ol g) in if g = (n, ob_kind row) then fl @ [i] else fl)"
proof -
  let ?d = "delete_obligation_row i ol"
  let ?ol2 = "write_ob_ordinals now (ob_node row) (ob_kind row) (ob_order ?d (ob_group row)) ?d"
  have order2: "ob_order ?ol2 g = filter (\<lambda>k. k \<noteq> i) (ob_order ol g)" for g
    using order_delete_renumbered[OF assms(1), of now "ob_node row" "ob_kind row" i] by (simp add: group_eq)
  define r where "r = row\<lparr>ob_node := n, ob_ordinal := int (length (ob_order ?ol2 (n, ob_kind row))) + 1\<rparr>"
  have id: "ob_id row = i" using get_obligation_Some[OF assms(2)] by simp
  have r: "ob_id r = i" "ob_group r = (n, ob_kind row)" by (simp_all add: r_def ob_group_def id)
  have dense2: "ob_dense ?ol2" using dense_delete_renumber[OF assms(1,2)] by (simp add: order_ids group_eq)
  have ins: "insert_obligation now r ?ol2 = Inr ol'"
    using assms(2,3,4) by (simp add: move_to_node_def Let_def order_ids group_eq r_def)
  then have rows: "ol_obligations ol' = ol_obligations ?ol2 @ [r\<lparr>ob_updated := now\<rparr>]"
    by (auto simp: insert_obligation_def split: if_splits)
  have "contents ol' = insert (clear_ob r) (contents ?ol2)"
    unfolding contents_def rows by (auto simp: clear_ob_def)
  then show "contents ol' = insert (clear_ob row\<lparr>ob_node := n\<rparr>) {c \<in> contents ol. ob_id c \<noteq> i}"
    by (cases row) (simp add: r_def clear_ob_def)
  have "group_ids ob_id ob_group ob_ordinal g (ol_obligations ?ol2 @ [r\<lparr>ob_updated := now\<rparr>])
     = (if g = (n, ob_kind row) then ob_order ?ol2 g @ [i] else ob_order ?ol2 g)" for g
    using order_append_last[OF dense2, of "r\<lparr>ob_updated := now\<rparr>" g] r by (simp add: r_def ob_group_def)
  then show "ob_order ol' = (\<lambda>g. let fl = filter (\<lambda>k. k \<noteq> i) (ob_order ol g) in if g = (n, ob_kind row) then fl @ [i] else fl)"
    unfolding fun_eq_iff ob_order_def[of ol'] rows by (simp add: order2 Let_def)
qed

section \<open>Undoing a change to the obligations\<close>

lemma same_rows_view:
  "ol_obligations a = ol_obligations b \<Longrightarrow> contents a = contents b \<and> ob_order a = ob_order b \<and> ob_table a = ob_table b"
  by (auto simp: contents_def ob_order_def ob_table_def)

lemma dense_ordinal_bound:
  assumes "ob_dense ol" "r \<in> set (ol_obligations ol)"
  shows "1 \<le> ob_ordinal r \<and> ob_ordinal r \<le> int (length (ob_order ol (ob_group r)))"
proof -
  obtain p where "p < length (group_ids ob_id ob_group ob_ordinal (ob_group r) (ol_obligations ol))" "ob_ordinal r = int p + 1"
    using ob.dense_ord[OF assms] by metis
  then show ?thesis by (simp add: ob_order_def)
qed

lemma insert_at_works:
  assumes "ob_dense ol" "i \<notin> ob_id ` set (ol_obligations ol)"
  obtains ol' where "insert_obligation_at now i n kind index section body phase ol = Inr ol'" "ob_dense ol'"
proof -
  have "ob_ordinal r \<noteq> 10000 + int (length (ob_order ol (n, kind)))"
    if "r \<in> set (ol_obligations ol)" "ob_group r = (n, kind)" for r
    using dense_ordinal_bound[OF assms(1) that(1)] that(2) by auto
  then have "\<exists>ol'. insert_obligation_at now i n kind index section body phase ol = Inr ol'"
    using assms(2) by (fastforce simp: insert_obligation_at_def insert_obligation_def Let_def order_ids ob_group_def list_ex_iff)
  then show ?thesis using that dense_insert_at[OF assms(1)] by blast
qed

text \<open>What put a row in is undone by taking it out.\<close>

lemma taken_out:
  assumes "ob_dense ol" "i \<notin> ob_id ` set (ol_obligations ol)" "ob_dense ol1"
    and "{c \<in> contents ol1. ob_id c \<noteq> i} = contents ol" "\<And>g. filter (\<lambda>k. k \<noteq> i) (ob_order ol1 g) = ob_order ol g"
  shows "ob_table (snd (delete_obligation now i ol1)) = ob_table ol"
  by (rule same_table[OF dense_delete_obligation[OF assms(3)] assms(1)])
    (simp_all add: view_delete[OF assms(3)] assms(4,5) fun_eq_iff)

lemma filter_insert_nth: "filter (\<lambda>k. k \<noteq> i) (insert_nth p i xs) = filter (\<lambda>k. k \<noteq> i) xs"
proof -
  have "filter P (take p xs) @ filter P (drop p xs) = filter P xs" for P
    by (metis append_take_drop_id filter_append)
  then show ?thesis by (simp add: insert_nth_def)
qed

lemma undo_insert:
  assumes "ob_dense ol" "insert_obligation_at now i n kind index section body phase ol = Inr ol1"
  shows "ob_table (snd (delete_obligation now' i ol1)) = ob_table ol"
proof (rule taken_out[OF assms(1) view_insert_at(1)[OF assms] dense_insert_at[OF assms]])
  have fresh: "i \<notin> ob_id ` contents ol" using view_insert_at(1)[OF assms] by (simp add: ids_contents)
  show "{c \<in> contents ol1. ob_id c \<noteq> i} = contents ol"
    unfolding view_insert_at(2)[OF assms] using fresh by auto
  show "filter (\<lambda>k. k \<noteq> i) (ob_order ol1 g) = ob_order ol g" for g
    unfolding view_insert_at(3)[OF assms] using not_in_order[OF view_insert_at(1)[OF assms]]
    by (auto simp: filter_insert_nth)
qed

text \<open>A field written over is undone by writing the old value.\<close>

lemma undo_map:
  assumes "ob_dense ol" "map_obligation i f ol = Inr ol0" "ol_obligations ol1 = ol_obligations ol0"
    and f: "\<And>r. ob_id (f r) = ob_id r" "\<And>r. ob_group (f r) = ob_group r" "\<And>r. ob_ordinal (f r) = ob_ordinal r"
      "\<And>r. clear_ob (f r) = h (clear_ob r)"
    and g: "\<And>r. ob_id (g r) = ob_id r" "\<And>r. ob_group (g r) = ob_group r" "\<And>r. ob_ordinal (g r) = ob_ordinal r"
      "\<And>r. clear_ob (g r) = h' (clear_ob r)"
    and restores: "\<And>r. r \<in> set (ol_obligations ol) \<Longrightarrow> ob_id r = i \<Longrightarrow> h' (h (clear_ob r)) = clear_ob r"
  obtains ol2 where "map_obligation i g ol1 = Inr ol2" "ob_table ol2 = ob_table ol" "ob_dense ol2"
proof -
  have has: "list_ex (\<lambda>o'. ob_id o' = i) (ol_obligations ol)" and ol0: "ol_obligations ol0 = map (\<lambda>o'. if ob_id o' = i then f o' else o') (ol_obligations ol)"
    using assms(2) by (auto simp: map_obligation_def split: if_splits)
  have "list_ex (\<lambda>o'. ob_id o' = i) (ol_obligations ol1)" using has f(1) by (auto simp: assms(3) ol0 list_ex_iff)
  then obtain ol2 where ol2: "map_obligation i g ol1 = Inr ol2" by (simp add: map_obligation_def)
  have d0: "ob_dense ol0" by (rule dense_map_obligation[OF assms(1,2) f(1-3)])
  then have d1: "ob_dense ol1" by (simp add: assms(3))
  have d2: "ob_dense ol2" by (rule dense_map_obligation[OF d1 ol2 g(1-3)])
  note v1 = view_map[OF assms(2) f] and v2 = view_map[OF ol2 g]
  have id_h: "ob_id (h (clear_ob r)) = ob_id r" for r using f(1,4) by (metis clear_ob_simps(1))
  have c1: "contents ol1 = contents ol0" "ob_order ol1 = ob_order ol0" using same_rows_view[OF assms(3)] by auto
  have "contents ol2 = contents ol"
    unfolding v2(1) c1 v1(1) image_image
  proof -
    have "(if ob_id (if ob_id c = i then h c else c) = i then h' (if ob_id c = i then h c else c) else if ob_id c = i then h c else c) = c"
      if "c \<in> contents ol" for c
      using that restores id_h by (auto simp: contents_def)
    then show "(\<lambda>x. if ob_id (if ob_id x = i then h x else x) = i then h' (if ob_id x = i then h x else x) else if ob_id x = i then h x else x) ` contents ol
        = contents ol" by (simp cong: image_cong)
  qed
  moreover have "ob_order ol2 = ob_order ol" by (simp add: v2(2) c1 v1(2))
  ultimately show ?thesis using that ol2 same_table[OF d2 assms(1)] d2 by blast
qed

text \<open>A row taken out is put back by its snapshot.\<close>

lemma row_back_in_order:
  assumes "ob_dense ol" "row \<in> set (ol_obligations ol)"
  defines "ids \<equiv> ob_order ol (ob_group row)"
  shows "(let fl = filter (\<lambda>k. k \<noteq> ob_id row) ids in insert_nth (min (index_from_ordinal (ob_ordinal row)) (length fl)) (ob_id row) fl) = ids"
proof -
  obtain p where p: "p < length ids" "ids ! p = ob_id row" "ob_ordinal row = int p + 1"
    using ob.dense_ord[OF assms(1,2)] unfolding ids_def ob_order_def by metis
  have "index_from_ordinal (ob_ordinal row) = p" by (simp add: index_from_ordinal_def p(3))
  then show ?thesis using put_back_at[OF order_distinct[OF assms(1)] p(1)[unfolded ids_def] p(2)[unfolded ids_def]] by (simp add: ids_def)
qed

lemma undo_delete:
  assumes "ob_dense ol" "get_obligation i ol = Some row" "ol1 = snd (delete_obligation now i ol)"
  obtains ol2 ol3 ol4 where
    "insert_obligation_at now' i (ob_node row) (ob_kind row) (index_from_ordinal (ob_ordinal row)) (ob_section row) (ob_body row) (ob_phase row) ol1 = Inr ol2"
    "update_acts_in now' i (ob_acts_in row) ol2 = Inr ol3" "ob_visual row = None \<Longrightarrow> ob_table ol3 = ob_table ol"
    "update_visual_design_path now' i (ob_visual row) ol3 = Inr ol4" "ob_table ol4 = ob_table ol"
proof -
  have row: "row \<in> set (ol_obligations ol)" "ob_id row = i" using get_obligation_Some[OF assms(2)] by auto
  have d1: "ob_dense ol1" unfolding assms(3) by (rule dense_delete_obligation[OF assms(1)])
  note v1 = view_delete[OF assms(1), of now i, folded assms(3)]
  have "i \<notin> ob_id ` contents ol1" by (auto simp: v1)
  then have fresh: "i \<notin> ob_id ` set (ol_obligations ol1)" by (simp add: ids_contents)
  obtain ol2 where ol2: "insert_obligation_at now' i (ob_node row) (ob_kind row) (index_from_ordinal (ob_ordinal row)) (ob_section row) (ob_body row) (ob_phase row) ol1 = Inr ol2"
    and d2: "ob_dense ol2" using insert_at_works[OF d1 fresh] by metis
  note v2 = view_insert_at[OF d1 ol2]
  have "i \<in> ob_id ` contents ol2" by (force simp: v2(2))
  then have has2: "list_ex (\<lambda>o'. ob_id o' = i) (ol_obligations ol2)" by (auto simp: list_ex_iff simp flip: ids_contents)
  then obtain ol3 where ol3: "update_acts_in now' i (ob_acts_in row) ol2 = Inr ol3"
    by (simp add: update_acts_in_def map_obligation_def)
  have v3: "contents ol3 = (\<lambda>c. if ob_id c = i then c\<lparr>ob_acts_in := ob_acts_in row\<rparr> else c) ` contents ol2" "ob_order ol3 = ob_order ol2"
    by (rule view_map[OF ol3[unfolded update_acts_in_def], where h = "\<lambda>c. c\<lparr>ob_acts_in := ob_acts_in row\<rparr>"]; simp add: clear_ob_def)+
  have "ob_id ` contents ol3 = ob_id ` contents ol2"
    unfolding v3(1) image_image by (rule image_cong) simp_all
  then have "i \<in> ob_id ` contents ol3" using \<open>i \<in> ob_id ` contents ol2\<close> by simp
  then have "list_ex (\<lambda>o'. ob_id o' = i) (ol_obligations ol3)" by (auto simp: list_ex_iff simp flip: ids_contents)
  then obtain ol4 where ol4: "update_visual_design_path now' i (ob_visual row) ol3 = Inr ol4"
    by (simp add: update_visual_design_path_def map_obligation_def)
  have v4: "contents ol4 = (\<lambda>c. if ob_id c = i then c\<lparr>ob_visual := ob_visual row\<rparr> else c) ` contents ol3" "ob_order ol4 = ob_order ol3"
    by (rule view_map[OF ol4[unfolded update_visual_design_path_def], where h = "\<lambda>c. c\<lparr>ob_visual := ob_visual row\<rparr>"]; simp add: clear_ob_def)+
  have d3: "ob_dense ol3" and d4: "ob_dense ol4" using dense_update_field d2 ol3 ol4 by blast+
  have only: "clear_ob row = c" if "c \<in> contents ol" "ob_id c = i" for c
  proof -
    obtain r where r: "r \<in> set (ol_obligations ol)" "c = clear_ob r" using \<open>c \<in> contents ol\<close> by (auto simp: contents_def)
    then have "ob_id r = ob_id row" using that(2) row(2) by simp
    then have "r = row" using r(1) row(1) ob.dense_ids[OF assms(1)] by (simp add: distinct_map inj_on_def)
    then show ?thesis by (simp add: r)
  qed
  have all: "contents ol = insert (clear_ob row) {c \<in> contents ol. ob_id c \<noteq> i}"
  proof (intro set_eqI iffI)
    fix c assume c: "c \<in> contents ol"
    show "c \<in> insert (clear_ob row) {c \<in> contents ol. ob_id c \<noteq> i}"
      using only[OF c] c by (cases "ob_id c = i") simp_all
  qed (use row(1) in \<open>auto simp: contents_def\<close>)
  let ?r2 = "\<lparr>ob_id = i, ob_node = ob_node row, ob_kind = ob_kind row, ob_ordinal = 0, ob_section = ob_section row, ob_body = ob_body row,
        ob_phase = ob_phase row, ob_acts_in = ACTS_IN_ACTIVE, ob_visual = None, ob_updated = 0\<rparr>"
  have c3: "contents ol3 = insert (?r2\<lparr>ob_acts_in := ob_acts_in row\<rparr>) {c \<in> contents ol. ob_id c \<noteq> i}"
    unfolding v3(1) v2(2) v1(1) by (auto simp: image_iff)
  have c4: "contents ol4 = insert (?r2\<lparr>ob_acts_in := ob_acts_in row, ob_visual := ob_visual row\<rparr>) {c \<in> contents ol. ob_id c \<noteq> i}"
    unfolding v4(1) c3 by (auto simp: image_iff)
  have "?r2\<lparr>ob_acts_in := ob_acts_in row, ob_visual := ob_visual row\<rparr> = clear_ob row"
    using row(2) by (cases row) (simp add: clear_ob_def)
  then have same4: "contents ol4 = contents ol" using c4 all by simp
  have "?r2\<lparr>ob_acts_in := ob_acts_in row\<rparr> = clear_ob row" if "ob_visual row = None"
    using row(2) that by (cases row) (simp add: clear_ob_def)
  then have same3: "contents ol3 = contents ol" if "ob_visual row = None" using c3 all that by simp
  have ord: "ob_order ol2 = ob_order ol"
  proof
    fix g
    show "ob_order ol2 g = ob_order ol g"
    proof (cases "g = ob_group row")
      case True
      then show ?thesis
        using row_back_in_order[OF assms(1) row(1)] by (simp add: v2(3) v1(2) group_eq row(2) Let_def)
    next
      case False
      then have "i \<notin> set (ob_order ol g)"
        using row ob.dense_ids[OF assms(1)] by (auto simp: order_set distinct_map inj_on_def)
      then have "filter (\<lambda>k. k \<noteq> i) (ob_order ol g) = ob_order ol g" by (metis (mono_tags, lifting) filter_True)
      then show ?thesis using False by (simp add: v2(3) v1(2) group_eq)
    qed
  qed
  have o3: "ob_order ol3 = ob_order ol" and o4: "ob_order ol4 = ob_order ol" by (simp_all add: v3(2) v4(2) ord)
  show ?thesis
    by (rule that[OF ol2 ol3 _ ol4 same_table[OF d4 assms(1) same4 o4]]) (rule same_table[OF d3 assms(1) same3 o3])
qed

text \<open>A row moved is put back in its place.\<close>

lemma undo_within:
  assumes "ob_dense ol" "ob_dense ol1" "get_obligation i ol = Some row" "contents ol1 = contents ol"
    and "ob_order ol1 = (ob_order ol)(ob_group row := ids)" "filter (\<lambda>k. k \<noteq> i) ids = filter (\<lambda>k. k \<noteq> i) (ob_order ol (ob_group row))"
  obtains row1 ol2 where "get_obligation i ol1 = Some row1" "ob_node row1 = ob_node row"
    "place_obligation now i (index_from_ordinal (ob_ordinal row)) ol1 = Inr ol2" "ob_table ol2 = ob_table ol"
proof -
  have row: "row \<in> set (ol_obligations ol)" "ob_id row = i" using get_obligation_Some[OF assms(3)] by auto
  have "clear_ob row \<in> contents ol1" using row(1) assms(4) by (auto simp: contents_def)
  then obtain r where r: "r \<in> set (ol_obligations ol1)" "clear_ob r = clear_ob row" by (auto simp: contents_def)
  have sel: "ob_id r = i" "ob_group r = ob_group row" "ob_node r = ob_node row" using r(2) row(2) by (metis clear_ob_simps)+
  have "get_obligation i ol1 \<noteq> None" using r(1) sel(1) by (auto simp: get_obligation_def find_None_iff)
  then obtain row1 where row1: "get_obligation i ol1 = Some row1" by auto
  have "row1 \<in> set (ol_obligations ol1)" "ob_id row1 = ob_id r" using get_obligation_Some[OF row1] sel(1) by auto
  then have "row1 = r" using r(1) ob.dense_ids[OF assms(2)] by (simp add: distinct_map inj_on_def)
  then have g1: "ob_group row1 = ob_group row" "ob_node row1 = ob_node row" using sel by auto
  obtain ol2 where ol2: "place_obligation now i (index_from_ordinal (ob_ordinal row)) ol1 = Inr ol2"
    using row1 by (simp add: place_obligation_def Let_def)
  note v2 = view_place[OF assms(2) row1 ol2]
  have "ob_order ol2 = ob_order ol"
    using row_back_in_order[OF assms(1) row(1)] assms(6) by (simp add: v2(2) g1 assms(5) row(2) Let_def)
  then have "ob_table ol2 = ob_table ol"
    using same_table[OF dense_place_obligation[OF assms(2) ol2] assms(1)] by (simp add: v2(1) assms(4))
  then show ?thesis using that row1 g1 ol2 by blast
qed

text \<open>A row moved to another node: moving it back puts it last, and placing it puts it where it was.\<close>

lemma move_works:
  assumes "ob_dense ol" "get_obligation i ol = Some row"
  obtains ol' where "move_to_node now i n ol = Inr ol'" "ob_dense ol'"
proof (cases "ob_node row = n")
  case True
  then show ?thesis using that[of ol] assms by (simp add: move_to_node_def)
next
  case False
  let ?d = "delete_obligation_row i ol"
  let ?ol2 = "write_ob_ordinals now (ob_node row) (ob_kind row) (ob_order ?d (ob_group row)) ?d"
  define r where "r = row\<lparr>ob_node := n, ob_ordinal := int (length (ob_order ?ol2 (n, ob_kind row))) + 1\<rparr>"
  have id: "ob_id r = i" "ob_group r = (n, ob_kind row)"
    using get_obligation_Some[OF assms(2)] by (simp_all add: r_def ob_group_def)
  have dense2: "ob_dense ?ol2" using dense_delete_renumber[OF assms] by (simp add: order_ids group_eq)
  have "i \<notin> ob_id ` contents ?ol2" by auto
  then have fresh: "i \<notin> ob_id ` set (ol_obligations ?ol2)" by (simp only: ids_contents not_False_eq_True)
  have "ob_ordinal x \<noteq> ob_ordinal r" if "x \<in> set (ol_obligations ?ol2)" "ob_group x = ob_group r" for x
    using dense_ordinal_bound[OF dense2 that(1)] that(2) id(2) by (simp add: r_def)
  then have "insert_obligation now r ?ol2 = Inr (?ol2\<lparr>ol_obligations := ol_obligations ?ol2 @ [r\<lparr>ob_updated := now\<rparr>]\<rparr>)"
    using fresh id(1) by (auto simp: insert_obligation_def list_ex_iff)
  then have "\<exists>ol'. move_to_node now i n ol = Inr ol'"
    using assms(2) False by (simp add: move_to_node_def Let_def order_ids group_eq r_def)
  then show ?thesis using that dense_move[OF assms(1)] by blast
qed

lemma undo_move:
  assumes "ob_dense ol" "get_obligation i ol = Some row" "ob_node row \<noteq> n" "ob_dense ol1"
    and c1: "contents ol1 = insert (clear_ob row\<lparr>ob_node := n\<rparr>) {c \<in> contents ol. ob_id c \<noteq> i}"
    and o1: "\<And>g. filter (\<lambda>k. k \<noteq> i) (ob_order ol1 g) = filter (\<lambda>k. k \<noteq> i) (ob_order ol g)"
  obtains row1 ol2 ol3 where "get_obligation i ol1 = Some row1" "ob_node row1 = n"
    "move_to_node now i (ob_node row) ol1 = Inr ol2"
    "place_obligation now i (index_from_ordinal (ob_ordinal row)) ol2 = Inr ol3" "ob_table ol3 = ob_table ol"
proof -
  have row: "row \<in> set (ol_obligations ol)" "ob_id row = i" using get_obligation_Some[OF assms(2)] by auto
  have "clear_ob row\<lparr>ob_node := n\<rparr> \<in> contents ol1" by (simp add: c1)
  then obtain r where r: "r \<in> set (ol_obligations ol1)" "clear_ob r = clear_ob row\<lparr>ob_node := n\<rparr>" by (auto simp: contents_def)
  have sel: "ob_id r = i" "ob_node r = n" "ob_kind r = ob_kind row"
    using arg_cong[OF r(2), of ob_id] arg_cong[OF r(2), of ob_node] arg_cong[OF r(2), of ob_kind] row(2) by simp_all
  have "get_obligation i ol1 \<noteq> None" using r(1) sel(1) by (auto simp: get_obligation_def find_None_iff)
  then obtain row1 where row1: "get_obligation i ol1 = Some row1" by auto
  have "row1 \<in> set (ol_obligations ol1)" "ob_id row1 = ob_id r" using get_obligation_Some[OF row1] sel(1) by auto
  then have same: "row1 = r" using r(1) ob.dense_ids[OF assms(4)] by (simp add: distinct_map inj_on_def)
  obtain ol2 where ol2: "move_to_node now i (ob_node row) ol1 = Inr ol2" and d2: "ob_dense ol2"
    using move_works[OF assms(4) row1] by metis
  have away: "ob_node row1 \<noteq> ob_node row" using same sel(2) assms(3) by simp
  note v2 = view_move[OF assms(4) row1 away ol2]
  have all: "contents ol = insert (clear_ob row) {c \<in> contents ol. ob_id c \<noteq> i}"
  proof (intro set_eqI iffI)
    fix c assume c: "c \<in> contents ol"
    then obtain x where x: "x \<in> set (ol_obligations ol)" "c = clear_ob x" by (auto simp: contents_def)
    have "x = row" if "ob_id c = i"
      using x row that ob.dense_ids[OF assms(1)] by (simp add: distinct_map inj_on_def)
    then show "c \<in> insert (clear_ob row) {c \<in> contents ol. ob_id c \<noteq> i}" using c x(2) by auto
  qed (use row(1) in \<open>auto simp: contents_def\<close>)
  have home: "clear_ob row1\<lparr>ob_node := ob_node row\<rparr> = clear_ob row"
    unfolding same r(2) by (cases row) (simp add: clear_ob_def)
  have cc: "contents ol2 = contents ol"
    by (subst all) (use v2(1) c1 home row(2) in auto)
  have kind: "ob_kind row1 = ob_kind row" using same sel(3) by simp
  have o2: "ob_order ol2 g = (let fl = filter (\<lambda>k. k \<noteq> i) (ob_order ol g) in if g = ob_group row then fl @ [i] else fl)" for g
    by (simp add: v2(2) o1 kind group_eq Let_def)
  have "ob_order ol g = filter (\<lambda>k. k \<noteq> i) (ob_order ol g)" if "g \<noteq> ob_group row" for g
  proof -
    have "i \<notin> set (ob_order ol g)"
      using that row ob.dense_ids[OF assms(1)] by (auto simp: order_set distinct_map inj_on_def)
    then show ?thesis by (metis (mono_tags, lifting) filter_True)
  qed
  then have "ob_order ol2 = (ob_order ol)(ob_group row := ob_order ol2 (ob_group row))"
    by (simp add: fun_eq_iff o2 Let_def)
  moreover have "filter (\<lambda>k. k \<noteq> i) (ob_order ol2 (ob_group row)) = filter (\<lambda>k. k \<noteq> i) (ob_order ol (ob_group row))"
    by (simp add: o2)
  ultimately obtain ol3 where "place_obligation now i (index_from_ordinal (ob_ordinal row)) ol2 = Inr ol3" "ob_table ol3 = ob_table ol"
    using undo_within[OF assms(1) d2 assms(2) cc] by metis
  then show ?thesis using that[OF row1 _ ol2] same sel(2) by blast
qed

subsection \<open>Through the mutations\<close>

text \<open>The obligations and the plan after an operation, and what no mutation here touches.\<close>

abbreviation outline_of :: "edit_db fallible \<Rightarrow> outline_db fallible" where
  "outline_of \<equiv> map_sum (\<lambda>e. e) ed_outline"

lemma outline_of_refs [simp]:
  "outline_of (on_refs (ref_insert_at now i n kind index section body phase) db)
     = insert_obligation_at now i n kind index section body phase (ed_outline db)"
  "outline_of (on_refs (ref_update_body now i body) db) = update_obligation_body now i body (ed_outline db)"
  "outline_of (on_refs (\<lambda>r. quiet_write (F (rb_outline r)) r) db) = F (ed_outline db)"
  "outline_of (on_refs (\<lambda>r. Inr (ref_delete now i r)) db) = Inr (snd (delete_obligation now i (ed_outline db)))"
  "outline_of (on_refs (ref_move now i n) db) = move_to_node now i n (ed_outline db)"
proof -
  show "outline_of (on_refs (ref_insert_at now i n kind index section body phase) db)
     = insert_obligation_at now i n kind index section body phase (ed_outline db)"
    by (simp add: on_refs_def ref_insert_at_def split: sum.split)
  show "outline_of (on_refs (ref_update_body now i body) db) = update_obligation_body now i body (ed_outline db)"
    by (simp add: on_refs_def ref_update_body_def on_obligation_body_def split: sum.split)
  show "outline_of (on_refs (\<lambda>r. quiet_write (F (rb_outline r)) r) db) = F (ed_outline db)"
    by (simp add: on_refs_def quiet_write_def split: sum.split)
  show "outline_of (on_refs (\<lambda>r. Inr (ref_delete now i r)) db) = Inr (snd (delete_obligation now i (ed_outline db)))"
    by (simp add: on_refs_def ref_delete_def on_obligation_delete_def)
  show "outline_of (on_refs (ref_move now i n) db) = move_to_node now i n (ed_outline db)"
    by (auto simp: on_refs_def ref_move_def move_to_node_def on_obligation_insert_def on_obligation_delete_def Let_def
        split: sum.split option.split)
qed

lemma outline_of_Inr: "outline_of x = Inr ol \<longleftrightarrow> (\<exists>db. x = Inr db \<and> ed_outline db = ol)"
  by (cases x) auto

definition around :: "edit_db \<Rightarrow> (uuid \<Rightarrow> capability list) \<times> uuid list \<times> node_rows" where
  "around db = (ed_caps db, ed_managed db, rb_nodes (ed_refs db))"

lemma around_refs:
  "on_refs (ref_insert_at now i n kind index section body phase) db = Inr db' \<Longrightarrow> around db' = around db"
  "on_refs (ref_update_body now i body) db = Inr db' \<Longrightarrow> around db' = around db"
  "on_refs (\<lambda>r. quiet_write (F (rb_outline r)) r) db = Inr db' \<Longrightarrow> around db' = around db"
  "on_refs (\<lambda>r. Inr (ref_delete now i r)) db = Inr db' \<Longrightarrow> around db' = around db"
  "on_refs (ref_move now i n) db = Inr db' \<Longrightarrow> around db' = around db"
  by (auto simp: on_refs_def ref_insert_at_def ref_update_body_def quiet_write_def ref_delete_def ref_move_def
      on_obligation_body_def on_obligation_delete_def on_obligation_insert_def around_def split: sum.splits option.splits if_splits)

lemma sync_one_keeps: "rb_outline (fold sync_one ds r) = rb_outline r \<and> rb_nodes (fold sync_one ds r) = rb_nodes r"
  by (induction ds arbitrary: r) auto

lemma sync_keeps [simp]:
  "rb_outline (sync_reference_edges r) = rb_outline r" "rb_nodes (sync_reference_edges r) = rb_nodes r"
  by (simp_all add: sync_reference_edges_def sync_one_keeps)

lemma outline_of_execute [simp]: "outline_of (execute now fresh m db) = outline_of (execute_rows now fresh m db)"
  by (simp add: execute_def ok_then_def split: sum.split)

lemma around_execute: "execute now fresh m db = Inr db' \<Longrightarrow> \<exists>db0. execute_rows now fresh m db = Inr db0 \<and> around db' = around db0"
  by (auto simp: execute_def ok_then_def around_def split: sum.splits)

text \<open>An obligation whose state now could be written by a mutation: the guards would pass it.\<close>

definition obligation_writable :: "uuid \<Rightarrow> edit_db \<Rightarrow> bool" where
  "obligation_writable i db =
     (case get_obligation i (ed_outline db) of
        None \<Rightarrow> True
      | Some o' \<Rightarrow>
          check_no_file_references (ob_body o') = Inr ()
          \<and> ob_phase o' \<in> set OBLIGATION_PHASES \<and> ob_acts_in o' \<in> set OBLIGATION_ACTS_IN
          \<and> (ob_kind o' = KIND_REQUIREMENT \<or> ob_kind o' = KIND_CONSTRAINT)
          \<and> opt_filter (\<lambda>s. s \<noteq> []) (map_option trim (ob_section o')) = ob_section o'
          \<and> CapSpec \<in> set (ed_caps db (ob_node o')) \<and> ob_node o' \<notin> set (ed_managed db)
          \<and> get_node (ob_node o') (rb_nodes (ed_refs db)) \<noteq> None)"

lemma writable_around:
  "around db1 = around db \<Longrightarrow> ed_caps db1 = ed_caps db \<and> ed_managed db1 = ed_managed db \<and> rb_nodes (ed_refs db1) = rb_nodes (ed_refs db)"
  by (simp add: around_def)

lemma ok_then_Inr: "ok_then x f = Inr y \<longleftrightarrow> (\<exists>a. x = Inr a \<and> f a = Inr y)"
  by (simp add: ok_then_def split: sum.split)

lemma execute_rows_around:
  assumes "execute_rows now fresh m db = Inr db'"
  shows "around db' = around db"
proof -
  have plan: "around db' = around db" if "on_plan f db = Inr db'" for f db db'
    using that by (auto simp: on_plan_def around_def split: sum.splits)
  note steps = around_refs plan
  show ?thesis
    using assms
  proof (cases m)
    case (RestoreObligationRow i snap)
    then show ?thesis
      using assms
      by (auto simp: restore_obligation_row_def ok_then_Inr split: entity_snapshot.splits if_splits
          dest!: around_refs(1) around_refs(3)[where F = "\<lambda>ol. update_acts_in now i _ ol"]
            around_refs(3)[where F = "\<lambda>ol. update_visual_design_path now i _ ol"])
  next
    case (PlaceObligation i n k)
    then show ?thesis
      using assms
      by (auto simp: place_obligation_on_def ok_then_Inr split: option.splits if_splits
          dest!: around_refs(3)[where F = "\<lambda>ol. place_obligation now i (index_from_ordinal k) ol"] around_refs(5))
  next
    case (RestorePlanStep i snap)
    then show ?thesis
      using assms by (auto simp: restore_plan_step_def ok_then_Inr split: entity_snapshot.splits if_splits dest!: plan)
  qed (auto simp: ok_then_Inr create_obligation_def create_plan_step_def split: option.splits if_splits
      dest!: plan around_refs(1,2,4,5) around_refs(3)[where F = "\<lambda>ol. update_visual_design_path now _ _ ol"]
        around_refs(3)[where F = "\<lambda>ol. update_section now _ _ ol"] around_refs(3)[where F = "\<lambda>ol. update_phase now _ _ ol"]
        around_refs(3)[where F = "\<lambda>ol. update_acts_in now _ _ ol"] around_refs(3)[where F = "\<lambda>ol. Inr (rename_section now _ _ _ _ ol)"]
        around_refs(3)[where F = "\<lambda>ol. reorder_obligation now _ _ ol"])
qed

text \<open>Each field of an obligation, written and written back.\<close>

lemma one_row:
  "ob_dense ol \<Longrightarrow> get_obligation i ol = Some row \<Longrightarrow> r \<in> set (ol_obligations ol) \<Longrightarrow> ob_id r = i \<Longrightarrow> r = row"
  using get_obligation_Some ob.dense_ids by (fastforce simp: distinct_map inj_on_def)

lemma update_body_map:
  "update_obligation_body now i body ol = Inr ol1 \<Longrightarrow>
     \<exists>ol0. map_obligation i (\<lambda>o'. o'\<lparr>ob_body := body, ob_updated := now\<rparr>) ol = Inr ol0 \<and> ol_obligations ol1 = ol_obligations ol0"
  "map_obligation i (\<lambda>o'. o'\<lparr>ob_body := body, ob_updated := now\<rparr>) ol = Inr ol0 \<Longrightarrow>
     \<exists>ol1. update_obligation_body now i body ol = Inr ol1 \<and> ol_obligations ol1 = ol_obligations ol0"
  by (auto simp: update_obligation_body_def Let_def split: sum.splits if_splits)

lemma undo_body:
  assumes "ob_dense ol" "get_obligation i ol = Some row" "update_obligation_body now i body ol = Inr ol1"
  shows "\<exists>ol2. update_obligation_body now' i (ob_body row) ol1 = Inr ol2 \<and> ob_table ol2 = ob_table ol"
proof -
  obtain ol0 where ol0: "map_obligation i (\<lambda>o'. o'\<lparr>ob_body := body, ob_updated := now\<rparr>) ol = Inr ol0" "ol_obligations ol1 = ol_obligations ol0"
    using update_body_map(1)[OF assms(3)] by blast
  obtain ol2 where "map_obligation i (\<lambda>o'. o'\<lparr>ob_body := ob_body row, ob_updated := now'\<rparr>) ol1 = Inr ol2" "ob_table ol2 = ob_table ol"
    by (rule undo_map[OF assms(1) ol0, where h = "\<lambda>c. c\<lparr>ob_body := body\<rparr>" and h' = "\<lambda>c. c\<lparr>ob_body := ob_body row\<rparr>"
          and g = "\<lambda>o'. o'\<lparr>ob_body := ob_body row, ob_updated := now'\<rparr>"])
      (use one_row[OF assms(1,2)] in \<open>auto simp: clear_ob_def\<close>)
  then show ?thesis using update_body_map(2) same_rows_view by metis
qed

lemma undo_section:
  assumes "ob_dense ol" "get_obligation i ol = Some row" "update_section now i section ol = Inr ol1"
  shows "\<exists>ol2. update_section now' i (ob_section row) ol1 = Inr ol2 \<and> ob_table ol2 = ob_table ol"
  unfolding update_section_def
  by (rule undo_map[OF assms(1) assms(3)[unfolded update_section_def] refl,
        where h = "\<lambda>c. c\<lparr>ob_section := section\<rparr>" and h' = "\<lambda>c. c\<lparr>ob_section := ob_section row\<rparr>"
          and g = "\<lambda>o'. o'\<lparr>ob_section := ob_section row, ob_updated := now'\<rparr>"])
    (use one_row[OF assms(1,2)] in \<open>auto simp: clear_ob_def\<close>)

lemma undo_phase:
  assumes "ob_dense ol" "get_obligation i ol = Some row" "update_phase now i phase ol = Inr ol1"
  shows "\<exists>ol2. update_phase now' i (ob_phase row) ol1 = Inr ol2 \<and> ob_table ol2 = ob_table ol"
  unfolding update_phase_def
  by (rule undo_map[OF assms(1) assms(3)[unfolded update_phase_def] refl,
        where h = "\<lambda>c. c\<lparr>ob_phase := phase\<rparr>" and h' = "\<lambda>c. c\<lparr>ob_phase := ob_phase row\<rparr>"
          and g = "\<lambda>o'. o'\<lparr>ob_phase := ob_phase row, ob_updated := now'\<rparr>"])
    (use one_row[OF assms(1,2)] in \<open>auto simp: clear_ob_def\<close>)

lemma undo_acts_in:
  assumes "ob_dense ol" "get_obligation i ol = Some row" "update_acts_in now i acts_in ol = Inr ol1"
  shows "\<exists>ol2. update_acts_in now' i (ob_acts_in row) ol1 = Inr ol2 \<and> ob_table ol2 = ob_table ol"
  unfolding update_acts_in_def
  by (rule undo_map[OF assms(1) assms(3)[unfolded update_acts_in_def] refl,
        where h = "\<lambda>c. c\<lparr>ob_acts_in := acts_in\<rparr>" and h' = "\<lambda>c. c\<lparr>ob_acts_in := ob_acts_in row\<rparr>"
          and g = "\<lambda>o'. o'\<lparr>ob_acts_in := ob_acts_in row, ob_updated := now'\<rparr>"])
    (use one_row[OF assms(1,2)] in \<open>auto simp: clear_ob_def\<close>)

lemma undo_visual:
  assumes "ob_dense ol" "get_obligation i ol = Some row" "update_visual_design_path now i path ol = Inr ol1"
  shows "\<exists>ol2. update_visual_design_path now' i (ob_visual row) ol1 = Inr ol2 \<and> ob_table ol2 = ob_table ol"
  unfolding update_visual_design_path_def
  by (rule undo_map[OF assms(1) assms(3)[unfolded update_visual_design_path_def] refl,
        where h = "\<lambda>c. c\<lparr>ob_visual := path\<rparr>" and h' = "\<lambda>c. c\<lparr>ob_visual := ob_visual row\<rparr>"
          and g = "\<lambda>o'. o'\<lparr>ob_visual := ob_visual row, ob_updated := now'\<rparr>"])
    (use one_row[OF assms(1,2)] in \<open>auto simp: clear_ob_def\<close>)

lemma outline_of_ok_then [simp]: "outline_of (ok_then x f) = ok_then x (\<lambda>a. outline_of (f a))"
  by (simp add: ok_then_def split: sum.split)

text \<open>An inverse whose writes succeed on the obligations succeeds.\<close>

lemma inverse_runs:
  "outline_of (execute_rows now fresh m db1) = Inr ol2 \<Longrightarrow> ob_table ol2 = t \<Longrightarrow>
     \<exists>db2. execute now fresh m db1 = Inr db2 \<and> ob_table (ed_outline db2) = t"
  using outline_of_Inr[of "execute now fresh m db1" ol2] by auto

lemma snapshot_Some: "get_obligation i ol = Some row \<Longrightarrow>
   obligation_snapshot i ol = Some (SnObligation (ob_node row) (ob_kind row) (ob_section row) (ob_body row) (ob_phase row)
     (ob_acts_in row) (ob_ordinal row) (ob_visual row))"
  by (simp add: obligation_snapshot_def)

lemma map_obligation_exists: "map_obligation i f ol = Inr ol1 \<Longrightarrow> \<exists>row. get_obligation i ol = Some row"
  by (auto simp: map_obligation_def get_obligation_def find_isSome_iff[symmetric] split: if_splits)

lemma undo_placed:
  assumes "ob_dense ol" "ob_dense (ed_outline db1)" "get_obligation i ol = Some row" "contents (ed_outline db1) = contents ol"
    and "ob_order (ed_outline db1) = (ob_order ol)(ob_group row := ids)" "filter (\<lambda>k. k \<noteq> i) ids = filter (\<lambda>k. k \<noteq> i) (ob_order ol (ob_group row))"
  shows "\<exists>db2. execute now fresh (PlaceObligation i (ob_node row) (ob_ordinal row)) db1 = Inr db2 \<and> ob_table (ed_outline db2) = ob_table ol"
proof -
  obtain row1 ol2 where r: "get_obligation i (ed_outline db1) = Some row1" "ob_node row1 = ob_node row"
    "place_obligation now i (index_from_ordinal (ob_ordinal row)) (ed_outline db1) = Inr ol2" "ob_table ol2 = ob_table ol"
    using undo_within[OF assms] by metis
  show ?thesis
  proof (rule inverse_runs)
    show "outline_of (execute_rows now fresh (PlaceObligation i (ob_node row) (ob_ordinal row)) db1) = Inr ol2"
      using r by (simp add: place_obligation_on_def ok_then_def)
  qed (rule r(4))
qed

lemma undo_moved:
  assumes "ob_dense ol" "get_obligation i ol = Some row" "ob_node row \<noteq> n" "ob_dense (ed_outline db1)"
    and "contents (ed_outline db1) = insert (clear_ob row\<lparr>ob_node := n\<rparr>) {c \<in> contents ol. ob_id c \<noteq> i}"
    and "\<And>g. filter (\<lambda>k. k \<noteq> i) (ob_order (ed_outline db1) g) = filter (\<lambda>k. k \<noteq> i) (ob_order ol g)"
    and "CapSpec \<in> set (ed_caps db1 (ob_node row))"
  shows "\<exists>db2. execute now fresh (PlaceObligation i (ob_node row) (ob_ordinal row)) db1 = Inr db2 \<and> ob_table (ed_outline db2) = ob_table ol"
proof -
  obtain row1 ol2 ol3 where r: "get_obligation i (ed_outline db1) = Some row1" "ob_node row1 = n"
    "move_to_node now i (ob_node row) (ed_outline db1) = Inr ol2"
    "place_obligation now i (index_from_ordinal (ob_ordinal row)) ol2 = Inr ol3" "ob_table ol3 = ob_table ol"
    using undo_move[OF assms(1-6)] by metis
  obtain dbm where m: "on_refs (ref_move now i (ob_node row)) db1 = Inr dbm" "ed_outline dbm = ol2"
    using r(3) outline_of_Inr[of "on_refs (ref_move now i (ob_node row)) db1" ol2] by auto
  show ?thesis
  proof (rule inverse_runs)
    show "outline_of (execute_rows now fresh (PlaceObligation i (ob_node row) (ob_ordinal row)) db1) = Inr ol3"
      using r m assms(3,7) by (simp add: place_obligation_on_def ok_then_def require_spec_def)
  qed (rule r(5))
qed

lemma restored_row:
  assumes "ob_dense (ed_outline db)" "restore_obligation_row now i snap db = Inr db1"
  shows "ob_table (snd (delete_obligation now' i (ed_outline db1))) = ob_table (ed_outline db)"
proof -
  let ?ol = "ed_outline db"
  obtain n kind sec body phase acts_in k visual where snap: "snap = SnObligation n kind sec body phase acts_in k visual"
    using assms(2) by (cases snap) (auto simp: restore_obligation_row_def)
  obtain db2 db3 where s2: "on_refs (ref_insert_at now i n kind (index_from_ordinal k) sec body phase) db = Inr db2"
    and s3: "on_refs (\<lambda>r. quiet_write (update_acts_in now i acts_in (rb_outline r)) r) db2 = Inr db3"
    and s4: "if visual \<noteq> None then on_refs (\<lambda>r. quiet_write (update_visual_design_path now i visual (rb_outline r)) r) db3 = Inr db1 else db1 = db3"
    using assms(2) by (auto simp: snap restore_obligation_row_def ok_then_Inr parse_obligation_kind_def split: if_splits)
  have o2: "insert_obligation_at now i n kind (index_from_ordinal k) sec body phase ?ol = Inr (ed_outline db2)"
    using arg_cong[OF s2, of outline_of] by simp
  have o3: "update_acts_in now i acts_in (ed_outline db2) = Inr (ed_outline db3)"
    using arg_cong[OF s3, of outline_of] by simp
  have d2: "ob_dense (ed_outline db2)" by (rule dense_insert_at[OF assms(1) o2])
  have d3: "ob_dense (ed_outline db3)" by (rule dense_update_field(3)[OF d2 o3])
  note v2 = view_insert_at[OF assms(1) o2]
  have fresh: "i \<notin> ob_id ` contents ?ol" using v2(1) by (simp add: ids_contents)
  have back2: "{c \<in> contents (ed_outline db2). ob_id c \<noteq> i} = contents ?ol"
    "\<And>g. filter (\<lambda>k. k \<noteq> i) (ob_order (ed_outline db2) g) = ob_order ?ol g"
    unfolding v2(2,3) using fresh not_in_order[OF v2(1)] by (auto simp: filter_insert_nth)
  have keeps: "{c \<in> (\<lambda>c. if ob_id c = i then h c else c) ` C. ob_id c \<noteq> i} = {c \<in> C. ob_id c \<noteq> i}"
    if "\<And>c. ob_id (h c) = ob_id c" for h C using that by (auto simp: image_iff)
  have v3: "contents (ed_outline db3) = (\<lambda>c. if ob_id c = i then c\<lparr>ob_acts_in := acts_in\<rparr> else c) ` contents (ed_outline db2)"
    "ob_order (ed_outline db3) = ob_order (ed_outline db2)"
    by (rule view_map[OF o3[unfolded update_acts_in_def], where h = "\<lambda>c. c\<lparr>ob_acts_in := acts_in\<rparr>"]; simp add: clear_ob_def)+
  have back3: "{c \<in> contents (ed_outline db3). ob_id c \<noteq> i} = contents ?ol"
    "\<And>g. filter (\<lambda>k. k \<noteq> i) (ob_order (ed_outline db3) g) = ob_order ?ol g"
    using keeps[of "\<lambda>c. c\<lparr>ob_acts_in := acts_in\<rparr>" "contents (ed_outline db2)"] by (simp_all add: v3 back2)
  show ?thesis
  proof (cases "visual = None")
    case True
    then show ?thesis using taken_out[OF assms(1) v2(1) d3 back3] s4 by simp
  next
    case False
    then have s4: "on_refs (\<lambda>r. quiet_write (update_visual_design_path now i visual (rb_outline r)) r) db3 = Inr db1" using s4 by simp
    have o4: "update_visual_design_path now i visual (ed_outline db3) = Inr (ed_outline db1)"
      using arg_cong[OF s4, of outline_of] by simp
    have d4: "ob_dense (ed_outline db1)" by (rule dense_update_field(4)[OF d3 o4])
    have v4: "contents (ed_outline db1) = (\<lambda>c. if ob_id c = i then c\<lparr>ob_visual := visual\<rparr> else c) ` contents (ed_outline db3)"
      "ob_order (ed_outline db1) = ob_order (ed_outline db3)"
      by (rule view_map[OF o4[unfolded update_visual_design_path_def], where h = "\<lambda>c. c\<lparr>ob_visual := visual\<rparr>"]; simp add: clear_ob_def)+
    have back4: "{c \<in> contents (ed_outline db1). ob_id c \<noteq> i} = contents ?ol"
      "\<And>g. filter (\<lambda>k. k \<noteq> i) (ob_order (ed_outline db1) g) = ob_order ?ol g"
      using keeps[of "\<lambda>c. c\<lparr>ob_visual := visual\<rparr>" "contents (ed_outline db3)"] by (simp_all add: v4 back3)
    show ?thesis by (rule taken_out[OF assms(1) v2(1) d4 back4])
  qed
qed

text \<open>What undoing a recorded change gives back, in the four kinds of change: a text or field, a position, a node, a row.\<close>

lemma obligation_undone:
  assumes "ob_dense (ed_outline db)" "classify_text m = Some (k, EObligation, i) \<or> m = RestoreObligationRow i snap"
    and "execute now fresh m db = Inr db1"
    and "obligation_snapshot i (ed_outline db) \<noteq> None \<or> obligation_snapshot i (ed_outline db1) \<noteq> None"
    and "obligation_writable i db"
  shows "\<exists>m' db2. inverse_text a i (obligation_snapshot i (ed_outline db)) m = Inr m'
     \<and> execute now' fresh' m' db1 = Inr db2 \<and> ob_table (ed_outline db2) = ob_table (ed_outline db)"
proof -
  let ?ol = "ed_outline db"
  have out: "outline_of (execute_rows now fresh m db) = Inr (ed_outline db1)"
    using arg_cong[OF assms(3), of outline_of] by simp
  obtain db0 where db0: "execute_rows now fresh m db = Inr db0" "around db1 = around db0" using around_execute[OF assms(3)] by blast
  have env: "ed_caps db1 = ed_caps db" "ed_managed db1 = ed_managed db" "rb_nodes (ed_refs db1) = rb_nodes (ed_refs db)"
    using execute_rows_around[OF db0(1)] db0(2) by (simp_all add: around_def)
  have ok: "check_no_file_references (ob_body row) = Inr ()" "ob_phase row \<in> set OBLIGATION_PHASES"
      "ob_acts_in row \<in> set OBLIGATION_ACTS_IN" "ob_kind row = KIND_REQUIREMENT \<or> ob_kind row = KIND_CONSTRAINT"
      "opt_filter (\<lambda>s. s \<noteq> []) (map_option trim (ob_section row)) = ob_section row"
      "CapSpec \<in> set (ed_caps db (ob_node row))" "ob_node row \<notin> set (ed_managed db)"
      "get_node (ob_node row) (rb_nodes (ed_refs db)) \<noteq> None" if "get_obligation i ?ol = Some row" for row
    using assms(5) that by (simp_all add: obligation_writable_def)
  have del: ?thesis if "inverse_text a i (obligation_snapshot i ?ol) m = Inr (DeleteObligation i)"
      "ob_table (snd (delete_obligation now' i (ed_outline db1))) = ob_table ?ol"
    using that inverse_runs[of now' fresh' "DeleteObligation i" db1] by auto
  have undo: ?thesis if "inverse_text a i (obligation_snapshot i ?ol) m = Inr m'"
      "outline_of (execute_rows now' fresh' m' db1) = Inr ol2 \<and> ob_table ol2 = ob_table ?ol" for m' ol2
    using that inverse_runs[of now' fresh' m' db1 ol2] by blast
  show ?thesis
  proof (cases "m = RestoreObligationRow i snap")
    case True
    have restored: "restore_obligation_row now i snap db = Inr db0" using db0(1) True by simp
    have "ed_outline db1 = ed_outline db0" using out db0(1) by simp
    then have "ob_table (snd (delete_obligation now' i (ed_outline db1))) = ob_table ?ol"
      using restored_row[OF assms(1) restored] by simp
    then show ?thesis using del True by simp
  next
    case False
    then have cl: "classify_text m = Some (k, EObligation, i)" using assms(2) by blast
    show ?thesis
    proof (cases m)
      case (CreateObligation i' n kind after before sec body phase)
      then have i': "i' = Some i" using cl by simp
      obtain kind' index phase' where "insert_obligation_at now i n kind' index sec body phase' ?ol = Inr (ed_outline db1)"
        using out by (auto simp: CreateObligation i' create_obligation_def ok_then_Inr)
      then show ?thesis using undo_insert[OF assms(1)] del by (simp add: CreateObligation)
    next
      case (UpdateObligationBody j body)
      then have up: "update_obligation_body now i body ?ol = Inr (ed_outline db1)" using cl out by (auto simp: ok_then_Inr)
      obtain row where row: "get_obligation i ?ol = Some row" using update_body_map(1)[OF up] map_obligation_exists by blast
      obtain ol2 where "update_obligation_body now' i (ob_body row) (ed_outline db1) = Inr ol2" "ob_table ol2 = ob_table ?ol"
        using undo_body[OF assms(1) row up] by blast
      then show ?thesis
        using ok(1)[OF row] by (intro undo[of "UpdateObligationBody i (ob_body row)" ol2])
          (simp_all add: UpdateObligationBody snapshot_Some[OF row] prior_obligation_def ok_then_def)
    next
      case (UpdateObligationVisualDesign j path)
      then have up: "update_visual_design_path now i path ?ol = Inr (ed_outline db1)" using cl out by auto
      obtain row where row: "get_obligation i ?ol = Some row"
        using map_obligation_exists[OF up[unfolded update_visual_design_path_def]] by blast
      obtain ol2 where "update_visual_design_path now' i (ob_visual row) (ed_outline db1) = Inr ol2" "ob_table ol2 = ob_table ?ol"
        using undo_visual[OF assms(1) row up] by blast
      then show ?thesis
        by (intro undo[of "UpdateObligationVisualDesign i (ob_visual row)" ol2])
          (simp_all add: UpdateObligationVisualDesign snapshot_Some[OF row] prior_obligation_def)
    next
      case (UpdateObligationSection j sec)
      then obtain sec' where up: "update_section now i sec' ?ol = Inr (ed_outline db1)" using cl out by auto
      obtain row where row: "get_obligation i ?ol = Some row" using map_obligation_exists[OF up[unfolded update_section_def]] by blast
      obtain ol2 where "update_section now' i (ob_section row) (ed_outline db1) = Inr ol2" "ob_table ol2 = ob_table ?ol"
        using undo_section[OF assms(1) row up] by blast
      then show ?thesis
        using ok(5)[OF row] by (intro undo[of "UpdateObligationSection i (ob_section row)" ol2])
          (simp_all add: UpdateObligationSection snapshot_Some[OF row] prior_obligation_def)
    next
      case (UpdateObligationPhase j phase)
      then obtain phase' where up: "update_phase now i phase' ?ol = Inr (ed_outline db1)" using cl out by (auto simp: ok_then_Inr)
      obtain row where row: "get_obligation i ?ol = Some row" using map_obligation_exists[OF up[unfolded update_phase_def]] by blast
      obtain ol2 where "update_phase now' i (ob_phase row) (ed_outline db1) = Inr ol2" "ob_table ol2 = ob_table ?ol"
        using undo_phase[OF assms(1) row up] by blast
      then show ?thesis
        using ok(2)[OF row] by (intro undo[of "UpdateObligationPhase i (ob_phase row)" ol2])
          (simp_all add: UpdateObligationPhase snapshot_Some[OF row] prior_obligation_def ok_then_def parse_obligation_phase_def)
    next
      case (UpdateObligationActsIn j acts_in)
      then obtain acts' where up: "update_acts_in now i acts' ?ol = Inr (ed_outline db1)" using cl out by (auto simp: ok_then_Inr)
      obtain row where row: "get_obligation i ?ol = Some row" using map_obligation_exists[OF up[unfolded update_acts_in_def]] by blast
      obtain ol2 where "update_acts_in now' i (ob_acts_in row) (ed_outline db1) = Inr ol2" "ob_table ol2 = ob_table ?ol"
        using undo_acts_in[OF assms(1) row up] by blast
      then show ?thesis
        using ok(3)[OF row] by (intro undo[of "UpdateObligationActsIn i (ob_acts_in row)" ol2])
          (simp_all add: UpdateObligationActsIn snapshot_Some[OF row] prior_obligation_def ok_then_def parse_obligation_acts_in_def)
    next
      case (DeleteObligation j)
      then have ol1: "ed_outline db1 = snd (delete_obligation now i ?ol)" using cl out by simp
      have "i \<notin> ob_id ` contents (ed_outline db1)" by (simp add: ol1 view_delete[OF assms(1)]) auto
      then have "get_obligation i (ed_outline db1) = None"
        by (auto simp: get_obligation_def find_None_iff simp flip: ids_contents)
      then obtain row where row: "get_obligation i ?ol = Some row" using assms(4) by (auto simp: obligation_snapshot_def)
      obtain ol2 ol3 ol4 where steps:
        "insert_obligation_at now' i (ob_node row) (ob_kind row) (index_from_ordinal (ob_ordinal row)) (ob_section row) (ob_body row) (ob_phase row) (ed_outline db1) = Inr ol2"
        "update_acts_in now' i (ob_acts_in row) ol2 = Inr ol3" "ob_visual row = None \<Longrightarrow> ob_table ol3 = ob_table ?ol"
        "update_visual_design_path now' i (ob_visual row) ol3 = Inr ol4" "ob_table ol4 = ob_table ?ol"
        using undo_delete[OF assms(1) row ol1] by metis
      obtain d2 where d2: "on_refs (ref_insert_at now' i (ob_node row) (ob_kind row) (index_from_ordinal (ob_ordinal row)) (ob_section row) (ob_body row) (ob_phase row)) db1 = Inr d2"
        "ed_outline d2 = ol2"
        using outline_of_Inr outline_of_refs(1) steps(1) by metis
      have "outline_of (on_refs (\<lambda>r. quiet_write (update_acts_in now' i (ob_acts_in row) (rb_outline r)) r) d2) = Inr ol3"
        using outline_of_refs(3)[of "\<lambda>ol. update_acts_in now' i (ob_acts_in row) ol" d2] steps(2) d2(2) by simp
      then obtain d3 where d3: "on_refs (\<lambda>r. quiet_write (update_acts_in now' i (ob_acts_in row) (rb_outline r)) r) d2 = Inr d3"
        "ed_outline d3 = ol3"
        unfolding outline_of_Inr by blast
      have kind: "parse_obligation_kind (ob_kind row) = Inr (ob_kind row)" using ok(4)[OF row] by (auto simp: parse_obligation_kind_def)
      obtain nd where known: "get_node (ob_node row) (rb_nodes (ed_refs db)) = Some nd" using ok(8)[OF row] by auto
      have run: "outline_of (execute_rows now' fresh' (RestoreObligationRow i (SnObligation (ob_node row) (ob_kind row) (ob_section row) (ob_body row)
          (ob_phase row) (ob_acts_in row) (ob_ordinal row) (ob_visual row))) db1) = Inr (if ob_visual row \<noteq> None then ol4 else ol3)"
        using \<open>get_obligation i (ed_outline db1) = None\<close> ok(6,7)[OF row] known d2(1) d3 steps(4)
        by (simp add: restore_obligation_row_def ok_then_def kind guard_not_managed_def require_spec_def env)
      have "ob_table (if ob_visual row \<noteq> None then ol4 else ol3) = ob_table ?ol" using steps(3,5) by auto
      then show ?thesis
        using run by (intro undo) (auto simp: DeleteObligation snapshot_Some[OF row])
    next
      case (MoveObligation j n)
      then have mv: "move_to_node now i n ?ol = Inr (ed_outline db1)" using cl out by (auto simp: ok_then_Inr)
      then obtain row where row: "get_obligation i ?ol = Some row" by (auto simp: move_to_node_def split: option.splits)
      have d1: "ob_dense (ed_outline db1)" by (rule dense_move[OF assms(1) mv])
      have inv: "inverse_text a i (obligation_snapshot i ?ol) m = Inr (PlaceObligation i (ob_node row) (ob_ordinal row))"
        by (simp add: MoveObligation snapshot_Some[OF row] prior_obligation_def)
      show ?thesis
      proof (cases "ob_node row = n")
        case True
        then have same: "ed_outline db1 = ?ol" using mv row by (simp add: move_to_node_def)
        show ?thesis
          unfolding inv using undo_placed[of ?ol db1 i row "ob_order ?ol (ob_group row)" now' fresh'] assms(1) row same by auto
      next
        case False
        note v = view_move[OF assms(1) row False mv]
        have "filter (\<lambda>k. k \<noteq> i) (ob_order (ed_outline db1) g) = filter (\<lambda>k. k \<noteq> i) (ob_order ?ol g)" for g
          by (simp add: v(2) Let_def)
        then show ?thesis
          unfolding inv using undo_moved[OF assms(1) row False d1 v(1)] ok(6)[OF row] env by auto
      qed
    next
      case (ReorderObligation j dir)
      then have ro: "reorder_obligation now i (direction_delta dir) ?ol = Inr (ed_outline db1)" using cl out by auto
      then obtain row where row: "get_obligation i ?ol = Some row" by (auto simp: reorder_obligation_def split: option.splits)
      obtain ids where "ob_order (ed_outline db1) = (ob_order ?ol)(ob_group row := ids)"
          "filter (\<lambda>k. k \<noteq> i) ids = filter (\<lambda>k. k \<noteq> i) (ob_order ?ol (ob_group row))"
        using view_reorder(2)[OF assms(1) row ro] by blast
      then have "\<exists>db2. execute now' fresh' (PlaceObligation i (ob_node row) (ob_ordinal row)) db1 = Inr db2 \<and> ob_table (ed_outline db2) = ob_table ?ol"
        using undo_placed[OF assms(1) dense_reorder_obligation[OF assms(1) ro] row view_reorder(1)[OF assms(1) row ro]] by blast
      then show ?thesis by (simp add: ReorderObligation snapshot_Some[OF row] prior_obligation_def)
    next
      case (PlaceObligation j n ord)
      then have run: "place_obligation_on now i n ord db = Inr db0" using cl db0(1) by simp
      then obtain row where row: "get_obligation i ?ol = Some row" by (auto simp: place_obligation_on_def split: option.splits)
      have ol1: "ed_outline db1 = ed_outline db0" using out db0(1) by simp
      have inv: "inverse_text a i (obligation_snapshot i ?ol) m = Inr (PlaceObligation i (ob_node row) (ob_ordinal row))"
        by (simp add: PlaceObligation snapshot_Some[OF row] prior_obligation_def)
      show ?thesis
      proof (cases "ob_node row = n")
        case True
        then have pl: "place_obligation now i (index_from_ordinal ord) ?ol = Inr (ed_outline db1)"
          using arg_cong[OF run, of outline_of] row ol1 by (simp add: place_obligation_on_def ok_then_def)
        note v = view_place[OF assms(1) row pl]
        have "\<exists>ids. ob_order (ed_outline db1) = (ob_order ?ol)(ob_group row := ids) \<and> filter (\<lambda>k. k \<noteq> i) ids = filter (\<lambda>k. k \<noteq> i) (ob_order ?ol (ob_group row))"
          by (auto simp: v(2) Let_def filter_insert_nth intro!: exI)
        then show ?thesis
          unfolding inv using undo_placed[OF assms(1) dense_place_obligation[OF assms(1) pl] row v(1)] by blast
      next
        case False
        then obtain dbm where dbm: "on_refs (ref_move now i n) db = Inr dbm"
          and dbp: "on_refs (\<lambda>r. quiet_write (place_obligation now i (index_from_ordinal ord) (rb_outline r)) r) dbm = Inr db0"
          using run row by (auto simp: place_obligation_on_def ok_then_Inr)
        then have mv: "move_to_node now i n ?ol = Inr (ed_outline dbm)"
          and pl: "place_obligation now i (index_from_ordinal ord) (ed_outline dbm) = Inr (ed_outline db1)"
          using outline_of_refs(5)[of now i n db] outline_of_refs(3)[of "\<lambda>ol. place_obligation now i (index_from_ordinal ord) ol" dbm] dbm dbp ol1
          by (simp_all del: outline_of_refs)
        have dm: "ob_dense (ed_outline dbm)" by (rule dense_move[OF assms(1) mv])
        obtain rowm where rowm: "get_obligation i (ed_outline dbm) = Some rowm"
          using pl by (auto simp: place_obligation_def split: option.splits)
        note v = view_move[OF assms(1) row False mv] and w = view_place[OF dm rowm pl]
        have "filter (\<lambda>k. k \<noteq> i) (ob_order (ed_outline db1) g) = filter (\<lambda>k. k \<noteq> i) (ob_order ?ol g)" for g
          by (simp add: v(2) w(2) Let_def filter_insert_nth)
        then show ?thesis
          unfolding inv
          using undo_moved[OF assms(1) row False dense_place_obligation[OF dm pl], of now' fresh'] ok(6)[OF row] env v(1) w(1) by auto
      qed
    qed (use cl in simp_all)
  qed
qed


definition edit_sample :: edit_db where
  "edit_sample =
     \<lparr>ed_refs = \<lparr>rb_nodes = [\<lparr>nd_id = 7, nd_slug = ''form'', nd_title = ''Form'', nd_created = 0, nd_updated = 0\<rparr>],
        rb_outline = \<lparr>ol_obligations = [\<lparr>ob_id = 5, ob_node = 7, ob_kind = KIND_REQUIREMENT, ob_ordinal = 1, ob_section = None,
            ob_body = ''saves'', ob_phase = ''design'', ob_acts_in = ''active'', ob_visual = None, ob_updated = 0\<rparr>],
          ol_plan = sample_plan\<rparr>,
        rb_edges = [], rb_dirty = []\<rparr>,
      ed_caps = (\<lambda>_. [CapSpec]), ed_managed = []\<rparr>"

lemma edit_sample_dense: "ob_dense (ed_outline edit_sample)"
  by (simp add: edit_sample_def ob.dense_def)


end
