(* ===== verification/UndoSteps.thy ===== *)
theory UndoSteps
  imports Undo "HOL-Library.Multiset"
begin

text \<open>
  Undoing a recorded change to a plan step: what the inverse of \<^verbatim>\<open>conversation/inverse.rs\<close> gives back of the step and of
  the order of the plan. The definitions are those of the theory Undo.
\<close>

section \<open>A step apart from its number\<close>

definition clear_step :: "plan_step \<Rightarrow> plan_step" where
  "clear_step s = s\<lparr>ps_ordinal := 0, ps_updated := 0\<rparr>"

definition step_row :: "uuid \<Rightarrow> plan_db \<Rightarrow> plan_step option" where
  "step_row k p = map_option clear_step (get_step k p)"

abbreviation steps_dense :: "plan_db \<Rightarrow> bool" where
  "steps_dense p \<equiv> st.dense (pl_steps p)"

lemma clear_step_simps [simp]: "ps_id (clear_step s) = ps_id s" "ps_node (clear_step s) = ps_node s"
  by (simp_all add: clear_step_def)

lemma sort_mset: "mset xs = mset ys \<Longrightarrow> sort xs = sort (ys :: uuid list)"
  by (metis mset_sort properties_for_sort sorted_sort)

text \<open>What two plans must agree on for a step's recorded state to be the same.\<close>

lemma snapshot_same:
  assumes "steps_dense p" "steps_dense p'" "step_row i p = step_row i p'" "\<And>n. step_ids_for_node n p = step_ids_for_node n p'"
    and "mset (list_dependencies i p) = mset (list_dependencies i p')" "mset (list_obligations i p) = mset (list_obligations i p')"
  shows "step_snapshot i p = step_snapshot i p'"
proof (cases "get_step i p")
  case None
  then show ?thesis using assms(3) by (simp add: step_snapshot_def step_row_def)
next
  case (Some s)
  then obtain s' where s': "get_step i p' = Some s'" "clear_step s = clear_step s'"
    using assms(3) by (cases "get_step i p'") (auto simp: step_row_def)
  have mem: "s \<in> set (pl_steps p)" "s' \<in> set (pl_steps p')" "ps_id s = ps_id s'"
    using get_step_Some[OF Some] get_step_Some[OF s'(1)] by auto
  have "group_ids ps_id ps_node ps_ordinal n (pl_steps p) = group_ids ps_id ps_node ps_ordinal n (pl_steps p')" for n
    using assms(4) by (metis step_ids_for_node_def)
  moreover have "ps_node s = ps_node s'" using s'(2) by (metis clear_step_simps(2))
  ultimately have "ps_ordinal s = ps_ordinal s'" using st.dense_same[OF assms(1,2) _ mem(1,2)] mem(3) by blast
  moreover have "ps_body s = ps_body s' \<and> ps_status s = ps_status s' \<and> ps_note s = ps_note s' \<and> ps_reason s = ps_reason s'
      \<and> ps_phase s = ps_phase s' \<and> ps_node s = ps_node s'"
    using s'(2) by (cases s; cases s') (simp add: clear_step_def)
  ultimately show ?thesis
    using sort_mset[OF assms(5)] sort_mset[OF assms(6)] by (simp add: step_snapshot_def Some s'(1))
qed

lemma row_map_step:
  assumes "\<And>s. ps_id (f s) = ps_id s" "\<And>s. clear_step (f s) = h (clear_step s)"
  shows "step_row k (map_step i f p) = (if k = i then map_option h (step_row i p) else step_row k p)"
  by (cases "get_step k p") (auto simp: step_row_def get_map_step[OF assms(1)] assms(2))

lemma order_map_step:
  assumes "\<And>s. ps_id (f s) = ps_id s" "\<And>s. ps_node (f s) = ps_node s" "\<And>s. ps_ordinal (f s) = ps_ordinal s"
  shows "step_ids_for_node n (map_step i f p) = step_ids_for_node n p"
proof -
  let ?F = "\<lambda>s. if ps_id s = i then f s else s"
  have "sort_key ps_ordinal (map ?F xs) = map ?F (sort_key ps_ordinal xs)" for xs
  proof (induction xs)
    case (Cons x xs)
    have ins: "insort_key ps_ordinal (?F y) (map ?F ys) = map ?F (insort_key ps_ordinal y ys)" for y ys
      by (induction ys) (simp_all add: assms(3))
    show ?case by (simp only: sort_key_simps list.map Cons.IH ins)
  qed simp
  moreover have "filter (\<lambda>r. ps_node r = n) (map ?F xs) = map ?F (filter (\<lambda>r. ps_node r = n) xs)" for xs
    by (induction xs) (simp_all add: assms(2))
  ultimately show ?thesis by (simp add: step_ids_for_node_def group_ids_def map_step_def assms(1) comp_def)
qed

lemma dense_map_step:
  assumes "steps_dense p" "\<And>s. ps_id (f s) = ps_id s" "\<And>s. ps_node (f s) = ps_node s" "\<And>s. ps_ordinal (f s) = ps_ordinal s"
  shows "steps_dense (map_step i f p)"
  unfolding map_step_def using assms by (auto intro!: st.dense_map_rows)

lemma map_step_graph [simp]:
  "list_dependencies k (map_step i f p) = list_dependencies k p" "list_dependents k (map_step i f p) = list_dependents k p"
  "list_obligations k (map_step i f p) = list_obligations k p"
  "pl_deps (map_step i f p) = pl_deps p" "pl_links (map_step i f p) = pl_links p"
  by (simp_all add: list_dependencies_def list_dependents_def list_obligations_def map_step_def)

text \<open>Renumbering.\<close>

lemma ordinals_graph [simp]:
  "list_dependencies k (write_step_ordinals now n ids p) = list_dependencies k p"
  "list_obligations k (write_step_ordinals now n ids p) = list_obligations k p"
  "pl_deps (write_step_ordinals now n ids p) = pl_deps p" "pl_links (write_step_ordinals now n ids p) = pl_links p"
  by (simp_all add: list_dependencies_def list_obligations_def write_step_ordinals_def)

lemma find_map_same:
  "map f xs = map f ys \<Longrightarrow> (\<And>x. P x = Q (f x)) \<Longrightarrow> map_option f (find P xs) = map_option f (find P ys)"
proof (induction xs arbitrary: ys)
  case (Cons x xs)
  then obtain y ys' where "ys = y # ys'" "f x = f y" "map f xs = map f ys'" by (cases ys) auto
  then show ?case using Cons by auto
qed simp

lemma row_ordinals [simp]: "step_row k (write_step_ordinals now n ids p) = step_row k p"
proof -
  have "map clear_step (pl_steps (write_step_ordinals now n ids p)) = map clear_step (pl_steps p)"
    by (simp add: write_step_ordinals_def st.renum_keeps clear_step_def touch_step_def place_step_def)
  then show ?thesis
    unfolding step_row_def get_step_def by (rule find_map_same[where Q = "\<lambda>s. ps_id s = k"]) simp
qed

lemma step_order_ordinals:
  assumes "distinct ids" "distinct (map ps_id (pl_steps p))" "set ids = ps_id ` {s \<in> set (pl_steps p). ps_node s = n}"
  shows "step_ids_for_node h (write_step_ordinals now n ids p) = (if h = n then ids else step_ids_for_node h p)"
  using st.group_ids_renum[OF assms] by (simp add: step_ids_for_node_def write_step_ordinals_def)

lemma step_order_distinct: "steps_dense p \<Longrightarrow> distinct (step_ids_for_node n p)"
  unfolding step_ids_for_node_def by (rule st.group_ids_distinct) (rule st.dense_ids)

lemma row_in_step_order: "get_step i p = Some s \<Longrightarrow> i \<in> set (step_ids_for_node (ps_node s) p)"
  using get_step_Some by (fastforce simp: set_step_ids)

lemma not_in_step_order: "get_step i p = None \<Longrightarrow> i \<notin> set (step_ids_for_node n p)"
  by (auto simp: set_step_ids get_step_def find_None_iff)

lemma step_put_back:
  assumes "steps_dense p" "get_step i p = Some s"
  shows "(let fl = filter (\<lambda>k. k \<noteq> i) (step_ids_for_node (ps_node s) p)
          in insert_nth (min (index_from_ordinal (ps_ordinal s)) (length fl)) i fl) = step_ids_for_node (ps_node s) p"
proof -
  have s: "s \<in> set (pl_steps p)" "ps_id s = i" using get_step_Some[OF assms(2)] by auto
  obtain q where q: "q < length (step_ids_for_node (ps_node s) p)" "step_ids_for_node (ps_node s) p ! q = ps_id s" "ps_ordinal s = int q + 1"
    using st.dense_ord[OF assms(1) s(1)] unfolding step_ids_for_node_def by metis
  have "index_from_ordinal (ps_ordinal s) = q" by (simp add: index_from_ordinal_def q(3))
  then show ?thesis using put_back_at[OF step_order_distinct[OF assms(1)] q(1,2)] s(2) by simp
qed

text \<open>A step added, and one deleted.\<close>

lemma step_view_insert:
  assumes "wf_plan p" "insert_step_at now i n index body p = Inr p1"
  shows "get_step i p = None"
    and "step_row k p1 = (if k = i then Some \<lparr>ps_id = i, ps_node = n, ps_ordinal = 0, ps_body = body, ps_status = STATUS_PENDING,
        ps_note = None, ps_reason = None, ps_phase = PHASE_ACTIVE, ps_updated = 0\<rparr> else step_row k p)"
    and "step_ids_for_node h p1 = (if h = n then insert_nth (min index (length (step_ids_for_node n p))) i (step_ids_for_node n p)
        else step_ids_for_node h p)"
    and "pl_deps p1 = pl_deps p" "pl_links p1 = pl_links p"
proof -
  define row where "row = \<lparr>ps_id = i, ps_node = n, ps_ordinal = 10000 + int (length (step_ids_for_node n p)), ps_body = body,
                 ps_status = STATUS_PENDING, ps_note = None, ps_reason = None, ps_phase = PHASE_ACTIVE, ps_updated = now\<rparr>"
  let ?ids = "insert_nth (min index (length (step_ids_for_node n p))) i (step_ids_for_node n p)"
  let ?p = "p\<lparr>pl_steps := pl_steps p @ [row]\<rparr>"
  have fresh: "i \<notin> ps_id ` set (pl_steps p)" and p1: "p1 = write_step_ordinals now n ?ids ?p"
    using assms(2) by (auto simp: insert_step_at_def Let_def row_def split: if_splits)
  have row: "ps_id row = i" "ps_node row = n" by (simp_all add: row_def)
  show none: "get_step i p = None" using fresh by (auto simp: get_step_def find_None_iff)
  have "step_row k ?p = (if k = i then Some (clear_step row) else step_row k p)"
    using none row by (auto simp: step_row_def get_step_def find_append_None split: option.split)
  then show "step_row k p1 = (if k = i then Some \<lparr>ps_id = i, ps_node = n, ps_ordinal = 0, ps_body = body, ps_status = STATUS_PENDING,
        ps_note = None, ps_reason = None, ps_phase = PHASE_ACTIVE, ps_updated = 0\<rparr> else step_row k p)"
    by (simp add: p1 row_def clear_step_def)
  have "step_ids_for_node h p1 = (if h = n then ?ids else step_ids_for_node h ?p)"
    unfolding p1
  proof (rule step_order_ordinals)
    show "distinct ?ids" using step_ids_distinct[OF assms(1)] not_in_step_order[OF none] by simp
    show "distinct (map ps_id (pl_steps ?p))" using wf_distinct[OF assms(1)] fresh row by auto
    have "{s \<in> set (pl_steps ?p). ps_node s = n} = insert row {s \<in> set (pl_steps p). ps_node s = n}" using row by auto
    then show "set ?ids = ps_id ` {s \<in> set (pl_steps ?p). ps_node s = n}" using row by (simp add: set_step_ids)
  qed
  moreover have "h \<noteq> n \<Longrightarrow> step_ids_for_node h ?p = step_ids_for_node h p" using row by (simp add: step_ids_for_node_def group_ids_def)
  ultimately show "step_ids_for_node h p1 = (if h = n then ?ids else step_ids_for_node h p)" by simp
  show "pl_deps p1 = pl_deps p" "pl_links p1 = pl_links p" by (simp_all add: p1)
qed

lemma step_view_delete:
  assumes "distinct (map ps_id (pl_steps p))" "p1 = snd (delete_step now i p)"
  shows "step_row k p1 = (if k = i then None else step_row k p)"
    and "step_ids_for_node h p1 = filter (\<lambda>k. k \<noteq> i) (step_ids_for_node h p)"
    and "get_step i p \<noteq> None \<Longrightarrow> pl_deps p1 = filter (\<lambda>(a, b). a \<noteq> i \<and> b \<noteq> i) (pl_deps p)"
    and "get_step i p \<noteq> None \<Longrightarrow> pl_links p1 = filter (\<lambda>(a, _). a \<noteq> i) (pl_links p)"
proof -
  have all: "step_row k p1 = (if k = i then None else step_row k p)
    \<and> step_ids_for_node h p1 = filter (\<lambda>k. k \<noteq> i) (step_ids_for_node h p)
    \<and> (get_step i p \<noteq> None \<longrightarrow> pl_deps p1 = filter (\<lambda>(a, b). a \<noteq> i \<and> b \<noteq> i) (pl_deps p)
        \<and> pl_links p1 = filter (\<lambda>(a, _). a \<noteq> i) (pl_links p))"
  proof (cases "get_step i p")
    case None
    have "filter (\<lambda>k. k \<noteq> i) (step_ids_for_node h p) = step_ids_for_node h p"
      using not_in_step_order[OF None] by (metis (mono_tags, lifting) filter_True)
    then show ?thesis using None by (simp add: assms(2) delete_step_def step_row_def)
  next
    case (Some row)
    let ?p = "p\<lparr>pl_steps := filter (\<lambda>s. ps_id s \<noteq> i) (pl_steps p),
                       pl_deps := filter (\<lambda>(a, b). a \<noteq> i \<and> b \<noteq> i) (pl_deps p),
                       pl_links := filter (\<lambda>(a, _). a \<noteq> i) (pl_links p),
                       pl_notes := filter (\<lambda>m. sn_step m \<noteq> i) (pl_notes p)\<rparr>"
    have p1: "p1 = write_step_ordinals now (ps_node row) (step_ids_for_node (ps_node row) ?p) ?p"
      by (simp add: assms(2) delete_step_def Some Let_def)
    have "find (\<lambda>s. ps_id s = k) (filter (\<lambda>s. ps_id s \<noteq> i) ss) = (if k = i then None else find (\<lambda>s. ps_id s = k) ss)" for ss
      by (induction ss) auto
    from this[of "pl_steps p"] have row: "step_row k ?p = (if k = i then None else step_row k p)"
      by (cases "k = i") (simp_all add: step_row_def get_step_def)
    have d: "distinct (map ps_id (pl_steps ?p))" using assms(1) by (simp add: distinct_map_filter)
    have ord: "step_ids_for_node h ?p = filter (\<lambda>k. k \<noteq> i) (step_ids_for_node h p)" for h
      using st.group_ids_delete[OF assms(1)] by (simp add: step_ids_for_node_def)
    have "distinct (step_ids_for_node (ps_node row) ?p)" unfolding step_ids_for_node_def by (rule st.group_ids_distinct[OF d])
    then have "step_ids_for_node h p1 = step_ids_for_node h ?p"
      unfolding p1 by (subst step_order_ordinals[OF _ d set_step_ids]) simp_all
    moreover have "step_row k p1 = (if k = i then None else step_row k p)" unfolding p1 row_ordinals by (rule row)
    ultimately show ?thesis by (simp add: ord) (simp add: p1)
  qed
  then show "step_row k p1 = (if k = i then None else step_row k p)"
    "step_ids_for_node h p1 = filter (\<lambda>k. k \<noteq> i) (step_ids_for_node h p)"
    "get_step i p \<noteq> None \<Longrightarrow> pl_deps p1 = filter (\<lambda>(a, b). a \<noteq> i \<and> b \<noteq> i) (pl_deps p)"
    "get_step i p \<noteq> None \<Longrightarrow> pl_links p1 = filter (\<lambda>(a, _). a \<noteq> i) (pl_links p)" by blast+
qed


section \<open>The writes on one step\<close>

text \<open>What the undo of a change is to give back.\<close>

definition step_as :: "uuid \<Rightarrow> plan_db \<Rightarrow> plan_db \<Rightarrow> bool" where
  "step_as i p p' \<longleftrightarrow> step_snapshot i p' = step_snapshot i p \<and> (\<forall>n. step_ids_for_node n p' = step_ids_for_node n p)"

lemma step_asI:
  assumes "wf_plan p" "wf_plan p'" "step_row i p' = step_row i p" "\<And>n. step_ids_for_node n p' = step_ids_for_node n p"
    and "mset (list_dependencies i p') = mset (list_dependencies i p)" "mset (list_obligations i p') = mset (list_obligations i p)"
  shows "step_as i p p'"
  unfolding step_as_def using snapshot_same[of p' p i] assms by (simp add: wf_plan_def)

lemma get_map_other [simp]: "(\<And>s. ps_id (f s) = ps_id s) \<Longrightarrow> k \<noteq> i \<Longrightarrow> get_step k (map_step i f p) = get_step k p"
  by (simp add: get_map_step option.map_ident)

text \<open>A status written: the step has it, and no other field, edge or position of any step is touched.\<close>

lemma status_view:
  assumes "wf_plan p" "update_step_status now i status note reason p = Inr p1" "get_step i p = Some s"
  shows "get_step i p1 = Some (s\<lparr>ps_status := status, ps_note := nonblank note, ps_reason := reason, ps_updated := now\<rparr>)"
    and "step_ids_for_node n p1 = step_ids_for_node n p" "pl_deps p1 = pl_deps p" "pl_links p1 = pl_links p"
proof -
  let ?s = "s\<lparr>ps_status := status, ps_note := nonblank note, ps_reason := reason, ps_updated := now\<rparr>"
  let ?keep = "\<lambda>p'. get_step i p' = Some ?s \<and> (\<forall>n. step_ids_for_node n p' = step_ids_for_node n p)
      \<and> pl_deps p' = pl_deps p \<and> pl_links p' = pl_links p"
  have written: "?keep (write_status now i status (nonblank note) reason p)"
    using assms(3) by (simp add: write_status_def get_map_step order_map_step)
  have applied: "?keep (apply_status now i status (nonblank note) reason p)"
  proof -
    have same: "?keep p'" if "pl_steps p' = pl_steps q" "pl_deps p' = pl_deps q" "pl_links p' = pl_links q" "?keep q" for p' q
      using that by (simp add: get_step_def step_ids_for_node_def)
    let ?q = "write_status now i status (nonblank note) reason p"
    have "pl_steps (apply_status now i status (nonblank note) reason p) = pl_steps ?q"
      "pl_deps (apply_status now i status (nonblank note) reason p) = pl_deps ?q"
      "pl_links (apply_status now i status (nonblank note) reason p) = pl_links ?q"
      by (auto simp: apply_status_def Let_def record_note_def split: option.splits)
    then show ?thesis using same written by blast
  qed
  have "?keep (fold (maybe_promote now) ks p')" if "?keep p'" "i \<notin> set ks" for ks p'
    using that
  proof (induction ks arbitrary: p')
    case (Cons k ks)
    have "?keep (maybe_promote now k p')"
      using Cons.prems by (auto simp: maybe_promote_def write_status_def get_map_step order_map_step split: option.split)
    then show ?case using Cons by simp
  qed simp
  moreover have "i \<notin> set (list_dependents i p')" if "?keep p'" for p'
    using that wf_plan_parts(3)[OF assms(1)] by (auto simp: set_dependents acyclic_def dest: r_into_trancl)
  ultimately have "?keep p1"
    using assms(2) applied by (auto simp: update_step_status_def Let_def split: if_splits)
  then show "get_step i p1 = Some ?s" "step_ids_for_node n p1 = step_ids_for_node n p" "pl_deps p1 = pl_deps p" "pl_links p1 = pl_links p"
    by blast+
qed

lemma undo_status:
  assumes "wf_plan p" "update_step_status now i status note reason p = Inr p1" "get_step i p = Some s" "nonblank (ps_note s) = ps_note s"
  shows "\<exists>p2. update_step_status now' i (ps_status s) (ps_note s) (ps_reason s) p1 = Inr p2 \<and> step_as i p p2"
proof -
  note v = status_view[OF assms(1-3)]
  have w1: "wf_plan p1" by (rule wf_update_status[OF assms(1,2)])
  have known: "ps_status s \<in> set PLAN_STEP_STATUSES" using wf_plan_parts(2)[OF assms(1)] get_step_Some[OF assms(3)] by blast
  then obtain p2 where p2: "update_step_status now' i (ps_status s) (ps_note s) (ps_reason s) p1 = Inr p2"
    using v(1) by (auto simp: update_step_status_def has_step_get Let_def)
  note u = status_view[OF w1 p2 v(1)]
  have "step_as i p p2"
    using assms(1) wf_update_status[OF w1 p2]
    by (rule step_asI)
      (simp_all add: step_row_def u v assms(3,4) clear_step_def list_dependencies_def list_obligations_def)
  with p2 show ?thesis by blast
qed

text \<open>The body, and the phase.\<close>

lemma reject_duplicate_iff:
  "reject_duplicate_plan_step n (Some i) body p = Inr () \<longleftrightarrow> plan_step_key body = [] \<or>
     (\<forall>s \<in> set (pl_steps p). ps_node s = n \<and> ps_id s \<noteq> i \<longrightarrow> plan_step_key (ps_body s) \<noteq> plan_step_key body)"
  by (auto simp: reject_duplicate_plan_step_def Let_def steps_for_node_def find_None_iff dest!: find_Some_in split: option.split)

lemma map_step_as:
  assumes "wf_plan p" "wf_plan (map_step i g (map_step i f p))" "get_step i p = Some s" "clear_step (g (f s)) = clear_step s"
    and f: "\<And>s. ps_id (f s) = ps_id s" "\<And>s. ps_node (f s) = ps_node s" "\<And>s. ps_ordinal (f s) = ps_ordinal s"
    and g: "\<And>s. ps_id (g s) = ps_id s" "\<And>s. ps_node (g s) = ps_node s" "\<And>s. ps_ordinal (g s) = ps_ordinal s"
  shows "step_as i p (map_step i g (map_step i f p))"
  by (rule step_asI[OF assms(1,2)]) (simp_all add: order_map_step f g step_row_def get_map_step assms(3,4))

lemma undo_step_body:
  assumes "wf_plan p" "get_step i p = Some s" "update_step_body now i body p = Inr p1"
    and "reject_duplicate_plan_step (ps_node s) (Some i) (ps_body s) p = Inr ()"
  shows "\<exists>p2 s1. get_step i p1 = Some s1 \<and> reject_duplicate_plan_step (ps_node s1) (Some i) (ps_body s) p1 = Inr ()
     \<and> update_step_body now' i (ps_body s) p1 = Inr p2 \<and> step_as i p p2"
proof -
  let ?f = "\<lambda>s. s\<lparr>ps_body := body, ps_updated := now\<rparr>" and ?g = "\<lambda>t. t\<lparr>ps_body := ps_body s, ps_updated := now'\<rparr>"
  have p1: "p1 = map_step i ?f p" using assms(3) by (auto simp: update_step_body_def split: if_splits)
  have s1: "get_step i p1 = Some (?f s)" by (simp add: p1 get_map_step assms(2))
  have "reject_duplicate_plan_step (ps_node (?f s)) (Some i) (ps_body s) p1 = Inr ()"
    using assms(4) unfolding reject_duplicate_iff by (auto simp: p1 map_step_def)
  moreover have "update_step_body now' i (ps_body s) p1 = Inr (map_step i ?g p1)"
    by (simp add: update_step_body_def has_step_get s1)
  moreover have "step_as i p (map_step i ?g p1)"
    unfolding p1 by (rule map_step_as[OF assms(1) _ assms(2)]) (auto simp: clear_step_def intro!: wf_map_step assms(1))
  ultimately show ?thesis using s1 by blast
qed

lemma undo_step_phase:
  assumes "wf_plan p" "get_step i p = Some s" "set_step_phase now i phase p = Inr p1"
  shows "\<exists>p2. set_step_phase now' i (ps_phase s) p1 = Inr p2 \<and> step_as i p p2"
proof -
  let ?f = "\<lambda>s. s\<lparr>ps_phase := phase, ps_updated := now\<rparr>" and ?g = "\<lambda>t. t\<lparr>ps_phase := ps_phase s, ps_updated := now'\<rparr>"
  have p1: "p1 = map_step i ?f p" using assms(3) by (auto simp: set_step_phase_def split: if_splits option.splits)
  have s1: "get_step i p1 = Some (?f s)" by (simp add: p1 get_map_step assms(2))
  note P = wf_plan_parts[OF assms(1)]
  have known: "ps_phase s \<in> set PLAN_STEP_PHASES" using P(2) get_step_Some[OF assms(2)] by blast
  have to: "\<exists>t. get_step d p1 = Some t \<and> dependency_allowed (ps_phase s) (ps_phase t)" if "(i, d) \<in> set (pl_deps p)" for d
  proof -
    have "d \<noteq> i" using that P(3) by (auto simp: acyclic_def dest: r_into_trancl)
    then show ?thesis using P(4) that assms(2) by (auto simp: p1 dep_ok_def)
  qed
  have from_: "\<exists>t. get_step d p1 = Some t \<and> dependency_allowed (ps_phase t) (ps_phase s)" if "(d, i) \<in> set (pl_deps p)" for d
  proof -
    have "d \<noteq> i" using that P(3) by (auto simp: acyclic_def dest: r_into_trancl)
    then show ?thesis using P(4) that assms(2) by (auto simp: p1 dep_ok_def)
  qed
  have deps: "pl_deps p1 = pl_deps p" by (simp add: p1)
  have r1: "first_refusal (\<lambda>d. case get_step d p1 of None \<Rightarrow> Some ''plan step dependency not found''
      | Some dep \<Rightarrow> if dependency_allowed (ps_phase s) (ps_phase dep) then None else Some (wait_refusal (ps_phase s) (ps_phase dep)))
      (list_dependencies i p1) = None"
    unfolding first_refusal_None using to by (fastforce simp: set_dependencies deps)
  have r2: "first_refusal (\<lambda>d. case get_step d p1 of None \<Rightarrow> Some ''plan step dependent not found''
      | Some dep \<Rightarrow> if dependency_allowed (ps_phase dep) (ps_phase s) then None else Some (move_refusal (ps_phase dep) (ps_phase s)))
      (list_dependents i p1) = None"
    unfolding first_refusal_None using from_ by (fastforce simp: set_dependents deps)
  have p2: "set_step_phase now' i (ps_phase s) p1 = Inr (map_step i ?g p1)"
    by (simp only: set_step_phase_def r1 r2 option.case has_step_get s1) (simp add: known)
  have "wf_plan (map_step i ?g p1)"
    by (rule wf_set_phase[OF wf_set_phase[OF assms(1,3)] p2])
  then have "step_as i p (map_step i ?g p1)"
    unfolding p1 by (intro map_step_as[OF assms(1) _ assms(2)]) (auto simp: clear_step_def)
  with p2 show ?thesis by blast
qed

text \<open>Edges and links: the inverse reads what was recorded to know whether the edge was there before.\<close>

lemma filter_absent: "x \<notin> set xs \<Longrightarrow> filter (\<lambda>e. e \<noteq> x) xs = xs"
  by (induction xs) auto

lemma mset_filter_one: "distinct xs \<Longrightarrow> x \<in> set xs \<Longrightarrow> mset (filter (\<lambda>e. e \<noteq> x) xs @ [x]) = mset xs"
  by (induction xs) (auto simp: filter_absent simp del: mset_filter)

lemma mset_map_filter: "mset xs = mset ys \<Longrightarrow> mset (map f (filter P xs)) = mset (map f (filter P ys))"
  by simp

lemma edges_as:
  assumes "wf_plan p" "wf_plan p'" "pl_steps p' = pl_steps p" "mset (pl_deps p') = mset (pl_deps p)" "mset (pl_links p') = mset (pl_links p)"
  shows "step_as i p p'"
  by (rule step_asI[OF assms(1,2)])
    (use mset_map_filter[OF assms(4)] mset_map_filter[OF assms(5)] in
      \<open>simp_all add: step_row_def get_step_def step_ids_for_node_def assms(3) list_dependencies_def list_obligations_def\<close>)

lemma undo_add_dependency:
  assumes "wf_plan p" "add_dependency i d p = Inr p1"
  shows "\<exists>p2. (if d \<in> set (list_dependencies i p) then add_dependency i d p1 else Inr (remove_dependency i d p1)) = Inr p2 \<and> step_as i p p2"
proof (cases "(i, d) \<in> set (pl_deps p)")
  case True
  then have "p1 = p" using assms(2) by (auto simp: add_dependency_def split: if_splits option.splits)
  then show ?thesis using True assms by (auto simp: set_dependencies step_as_def)
next
  case False
  then have p1: "p1 = p\<lparr>pl_deps := pl_deps p @ [(i, d)]\<rparr>" using assms(2) by (auto simp: add_dependency_def split: if_splits option.splits)
  have "remove_dependency i d p1 = p" using False by (simp add: p1 remove_dependency_def filter_absent)
  then show ?thesis using False assms(1) by (auto simp: set_dependencies step_as_def)
qed

lemma undo_remove_dependency:
  assumes "wf_plan p" "distinct (pl_deps p)"
  shows "\<exists>p2. (if d \<in> set (list_dependencies i p) then add_dependency i d (remove_dependency i d p)
      else Inr (remove_dependency i d (remove_dependency i d p))) = Inr p2 \<and> step_as i p p2"
proof (cases "(i, d) \<in> set (pl_deps p)")
  case True
  let ?p1 = "remove_dependency i d p" and ?p2 = "p\<lparr>pl_deps := filter (\<lambda>e. e \<noteq> (i, d)) (pl_deps p) @ [(i, d)]\<rparr>"
  note P = wf_plan_parts[OF assms(1)]
  obtain s t where st: "get_step i p = Some s" "get_step d p = Some t" "dependency_allowed (ps_phase s) (ps_phase t)"
    using P(4) True by (auto simp: dep_ok_def)
  have get: "get_step k ?p1 = get_step k p" for k by (simp add: remove_dependency_def get_step_def)
  have "i \<noteq> d" using True P(3) by (auto simp: acyclic_def dest: r_into_trancl)
  moreover have "i \<notin> set (reach (pl_deps ?p1) d)"
  proof
    assume "i \<in> set (reach (pl_deps ?p1) d)"
    then have "(d, i) \<in> (set (pl_deps ?p1))\<^sup>+" by (simp add: set_reach)
    then have "(d, i) \<in> (set (pl_deps p))\<^sup>+" by (rule trancl_mono) (auto simp: remove_dependency_def)
    then have "(d, d) \<in> (set (pl_deps p))\<^sup>+" using True by (rule trancl_into_trancl)
    then show False using P(3) by (auto simp: acyclic_def)
  qed
  moreover have "(i, d) \<notin> set (pl_deps ?p1)" by (simp add: remove_dependency_def)
  ultimately have add: "add_dependency i d ?p1 = Inr ?p2"
    using st by (simp add: add_dependency_def get) (simp add: remove_dependency_def)
  have "step_as i p ?p2"
    by (rule edges_as[OF assms(1) wf_add_dependency[OF wf_remove_dependency[OF assms(1)] add]])
      (use mset_filter_one[OF assms(2) True] in simp_all)
  then show ?thesis using True add by (auto simp: set_dependencies)
next
  case False
  then have "remove_dependency i d p = p" by (simp add: remove_dependency_def filter_absent)
  then show ?thesis using False assms(1) by (auto simp: set_dependencies step_as_def)
qed

lemma undo_link:
  assumes "wf_plan p"
  shows "step_as i p (if ob \<in> set (list_obligations i p) then link_obligation i ob (link_obligation i ob p)
      else unlink_obligation i ob (link_obligation i ob p))"
proof (cases "(i, ob) \<in> set (pl_links p)")
  case True
  then show ?thesis by (force simp: link_obligation_def list_obligations_def step_as_def)
next
  case False
  then have "unlink_obligation i ob (link_obligation i ob p) = p" by (simp add: link_obligation_def unlink_obligation_def filter_absent)
  then show ?thesis using False by (auto simp: list_obligations_def step_as_def)
qed

lemma undo_unlink:
  assumes "wf_plan p" "distinct (pl_links p)"
  shows "step_as i p (if ob \<in> set (list_obligations i p) then link_obligation i ob (unlink_obligation i ob p)
      else unlink_obligation i ob (unlink_obligation i ob p))"
proof (cases "(i, ob) \<in> set (pl_links p)")
  case True
  let ?p2 = "link_obligation i ob (unlink_obligation i ob p)"
  have p2: "?p2 = p\<lparr>pl_links := filter (\<lambda>e. e \<noteq> (i, ob)) (pl_links p) @ [(i, ob)]\<rparr>"
    by (simp add: link_obligation_def unlink_obligation_def)
  have "step_as i p ?p2"
    by (rule edges_as[OF assms(1) wf_same[OF assms(1)]]) (use mset_filter_one[OF assms(2) True] in \<open>simp_all add: p2\<close>)
  then show ?thesis using True by (force simp: list_obligations_def)
next
  case False
  then have "unlink_obligation i ob p = p" by (simp add: unlink_obligation_def filter_absent)
  then show ?thesis using False by (auto simp: list_obligations_def step_as_def)
qed

text \<open>An order of the same steps, put back where it was.\<close>

lemma undo_step_order:
  assumes "wf_plan p" "wf_plan p1" "get_step i p = Some s" "step_row i p1 = step_row i p" "pl_deps p1 = pl_deps p" "pl_links p1 = pl_links p"
    and "\<And>n. n \<noteq> ps_node s \<Longrightarrow> step_ids_for_node n p1 = step_ids_for_node n p"
    and "filter (\<lambda>k. k \<noteq> i) (step_ids_for_node (ps_node s) p1) = filter (\<lambda>k. k \<noteq> i) (step_ids_for_node (ps_node s) p)"
  shows "\<exists>p2. place_step_at now i (index_from_ordinal (ps_ordinal s)) p1 = Inr p2 \<and> step_as i p p2"
proof -
  obtain s1 where s1: "get_step i p1 = Some s1" "clear_step s1 = clear_step s"
    using assms(3,4) by (cases "get_step i p1") (auto simp: step_row_def)
  have node: "ps_node s1 = ps_node s" using s1(2) by (metis clear_step_simps(2))
  let ?ids = "step_ids_for_node (ps_node s) p"
  let ?p2 = "write_step_ordinals now (ps_node s) ?ids p1"
  have dense: "steps_dense p" using assms(1) by (simp add: wf_plan_def)
  have p2: "place_step_at now i (index_from_ordinal (ps_ordinal s)) p1 = Inr ?p2"
    using step_put_back[OF dense assms(3)] by (simp add: place_step_at_def s1(1) node assms(8) Let_def)
  have "i \<in> set (step_ids_for_node (ps_node s) p1)" using row_in_step_order[OF s1(1)] node by simp
  then have same: "set ?ids = set (step_ids_for_node (ps_node s) p1)"
    using row_in_step_order[OF assms(3)] arg_cong[OF assms(8), of set] by auto
  have "step_as i p ?p2"
  proof (rule step_asI[OF assms(1) wf_place_step[OF assms(2) p2]])
    show "step_ids_for_node n ?p2 = step_ids_for_node n p" for n
      using assms(7) same
      by (subst step_order_ordinals[OF step_ids_distinct[OF assms(1)] wf_distinct[OF assms(2)]]) (auto simp: set_step_ids)
  qed (simp_all add: assms(4-6) list_dependencies_def list_obligations_def)
  with p2 show ?thesis by blast
qed

text \<open>A step put in, taken out, and put back from what was recorded of it.\<close>

lemma undo_step_insert:
  assumes "wf_plan p" "insert_step_at now i n index body p = Inr p1" "distinct (map ps_id (pl_steps p1'))"
    and "\<And>n. step_ids_for_node n p1' = step_ids_for_node n p1"
  shows "step_as i p (snd (delete_step now' i p1'))"
proof -
  note v = step_view_insert[OF assms(1,2)] and w = step_view_delete[OF assms(3) refl[of "snd (delete_step now' i p1')"]]
  have gone: "get_step i (snd (delete_step now' i p1')) = None"
    using w(1)[of i] by (simp add: step_row_def)
  have "filter (\<lambda>k. k \<noteq> i) (step_ids_for_node n p) = step_ids_for_node n p" for n
    using not_in_step_order[OF v(1)] by (metis (mono_tags, lifting) filter_True)
  then show ?thesis
    by (simp add: step_as_def step_snapshot_def gone v(1,3) w(2) assms(4) filter_insert_nth)
qed

text \<open>The loop over the recorded dependencies: with no edge into the step, none of them closes a cycle.\<close>

lemma restore_deps_runs:
  assumes "get_step i p = Some s" "\<And>a. (a, i) \<notin> set (pl_deps p)"
    and "\<And>d. d \<in> set ds \<Longrightarrow> d \<noteq> i \<and> (\<exists>t. get_step d p = Some t \<and> dependency_allowed (ps_phase s) (ps_phase t))"
    and "distinct ds" "\<And>d. d \<in> set ds \<Longrightarrow> (i, d) \<notin> set (pl_deps p)"
  shows "restore_deps i ds p = Inr (p\<lparr>pl_deps := pl_deps p @ map (Pair i) ds\<rparr>)"
  using assms
proof (induction ds arbitrary: p)
  case (Cons d ds)
  let ?p = "p\<lparr>pl_deps := pl_deps p @ [(i, d)]\<rparr>"
  obtain t where t: "d \<noteq> i" "get_step d p = Some t" "dependency_allowed (ps_phase s) (ps_phase t)" using Cons.prems(3)[of d] by auto
  have "i \<notin> set (reach (pl_deps p) d)"
  proof
    assume "i \<in> set (reach (pl_deps p) d)"
    then have "(d, i) \<in> (set (pl_deps p))\<^sup>+" by (simp add: set_reach)
    then show False using Cons.prems(2) by (auto elim: tranclE)
  qed
  then have add: "add_dependency i d p = Inr ?p"
    using t Cons.prems(1) Cons.prems(5)[of d] by (simp add: add_dependency_def)
  have get: "get_step k ?p = get_step k p" for k by (simp add: get_step_def)
  have "restore_deps i ds ?p = Inr (?p\<lparr>pl_deps := pl_deps ?p @ map (Pair i) ds\<rparr>)"
    by (rule Cons.IH) (use Cons.prems t(1) in \<open>auto simp: get\<close>)
  then show ?case using t(2) add by (simp add: ok_then_def)
qed simp

lemma restore_links_all:
  assumes "\<And>ob. ob \<in> set obs \<Longrightarrow> get_obligation ob ol \<noteq> None" "distinct obs" "\<And>ob. ob \<in> set obs \<Longrightarrow> (i, ob) \<notin> set (pl_links p)"
  shows "restore_links i obs ol p = p\<lparr>pl_links := pl_links p @ map (Pair i) obs\<rparr>"
  using assms
proof (induction obs arbitrary: p)
  case (Cons ob obs)
  let ?p = "p\<lparr>pl_links := pl_links p @ [(i, ob)]\<rparr>"
  have "link_obligation i ob p = ?p" using Cons.prems(3)[of ob] by (simp add: link_obligation_def)
  moreover have "restore_links i obs ol ?p = ?p\<lparr>pl_links := pl_links ?p @ map (Pair i) obs\<rparr>"
    by (rule Cons.IH) (use Cons.prems in auto)
  ultimately show ?case using Cons.prems(1)[of ob] by (simp add: restore_links_def)
qed (simp add: restore_links_def)

lemma list_dependencies_append:
  "list_dependencies i (p\<lparr>pl_deps := ds @ map (Pair i) ks, pl_links := ls\<rparr>) = map snd (filter (\<lambda>(a, _). a = i) ds) @ ks"
  "list_obligations i (p\<lparr>pl_deps := es, pl_links := ds @ map (Pair i) ks\<rparr>) = map snd (filter (\<lambda>(a, _). a = i) ds) @ ks"
  by (simp_all add: list_dependencies_def list_obligations_def filter_map comp_def)

lemma undo_step_delete:
  assumes "wf_plan p" "distinct (pl_deps p)" "distinct (pl_links p)" "get_step i p = Some s"
    and "\<And>ob. ob \<in> set (list_obligations i p) \<Longrightarrow> get_obligation ob ol \<noteq> None"
    and "p1 = snd (delete_step now i p)"
  shows "get_step i p1 = None"
    and "\<exists>p2 p3. insert_step_at now' i (ps_node s) (index_from_ordinal (ps_ordinal s)) (ps_body s) p1 = Inr p2
      \<and> restore_deps i (sort (list_dependencies i p))
          (map_step i (\<lambda>t. t\<lparr>ps_status := ps_status s, ps_note := ps_note s, ps_reason := ps_reason s, ps_phase := ps_phase s\<rparr>) p2) = Inr p3
      \<and> step_as i p (restore_links i (sort (list_obligations i p)) ol p3)"
proof -
  let ?f = "\<lambda>t. t\<lparr>ps_status := ps_status s, ps_note := ps_note s, ps_reason := ps_reason s, ps_phase := ps_phase s\<rparr>"
  let ?ds = "sort (list_dependencies i p)" and ?obs = "sort (list_obligations i p)"
  have w1: "wf_plan p1" unfolding assms(6) by (rule wf_delete_step[OF assms(1)])
  note v = step_view_delete[OF wf_distinct[OF assms(1)] assms(6)]
  have deps1: "pl_deps p1 = filter (\<lambda>(a, b). a \<noteq> i \<and> b \<noteq> i) (pl_deps p)" and links1: "pl_links p1 = filter (\<lambda>(a, _). a \<noteq> i) (pl_links p)"
    using v(3,4) assms(4) by simp_all
  show gone: "get_step i p1 = None" using v(1)[of i] by (simp add: step_row_def)
  then have "i \<notin> ps_id ` set (pl_steps p1)" by (auto simp: get_step_def find_None_iff)
  then obtain p2 where p2: "insert_step_at now' i (ps_node s) (index_from_ordinal (ps_ordinal s)) (ps_body s) p1 = Inr p2"
    by (simp add: insert_step_at_def Let_def)
  note u = step_view_insert[OF w1 p2]
  obtain t where t: "get_step i p2 = Some t" using u(2)[of i] by (cases "get_step i p2") (auto simp: step_row_def)
  let ?p2 = "map_step i ?f p2"
  have get2: "get_step i ?p2 = Some (?f t)" by (simp add: get_map_step t)
  have t_row: "clear_step t = \<lparr>ps_id = i, ps_node = ps_node s, ps_ordinal = 0, ps_body = ps_body s, ps_status = STATUS_PENDING,
        ps_note = None, ps_reason = None, ps_phase = PHASE_ACTIVE, ps_updated = 0\<rparr>"
    using t u(2)[of i] by (simp add: step_row_def)
  then have same_t: "clear_step (?f t) = clear_step s"
    using get_step_Some[OF assms(4)] by (cases t; cases s) (simp add: clear_step_def)
  have row2: "step_row k ?p2 = step_row k p" for k
  proof (cases "k = i")
    case True
    then show ?thesis by (simp add: step_row_def get2 assms(4) same_t)
  next
    case False
    have "step_row k ?p2 = step_row k p2" using False by (simp add: step_row_def)
    then show ?thesis using False u(2)[of k] v(1)[of k] by simp
  qed
  have order2: "step_ids_for_node n ?p2 = step_ids_for_node n p" for n
  proof -
    have dense: "steps_dense p" using assms(1) by (simp add: wf_plan_def)
    have "step_ids_for_node n p2 = step_ids_for_node n p"
    proof (cases "n = ps_node s")
      case True
      then show ?thesis using step_put_back[OF dense assms(4)] by (simp add: u(3) v(2) Let_def)
    next
      case False
      have "ps_node r = ps_node s" if "r \<in> set (pl_steps p)" "ps_id r = i" for r
        using get_step_in[OF wf_distinct[OF assms(1)] that(1)] that(2) assms(4) by simp
      then have "i \<notin> set (step_ids_for_node n p)" using False by (auto simp: set_step_ids)
      then show ?thesis using False by (simp add: u(3) v(2) filter_absent)
    qed
    then show ?thesis by (simp add: order_map_step)
  qed
  have deps: "distinct ?ds" "d \<in> set ?ds \<Longrightarrow> (i, d) \<in> set (pl_deps p)" for d
    using assms(2) by (auto simp: list_dependencies_def distinct_map inj_on_def set_dependencies intro: distinct_filter)
  have obs: "distinct ?obs"
    using assms(3) by (auto simp: list_obligations_def distinct_map inj_on_def intro: distinct_filter)
  have ord: "ps_ordinal t = ps_ordinal s"
  proof -
    have "st.dense (pl_steps p)" "st.dense (pl_steps p2)" using assms(1) wf_insert_step[OF w1 p2] by (simp_all add: wf_plan_def)
    moreover have "group_ids ps_id ps_node ps_ordinal n (pl_steps p) = group_ids ps_id ps_node ps_ordinal n (pl_steps p2)" for n
      using order2[of n] by (simp add: order_map_step) (simp add: step_ids_for_node_def)
    moreover have "ps_node t = ps_node s" using arg_cong[OF t_row, of ps_node] by simp
    ultimately show ?thesis
      using st.dense_same get_step_Some[OF t] get_step_Some[OF assms(4)] by metis
  qed
  let ?p3 = "?p2\<lparr>pl_deps := pl_deps ?p2 @ map (Pair i) ?ds\<rparr>"
  have phase2: "ps_phase (?f t) = ps_phase s" by simp
  have p3: "restore_deps i ?ds ?p2 = Inr ?p3"
  proof (rule restore_deps_runs[OF get2 _ _ deps(1)])
    show "(a, i) \<notin> set (pl_deps ?p2)" for a by (simp add: u(4) deps1)
    show "(i, d) \<notin> set (pl_deps ?p2)" for d by (simp add: u(4) deps1)
    fix d assume d: "d \<in> set ?ds"
    then have e: "(i, d) \<in> set (pl_deps p)" by (rule deps(2))
    have ne: "d \<noteq> i" using e wf_plan_parts(3)[OF assms(1)] by (auto simp: acyclic_def dest: r_into_trancl)
    obtain r where r: "get_step d p = Some r" "dependency_allowed (ps_phase s) (ps_phase r)"
      using wf_plan_parts(4)[OF assms(1)] e assms(4) by (auto simp: dep_ok_def)
    obtain r2 where r2: "get_step d ?p2 = Some r2" "clear_step r2 = clear_step r"
      using row2[of d] r(1) by (cases "get_step d ?p2") (auto simp: step_row_def)
    then have "ps_phase r2 = ps_phase r" by (cases r; cases r2) (simp add: clear_step_def)
    then show "d \<noteq> i \<and> (\<exists>t'. get_step d ?p2 = Some t' \<and> dependency_allowed (ps_phase (?f t)) (ps_phase t'))"
      using ne r(2) r2(1) by simp
  qed
  have links: "restore_links i ?obs ol ?p3 = ?p3\<lparr>pl_links := pl_links ?p3 @ map (Pair i) ?obs\<rparr>"
    by (rule restore_links_all) (use assms(5) obs in \<open>auto simp: u(5) links1\<close>)
  have "step_as i p (restore_links i ?obs ol ?p3)"
    unfolding step_as_def
  proof
    have "list_dependencies i (restore_links i ?obs ol ?p3) = ?ds"
      unfolding links by (auto simp: list_dependencies_def filter_map comp_def u(4) deps1 split_beta filter_empty_conv)
    moreover have "list_obligations i (restore_links i ?obs ol ?p3) = ?obs"
      unfolding links by (auto simp: list_obligations_def filter_map comp_def u(5) links1 split_beta filter_empty_conv)
    moreover have "get_step i (restore_links i ?obs ol ?p3) = Some (?f t)"
      unfolding links using get2 by (simp add: get_step_def)
    moreover have "ps_ordinal t = ps_ordinal s" by (rule ord)
    ultimately show "step_snapshot i (restore_links i ?obs ol ?p3) = step_snapshot i p"
      using same_t assms(4) by (cases t; cases s) (simp add: step_snapshot_def clear_step_def sorted_sort_id)
  qed (unfold links, use order2 in \<open>simp add: step_ids_for_node_def\<close>)
  then show "\<exists>p2 p3. insert_step_at now' i (ps_node s) (index_from_ordinal (ps_ordinal s)) (ps_body s) p1 = Inr p2
      \<and> restore_deps i ?ds (map_step i ?f p2) = Inr p3 \<and> step_as i p (restore_links i ?obs ol p3)"
    using p2 p3 by blast
qed

section \<open>Undoing a change to a step\<close>

abbreviation plan_of :: "edit_db fallible \<Rightarrow> plan_db fallible" where
  "plan_of \<equiv> map_sum (\<lambda>e. e) ed_plan"

lemma plan_of_simps [simp]:
  "plan_of (on_plan f db) = f (ed_plan db)"
  "plan_of (execute now fresh m db) = plan_of (execute_rows now fresh m db)"
  "plan_of (ok_then x g) = ok_then x (\<lambda>a. plan_of (g a))"
  by (simp_all add: on_plan_def execute_def ok_then_def split: sum.split)

text \<open>What a change to the plan leaves of the rest.\<close>

lemma on_plan_around:
  "on_plan f db = Inr db' \<Longrightarrow> ed_caps db' = ed_caps db \<and> rb_nodes (ed_refs db') = rb_nodes (ed_refs db)
     \<and> ol_obligations (ed_outline db') = ol_obligations (ed_outline db)"
  by (auto simp: on_plan_def split: sum.splits)

lemma execute_same:
  "execute now fresh m db = Inr db' \<Longrightarrow> \<exists>db0. execute_rows now fresh m db = Inr db0 \<and> ed_caps db' = ed_caps db0
     \<and> rb_nodes (ed_refs db') = rb_nodes (ed_refs db0) \<and> ed_outline db' = ed_outline db0"
  by (auto simp: execute_def ok_then_def split: sum.splits)

text \<open>A step whose state now could be written by a mutation.\<close>

definition step_writable :: "uuid \<Rightarrow> edit_db \<Rightarrow> bool" where
  "step_writable i db =
     (case get_step i (ed_plan db) of
        None \<Rightarrow> True
      | Some s \<Rightarrow>
          reject_duplicate_plan_step (ps_node s) (Some i) (ps_body s) (ed_plan db) = Inr () \<and> nonblank (ps_note s) = ps_note s
          \<and> CapSpec \<in> set (ed_caps db (ps_node s)) \<and> get_node (ps_node s) (rb_nodes (ed_refs db)) \<noteq> None)"

text \<open>The foreign key and the key of the two link tables.\<close>

definition edges_ok :: "edit_db \<Rightarrow> bool" where
  "edges_ok db = (distinct (pl_deps (ed_plan db)) \<and> distinct (pl_links (ed_plan db))
     \<and> list_all (\<lambda>(_, ob). get_obligation ob (ed_outline db) \<noteq> None) (pl_links (ed_plan db)))"

lemma step_snapshot_Some: "get_step i p = Some s \<Longrightarrow>
   step_snapshot i p = Some (SnPlanStep (ps_node s) (ps_ordinal s) (ps_body s) (ps_status s) (ps_note s) (ps_reason s)
     (sort (list_dependencies i p)) (sort (list_obligations i p)) (ps_phase s))"
  by (simp add: step_snapshot_def)

lemma fold_link_same:
  "pl_steps (restore_links i obs ol p) = pl_steps p \<and> pl_deps (restore_links i obs ol p) = pl_deps p"
  unfolding restore_links_def by (induction obs arbitrary: p) (auto simp: link_obligation_def)

lemma restore_deps_steps: "restore_deps i ds p = Inr p' \<Longrightarrow> pl_steps p' = pl_steps p"
proof (induction ds arbitrary: p)
  case (Cons d ds)
  show ?case
  proof (cases "get_step d p = None")
    case False
    then obtain q where q: "add_dependency i d p = Inr q" "restore_deps i ds q = Inr p'"
      using Cons.prems(1) by (auto simp: ok_then_def split: sum.splits)
    have "pl_steps q = pl_steps p" using q(1) by (auto simp: add_dependency_def split: if_splits option.splits)
    then show ?thesis using Cons.IH[OF q(2)] by simp
  qed (use Cons in simp)
qed simp

lemma step_mutation_keeps:
  assumes "classify_text m = Some (k, EPlanStep, i) \<or> m = RestorePlanStep i snap" "execute_rows now fresh m db = Inr db0"
  shows "ed_caps db0 = ed_caps db \<and> rb_nodes (ed_refs db0) = rb_nodes (ed_refs db)
     \<and> ol_obligations (ed_outline db0) = ol_obligations (ed_outline db)"
proof -
  have "\<exists>f. on_plan f db = Inr db0"
  proof (cases "m = RestorePlanStep i snap")
    case True
    then show ?thesis using assms(2)
      by (auto simp: restore_plan_step_def ok_then_Inr split: entity_snapshot.splits if_splits)
  next
    case False
    then have cl: "classify_text m = Some (k, EPlanStep, i)" using assms(1) by blast
    show ?thesis
      using cl assms(2) by (cases m) (auto simp: create_plan_step_def ok_then_Inr split: option.splits if_splits)
  qed
  then show ?thesis using on_plan_around by blast
qed

lemma prior_step_Some: "get_step i p = Some s \<Longrightarrow>
   prior_step a (step_snapshot i p) f = Inr (f (ps_ordinal s) (ps_body s) (ps_status s) (ps_note s) (ps_reason s)
     (sort (list_dependencies i p)) (sort (list_obligations i p)) (ps_phase s))"
  by (simp add: prior_step_def step_snapshot_Some)

lemma reorder_step_view:
  assumes "wf_plan p" "get_step i p = Some s" "reorder_step now i (direction_delta dir) p = Inr p1"
  shows "step_row i p1 = step_row i p" "pl_deps p1 = pl_deps p" "pl_links p1 = pl_links p"
    and "n \<noteq> ps_node s \<Longrightarrow> step_ids_for_node n p1 = step_ids_for_node n p"
    and "filter (\<lambda>k. k \<noteq> i) (step_ids_for_node (ps_node s) p1) = filter (\<lambda>k. k \<noteq> i) (step_ids_for_node (ps_node s) p)"
proof -
  let ?ids = "step_ids_for_node (ps_node s) p"
  have d: "distinct ?ids" by (rule step_ids_distinct[OF assms(1)])
  have "p1 = p \<or> (\<exists>ids. p1 = write_step_ordinals now (ps_node s) ids p \<and> distinct ids \<and> set ids = set ?ids
      \<and> filter (\<lambda>k. k \<noteq> i) ids = filter (\<lambda>k. k \<noteq> i) ?ids)"
  proof (cases "pos_in ?ids i")
    case None
    then show ?thesis using assms(2,3) by (simp add: reorder_step_def Let_def)
  next
    case (Some pos)
    have pos: "pos < length ?ids" "?ids ! pos = i" using pos_in_Some[OF Some] by auto
    let ?new = "int pos + direction_delta dir"
    show ?thesis
    proof (cases "?new < 0 \<or> int (length ?ids) \<le> ?new")
      case True
      then show ?thesis using assms(2,3) Some by (simp add: reorder_step_def Let_def)
    next
      case False
      let ?sw = "swap_nth pos (nat ?new) ?ids"
      have p1: "p1 = write_step_ordinals now (ps_node s) ?sw p"
        using assms(2,3) Some False by (simp add: reorder_step_def Let_def)
      have "filter (\<lambda>k. k \<noteq> i) ?sw = filter (\<lambda>k. k \<noteq> i) ?ids"
        using filter_swap_nth[OF pos] False by simp
      moreover have "distinct ?sw" "set ?sw = set ?ids"
        using d pos(1) False by (simp_all add: nat_less_iff)
      ultimately show ?thesis using p1 by blast
    qed
  qed
  then show "step_row i p1 = step_row i p" "pl_deps p1 = pl_deps p" "pl_links p1 = pl_links p"
    "n \<noteq> ps_node s \<Longrightarrow> step_ids_for_node n p1 = step_ids_for_node n p"
    "filter (\<lambda>k. k \<noteq> i) (step_ids_for_node (ps_node s) p1) = filter (\<lambda>k. k \<noteq> i) (step_ids_for_node (ps_node s) p)"
    using step_order_ordinals[OF _ wf_distinct[OF assms(1)], of _ "ps_node s"] by (auto simp: set_step_ids)
qed

lemma place_step_view:
  assumes "wf_plan p" "get_step i p = Some s" "place_step_at now i index p = Inr p1"
  shows "step_row i p1 = step_row i p" "pl_deps p1 = pl_deps p" "pl_links p1 = pl_links p"
    and "n \<noteq> ps_node s \<Longrightarrow> step_ids_for_node n p1 = step_ids_for_node n p"
    and "filter (\<lambda>k. k \<noteq> i) (step_ids_for_node (ps_node s) p1) = filter (\<lambda>k. k \<noteq> i) (step_ids_for_node (ps_node s) p)"
proof -
  let ?fl = "filter (\<lambda>k. k \<noteq> i) (step_ids_for_node (ps_node s) p)"
  let ?ids = "insert_nth (min index (length ?fl)) i ?fl"
  have p1: "p1 = write_step_ordinals now (ps_node s) ?ids p" using assms(2,3) by (simp add: place_step_at_def Let_def)
  have d: "distinct ?ids" using step_ids_distinct[OF assms(1)] by simp
  have s: "set ?ids = ps_id ` {r \<in> set (pl_steps p). ps_node r = ps_node s}"
    using row_in_step_order[OF assms(2)] by (auto simp flip: set_step_ids)
  note o' = step_order_ordinals[OF d wf_distinct[OF assms(1)] s]
  show "step_row i p1 = step_row i p" "pl_deps p1 = pl_deps p" "pl_links p1 = pl_links p" by (simp_all add: p1)
  show "n \<noteq> ps_node s \<Longrightarrow> step_ids_for_node n p1 = step_ids_for_node n p" by (simp add: p1 o')
  show "filter (\<lambda>k. k \<noteq> i) (step_ids_for_node (ps_node s) p1) = filter (\<lambda>k. k \<noteq> i) (step_ids_for_node (ps_node s) p)"
    by (simp add: p1 o' filter_insert_nth)
qed

lemma restored_step:
  assumes "wf_plan p" "insert_step_at now i n index body p = Inr q1"
    and "restore_deps i ds (map_step i (\<lambda>s. s\<lparr>ps_status := status, ps_note := note, ps_reason := reason, ps_phase := phase\<rparr>) q1) = Inr q2"
    and "p1 = restore_links i obs ol q2"
  shows "step_as i p (snd (delete_step now' i p1))"
proof -
  let ?q = "map_step i (\<lambda>s. s\<lparr>ps_status := status, ps_note := note, ps_reason := reason, ps_phase := phase\<rparr>) q1"
  have steps: "pl_steps q2 = pl_steps ?q" by (rule restore_deps_steps[OF assms(3)])
  have "step_ids_for_node n p1 = step_ids_for_node n q1" for n
    using steps fold_link_same[of i obs ol q2] order_map_step[of _ n i q1]
    by (simp add: assms(4) step_ids_for_node_def)
  moreover have "distinct (map ps_id (pl_steps p1))"
    using wf_distinct[OF wf_insert_step[OF assms(1,2)]] fold_link_same[of i obs ol q2]
    by (simp add: assms(4) steps map_step_def comp_def if_distrib cong: if_cong)
  ultimately show ?thesis using undo_step_insert[OF assms(1,2)] by blast
qed

lemma step_undone:
  assumes "wf_plan (ed_plan db)" "edges_ok db" "classify_text m = Some (k, EPlanStep, i) \<or> m = RestorePlanStep i snap"
    and "execute now fresh m db = Inr db1"
    and "step_snapshot i (ed_plan db) \<noteq> None \<or> step_snapshot i (ed_plan db1) \<noteq> None"
    and "step_writable i db"
  shows "\<exists>m' db2. inverse_text a i (step_snapshot i (ed_plan db)) m = Inr m' \<and> execute now' fresh' m' db1 = Inr db2
     \<and> step_snapshot i (ed_plan db2) = step_snapshot i (ed_plan db)
     \<and> (\<forall>n. step_ids_for_node n (ed_plan db2) = step_ids_for_node n (ed_plan db))"
proof -
  let ?p = "ed_plan db" and ?p1 = "ed_plan db1"
  have out: "plan_of (execute_rows now fresh m db) = Inr ?p1"
    using arg_cong[OF assms(4), of plan_of] by simp
  have env: "ed_caps db1 = ed_caps db" "rb_nodes (ed_refs db1) = rb_nodes (ed_refs db)"
      "ol_obligations (ed_outline db1) = ol_obligations (ed_outline db)"
    using execute_same[OF assms(4)] step_mutation_keeps[OF assms(3)] by metis+
  have known: "get_obligation ob (ed_outline db1) \<noteq> None" if "ob \<in> set (list_obligations i ?p)" for ob
    using that assms(2) by (auto simp: edges_ok_def list_all_iff list_obligations_def get_obligation_def env)
  have d: "distinct (pl_deps ?p)" "distinct (pl_links ?p)" using assms(2) by (simp_all add: edges_ok_def)
  have ok: "reject_duplicate_plan_step (ps_node s) (Some i) (ps_body s) ?p = Inr ()" "nonblank (ps_note s) = ps_note s"
      "CapSpec \<in> set (ed_caps db (ps_node s))" "get_node (ps_node s) (rb_nodes (ed_refs db)) \<noteq> None"
    if "get_step i ?p = Some s" for s
    using assms(6) that by (simp_all add: step_writable_def)
  have undo: ?thesis if "inverse_text a i (step_snapshot i ?p) m = Inr m'"
      "plan_of (execute_rows now' fresh' m' db1) = Inr p2" "step_as i ?p p2" for m' p2
  proof -
    have "plan_of (execute now' fresh' m' db1) = Inr p2" using that(2) by simp
    then obtain db2 where "execute now' fresh' m' db1 = Inr db2" "ed_plan db2 = p2"
      by (cases "execute now' fresh' m' db1") auto
    then show ?thesis using that(1,3) by (auto simp: step_as_def)
  qed
  have exists: "\<exists>s. get_step i ?p = Some s" if "get_step i ?p1 \<noteq> None \<Longrightarrow> get_step i ?p \<noteq> None"
    using that assms(5) by (auto simp: step_snapshot_def)
  show ?thesis
  proof (cases "m = RestorePlanStep i snap")
    case True
    obtain n ord body status nt reason ds obs phase where snap: "snap = SnPlanStep n ord body status nt reason ds obs phase"
      using out True by (cases snap) (auto simp: restore_plan_step_def)
    obtain q1 q2 where q: "insert_step_at now i n (index_from_ordinal ord) body ?p = Inr q1"
      "restore_deps i ds (map_step i (\<lambda>s. s\<lparr>ps_status := status, ps_note := nt, ps_reason := reason, ps_phase := phase\<rparr>) q1) = Inr q2"
      "?p1 = restore_links i obs (ed_outline db) q2"
      using out by (auto simp: True snap restore_plan_step_def ok_then_Inr split: if_splits)
    show ?thesis
      using restored_step[OF assms(1) q] undo[of "DeletePlanStep i"] by (simp add: True)
  next
    case False
    then have cl: "classify_text m = Some (k, EPlanStep, i)" using assms(3) by blast
    show ?thesis
    proof (cases m)
      case (CreatePlanStep i' n after before body)
      then obtain index where ins: "insert_step_at now i n index body ?p = Inr ?p1"
        using cl out by (auto simp: create_plan_step_def ok_then_Inr)
      show ?thesis
        using undo_step_insert[OF assms(1) ins wf_distinct[OF wf_insert_step[OF assms(1) ins]] refl] undo[of "DeletePlanStep i"] by (simp add: CreatePlanStep)
    next
      case (UpdatePlanStepBody j body)
      then obtain s where s: "get_step i ?p = Some s" and up: "update_step_body now i body ?p = Inr ?p1"
        using cl out by (auto simp: ok_then_Inr split: option.splits)
      obtain p2 s1 where p2: "get_step i ?p1 = Some s1" "reject_duplicate_plan_step (ps_node s1) (Some i) (ps_body s) ?p1 = Inr ()"
          "update_step_body now' i (ps_body s) ?p1 = Inr p2" "step_as i ?p p2"
        using undo_step_body[OF assms(1) s up ok(1)[OF s]] by blast
      show ?thesis
        by (rule undo[of "UpdatePlanStepBody i (ps_body s)" p2])
          (use p2 in \<open>simp_all add: UpdatePlanStepBody prior_step_Some[OF s] ok_then_def\<close>)
    next
      case (UpdatePlanStepStatus j status nt reason)
      then have up: "update_step_status now i status nt reason ?p = Inr ?p1" using cl out by simp
      then obtain s where s: "get_step i ?p = Some s" by (auto simp: update_step_status_def has_step_get split: if_splits)
      obtain p2 where p2: "update_step_status now' i (ps_status s) (ps_note s) (ps_reason s) ?p1 = Inr p2" "step_as i ?p p2"
        using undo_status[OF assms(1) up s ok(2)[OF s]] by blast
      show ?thesis
        by (rule undo[OF _ _ p2(2), of "UpdatePlanStepStatus i (ps_status s) (ps_note s) (ps_reason s)"])
          (simp_all add: UpdatePlanStepStatus prior_step_Some[OF s] p2(1))
    next
      case (SetPlanStepPhase j phase)
      then have up: "set_step_phase now i phase ?p = Inr ?p1" using cl out by simp
      then obtain s where s: "get_step i ?p = Some s" by (auto simp: set_step_phase_def has_step_get split: if_splits option.splits)
      obtain p2 where p2: "set_step_phase now' i (ps_phase s) ?p1 = Inr p2" "step_as i ?p p2"
        using undo_step_phase[OF assms(1) s up] by blast
      show ?thesis
        by (rule undo[OF _ _ p2(2), of "SetPlanStepPhase i (ps_phase s)"]) (simp_all add: SetPlanStepPhase prior_step_Some[OF s] p2(1))
    next
      case (DeletePlanStep j)
      then have del: "?p1 = snd (delete_step now i ?p)" using cl out by simp
      obtain s where s: "get_step i ?p = Some s"
        using exists by (cases "get_step i ?p") (simp_all add: del delete_step_def)
      note u = undo_step_delete[OF assms(1) d s known del]
      obtain p2 p3 where p: "insert_step_at now' i (ps_node s) (index_from_ordinal (ps_ordinal s)) (ps_body s) ?p1 = Inr p2"
        "restore_deps i (sort (list_dependencies i ?p))
          (map_step i (\<lambda>t. t\<lparr>ps_status := ps_status s, ps_note := ps_note s, ps_reason := ps_reason s, ps_phase := ps_phase s\<rparr>) p2) = Inr p3"
        "step_as i ?p (restore_links i (sort (list_obligations i ?p)) (ed_outline db1) p3)"
        using u(2)[of now'] by blast
      have known_status: "ps_status s \<in> set PLAN_STEP_STATUSES" using wf_plan_parts(2)[OF assms(1)] get_step_Some[OF s] by blast
      obtain nd where nd: "get_node (ps_node s) (rb_nodes (ed_refs db)) = Some nd" using ok(4)[OF s] by auto
      show ?thesis
      proof (rule undo[OF _ _ p(3)])
        show "inverse_text a i (step_snapshot i ?p) m = Inr (RestorePlanStep i (SnPlanStep (ps_node s) (ps_ordinal s) (ps_body s)
            (ps_status s) (ps_note s) (ps_reason s) (sort (list_dependencies i ?p)) (sort (list_obligations i ?p)) (ps_phase s)))"
          by (simp add: DeletePlanStep step_snapshot_Some[OF s])
        show "plan_of (execute_rows now' fresh' (RestorePlanStep i (SnPlanStep (ps_node s) (ps_ordinal s) (ps_body s)
            (ps_status s) (ps_note s) (ps_reason s) (sort (list_dependencies i ?p)) (sort (list_obligations i ?p)) (ps_phase s))) db1)
            = Inr (restore_links i (sort (list_obligations i ?p)) (ed_outline db1) p3)"
          using ok(3)[OF s] known_status nd u(1) p(1,2) by (simp add: restore_plan_step_def ok_then_def require_spec_def env)
      qed
    next
      case (ReorderPlanStep j dir)
      then have ro: "reorder_step now i (direction_delta dir) ?p = Inr ?p1" using cl out by simp
      then obtain s where s: "get_step i ?p = Some s" by (auto simp: reorder_step_def split: option.splits)
      obtain p2 where p2: "place_step_at now' i (index_from_ordinal (ps_ordinal s)) ?p1 = Inr p2" "step_as i ?p p2"
        using undo_step_order[OF assms(1) wf_reorder_step[OF assms(1) ro] s reorder_step_view[OF assms(1) s ro]] by blast
      show ?thesis
        by (rule undo[OF _ _ p2(2), of "PlacePlanStep i (ps_ordinal s)"]) (simp_all add: ReorderPlanStep prior_step_Some[OF s] p2(1))
    next
      case (PlacePlanStep j ord)
      then have pl: "place_step_at now i (index_from_ordinal ord) ?p = Inr ?p1" using cl out by simp
      then obtain s where s: "get_step i ?p = Some s" by (auto simp: place_step_at_def split: option.splits)
      obtain p2 where p2: "place_step_at now' i (index_from_ordinal (ps_ordinal s)) ?p1 = Inr p2" "step_as i ?p p2"
        using undo_step_order[OF assms(1) wf_place_step[OF assms(1) pl] s place_step_view[OF assms(1) s pl]] by blast
      show ?thesis
        by (rule undo[OF _ _ p2(2), of "PlacePlanStep i (ps_ordinal s)"]) (simp_all add: PlacePlanStep prior_step_Some[OF s] p2(1))
    next
      case (AddPlanStepDependency j on)
      then have add: "add_dependency i on ?p = Inr ?p1" using cl out by simp
      then obtain s where s: "get_step i ?p = Some s" by (auto simp: add_dependency_def split: if_splits option.splits)
      obtain p2 where p2: "(if on \<in> set (list_dependencies i ?p) then add_dependency i on ?p1 else Inr (remove_dependency i on ?p1)) = Inr p2"
          "step_as i ?p p2"
        using undo_add_dependency[OF assms(1) add] by blast
      show ?thesis
        by (rule undo[OF _ _ p2(2), of "put_dependency i on (sort (list_dependencies i ?p))"])
          (use p2(1) in \<open>simp_all add: AddPlanStepDependency prior_step_Some[OF s] put_dependency_def split: if_splits\<close>)
    next
      case (RemovePlanStepDependency j on)
      then have rm: "?p1 = remove_dependency i on ?p" using cl out by simp
      obtain s where s: "get_step i ?p = Some s" using exists by (auto simp: rm remove_dependency_def get_step_def)
      obtain p2 where p2: "(if on \<in> set (list_dependencies i ?p) then add_dependency i on ?p1 else Inr (remove_dependency i on ?p1)) = Inr p2"
          "step_as i ?p p2"
        using undo_remove_dependency[OF assms(1) d(1), where i = i and d = on, folded rm] by blast
      show ?thesis
        by (rule undo[OF _ _ p2(2), of "put_dependency i on (sort (list_dependencies i ?p))"])
          (use p2(1) in \<open>simp_all add: RemovePlanStepDependency prior_step_Some[OF s] put_dependency_def split: if_splits\<close>)
    next
      case (LinkPlanStepObligation j ob)
      then obtain s where s: "get_step i ?p = Some s" and ln: "?p1 = link_obligation i ob ?p"
        using cl out by (auto split: if_splits)
      have "get_step i ?p1 \<noteq> None" using s by (simp add: ln link_obligation_def get_step_def)
      then show ?thesis
        using undo_link[OF assms(1), of i ob] known[of ob]
        by (intro undo[of "put_link i ob (sort (list_obligations i ?p))"])
          (auto simp: LinkPlanStepObligation prior_step_Some[OF s] put_link_def ln split: if_splits)
    next
      case (UnlinkPlanStepObligation j ob)
      then have ln: "?p1 = unlink_obligation i ob ?p" using cl out by simp
      obtain s where s: "get_step i ?p = Some s" using exists by (auto simp: ln unlink_obligation_def get_step_def)
      have "get_step i ?p1 \<noteq> None" using s by (simp add: ln unlink_obligation_def get_step_def)
      then show ?thesis
        using undo_unlink[OF assms(1) d(2), of i ob] known[of ob]
        by (intro undo[of "put_link i ob (sort (list_obligations i ?p))"])
          (auto simp: UnlinkPlanStepObligation prior_step_Some[OF s] put_link_def ln split: if_splits)
    qed (use cl in simp_all)
  qed
qed


lemma sample_plan_sound: "wf_plan sample_plan"
proof -
  have "wf_plan (map_step 1 (\<lambda>s. s\<lparr>ps_status := STATUS_IN_PROGRESS\<rparr>) (map_step 1 (\<lambda>s. s\<lparr>ps_status := STATUS_IMPLEMENTED\<rparr>) sample_plan))"
    by (rule wf_map_step[OF sample_plan_wf]) (simp_all add: PLAN_STEP_STATUSES_def)
  moreover have "map_step 1 (\<lambda>s. s\<lparr>ps_status := STATUS_IN_PROGRESS\<rparr>) (map_step 1 (\<lambda>s. s\<lparr>ps_status := STATUS_IMPLEMENTED\<rparr>) sample_plan) = sample_plan"
    by (simp add: map_step_def sample_plan_def)
  ultimately show ?thesis by simp
qed


end
