(* ===== verification/ActionLog.thy ===== *)
theory ActionLog
  imports UndoSteps Conversations
begin

text \<open>
  The log of recorded changes (\<^verbatim>\<open>conversation_actions\<close>): applying a change with its row, reversing rows, and what reversal chains
  say of a row (\<^verbatim>\<open>conversation/record.rs\<close>, \<^verbatim>\<open>conversation/inverse.rs\<close>, \<^verbatim>\<open>conversation/project.rs\<close>). The log here is one of changes
  to obligations and plan steps: its mutations are those of the theory Mutations.
\<close>

section \<open>Rows\<close>

datatype action_actor = ByAgent | ByUser

record action_row =
  al_id :: int
  al_conversation :: "uuid option"
  al_source :: string
  al_turn :: nat
  al_actor :: action_actor
  al_kind :: action_kind
  al_entity :: entity
  al_item :: uuid
  al_node :: "uuid option"
  al_mutation :: text_mutation
  al_before :: "entity_snapshot option"
  al_after :: "entity_snapshot option"
  al_reverses :: "int option"
  al_reversed_by :: "int option"
  al_at :: ms

text \<open>The store: the edited tables, the log with its next row id, the conversations, the flags, the queue of
  incoming changes, and what fanning out reads besides: the outline's edges and the nodes' stays.\<close>

record log_db =
  lg_edit :: edit_db
  lg_rows :: "action_row list"
  lg_next :: int
  lg_convs :: conv_db
  lg_flags :: "((uuid \<times> entity \<times> uuid) \<times> string) list"
  lg_queue :: incoming_queue
  lg_entries :: "(uuid \<times> uuid) list"
  lg_stays :: "uuid \<Rightarrow> (string \<times> ms) option"

definition log_tree :: "log_db \<Rightarrow> tree_db" where
  "log_tree db =
     \<lparr>tr_entries = lg_entries db, tr_references = map snd (rb_edges (ed_refs (lg_edit db))),
      tr_spec = filter (\<lambda>n. CapSpec \<in> set (ed_caps (lg_edit db) n)) (map nd_id (rb_nodes (ed_refs (lg_edit db)))),
      tr_stays = lg_stays db\<rparr>"

abbreviation SOURCE_CONVERSATION :: string where "SOURCE_CONVERSATION \<equiv> ''conversation''"
abbreviation ACTOR_USER :: string where "ACTOR_USER \<equiv> ''user''"

definition item_snapshot :: "entity \<Rightarrow> uuid \<Rightarrow> edit_db \<Rightarrow> entity_snapshot option" where
  "item_snapshot e i db =
     (case e of EObligation \<Rightarrow> obligation_snapshot i (ed_outline db) | EPlanStep \<Rightarrow> step_snapshot i (ed_plan db) | _ \<Rightarrow> None)"

definition snapshot_node :: "uuid \<Rightarrow> entity_snapshot \<Rightarrow> uuid" where
  "snapshot_node i s =
     (case s of SnNode _ _ _ _ \<Rightarrow> i | SnObligation n _ _ _ _ _ _ _ \<Rightarrow> n | SnPlanStep n _ _ _ _ _ _ _ _ \<Rightarrow> n | SnCapabilities n _ _ \<Rightarrow> n)"

fun normalize_text :: "uuid \<Rightarrow> text_mutation \<Rightarrow> text_mutation" where
  "normalize_text fresh (CreateObligation i n kind anchor before section body phase) =
     CreateObligation (Some (unwrap_or fresh i)) n kind anchor before section body phase"
| "normalize_text fresh (CreatePlanStep i n anchor before body) = CreatePlanStep (Some (unwrap_or fresh i)) n anchor before body"
| "normalize_text fresh m = m"

definition conversation_actions :: "uuid \<Rightarrow> log_db \<Rightarrow> action_row list" where
  "conversation_actions c db = sort_key al_id (filter (\<lambda>a. al_conversation a = Some c) (lg_rows db))"

definition find_action :: "int \<Rightarrow> action_row list \<Rightarrow> action_row option" where
  "find_action a rows = find (\<lambda>r. al_id r = a) rows"

section \<open>Recording a change\<close>

record recorded =
  rc_conversation :: "uuid option"
  rc_source :: string
  rc_actor :: action_actor
  rc_turn :: nat
  rc_kind :: action_kind
  rc_entity :: entity
  rc_item :: uuid
  rc_reverses :: "int option"

definition touch_conversation :: "ms \<Rightarrow> uuid option \<Rightarrow> conv_db \<Rightarrow> conv_db" where
  "touch_conversation now c cv = (case c of Some i \<Rightarrow> map_conversation i (\<lambda>v. v\<lparr>c_updated := now\<rparr>) cv | None \<Rightarrow> cv)"

text \<open>The row's insert and what follows it: the original is marked and its queued entries cancelled, the change
  fans out unless it reverses an original, and the conversation is touched.\<close>

definition log_row ::
    "ms \<Rightarrow> recorded \<Rightarrow> text_mutation \<Rightarrow> entity_snapshot option \<Rightarrow> entity_snapshot option \<Rightarrow> log_db \<Rightarrow> log_db" where
  "log_row now rc m before after db =
     (let i = lg_next db;
          row = \<lparr>al_id = i, al_conversation = rc_conversation rc, al_source = rc_source rc, al_turn = rc_turn rc,
                 al_actor = rc_actor rc, al_kind = rc_kind rc, al_entity = rc_entity rc, al_item = rc_item rc,
                 al_node = map_option (snapshot_node (rc_item rc)) (case after of Some s \<Rightarrow> Some s | None \<Rightarrow> before),
                 al_mutation = m, al_before = before, al_after = after, al_reverses = rc_reverses rc,
                 al_reversed_by = None, al_at = now\<rparr>;
          rows = lg_rows db @ [row];
          (rows, queue) = (case rc_reverses rc of
              Some a \<Rightarrow> (map (\<lambda>r. if al_id r = a then r\<lparr>al_reversed_by := Some i\<rparr> else r) rows, cancel_incoming a (lg_queue db))
            | None \<Rightarrow> (rows, lg_queue db));
          reapplies = (case rc_reverses rc of
              None \<Rightarrow> True
            | Some a \<Rightarrow> is_some_and (\<lambda>r. al_kind r = ActReverse) (find_action a rows))
      in db\<lparr>lg_rows := rows, lg_next := i + 1,
            lg_queue := (if reapplies then fan_out (log_tree db) i (rc_entity rc = EObligation) before after now queue else queue),
            lg_convs := touch_conversation now (rc_conversation rc) (lg_convs db)\<rparr>)"

definition apply_recorded :: "ms \<Rightarrow> uuid \<Rightarrow> recorded \<Rightarrow> text_mutation \<Rightarrow> log_db \<Rightarrow> (int option \<times> log_db) fallible" where
  "apply_recorded now fresh rc m db =
     ok_then
       (case rc_conversation rc of
          Some c \<Rightarrow> if get_conversation c (lg_convs db) = None then Inl (''conversation '' @ show_uuid c @ '' not found'') else Inr ()
        | None \<Rightarrow> Inr ()) (\<lambda>_.
     ok_then (execute now fresh m (lg_edit db)) (\<lambda>edit.
       let before = item_snapshot (rc_entity rc) (rc_item rc) (lg_edit db);
           after = item_snapshot (rc_entity rc) (rc_item rc) edit;
           db1 = db\<lparr>lg_edit := edit\<rparr>;
           unchanged = (if rc_conversation rc \<noteq> None \<and> rc_entity rc \<noteq> ECapabilities then before = None \<and> after = None
                        else before = after)
       in if unchanged \<and> rc_reverses rc = None then Inr (None, db1)
          else if (rc_conversation rc \<noteq> None) \<noteq> (rc_source rc = SOURCE_CONVERSATION)
          then Inl ''CHECK constraint failed: conversation_actions''
          else Inr (Some (lg_next db), log_row now rc m before after db1)))"

text \<open>A mutation that is not recorded is only executed.\<close>

definition only_execute :: "ms \<Rightarrow> uuid \<Rightarrow> text_mutation \<Rightarrow> log_db \<Rightarrow> (int option \<times> log_db) fallible" where
  "only_execute now fresh m db = ok_then (execute now fresh m (lg_edit db)) (\<lambda>edit. Inr (None, db\<lparr>lg_edit := edit\<rparr>))"

definition record_and_execute ::
    "ms \<Rightarrow> uuid \<Rightarrow> uuid \<Rightarrow> action_actor \<Rightarrow> nat \<Rightarrow> text_mutation \<Rightarrow> log_db \<Rightarrow> (int option \<times> log_db) fallible" where
  "record_and_execute now fresh c actor seq m0 db =
     (let m = normalize_text fresh m0
      in case classify_text m of
           None \<Rightarrow> only_execute now fresh m db
         | Some (kind, e, i) \<Rightarrow>
             apply_recorded now fresh
               \<lparr>rc_conversation = Some c, rc_source = SOURCE_CONVERSATION, rc_actor = actor, rc_turn = seq, rc_kind = kind,
                rc_entity = e, rc_item = i, rc_reverses = None\<rparr> m db)"

definition direct_actor :: "string \<Rightarrow> action_actor" where
  "direct_actor writer = (if writer = ACTOR_USER then ByUser else ByAgent)"

definition record_direct :: "ms \<Rightarrow> uuid \<Rightarrow> string \<Rightarrow> text_mutation \<Rightarrow> log_db \<Rightarrow> (int option \<times> log_db) fallible" where
  "record_direct now fresh writer m db =
     (case classify_text m of
        None \<Rightarrow> only_execute now fresh m db
      | Some (kind, e, i) \<Rightarrow>
          apply_recorded now fresh
            \<lparr>rc_conversation = None, rc_source = writer, rc_actor = direct_actor writer, rc_turn = 0, rc_kind = kind,
             rc_entity = e, rc_item = i, rc_reverses = None\<rparr> m db)"

definition reversal_of :: "action_row \<Rightarrow> recorded" where
  "reversal_of a =
     \<lparr>rc_conversation = al_conversation a, rc_source = al_source a, rc_actor = ByUser, rc_turn = al_turn a, rc_kind = ActReverse,
      rc_entity = al_entity a, rc_item = al_item a, rc_reverses = Some (al_id a)\<rparr>"

definition record_undo :: "ms \<Rightarrow> uuid \<Rightarrow> int \<Rightarrow> text_mutation \<Rightarrow> log_db \<Rightarrow> (int option \<times> log_db) fallible" where
  "record_undo now fresh original m db =
     (case opt_filter (\<lambda>a. al_reversed_by a = None) (find_action original (lg_rows db)) of
        None \<Rightarrow> only_execute now fresh m db
      | Some a \<Rightarrow> apply_recorded now fresh (reversal_of a) m db)"

section \<open>Flags\<close>

definition entity_str :: "entity \<Rightarrow> string" where
  "entity_str e = (case e of ENode \<Rightarrow> ''node'' | EObligation \<Rightarrow> ''obligation'' | EPlanStep \<Rightarrow> ''plan_step'' | ECapabilities \<Rightarrow> ''capabilities'')"

definition clear_flag :: "uuid \<Rightarrow> entity \<Rightarrow> uuid \<Rightarrow> log_db \<Rightarrow> log_db" where
  "clear_flag c e i db = db\<lparr>lg_flags := filter (\<lambda>(k, _). k \<noteq> (c, e, i)) (lg_flags db)\<rparr>"

definition flag_item :: "uuid \<Rightarrow> entity \<Rightarrow> uuid \<Rightarrow> string \<Rightarrow> log_db \<Rightarrow> log_db fallible" where
  "flag_item c e i reason0 db =
     (let reason = trim reason0
      in if reason = [] then Inl ''a flag needs a reason''
         else if \<not> list_ex (\<lambda>a. al_conversation a = Some c \<and> al_entity a = e \<and> al_item a = i) (lg_rows db)
         then Inl (''this conversation has not changed '' @ map (\<lambda>ch. if ch = CHR 0x5F then CHR '' '' else ch) (entity_str e)
                   @ '' '' @ short_id i @ ''; only items it changed can be flagged'')
         else Inr (db\<lparr>lg_flags := (if list_ex (\<lambda>(k, _). k = (c, e, i)) (lg_flags db)
                    then map (\<lambda>(k, r). if k = (c, e, i) then (k, reason) else (k, r)) (lg_flags db)
                    else lg_flags db @ [((c, e, i), reason)])\<rparr>))"

definition apply_user_edit :: "ms \<Rightarrow> uuid \<Rightarrow> uuid \<Rightarrow> text_mutation \<Rightarrow> log_db \<Rightarrow> (int option \<times> log_db) fallible" where
  "apply_user_edit now fresh c m0 db =
     (if get_conversation c (lg_convs db) = None then Inl (''conversation '' @ show_uuid c @ '' not found'')
      else
        let seq = max_user_seq c (lg_convs db);
            m = normalize_text fresh m0;
            db1 = (case classify_text m of Some (_, e, i) \<Rightarrow> clear_flag c e i db | None \<Rightarrow> db)
        in record_and_execute now fresh c ByUser seq m db1)"

section \<open>Reversal chains\<close>

text \<open>The two \<^verbatim>\<open>while let\<close> loops along \<^verbatim>\<open>reversed_by\<close>; \<open>None\<close> is a loop that does not end.\<close>

definition next_reversal :: "action_row list \<Rightarrow> int \<Rightarrow> int option" where
  "next_reversal rows i = (case find_action i rows of Some r \<Rightarrow> al_reversed_by r | None \<Rightarrow> None)"

partial_function (option) head_loop :: "action_row list \<Rightarrow> int \<Rightarrow> int option" where
  "head_loop rows head = (case next_reversal rows head of None \<Rightarrow> Some head | Some i \<Rightarrow> head_loop rows i)"

partial_function (option) undone_loop :: "action_row list \<Rightarrow> bool \<Rightarrow> int option \<Rightarrow> bool option" where
  "undone_loop rows u i = (case i of None \<Rightarrow> Some u | Some i \<Rightarrow> undone_loop rows (\<not> u) (next_reversal rows i))"

definition undone :: "action_row list \<Rightarrow> action_row \<Rightarrow> bool option" where
  "undone rows a = undone_loop rows False (al_reversed_by a)"

text \<open>The latest row of each original's chain, for the chains in effect or for all of them.\<close>

definition chain_heads :: "action_row list \<Rightarrow> action_row list \<Rightarrow> bool \<Rightarrow> int list option" where
  "chain_heads rows acts undone_too =
     map_option sort (those (map (\<lambda>a. head_loop rows (al_id a))
       (filter (\<lambda>a. al_kind a \<noteq> ActReverse \<and> (undone_too \<or> undone rows a = Some False)) acts)))"

datatype change_op = OpAdded | OpEdited | OpMoved | OpDeleted | OpReversed

definition change_op_of :: "action_row list \<Rightarrow> action_row list \<Rightarrow> bool \<Rightarrow> change_op option" where
  "change_op_of rows acts exists =
     (let originals = filter (\<lambda>a. al_kind a \<noteq> ActReverse) acts;
          applied = filter (\<lambda>a. undone rows a = Some False) originals;
          any = (\<lambda>k. list_ex (\<lambda>a. al_kind a = k) applied)
      in if applied = [] then (if originals \<noteq> [] then Some OpReversed else None)
         else if any ActCreate then (if exists then Some OpAdded else None)
         else if any ActDelete \<and> \<not> exists then Some OpDeleted
         else if any ActMove \<and> \<not> any ActEdit then Some OpMoved
         else Some OpEdited)"

section \<open>What a reversal has to ask about\<close>

definition strip_position :: "entity_snapshot \<Rightarrow> entity_snapshot" where
  "strip_position s =
     (case s of
        SnNode title l p _ \<Rightarrow> SnNode title l p 0
      | SnObligation n kind section body phase acts_in _ visual \<Rightarrow> SnObligation n kind section body phase acts_in 0 visual
      | SnPlanStep n _ body status nt reason ds obs phase \<Rightarrow> SnPlanStep n 0 body status nt reason ds obs phase
      | SnCapabilities n caps cs \<Rightarrow>
          SnCapabilities n caps (cs\<lparr>cs_obligations := 0, cs_managed_nodes := 0, cs_files_place_name := None\<rparr>))"

definition same_ignoring_position :: "entity_snapshot \<Rightarrow> entity_snapshot \<Rightarrow> bool" where
  "same_ignoring_position a b = (strip_position a = strip_position b)"

definition item_stale :: "action_row list \<Rightarrow> log_db \<Rightarrow> uuid \<Rightarrow> bool" where
  "item_stale acts db i =
     (case find (\<lambda>a. al_item a = i) (rev acts) of
        None \<Rightarrow> False
      | Some latest \<Rightarrow>
          (case (item_snapshot (al_entity latest) i (lg_edit db), al_after latest) of
             (None, None) \<Rightarrow> False
           | (Some a, Some b) \<Rightarrow> \<not> same_ignoring_position a b
           | _ \<Rightarrow> True))"

definition stale_items :: "uuid \<Rightarrow> uuid list \<Rightarrow> log_db \<Rightarrow> uuid list" where
  "stale_items c ids db = remdups (filter (item_stale (conversation_actions c db) db) ids)"

definition creates :: "text_mutation \<Rightarrow> bool" where
  "creates m =
     (case m of
        CreateObligation _ _ _ _ _ _ _ _ \<Rightarrow> True
      | CreatePlanStep _ _ _ _ _ \<Rightarrow> True
      | RestoreObligationRow _ _ \<Rightarrow> True
      | RestorePlanStep _ _ \<Rightarrow> True
      | _ \<Rightarrow> False)"

text \<open>\<^verbatim>\<open>dependents\<close>: this log has no created node and no enabled Spec, so what depends is a step on a created step.\<close>

definition dependents :: "uuid \<Rightarrow> int list \<Rightarrow> log_db \<Rightarrow> int list" where
  "dependents c selected db =
     (let acts = conversation_actions c db;
          created = map al_item (filter (\<lambda>a. al_id a \<in> set selected \<and> creates (al_mutation a) \<and> al_entity a = EPlanStep) acts)
      in map al_id (filter (\<lambda>a.
           al_id a \<notin> set selected \<and> al_reversed_by a = None
           \<and> (case item_snapshot (al_entity a) (al_item a) (lg_edit db) of
                Some (SnPlanStep _ _ _ _ _ _ depends_on _ _) \<Rightarrow> list_ex (\<lambda>d. d \<in> set created) depends_on
              | _ \<Rightarrow> False)) acts))"

section \<open>Reversing rows\<close>

text \<open>The items and rows a refused reversal shows; the net changes drawn from them are not modelled.\<close>

datatype reverse_outcome = RvApplied "int list" | RvNeedsConfirmation "uuid list" "int list"

fun select_actions :: "action_row list \<Rightarrow> int list \<Rightarrow> int list fallible" where
  "select_actions acts [] = Inr []"
| "select_actions acts (i # is) =
     (case find_action i acts of
        None \<Rightarrow> Inl (''action '' @ show_int i @ '' is not part of this conversation'')
      | Some a \<Rightarrow> ok_then (select_actions acts is) (\<lambda>sel. Inr (if al_reversed_by a = None then i # sel else sel)))"

fun reverse_each :: "ms \<Rightarrow> uuid \<Rightarrow> uuid \<Rightarrow> nat \<Rightarrow> action_row list \<Rightarrow> int list \<Rightarrow> log_db \<Rightarrow> (int list \<times> log_db) fallible" where
  "reverse_each now fresh c seq [] ids db = Inr (ids, db)"
| "reverse_each now fresh c seq (a # as) ids db =
     ok_then (inverse_text (al_id a) (al_item a) (al_before a) (al_mutation a)) (\<lambda>m.
     ok_then (apply_recorded now fresh
         \<lparr>rc_conversation = Some c, rc_source = SOURCE_CONVERSATION, rc_actor = ByUser, rc_turn = seq, rc_kind = ActReverse,
          rc_entity = al_entity a, rc_item = al_item a, rc_reverses = Some (al_id a)\<rparr> m db) (\<lambda>(new, db1).
       reverse_each now fresh c seq as (ids @ (case new of Some i \<Rightarrow> [i] | None \<Rightarrow> [])) (clear_flag c (al_entity a) (al_item a) db1)))"

definition reverse_selection :: "uuid \<Rightarrow> bool \<Rightarrow> int list \<Rightarrow> log_db \<Rightarrow> int list" where
  "reverse_selection c include_dependents sel db =
     sort (remdups (sel @ (if include_dependents then dependents c sel db else [])))"

definition reverse_actions ::
    "ms \<Rightarrow> uuid \<Rightarrow> uuid \<Rightarrow> int list \<Rightarrow> bool \<Rightarrow> bool \<Rightarrow> log_db \<Rightarrow> (reverse_outcome \<times> log_db) fallible" where
  "reverse_actions now fresh c action_ids include_dependents force db =
     (if get_conversation c (lg_convs db) = None then Inl (''conversation '' @ show_uuid c @ '' not found'')
      else
        let acts = conversation_actions c db
        in ok_then (select_actions acts action_ids) (\<lambda>sel.
             let deps = dependents c sel db;
                 selected = reverse_selection c include_dependents sel db;
                 rows = List.map_filter (\<lambda>i. find_action i acts) selected;
                 stale = stale_items c (map al_item rows) db;
                 blocked = (\<not> include_dependents \<and> deps \<noteq> [])
             in if blocked \<or> (\<not> force \<and> stale \<noteq> [])
                then Inr (RvNeedsConfirmation (if force then [] else stale) (if blocked then deps else []), db)
                else ok_then (reverse_each now fresh c (max_user_seq c (lg_convs db)) (rev rows) [] db) (\<lambda>(ids, db1).
                       Inr (RvApplied ids, db1))))"

section \<open>What each operation does to the log\<close>

definition marked :: "int \<Rightarrow> int \<Rightarrow> action_row \<Rightarrow> action_row" where
  "marked a i r = (if al_id r = a then r\<lparr>al_reversed_by := Some i\<rparr> else r)"

lemma marked_simps [simp]:
  "al_id (marked a i r) = al_id r" "al_conversation (marked a i r) = al_conversation r" "al_kind (marked a i r) = al_kind r"
  "al_reverses (marked a i r) = al_reverses r" "al_item (marked a i r) = al_item r" "al_entity (marked a i r) = al_entity r"
  "al_reversed_by (marked a i r) = (if al_id r = a then Some i else al_reversed_by r)"
  by (simp_all add: marked_def)

lemma log_row_fields [simp]:
  "lg_edit (log_row now rc m before after db) = lg_edit db" "lg_next (log_row now rc m before after db) = lg_next db + 1"
  "lg_flags (log_row now rc m before after db) = lg_flags db"
  by (simp_all add: log_row_def Let_def split: option.split)

definition marks :: "recorded \<Rightarrow> int \<Rightarrow> action_row \<Rightarrow> action_row" where
  "marks rc i = (case rc_reverses rc of Some a \<Rightarrow> marked a i | None \<Rightarrow> (\<lambda>r. r))"

lemma marks_simps [simp]:
  "al_id (marks rc i r) = al_id r" "al_conversation (marks rc i r) = al_conversation r" "al_kind (marks rc i r) = al_kind r"
  "al_reverses (marks rc i r) = al_reverses r" "al_item (marks rc i r) = al_item r" "al_entity (marks rc i r) = al_entity r"
  "al_reversed_by (marks rc i r) = (if rc_reverses rc = Some (al_id r) then Some i else al_reversed_by r)"
  by (auto simp: marks_def split: option.split)

definition new_row :: "ms \<Rightarrow> recorded \<Rightarrow> text_mutation \<Rightarrow> entity_snapshot option \<Rightarrow> entity_snapshot option \<Rightarrow> int \<Rightarrow> action_row" where
  "new_row now rc m before after i =
     \<lparr>al_id = i, al_conversation = rc_conversation rc, al_source = rc_source rc, al_turn = rc_turn rc,
      al_actor = rc_actor rc, al_kind = rc_kind rc, al_entity = rc_entity rc, al_item = rc_item rc,
      al_node = map_option (snapshot_node (rc_item rc)) (case after of Some s \<Rightarrow> Some s | None \<Rightarrow> before),
      al_mutation = m, al_before = before, al_after = after, al_reverses = rc_reverses rc,
      al_reversed_by = None, al_at = now\<rparr>"

lemma new_row_simps [simp]:
  "al_id (new_row now rc m before after i) = i" "al_conversation (new_row now rc m before after i) = rc_conversation rc"
  "al_kind (new_row now rc m before after i) = rc_kind rc" "al_reverses (new_row now rc m before after i) = rc_reverses rc"
  "al_reversed_by (new_row now rc m before after i) = None" "al_item (new_row now rc m before after i) = rc_item rc"
  "al_entity (new_row now rc m before after i) = rc_entity rc" "al_before (new_row now rc m before after i) = before"
  "al_mutation (new_row now rc m before after i) = m" "al_source (new_row now rc m before after i) = rc_source rc"
  by (simp_all add: new_row_def)

text \<open>A row is added, and the row it reverses marked; nothing else of the log changes.\<close>

lemma log_row_rows: "lg_rows (log_row now rc m before after db)
    = map (marks rc (lg_next db)) (lg_rows db @ [new_row now rc m before after (lg_next db)])"
  by (simp add: log_row_def Let_def new_row_def marks_def marked_def split: option.split)

lemma apply_recorded_view:
  assumes "apply_recorded now fresh rc m db = Inr (new, db1)"
  shows "\<exists>edit before after. execute now fresh m (lg_edit db) = Inr edit \<and>
     before = item_snapshot (rc_entity rc) (rc_item rc) (lg_edit db) \<and> after = item_snapshot (rc_entity rc) (rc_item rc) edit
     \<and> (new = None \<and> rc_reverses rc = None \<and> db1 = db\<lparr>lg_edit := edit\<rparr>
        \<or> new = Some (lg_next db) \<and> db1 = log_row now rc m before after (db\<lparr>lg_edit := edit\<rparr>))"
  using assms unfolding apply_recorded_def ok_then_Inr by (auto simp: Let_def split: if_splits)

lemma only_execute_view:
  "only_execute now fresh m db = Inr (new, db1) \<Longrightarrow> new = None \<and> (\<exists>edit. execute now fresh m (lg_edit db) = Inr edit \<and> db1 = db\<lparr>lg_edit := edit\<rparr>)"
  by (auto simp: only_execute_def ok_then_Inr)

lemma enqueue_only: "e \<in> set (enqueue_incoming t a v source now target q) \<Longrightarrow> e \<in> set q \<or> ie_action e = a"
  by (auto simp: enqueue_incoming_def split: if_splits)

lemma enqueue_fold_only: "e \<in> set (fold (enqueue_incoming t a v source now) ts q) \<Longrightarrow> e \<in> set q \<or> ie_action e = a"
  by (induction ts arbitrary: q) (auto dest: enqueue_only)

lemma enqueue_all_only: "e \<in> set (enqueue_all t a v now targets sources q) \<Longrightarrow> e \<in> set q \<or> ie_action e = a"
  unfolding enqueue_all_def by (induction sources arbitrary: q) (auto dest: enqueue_fold_only)

lemma fan_out_only: "e \<in> set (fan_out t a ob before after now q) \<Longrightarrow> e \<in> set q \<or> ie_action e = a"
  by (auto simp: fan_out_def dest!: enqueue_all_only split: if_splits)

lemma log_row_queue:
  "rc_reverses rc = Some a \<Longrightarrow> a \<noteq> lg_next db \<Longrightarrow> e \<in> set (lg_queue (log_row now rc m before after db)) \<Longrightarrow> ie_action e \<noteq> a"
  by (auto simp: log_row_def Let_def cancel_incoming_def dest!: fan_out_only split: if_splits)

section \<open>The shape of the log\<close>

text \<open>Ids are fresh and rising, and a row marked reversed is so by a later reversal of the same conversation that names it.\<close>

definition log_ok :: "log_db \<Rightarrow> bool" where
  "log_ok db \<longleftrightarrow> distinct (map al_id (lg_rows db)) \<and> (\<forall>r \<in> set (lg_rows db). al_id r < lg_next db
     \<and> (\<forall>b. al_reversed_by r = Some b \<longrightarrow> al_id r < b \<and> (\<exists>s \<in> set (lg_rows db). al_id s = b \<and> al_kind s = ActReverse
            \<and> al_reverses s = Some (al_id r) \<and> al_conversation s = al_conversation r)))"

lemma log_ok_row:
  assumes "log_ok db"
    and "\<And>a r. rc_reverses rc = Some a \<Longrightarrow> r \<in> set (lg_rows db) \<Longrightarrow> al_id r = a \<Longrightarrow> al_conversation r = rc_conversation rc"
    and "rc_reverses rc \<noteq> None \<Longrightarrow> rc_kind rc = ActReverse" "rc_reverses rc \<noteq> Some (lg_next db)"
  shows "log_ok (log_row now rc m before after db)"
proof -
  let ?new = "new_row now rc m before after (lg_next db)" and ?mk = "marks rc (lg_next db)"
  have "distinct (map al_id (lg_rows (log_row now rc m before after db)))"
    using assms(1) by (auto simp: log_row_rows log_ok_def comp_def)
  moreover have "al_id r < lg_next db + 1 \<and> (\<forall>b. al_reversed_by r = Some b \<longrightarrow> al_id r < b \<and>
      (\<exists>s \<in> set (lg_rows (log_row now rc m before after db)). al_id s = b \<and> al_kind s = ActReverse
            \<and> al_reverses s = Some (al_id r) \<and> al_conversation s = al_conversation r))"
    if r: "r \<in> set (lg_rows (log_row now rc m before after db))" for r
  proof -
    obtain q where q: "q \<in> set (lg_rows db) \<or> q = ?new" "r = ?mk q" using r by (auto simp: log_row_rows)
    have lt: "al_id r < lg_next db + 1" using q assms(1) by (fastforce simp: log_ok_def)
    have "al_id r < b \<and> (\<exists>s \<in> set (lg_rows (log_row now rc m before after db)). al_id s = b \<and> al_kind s = ActReverse
            \<and> al_reverses s = Some (al_id r) \<and> al_conversation s = al_conversation r)" if b: "al_reversed_by r = Some b" for b
    proof (cases "rc_reverses rc = Some (al_id q)")
      case True
      then have old: "q \<in> set (lg_rows db)" using q(1) assms(4) by auto
      then have "al_id q < lg_next db" "b = lg_next db" using b True q(2) assms(1) by (auto simp: log_ok_def)
      moreover have "?mk ?new \<in> set (lg_rows (log_row now rc m before after db))" by (simp add: log_row_rows)
      moreover have "al_conversation q = rc_conversation rc" using assms(2)[OF True old] by simp
      ultimately show ?thesis using True assms(3) q(2) by (intro conjI bexI[of _ "?mk ?new"]) auto
    next
      case False
      then have "al_reversed_by q = Some b" "q \<in> set (lg_rows db)" using b q by auto
      then obtain s where s: "al_id q < b" "s \<in> set (lg_rows db)" "al_id s = b" "al_kind s = ActReverse" "al_reverses s = Some (al_id q)"
          "al_conversation s = al_conversation q"
        using assms(1) unfolding log_ok_def by blast
      then show ?thesis using q(2) by (intro conjI bexI[of _ "?mk s"]) (auto simp: log_row_rows)
    qed
    then show ?thesis using lt by blast
  qed
  ultimately show ?thesis by (simp add: log_ok_def)
qed

lemma log_ok_same: "lg_rows db' = lg_rows db \<Longrightarrow> lg_next db' = lg_next db \<Longrightarrow> log_ok db' = log_ok db"
  by (simp add: log_ok_def)

lemma log_ok_apply:
  assumes "log_ok db" "apply_recorded now fresh rc m db = Inr (new, db1)"
    and "\<And>a. rc_reverses rc = Some a \<Longrightarrow> rc_kind rc = ActReverse \<and> (\<exists>r \<in> set (lg_rows db). al_id r = a \<and> al_conversation r = rc_conversation rc)"
  shows "log_ok db1"
proof -
  obtain edit before after where v: "new = None \<and> rc_reverses rc = None \<and> db1 = db\<lparr>lg_edit := edit\<rparr>
        \<or> new = Some (lg_next db) \<and> db1 = log_row now rc m before after (db\<lparr>lg_edit := edit\<rparr>)"
    using apply_recorded_view[OF assms(2)] by blast
  have ok: "log_ok (db\<lparr>lg_edit := edit\<rparr>)" using assms(1) log_ok_same[of "db\<lparr>lg_edit := edit\<rparr>" db] by simp
  have "log_ok (log_row now rc m before after (db\<lparr>lg_edit := edit\<rparr>))"
  proof (rule log_ok_row[OF ok])
    show "al_conversation r = rc_conversation rc" if r: "rc_reverses rc = Some a" "r \<in> set (lg_rows (db\<lparr>lg_edit := edit\<rparr>))" "al_id r = a" for a r
    proof -
      obtain r' where r': "r' \<in> set (lg_rows db)" "al_id r' = a" "al_conversation r' = rc_conversation rc" using assms(3)[OF r(1)] by blast
      have "inj_on al_id (set (lg_rows db))" using assms(1) by (simp add: log_ok_def distinct_map)
      then have "r = r'" using r(2,3) r' by (auto dest: inj_onD)
      then show ?thesis using r'(3) by simp
    qed
    show "rc_reverses rc \<noteq> None \<Longrightarrow> rc_kind rc = ActReverse" using assms(3) by blast
    show "rc_reverses rc \<noteq> Some (lg_next (db\<lparr>lg_edit := edit\<rparr>))"
    proof
      assume "rc_reverses rc = Some (lg_next (db\<lparr>lg_edit := edit\<rparr>))"
      then obtain r where "r \<in> set (lg_rows db)" "al_id r = lg_next db" using assms(3) by fastforce
      then show False using assms(1) by (auto simp: log_ok_def)
    qed
  qed
  then show ?thesis using v ok by blast
qed

section \<open>Chains end\<close>

definition rising :: "action_row list \<Rightarrow> int \<Rightarrow> bool" where
  "rising rows n \<longleftrightarrow> (\<forall>i b. next_reversal rows i = Some b \<longrightarrow> i < b \<and> b < n)"

lemma reversal_chain_ends:
  assumes "rising rows n"
  shows "\<exists>h w. head_loop rows i = Some h \<and> next_reversal rows h = None \<and> undone_loop rows u (next_reversal rows i) = Some w"
proof (induction "nat (n - i)" arbitrary: i u rule: less_induct)
  case less
  show ?case
  proof (cases "next_reversal rows i")
    case None
    then show ?thesis by (simp add: head_loop.simps undone_loop.simps)
  next
    case (Some b)
    then have "i < b" "b < n" using assms unfolding rising_def by blast+
    then have "nat (n - b) < nat (n - i)" by simp
    then obtain h w where "head_loop rows b = Some h" "next_reversal rows h = None" "undone_loop rows (\<not> u) (next_reversal rows b) = Some w"
      using less by blast
    then show ?thesis using Some by (simp add: head_loop.simps[of rows i] undone_loop.simps[of rows u])
  qed
qed

text \<open>A row put on top of one chain moves that chain's head and flips it, and leaves the others.\<close>

lemma chain_flips:
  assumes "rising rows n" "next_reversal rows a = None"
    and "\<And>j. next_reversal rows' j = (if j = a then Some n else next_reversal rows j)" "a \<noteq> n" "next_reversal rows n = None"
    and "i \<noteq> n" "head_loop rows i = Some h" "undone_loop rows u (next_reversal rows i) = Some w"
  shows "head_loop rows' i = Some (if h = a then n else h)
     \<and> undone_loop rows' u (next_reversal rows' i) = Some (if h = a then \<not> w else w)"
  using assms(6-8)
proof (induction "nat (n - i)" arbitrary: i u rule: less_induct)
  case less
  have top: "head_loop rows' n = Some n" "undone_loop rows' v (Some n) = Some (\<not> v)" for v
    using assms(3)[of n] assms(4,5) by (simp_all add: head_loop.simps[of rows' n] undone_loop.simps)
  show ?case
  proof (cases "next_reversal rows i")
    case None
    then have "h = i" "w = u" using less.prems(2,3) by (simp_all add: head_loop.simps[of rows i] undone_loop.simps)
    then show ?thesis
      using None assms(3)[of i] top by (auto simp: head_loop.simps[of rows' i] undone_loop.simps[of rows' _ None])
  next
    case (Some b)
    have b: "i < b" "b < n" using Some assms(1) unfolding rising_def by blast+
    have ne: "i \<noteq> a" using Some assms(2) by auto
    have "head_loop rows b = Some h" "undone_loop rows (\<not> u) (next_reversal rows b) = Some w"
      using less.prems(2,3) Some by (simp_all add: head_loop.simps[of rows i] undone_loop.simps[of rows u])
    then have "head_loop rows' b = Some (if h = a then n else h)
        \<and> undone_loop rows' (\<not> u) (next_reversal rows' b) = Some (if h = a then \<not> w else w)"
      using less.hyps[of b "\<not> u"] b by auto
    then show ?thesis
      using Some ne assms(3)[of i] by (simp add: head_loop.simps[of rows' i] undone_loop.simps[of rows' u "Some b"])
  qed
qed

lemma find_action_distinct:
  assumes "distinct (map al_id rows)"
  shows "find_action i rows = Some r \<longleftrightarrow> r \<in> set rows \<and> al_id r = i"
proof -
  have "find_action (al_id r) rows = Some r" if "distinct (map al_id rows)" "r \<in> set rows" for rows
    using that by (induction rows) (auto simp: find_action_def)
  then show ?thesis using assms find_Some_in[of "\<lambda>r. al_id r = i" rows] by (auto simp: find_action_def)
qed

lemma set_conversation_actions [simp]: "set (conversation_actions c db) = {r \<in> set (lg_rows db). al_conversation r = Some c}"
  by (simp add: conversation_actions_def)

lemma conversation_actions_distinct: "log_ok db \<Longrightarrow> distinct (map al_id (conversation_actions c db))"
  by (simp add: conversation_actions_def log_ok_def distinct_map inj_on_def)

lemma next_reversal_iff:
  assumes "log_ok db"
  shows "next_reversal (conversation_actions c db) i = Some b \<longleftrightarrow>
    (\<exists>r \<in> set (lg_rows db). al_id r = i \<and> al_conversation r = Some c \<and> al_reversed_by r = Some b)"
proof (cases "find_action i (conversation_actions c db)")
  case None
  then have "\<forall>r \<in> set (lg_rows db). al_conversation r = Some c \<longrightarrow> al_id r \<noteq> i"
    by (auto simp: find_action_def find_None_iff)
  then show ?thesis using None by (auto simp: next_reversal_def)
next
  case (Some r)
  have inj: "inj_on al_id (set (lg_rows db))" using assms by (simp add: log_ok_def distinct_map)
  have r: "r \<in> set (lg_rows db)" "al_id r = i" "al_conversation r = Some c"
    using find_Some_in[OF Some[unfolded find_action_def]] by auto
  then show ?thesis using Some inj by (auto simp: next_reversal_def dest: inj_onD)
qed

lemma log_rising: "log_ok db \<Longrightarrow> rising (conversation_actions c db) (lg_next db)"
  unfolding rising_def by (auto simp: next_reversal_iff log_ok_def)

lemma reversal_rows:
  assumes "apply_recorded now fresh rc m db = Inr (new, db1)" "rc_reverses rc = Some a"
  shows "new = Some (lg_next db)" "lg_next db1 = lg_next db + 1"
    and "\<exists>row. al_id row = lg_next db \<and> al_conversation row = rc_conversation rc \<and> al_reversed_by row = None \<and> al_kind row = rc_kind rc
       \<and> al_reverses row = Some a \<and> lg_rows db1 = map (marked a (lg_next db)) (lg_rows db) @ [marked a (lg_next db) row]"
    and "a \<noteq> lg_next db \<Longrightarrow> e \<in> set (lg_queue db1) \<Longrightarrow> ie_action e \<noteq> a"
proof -
  obtain edit before after where v: "new = Some (lg_next db)" "db1 = log_row now rc m before after (db\<lparr>lg_edit := edit\<rparr>)"
    using apply_recorded_view[OF assms(1)] assms(2) by auto
  show "new = Some (lg_next db)" "lg_next db1 = lg_next db + 1" by (simp_all add: v)
  have mk: "marks rc (lg_next db) = marked a (lg_next db)" by (simp add: marks_def assms(2))
  show "\<exists>row. al_id row = lg_next db \<and> al_conversation row = rc_conversation rc \<and> al_reversed_by row = None \<and> al_kind row = rc_kind rc
       \<and> al_reverses row = Some a \<and> lg_rows db1 = map (marked a (lg_next db)) (lg_rows db) @ [marked a (lg_next db) row]"
    by (rule exI[of _ "new_row now rc m before after (lg_next db)"]) (simp add: v(2) log_row_rows mk assms(2))
  show "a \<noteq> lg_next db \<Longrightarrow> e \<in> set (lg_queue db1) \<Longrightarrow> ie_action e \<noteq> a"
    using log_row_queue[OF assms(2), of "db\<lparr>lg_edit := edit\<rparr>" e now m before after] by (simp add: v(2))
qed

lemma reversal_next:
  assumes "log_ok db" "log_ok db1" "apply_recorded now fresh rc m db = Inr (new, db1)"
    and "rc_reverses rc = Some (al_id a)" "a \<in> set (lg_rows db)" "al_conversation a = Some c" "rc_conversation rc = Some c"
  shows "next_reversal (conversation_actions c db1) j
     = (if j = al_id a then Some (lg_next db) else next_reversal (conversation_actions c db) j)"
proof -
  obtain row where row: "al_id row = lg_next db" "al_reversed_by row = None"
      "lg_rows db1 = map (marked (al_id a) (lg_next db)) (lg_rows db) @ [marked (al_id a) (lg_next db) row]"
    using reversal_rows(3)[OF assms(3,4)] by blast
  have lt: "al_id a < lg_next db" using assms(1,5) by (simp add: log_ok_def)
  have "next_reversal (conversation_actions c db1) j = Some b \<longleftrightarrow>
      (if j = al_id a then Some (lg_next db) else next_reversal (conversation_actions c db) j) = Some b" for b
  proof (cases "j = al_id a")
    case True
    have "marked (al_id a) (lg_next db) a \<in> set (lg_rows db1)" using assms(5) by (simp add: row(3))
    then have "next_reversal (conversation_actions c db1) j = Some (lg_next db)"
      unfolding next_reversal_iff[OF assms(2)] using True assms(6) by (intro bexI[of _ "marked (al_id a) (lg_next db) a"]) auto
    then show ?thesis using True by simp
  next
    case False
    then show ?thesis
      unfolding next_reversal_iff[OF assms(2)] by (auto simp: next_reversal_iff[OF assms(1)] row)
  qed
  then show ?thesis by (metis option.exhaust)
qed

section \<open>Every write of the log\<close>

lemma reverse_each_ok:
  assumes "log_ok db" "\<forall>a \<in> set as. \<exists>r \<in> set (lg_rows db). al_id r = al_id a \<and> al_conversation r = Some c"
    and "reverse_each now fresh c seq as ids db = Inr (ids', db')"
  shows "log_ok db'"
  using assms
proof (induction "as" arbitrary: ids db)
  case (Cons a "as")
  then obtain m new db1 where step: "apply_recorded now fresh
         \<lparr>rc_conversation = Some c, rc_source = SOURCE_CONVERSATION, rc_actor = ByUser, rc_turn = seq, rc_kind = ActReverse,
          rc_entity = al_entity a, rc_item = al_item a, rc_reverses = Some (al_id a)\<rparr> m db = Inr (new, db1)"
    and rest: "reverse_each now fresh c seq as (ids @ (case new of Some i \<Rightarrow> [i] | None \<Rightarrow> [])) (clear_flag c (al_entity a) (al_item a) db1) = Inr (ids', db')"
    by (auto simp: ok_then_Inr)
  obtain row where rows: "lg_rows db1 = map (marked (al_id a) (lg_next db)) (lg_rows db) @ [marked (al_id a) (lg_next db) row]"
    using reversal_rows(3)[OF step] by auto
  have ok1: "log_ok db1" by (rule log_ok_apply[OF Cons.prems(1) step]) (use Cons.prems(2) in auto)
  show ?case
  proof (rule Cons.IH[OF _ _ rest])
    show "log_ok (clear_flag c (al_entity a) (al_item a) db1)"
      using ok1 log_ok_same[of "clear_flag c (al_entity a) (al_item a) db1" db1] by (simp add: clear_flag_def)
    show "\<forall>b \<in> set as. \<exists>r \<in> set (lg_rows (clear_flag c (al_entity a) (al_item a) db1)). al_id r = al_id b \<and> al_conversation r = Some c"
      using Cons.prems(2) by (force simp: clear_flag_def rows)
  qed
qed simp

inductive log_write :: "log_db \<Rightarrow> log_db \<Rightarrow> bool" where
  "record_direct now fresh writer m db = Inr (new, db') \<Longrightarrow> log_write db db'"
| "record_and_execute now fresh c actor seq m db = Inr (new, db') \<Longrightarrow> log_write db db'"
| "record_undo now fresh original m db = Inr (new, db') \<Longrightarrow> log_write db db'"
| "apply_user_edit now fresh c m db = Inr (new, db') \<Longrightarrow> log_write db db'"
| "reverse_actions now fresh c action_ids deps force db = Inr (out, db') \<Longrightarrow> log_write db db'"
| "flag_item c e i reason db = Inr db' \<Longrightarrow> log_write db db'"
| "log_write db (clear_flag c e i db)"

lemma log_ok_execute: "only_execute now fresh m db = Inr (new, db') \<Longrightarrow> log_ok db \<Longrightarrow> log_ok db'"
  using log_ok_same[of db' db] by (auto dest!: only_execute_view)

lemma log_ok_record: "record_and_execute now fresh c actor seq m db = Inr (new, db') \<Longrightarrow> log_ok db \<Longrightarrow> log_ok db'"
  by (auto simp: record_and_execute_def Let_def split: option.splits intro: log_ok_apply log_ok_execute)

lemma log_write_ok:
  assumes "log_write db db'" "log_ok db"
  shows "log_ok db'"
  using assms
proof (induction rule: log_write.induct)
  case (1 now fresh writer m db new db')
  then show ?case by (auto simp: record_direct_def split: option.splits intro: log_ok_apply log_ok_execute)
next
  case (2 now fresh c actor seq m db new db')
  then show ?case by (rule log_ok_record)
next
  case (3 now fresh original m db new db')
  show ?case
  proof (cases "opt_filter (\<lambda>a. al_reversed_by a = None) (find_action original (lg_rows db))")
    case None
    then show ?thesis using 3 by (auto simp: record_undo_def intro: log_ok_execute)
  next
    case (Some a)
    then have a: "a \<in> set (lg_rows db)" by (auto simp: opt_filter_Some_iff find_action_def dest: find_Some_in)
    show ?thesis
      by (rule log_ok_apply[OF 3(2), of now fresh "reversal_of a" m new]) (use 3(1) Some a in \<open>auto simp: record_undo_def reversal_of_def\<close>)
  qed
next
  case (4 now fresh c m db new db')
  have "log_ok (clear_flag c e i db)" for e i using 4(2) log_ok_same[of "clear_flag c e i db" db] by (simp add: clear_flag_def)
  then show ?case using 4 by (auto simp: apply_user_edit_def Let_def split: if_splits option.splits intro: log_ok_record)
next
  case (5 now fresh c action_ids deps force db out db')
  define acts where "acts = conversation_actions c db"
  show ?case
  proof (cases "db' = db")
    case False
    then obtain as ids where run: "reverse_each now fresh c (max_user_seq c (lg_convs db)) as [] db = Inr (ids, db')"
      and "as": "\<exists>sel. as = rev (List.map_filter (\<lambda>i. find_action i acts) sel)"
      using 5(1) by (auto simp: reverse_actions_def Let_def ok_then_Inr acts_def split: if_splits)
    have "\<exists>r \<in> set (lg_rows db). al_id r = al_id a \<and> al_conversation r = Some c" if a: "a \<in> set as" for a
    proof -
      obtain i where "find_action i acts = Some a" using a "as" by (auto simp: List.map_filter_def)
      then have "a \<in> set acts" unfolding find_action_def by (auto dest: find_Some_in)
      then show ?thesis by (auto simp: acts_def)
    qed
    then show ?thesis using reverse_each_ok[OF 5(2) _ run] by blast
  qed (use 5 in simp)
next
  case (6 c e i reason db db')
  then show ?case using log_ok_same[of db' db] by (auto simp: flag_item_def Let_def split: if_splits)
next
  case (7 db c e i)
  then show ?case using log_ok_same[of "clear_flag c e i db" db] by (simp add: clear_flag_def)
qed

lemma log_reachable_ok:
  assumes "log_write\<^sup>*\<^sup>* db0 db" "lg_rows db0 = []"
  shows "log_ok db"
  using assms(1)
proof (induction rule: rtranclp_induct)
  case base
  then show ?case using assms(2) by (simp add: log_ok_def)
qed (rule log_write_ok)

section \<open>The batch\<close>

fun marks_of :: "action_row list \<Rightarrow> int \<Rightarrow> action_row \<Rightarrow> action_row" where
  "marks_of [] n r = r"
| "marks_of (a # as) n r = marks_of as (n + 1) (marked (al_id a) n r)"

lemma marks_of_id [simp]: "al_id (marks_of as n r) = al_id r"
  by (induction as n r rule: marks_of.induct) simp_all

lemma marks_of_none: "al_id r \<notin> al_id ` set as \<Longrightarrow> marks_of as n r = r"
  by (induction as n r rule: marks_of.induct) (auto simp: marked_def)

lemma marks_of_nth:
  "distinct (map al_id as) \<Longrightarrow> k < length as \<Longrightarrow> al_id r = al_id (as ! k) \<Longrightarrow> al_reversed_by (marks_of as n r) = Some (n + int k)"
proof (induction as n r arbitrary: k rule: marks_of.induct)
  case (2 a "as" n r)
  show ?case
  proof (cases k)
    case 0
    have "al_id (marked (al_id a) n r) \<notin> al_id ` set as" using 2(2) 2(4) 0 by auto
    then show ?thesis using 0 2(4) marks_of_none[of "marked (al_id a) n r" "as" "n + 1"] by simp
  next
    case (Suc j)
    then have "al_reversed_by (marks_of as (n + 1) (marked (al_id a) n r)) = Some (n + 1 + int j)"
      using 2 by (intro 2(1)) auto
    then show ?thesis using Suc by simp
  qed
qed simp

lemma reverse_each_view:
  assumes "reverse_each now fresh c seq as ids db = Inr (ids', db')" "distinct (map al_id as)" "\<forall>a \<in> set as. al_id a < lg_next db"
  shows "ids' = ids @ map (\<lambda>k. lg_next db + int k) [0..<length as]
    \<and> (\<exists>news. lg_rows db' = map (marks_of as (lg_next db)) (lg_rows db) @ news
        \<and> map al_id news = map (\<lambda>k. lg_next db + int k) [0..<length as]
        \<and> map al_reverses news = map (\<lambda>a. Some (al_id a)) as
        \<and> (\<forall>r \<in> set news. al_kind r = ActReverse \<and> al_conversation r = Some c))"
  using assms
proof (induction "as" arbitrary: ids db)
  case Nil
  then show ?case by (simp add: map_idI)
next
  case (Cons a "as")
  obtain m new db1 where step: "apply_recorded now fresh
         \<lparr>rc_conversation = Some c, rc_source = SOURCE_CONVERSATION, rc_actor = ByUser, rc_turn = seq, rc_kind = ActReverse,
          rc_entity = al_entity a, rc_item = al_item a, rc_reverses = Some (al_id a)\<rparr> m db = Inr (new, db1)"
    and rest: "reverse_each now fresh c seq as (ids @ (case new of Some i \<Rightarrow> [i] | None \<Rightarrow> [])) (clear_flag c (al_entity a) (al_item a) db1) = Inr (ids', db')"
    using Cons.prems(1) by (auto simp: ok_then_Inr)
  note v = reversal_rows[OF step, of "al_id a", simplified]
  obtain row where row: "al_id row = lg_next db" "al_conversation row = Some c" "al_kind row = ActReverse" "al_reverses row = Some (al_id a)"
      "lg_rows db1 = map (marked (al_id a) (lg_next db)) (lg_rows db) @ [marked (al_id a) (lg_next db) row]"
    using v(3) by auto
  have rest': "lg_next (clear_flag c (al_entity a) (al_item a) db1) = lg_next db + 1"
      "lg_rows (clear_flag c (al_entity a) (al_item a) db1) = lg_rows db1" using v(2) by (simp_all add: clear_flag_def)
  have lt: "\<forall>b \<in> set as. al_id b < lg_next db + 1" "al_id a \<noteq> lg_next db" using Cons.prems(3) by fastforce+
  have IH: "ids' = (ids @ [lg_next db]) @ map (\<lambda>k. lg_next db + 1 + int k) [0..<length as]
    \<and> (\<exists>news. lg_rows db' = map (marks_of as (lg_next db + 1)) (lg_rows db1) @ news
        \<and> map al_id news = map (\<lambda>k. lg_next db + 1 + int k) [0..<length as]
        \<and> map al_reverses news = map (\<lambda>a. Some (al_id a)) as
        \<and> (\<forall>r \<in> set news. al_kind r = ActReverse \<and> al_conversation r = Some c))"
    using Cons.IH[OF rest] Cons.prems(2) lt(1) by (simp add: rest' v(1))
  then obtain news where news: "lg_rows db' = map (marks_of as (lg_next db + 1)) (lg_rows db1) @ news"
        "map al_id news = map (\<lambda>k. lg_next db + 1 + int k) [0..<length as]"
        "map al_reverses news = map (\<lambda>a. Some (al_id a)) as"
        "\<forall>r \<in> set news. al_kind r = ActReverse \<and> al_conversation r = Some c" by blast
  have shift: "map (\<lambda>k. lg_next db + int k) [0..<length (a # as)]
      = lg_next db # map (\<lambda>k. lg_next db + 1 + int k) [0..<length as]"
    by (simp only: length_Cons upt_conv_Cons[OF zero_less_Suc] map_Suc_upt[symmetric] list.map map_map)
      (simp add: comp_def algebra_simps)
  have own: "marks_of as (lg_next db + 1) (marked (al_id a) (lg_next db) row) = row"
  proof -
    have "marked (al_id a) (lg_next db) row = row" using row(1) lt(2) by (simp add: marked_def)
    moreover have "al_id row \<notin> al_id ` set as" using row(1) Cons.prems(3) by force
    ultimately show ?thesis by (simp add: marks_of_none)
  qed
  have "lg_rows db' = map (marks_of (a # as) (lg_next db)) (lg_rows db) @ (row # news)"
    using news(1) by (simp add: row(5) own)
  then show ?case
    using IH news(2-4) row(1-4) unfolding shift by (intro conjI exI[of _ "row # news"]) auto
qed

lemma select_actions_in:
  "select_actions acts is = Inr sel \<Longrightarrow> i \<in> set sel \<Longrightarrow> \<exists>a. find_action i acts = Some a \<and> al_reversed_by a = None"
  by (induction "is" arbitrary: sel) (auto simp: ok_then_Inr split: option.splits if_splits)

lemma map_filter_found:
  "(\<And>i. i \<in> set is \<Longrightarrow> \<exists>a. find_action i acts = Some a) \<Longrightarrow> map al_id (List.map_filter (\<lambda>i. find_action i acts) is) = is"
proof (induction "is")
  case (Cons i "is")
  obtain a where a: "find_action i acts = Some a" using Cons.prems[of i] by auto
  have "al_id a = i" using a unfolding find_action_def by (auto dest: find_Some_in)
  then show ?case using Cons a by (simp add: List.map_filter_simps)
qed (simp add: List.map_filter_simps)

section \<open>Properties\<close>

text \<open>C9: Every reversal chain of a conversation's log ends, however the log was written, and undoing a row that nothing
  reversed yet (Ctrl+Z, or reversing it) puts the new row on top of that row's chain: whether the chain is undone flips
  and its head becomes the new row, every other chain of the conversation keeps both, and the row's queued
  incoming entries are gone.\<close>
theorem reversal_flips:
  assumes "log_write\<^sup>*\<^sup>* db0 db" "lg_rows db0 = []" "a \<in> set (conversation_actions c db)" "al_reversed_by a = None"
    and "record_undo now fresh (al_id a) m db = Inr (new, db1)" "r \<in> set (conversation_actions c db)"
  shows "new = Some (lg_next db) \<and> (\<forall>e \<in> set (lg_queue db1). ie_action e \<noteq> al_id a)
     \<and> (\<exists>r' h w. r' \<in> set (conversation_actions c db1) \<and> al_id r' = al_id r
        \<and> head_loop (conversation_actions c db) (al_id r) = Some h
        \<and> undone (conversation_actions c db) r = Some w
        \<and> head_loop (conversation_actions c db1) (al_id r) = Some (if h = al_id a then lg_next db else h)
        \<and> undone (conversation_actions c db1) r' = Some (if h = al_id a then \<not> w else w))"
proof -
  let ?A = "conversation_actions c db" and ?B = "conversation_actions c db1"
  have ok: "log_ok db" by (rule log_reachable_ok[OF assms(1,2)])
  have ok1: "log_ok db1" using log_write_ok[OF _ ok] log_write.intros(3)[OF assms(5)] by blast
  have a: "a \<in> set (lg_rows db)" "al_conversation a = Some c" using assms(3) by auto
  have "find_action (al_id a) (lg_rows db) = Some a" using a ok by (simp add: find_action_distinct log_ok_def)
  then have run: "apply_recorded now fresh (reversal_of a) m db = Inr (new, db1)"
    using assms(4,5) by (simp add: record_undo_def)
  have rc: "rc_reverses (reversal_of a) = Some (al_id a)" "rc_conversation (reversal_of a) = Some c" using a(2) by (simp_all add: reversal_of_def)
  note rows = reversal_rows[OF run rc(1)]
  have lt: "al_id a < lg_next db" "al_id r < lg_next db" using ok a(1) assms(6) by (auto simp: log_ok_def)
  have next1: "next_reversal ?B j = (if j = al_id a then Some (lg_next db) else next_reversal ?A j)" for j
    by (rule reversal_next[OF ok ok1 run rc(1) a rc(2)])
  have top: "next_reversal ?A (lg_next db) = None"
  proof (rule ccontr)
    assume "next_reversal ?A (lg_next db) \<noteq> None"
    then show False using ok by (auto simp: next_reversal_iff log_ok_def)
  qed
  have own: "al_reversed_by q = next_reversal X (al_id q)" if "q \<in> set X" "distinct (map al_id X)" for q X
    using that find_action_distinct[OF that(2), of "al_id q" q] by (simp add: next_reversal_def)
  have free: "next_reversal ?A (al_id a) = None" using own[OF assms(3) conversation_actions_distinct[OF ok]] assms(4) by simp
  obtain h w where hw: "head_loop ?A (al_id r) = Some h" "undone_loop ?A False (next_reversal ?A (al_id r)) = Some w"
    using reversal_chain_ends[OF log_rising[OF ok]] by blast
  have flip: "head_loop ?B (al_id r) = Some (if h = al_id a then lg_next db else h)
      \<and> undone_loop ?B False (next_reversal ?B (al_id r)) = Some (if h = al_id a then \<not> w else w)"
    by (rule chain_flips[OF log_rising[OF ok] free next1 _ top _ hw]) (use lt in auto)
  let ?r' = "marked (al_id a) (lg_next db) r"
  have "?r' \<in> set ?B" using rows(3) assms(6) by auto
  moreover have "undone ?A r = Some w" using hw(2) own[OF assms(6) conversation_actions_distinct[OF ok]] by (simp add: undone_def)
  moreover have "undone ?B ?r' = Some (if h = al_id a then \<not> w else w)"
    using flip own[OF \<open>?r' \<in> set ?B\<close> conversation_actions_distinct[OF ok1]] by (simp add: undone_def)
  ultimately show ?thesis using rows(1,4) hw(1) flip lt(1) by (intro conjI exI[of _ ?r'] exI[of _ h] exI[of _ w]) auto
qed

text \<open>C10: Reversing a selection in a conversation: when it is applied, every selected row (those asked for that nothing reversed
  yet, with their dependents where asked) gets exactly one reversal, newest first, numbered from the next id on, and no
  other row of the log changes.\<close>
theorem reversal_batch_exact:
  assumes "log_write\<^sup>*\<^sup>* db0 db" "lg_rows db0 = []"
    and "reverse_actions now fresh c action_ids deps force db = Inr (RvApplied ids, db1)"
  shows "\<exists>sel S. select_actions (conversation_actions c db) action_ids = Inr sel \<and> S = reverse_selection c deps sel db
     \<and> ids = map (\<lambda>k. lg_next db + int k) [0..<length S]
     \<and> (\<forall>k < length S. \<exists>r. find_action (ids ! k) (lg_rows db1) = Some r \<and> al_kind r = ActReverse \<and> al_reverses r = Some (rev S ! k)
          \<and> (\<exists>q q'. find_action (rev S ! k) (lg_rows db) = Some q \<and> al_reversed_by q = None
               \<and> find_action (rev S ! k) (lg_rows db1) = Some q' \<and> al_reversed_by q' = Some (ids ! k)))
     \<and> (\<forall>r \<in> set (lg_rows db). al_id r \<notin> set S \<longrightarrow> find_action (al_id r) (lg_rows db1) = Some r)"
proof -
  let ?acts = "conversation_actions c db"
  have ok: "log_ok db" by (rule log_reachable_ok[OF assms(1,2)])
  have ok1: "log_ok db1" using log_write_ok[OF _ ok] log_write.intros(5)[OF assms(3)] by blast
  obtain sel where sel: "select_actions ?acts action_ids = Inr sel"
      and run: "reverse_each now fresh c (max_user_seq c (lg_convs db))
          (rev (List.map_filter (\<lambda>i. find_action i ?acts) (reverse_selection c deps sel db))) [] db = Inr (ids, db1)"
    using assms(3) by (auto simp: reverse_actions_def Let_def ok_then_Inr split: if_splits)
  define S where "S = reverse_selection c deps sel db"
  let ?as = "rev (List.map_filter (\<lambda>i. find_action i ?acts) S)"
  have inS: "\<exists>a. find_action i ?acts = Some a \<and> al_reversed_by a = None" if i: "i \<in> set S" for i
  proof (cases "i \<in> set sel")
    case True
    then show ?thesis using select_actions_in[OF sel] by blast
  next
    case False
    then obtain a where "a \<in> set ?acts" "al_id a = i" "al_reversed_by a = None"
      using i by (auto simp: S_def reverse_selection_def dependents_def Let_def split: if_splits)
    then show ?thesis using find_action_distinct[OF conversation_actions_distinct[OF ok]] by blast
  qed
  have as_ids: "map al_id ?as = rev S" using map_filter_found[of S ?acts] inS by (metis rev_map)
  have d: "distinct (map al_id ?as)" unfolding as_ids by (simp add: S_def reverse_selection_def)
  have len: "length ?as = length S" using arg_cong[OF as_ids, of length] by simp
  have rows: "find_action i (lg_rows db) = Some a" if "find_action i ?acts = Some a" for i a
    using that find_action_distinct[OF conversation_actions_distinct[OF ok]] find_action_distinct[of "lg_rows db"] ok
    by (auto simp: log_ok_def)
  have small: "\<forall>a \<in> set ?as. al_id a < lg_next db"
  proof
    fix a assume "a \<in> set ?as"
    then have "al_id a \<in> set S" using as_ids by (metis image_eqI list.set_map set_rev)
    then show "al_id a < lg_next db" using inS rows ok find_action_distinct[of "lg_rows db"] by (force simp: log_ok_def)
  qed
  note v = reverse_each_view[OF run[folded S_def] d small]
  have ids: "ids = map (\<lambda>k. lg_next db + int k) [0..<length S]" using v by (simp add: len[simplified])
  obtain news where news: "lg_rows db1 = map (marks_of ?as (lg_next db)) (lg_rows db) @ news"
      "map al_id news = map (\<lambda>k. lg_next db + int k) [0..<length S]" "map al_reverses news = map (\<lambda>a. Some (al_id a)) ?as"
      "\<forall>r \<in> set news. al_kind r = ActReverse \<and> al_conversation r = Some c"
    using v by (auto simp: len[simplified])
  have find1: "find_action i (lg_rows db1) = Some r \<longleftrightarrow> r \<in> set (lg_rows db1) \<and> al_id r = i" for i r
    using find_action_distinct ok1 by (simp add: log_ok_def)
  have each: "\<exists>r. find_action (ids ! k) (lg_rows db1) = Some r \<and> al_kind r = ActReverse \<and> al_reverses r = Some (rev S ! k)
          \<and> (\<exists>q q'. find_action (rev S ! k) (lg_rows db) = Some q \<and> al_reversed_by q = None
               \<and> find_action (rev S ! k) (lg_rows db1) = Some q' \<and> al_reversed_by q' = Some (ids ! k))" if k: "k < length S" for k
  proof -
    have idk: "ids ! k = lg_next db + int k" using k by (simp add: ids)
    have nl: "length news = length S" using arg_cong[OF news(2), of length] by simp
    have "al_id (news ! k) = ids ! k" using arg_cong[OF news(2), of "\<lambda>l. l ! k"] k nl idk by simp
    moreover have ask: "al_id (?as ! k) = rev S ! k" using arg_cong[OF as_ids, of "\<lambda>l. l ! k"] k len[simplified] by simp
    moreover have "al_reverses (news ! k) = Some (al_id (?as ! k))" using arg_cong[OF news(3), of "\<lambda>l. l ! k"] k nl len[simplified] by simp
    moreover have mem: "news ! k \<in> set news" using k nl by simp
    moreover have "news ! k \<in> set (lg_rows db1)" using mem news(1) by simp
    ultimately have r: "find_action (ids ! k) (lg_rows db1) = Some (news ! k)" "al_kind (news ! k) = ActReverse"
        "al_reverses (news ! k) = Some (rev S ! k)"
      using news(4) by (simp_all add: find1)
    have "rev S ! k \<in> set S" using k by (metis length_rev nth_mem set_rev)
    then obtain q where q: "find_action (rev S ! k) (lg_rows db) = Some q" "al_reversed_by q = None" using inS rows by blast
    then have qin: "q \<in> set (lg_rows db)" "al_id q = rev S ! k" using find_action_distinct ok by (auto simp: log_ok_def)
    have "al_reversed_by (marks_of ?as (lg_next db) q) = Some (ids ! k)"
      using marks_of_nth[OF d, of k q "lg_next db"] k len[simplified] ask qin(2) idk by simp
    moreover have "find_action (rev S ! k) (lg_rows db1) = Some (marks_of ?as (lg_next db) q)"
      unfolding find1 using qin by (simp add: news(1))
    ultimately show ?thesis using r q by blast
  qed
  have keep: "find_action (al_id r) (lg_rows db1) = Some r" if "r \<in> set (lg_rows db)" "al_id r \<notin> set S" for r
  proof -
    have "al_id r \<notin> al_id ` set ?as" using that(2) as_ids by (metis list.set_map set_rev)
    then have "marks_of ?as (lg_next db) r = r" by (rule marks_of_none)
    then show ?thesis unfolding find1 using that(1) by (simp add: news(1)) (metis image_eqI)
  qed
  show ?thesis
    using sel ids each keep by (intro exI[of _ sel] exI[of _ S]) (auto simp: S_def)
qed


section \<open>A small log\<close>

definition log_sample :: log_db where
  "log_sample = \<lparr>lg_edit = edit_sample, lg_rows = [], lg_next = 1,
     lg_convs = \<lparr>cv_rows = [\<lparr>c_id = 3, c_focus = FNode 7, c_protocol = PkOutline, c_agent_run = None, c_agent_session = None,
        c_session_name = None, c_platform = None, c_model = None, c_effort = None, c_from_state = None, c_to_state = None,
        c_skill_group = 0, c_opening = None, c_created = 0, c_updated = 0\<rparr>], cv_turns = [], cv_reports = []\<rparr>,
     lg_flags = [], lg_queue = [], lg_entries = [], lg_stays = (\<lambda>_. None)\<rparr>"

lemma log_sample_rows: "lg_rows log_sample = []" by (simp add: log_sample_def)


definition log_edited :: log_db where
  "log_edited = (case record_and_execute 9 0 3 ByAgent 1 (UpdateObligationBody 5 ''stores'') log_sample of Inr (_, db) \<Rightarrow> db | Inl _ \<Rightarrow> log_sample)"

lemma log_edited_reached: "log_write\<^sup>*\<^sup>* log_sample log_edited"
proof (cases "record_and_execute 9 0 3 ByAgent 1 (UpdateObligationBody 5 ''stores'') log_sample")
  case (Inr out)
  then have "record_and_execute 9 0 3 ByAgent 1 (UpdateObligationBody 5 ''stores'') log_sample = Inr (fst out, log_edited)"
    by (simp add: log_edited_def split_beta)
  then show ?thesis by (auto intro: log_write.intros(2))
qed (simp add: log_edited_def)

theorem reversal_flips_witness:
  "\<exists>a new db1 r'. a \<in> set (conversation_actions 3 log_edited)
     \<and> record_undo 10 0 (al_id a) (UpdateObligationBody 5 ''saves'') log_edited = Inr (new, db1)
     \<and> r' \<in> set (conversation_actions 3 db1) \<and> al_id r' = al_id a \<and> undone (conversation_actions 3 db1) r' = Some True"
proof -
  have "list_ex (\<lambda>a. al_reversed_by a = None \<and> al_id a = 1) (conversation_actions 3 log_edited)" by code_simp
  then obtain a where a: "a \<in> set (conversation_actions 3 log_edited)" "al_reversed_by a = None" "al_id a = 1"
    by (auto simp: list_ex_iff)
  have "next_reversal (conversation_actions 3 log_edited) 1 = None" by code_simp
  then have ends: "head_loop (conversation_actions 3 log_edited) 1 = Some 1" "undone (conversation_actions 3 log_edited) a = Some False"
    using a(2) by (simp_all add: head_loop.simps undone_def undone_loop.simps)
  have "\<not> isl (record_undo 10 0 1 (UpdateObligationBody 5 ''saves'') log_edited)" by code_simp
  then obtain new db1 where run: "record_undo 10 0 (al_id a) (UpdateObligationBody 5 ''saves'') log_edited = Inr (new, db1)"
    using a(3) by (cases "record_undo 10 0 1 (UpdateObligationBody 5 ''saves'') log_edited") auto
  obtain r' where "r' \<in> set (conversation_actions 3 db1)" "al_id r' = al_id a" "undone (conversation_actions 3 db1) r' = Some True"
    using reversal_flips[OF log_edited_reached log_sample_rows a(1,2) run a(1)] a(3) ends by auto
  then show ?thesis using a(1) run by blast
qed

theorem reversal_batch_exact_witness:
  "\<exists>ids db1. reverse_actions 10 0 3 [1] False False log_edited = Inr (RvApplied ids, db1) \<and> ids = [2]"
proof -
  have "(case reverse_actions 10 0 3 [1] False False log_edited of Inr (RvApplied ids, db1) \<Rightarrow> True | _ \<Rightarrow> False)" by code_simp
  then obtain ids db1 where run: "reverse_actions 10 0 3 [1] False False log_edited = Inr (RvApplied ids, db1)"
    by (auto split: sum.splits reverse_outcome.splits)
  have sel: "select_actions (conversation_actions 3 log_edited) [1] = Inr [1]"
      "reverse_selection 3 False [1] log_edited = [1]" "lg_next log_edited = 2" by code_simp+
  have "ids = map (\<lambda>k. 2 + int k) [0..<length [1::int]]"
    using reversal_batch_exact[OF log_edited_reached log_sample_rows run] unfolding sel sum.inject by (metis sel(2))
  then have "ids = [2]" by simp
  with run show ?thesis by blast
qed

end
